(* ===== verification/Leka_Prelude.thy ===== *)
theory Leka_Prelude
  imports Main "HOL-Library.Word" "HOL-Library.Multiset"
begin

unbundle bit_operations_syntax

text \<open>
  Shared vocabulary of the development: the machine integers of the engine, the outcome of
  a C++ call that may throw, \<open>size_t\<close> counters with their wrap-around written out, and the
  generic facts on words, masks, lists and doubly linked segments that the component
  theories use.
\<close>

section \<open>Machine integers\<close>

type_synonym u8 = "8 word"
type_synonym u16 = "16 word"
type_synonym u32 = "32 word"
type_synonym u64 = "64 word"

text \<open>
  \<open>size_t\<close> indices and counters are natural numbers below \<open>2 ^ 64\<close>; \<open>++\<close> and \<open>--\<close>
  on them wrap as the unsigned type does. \<open>npos\<close> is \<open>static_cast<std::size_t>(-1)\<close>.
\<close>

definition SIZE_RANGE :: nat where
  "SIZE_RANGE = 2 ^ 64"

definition npos :: nat where
  "npos = 2 ^ 64 - 1"

definition sz_inc :: "nat \<Rightarrow> nat" where
  "sz_inc n = (n + 1) mod SIZE_RANGE"

definition sz_dec :: "nat \<Rightarrow> nat" where
  "sz_dec n = (n + (SIZE_RANGE - 1)) mod SIZE_RANGE"

section \<open>Outcomes of calls that may throw\<close>

text \<open>
  One constructor per exception class the code throws, carrying the message, and two for
  behaviour C++ gives no meaning to: \<open>UndefinedBehaviour\<close> is a read or write of an object
  that is not alive or of an array element out of range, \<open>Diverges\<close> a loop that runs
  forever. The theorems of the development show that neither is reached.
\<close>

datatype error =
    InvalidArgument string
  | LogicError string
  | OverflowError string
  | OutOfRange string
  | RuntimeError string
  | SystemError string
  | UndefinedBehaviour string
  | Diverges string

text \<open>An exception leaves the state as the code had changed it so far.\<close>

datatype ('a, 's) outcome = Ret (the_value: 'a) (state_of: 's) | Throw (the_error: error) (state_of: 's)

fun bind_outcome :: "('a, 's) outcome \<Rightarrow> ('a \<Rightarrow> 's \<Rightarrow> ('b, 's) outcome) \<Rightarrow> ('b, 's) outcome" where
  "bind_outcome (Ret a s) f = f a s"
| "bind_outcome (Throw e s) f = Throw e s"

text \<open>A loop that performs one call per element and stops at the first exception.\<close>

fun run_all :: "('p \<Rightarrow> 's \<Rightarrow> (unit, 's) outcome) \<Rightarrow> 'p list \<Rightarrow> 's \<Rightarrow> (unit, 's) outcome" where
  "run_all f [] s = Ret () s"
| "run_all f (p # ps) s = bind_outcome (f p s) (\<lambda>_. run_all f ps)"

text \<open>A sequence of calls that goes on after exceptions, with what each call returned or threw.\<close>

fun run_calls :: "('c \<Rightarrow> 's \<Rightarrow> ('r, 's) outcome) \<Rightarrow> 'c list \<Rightarrow> 's \<Rightarrow> ('r, 's) outcome list \<times> 's" where
  "run_calls step [] s = ([], s)"
| "run_calls step (c # cs) s =
     (let r = step c s in case run_calls step cs (state_of r) of (rs, t) \<Rightarrow> (r # rs, t))"

definition is_ret :: "('a, 's) outcome \<Rightarrow> bool" where
  "is_ret r = (case r of Ret _ _ \<Rightarrow> True | Throw _ _ \<Rightarrow> False)"

text \<open>A defined outcome: a value or one of the exceptions the code itself throws.\<close>

fun defined_error :: "error \<Rightarrow> bool" where
  "defined_error (UndefinedBehaviour _) = False"
| "defined_error (Diverges _) = False"
| "defined_error _ = True"

fun defined :: "('a, 's) outcome \<Rightarrow> bool" where
  "defined (Ret _ _) = True"
| "defined (Throw e _) = defined_error e"

section \<open>Doubly linked segments\<close>

text \<open>
  \<open>dlseg nxt prv before cur ps last after\<close>: starting at \<open>cur\<close> with predecessor \<open>before\<close>,
  following \<open>nxt\<close> visits the nodes \<open>ps\<close> and ends at \<open>after\<close>; \<open>prv\<close> is the reverse
  link of every node, and \<open>last\<close> is the last node visited (\<open>before\<close> when there is none).
\<close>

fun dlseg :: "('p \<Rightarrow> 'p option) \<Rightarrow> ('p \<Rightarrow> 'p option) \<Rightarrow> 'p option \<Rightarrow> 'p option \<Rightarrow> 'p list
    \<Rightarrow> 'p option \<Rightarrow> 'p option \<Rightarrow> bool" where
  "dlseg nxt prv before cur [] lst after = (cur = after \<and> lst = before)"
| "dlseg nxt prv before cur (p # ps) lst after =
     (cur = Some p \<and> prv p = before \<and> dlseg nxt prv (Some p) (nxt p) ps lst after)"

text \<open>The nodes reached in at most \<open>n\<close> steps: the executable reading of a list.\<close>

fun walk :: "('p \<Rightarrow> 'p option) \<Rightarrow> nat \<Rightarrow> 'p option \<Rightarrow> 'p list" where
  "walk nxt 0 cur = []"
| "walk nxt (Suc n) None = []"
| "walk nxt (Suc n) (Some p) = p # walk nxt n (nxt p)"

section \<open>Collections of facts\<close>

named_theorems word_nat "moving 64-bit arithmetic to the natural numbers"
named_theorems size_simps "size_t counters away from their wrap-around"

section \<open>Lemmas\<close>

subsection \<open>Outcomes\<close>

lemma run_all_append: "run_all f (xs @ ys) s = bind_outcome (run_all f xs s) (\<lambda>_. run_all f ys)"
proof (induction xs arbitrary: s)
  case (Cons x xs)
  then show ?case by (cases "f x s") simp_all
qed simp

lemma bind_outcome_Ret_iff:
  "bind_outcome m f = Ret b t \<longleftrightarrow> (\<exists>a s. m = Ret a s \<and> f a s = Ret b t)"
  by (cases m) auto

lemma is_ret_simps [simp]: "is_ret (Ret a s)" "\<not> is_ret (Throw e s)"
  by (simp_all add: is_ret_def)

lemma is_ret_iff: "is_ret r \<longleftrightarrow> (\<exists>a s. r = Ret a s)"
  by (cases r) auto

subsection \<open>Counters\<close>

lemma sz_inc_small [size_simps]: "n + 1 < SIZE_RANGE \<Longrightarrow> sz_inc n = n + 1"
  by (simp add: sz_inc_def)

lemma sz_dec_pos [size_simps]:
  assumes "0 < n" and "n < SIZE_RANGE"
  shows "sz_dec n = n - 1"
proof -
  have "n + (SIZE_RANGE - 1) = (n - 1) + SIZE_RANGE"
    using assms by (simp add: SIZE_RANGE_def)
  then show ?thesis
    using assms by (simp only: sz_dec_def mod_add_self2) simp
qed

lemma npos_less [simp]: "npos < SIZE_RANGE" "0 < SIZE_RANGE"
  by (simp_all add: npos_def SIZE_RANGE_def)

subsection \<open>Words\<close>

lemma unat_less_range [simp]: "unat (x :: u64) < SIZE_RANGE"
  by (unat_arith; simp add: SIZE_RANGE_def)

lemma u64_less_iff [word_nat]: "(x :: u64) < y \<longleftrightarrow> unat x < unat y"
  by (simp add: word_less_nat_alt)

lemma u64_le_iff [word_nat]: "(x :: u64) \<le> y \<longleftrightarrow> unat x \<le> unat y"
  by (simp add: word_le_nat_alt)

lemma u64_eq_0_iff [word_nat]: "(x :: u64) = 0 \<longleftrightarrow> unat x = 0"
  by (simp add: unat_eq_0)

lemma unat_sub_u64 [word_nat]: "(y :: u64) \<le> x \<Longrightarrow> unat (x - y) = unat x - unat y"
  by (rule unat_sub)

lemma unat_add_u64 [word_nat]:
  "unat (x :: u64) + unat y < SIZE_RANGE \<Longrightarrow> unat (x + y) = unat x + unat y"
  by (simp add: SIZE_RANGE_def unat_word_ariths)

lemma unat_max_u64 [simp]: "unat (- 1 :: u64) = SIZE_RANGE - 1"
  by (simp add: SIZE_RANGE_def unsigned_minus_1_eq_mask mask_eq_exp_minus_1)

text \<open>Masking with a power of two less one is the remainder.\<close>

lemma and_mask_nat: "(n :: nat) AND (2 ^ k - 1) = n mod 2 ^ k"
proof -
  have "(2 :: nat) ^ k - 1 = mask k"
    by (simp add: mask_eq_exp_minus_1)
  then show ?thesis
    by (simp add: take_bit_eq_mask [symmetric] take_bit_eq_mod)
qed

subsection \<open>Segments\<close>

lemma dlseg_append:
  "dlseg nxt prv b c (xs @ ys) l a \<longleftrightarrow>
     (\<exists>m k. dlseg nxt prv b c xs m k \<and> dlseg nxt prv m k ys l a)"
  by (induction xs arbitrary: b c) auto

lemma dlseg_cong:
  assumes "\<And>p. p \<in> set ps \<Longrightarrow> nxt p = nxt' p" and "\<And>p. p \<in> set ps \<Longrightarrow> prv p = prv' p"
  shows "dlseg nxt prv b c ps l a = dlseg nxt' prv' b c ps l a"
  using assms by (induction ps arbitrary: b c) auto

lemma dlseg_last: "dlseg nxt prv b c ps l a \<Longrightarrow> l = (if ps = [] then b else Some (last ps))"
  by (induction ps arbitrary: b c) auto

lemma dlseg_head: "dlseg nxt prv b c ps l a \<Longrightarrow> ps \<noteq> [] \<Longrightarrow> c = Some (hd ps)"
  by (cases ps) auto

lemma dlseg_snoc:
  assumes "dlseg nxt prv None c ps l None" and "distinct ps" and "p \<notin> set ps"
    and "nxt' p = None" and "prv' p = l"
    and "\<And>q. q \<in> set ps \<Longrightarrow> prv' q = prv q"
    and "\<And>q. q \<in> set ps \<Longrightarrow> nxt' q = (if l = Some q then Some p else nxt q)"
  shows "dlseg nxt' prv' None (if l = None then Some p else c) (ps @ [p]) (Some p) None"
proof (cases ps rule: rev_cases)
  case Nil
  with assms show ?thesis by simp
next
  case (snoc xs t)
  with assms(1) have l: "l = Some t" by (auto dest: dlseg_last)
  from assms(1) snoc obtain m where xs: "dlseg nxt prv None c xs m (Some t)" "prv t = m"
    by (auto simp: dlseg_append)
  have "dlseg nxt' prv' None c xs m (Some t) = dlseg nxt prv None c xs m (Some t)"
    by (rule dlseg_cong) (use assms(2,6,7) snoc l in auto)
  with xs snoc l assms(4-7) show ?thesis
    by (auto simp: dlseg_append)
qed

lemma dlseg_neighbours:
  assumes "dlseg nxt prv None c (xs @ p # ys) l None"
  shows "prv p = (if xs = [] then None else Some (last xs))"
    and "nxt p = (if ys = [] then None else Some (hd ys))"
proof -
  from assms have xs: "dlseg nxt prv None c xs (prv p) (Some p)"
    and ys: "dlseg nxt prv (Some p) (nxt p) ys l None"
    by (auto simp: dlseg_append)
  show "prv p = (if xs = [] then None else Some (last xs))"
    using dlseg_last [OF xs] by simp
  show "nxt p = (if ys = [] then None else Some (hd ys))"
    using dlseg_head [OF ys] ys by (cases ys) auto
qed
lemma dlseg_remove:
  assumes "dlseg nxt prv None c (xs @ p # ys) l None" and "distinct (xs @ p # ys)"
    and "\<And>q. q \<in> set xs \<union> set ys \<Longrightarrow> nxt' q = (if prv p = Some q then nxt p else nxt q)"
    and "\<And>q. q \<in> set xs \<union> set ys \<Longrightarrow> prv' q = (if nxt p = Some q then prv p else prv q)"
  shows "dlseg nxt' prv' None (if prv p = None then nxt p else c) (xs @ ys)
           (if nxt p = None then prv p else l) None"
proof -
  from assms(1) have xs: "dlseg nxt prv None c xs (prv p) (Some p)"
    and ys: "dlseg nxt prv (Some p) (nxt p) ys l None"
    by (auto simp: dlseg_append)
  note prev = dlseg_neighbours(1) [OF assms(1)] and nexth = dlseg_neighbours(2) [OF assms(1)]
  have pm: "prv p = Some q \<Longrightarrow> q \<in> set xs \<and> q \<notin> set ys" for q
    using prev assms(2) last_in_set [of xs]
    by (metis IntI distinct_append empty_iff list.set_intros(2) option.distinct(1) option.inject)
  have nm: "nxt p = Some q \<Longrightarrow> q \<in> set ys \<and> q \<notin> set xs" for q
    using nexth assms(2) hd_in_set [of ys]
    by (metis IntI distinct_append empty_iff list.set_intros(2) option.distinct(1) option.inject)
  have left: "dlseg nxt' prv' None (if prv p = None then nxt p else c) xs (prv p) (nxt p)"
  proof (cases xs rule: rev_cases)
    case Nil
    with prev show ?thesis by simp
  next
    case (snoc zs t)
    with xs obtain m where zs: "dlseg nxt prv None c zs m (Some t)" "prv t = m"
      by (auto simp: dlseg_append)
    have "dlseg nxt' prv' None c zs m (Some t) = dlseg nxt prv None c zs m (Some t)"
      by (rule dlseg_cong) (use assms(2-4) snoc prev nm in \<open>auto split: if_splits\<close>)
    moreover have "prv' t = prv t" "nxt' t = nxt p"
      using assms(2-4) snoc prev nm by (auto split: if_splits)
    ultimately show ?thesis using zs snoc prev by (auto simp: dlseg_append)
  qed
  have right: "dlseg nxt' prv' (prv p) (nxt p) ys (if nxt p = None then prv p else l) None"
  proof (cases ys)
    case Nil
    with nexth show ?thesis by simp
  next
    case (Cons y zs)
    with ys have zs: "dlseg nxt prv (Some y) (nxt y) zs l None" by simp
    have "dlseg nxt' prv' (Some y) (nxt y) zs l None = dlseg nxt prv (Some y) (nxt y) zs l None"
      by (rule dlseg_cong) (use assms(2-4) Cons pm nexth in \<open>auto split: if_splits\<close>)
    moreover have "nxt' y = nxt y" "prv' y = prv p"
      using assms(2-4) Cons pm nexth by (auto split: if_splits)
    ultimately show ?thesis using zs Cons nexth by simp
  qed
  from left right show ?thesis unfolding dlseg_append by blast
qed

lemma dlseg_push:
  assumes "dlseg nxt prv None c ps l None" and "p \<notin> set ps" and "distinct ps"
    and "nxt' p = c" and "prv' p = None"
    and "\<And>q. q \<in> set ps \<Longrightarrow> nxt' q = nxt q"
    and "\<And>q. q \<in> set ps \<Longrightarrow> prv' q = (if c = Some q then Some p else prv q)"
  shows "dlseg nxt' prv' None (Some p) (p # ps) (if c = None then Some p else l) None"
proof (cases ps)
  case Nil
  with assms show ?thesis by simp
next
  case (Cons y zs)
  with assms(1) have zs: "c = Some y" "dlseg nxt prv (Some y) (nxt y) zs l None" by auto
  have "dlseg nxt' prv' (Some y) (nxt y) zs l None = dlseg nxt prv (Some y) (nxt y) zs l None"
    by (rule dlseg_cong) (use assms(3,6,7) Cons zs in auto)
  with Cons zs assms(4-7) show ?thesis by simp
qed

lemma walk_dlseg:
  "dlseg nxt prv b c ps l None \<Longrightarrow> length ps = n \<Longrightarrow> walk nxt n c = ps"
proof (induction ps arbitrary: b c n)
  case Nil
  then show ?case by simp
next
  case (Cons p ps)
  then obtain m where "n = Suc m" "length ps = m" by (cases n) auto
  with Cons show ?case by auto
qed

lemma walk_cong:
  assumes "\<And>p. p \<in> set (walk nxt n c) \<Longrightarrow> nxt p = nxt' p"
  shows "walk nxt' n c = walk nxt n c"
  using assms by (induction nxt n c rule: walk.induct) auto

subsection \<open>Lists\<close>

lemma filter_neq_mid:
  "distinct (xs @ p # ys) \<Longrightarrow> filter (\<lambda>q. q \<noteq> p) (xs @ p # ys) = xs @ ys"
  by (simp, metis (mono_tags, lifting) filter_True)

lemma sum_list_unat_member_le:
  "x \<in> set xs \<Longrightarrow> f x \<le> sum_list (map f xs)" for f :: "'a \<Rightarrow> nat"
  by (rule member_le_sum_list) auto

lemma concat_update_split:
  assumes "i < length xss"
  shows "concat (xss[i := ys]) = concat (take i xss) @ ys @ concat (drop (Suc i) xss)"
  using assms by (simp add: upd_conv_take_nth_drop)

lemma concat_split:
  assumes "i < length xss"
  shows "concat xss = concat (take i xss) @ xss ! i @ concat (drop (Suc i) xss)"
  using concat_update_split [OF assms, of "xss ! i"] by simp

end
