(* ===== verification/Text_Format.thy ===== *)
theory Text_Format
  imports Leka_Prelude
begin

text \<open>
  The text handling the tools share: decimal numbers (\<open>std::to_chars\<close> and the readers'
  \<open>parseU64\<close>), the fields of a CSV row (\<open>splitRow\<close>) and the lines of a file
  (\<open>forEachLine\<close>), with their reference definitions; and the lines of a text (\<open>lines_of\<close>),
  through which the properties read what the tools write.
\<close>

section \<open>Numbers\<close>

text \<open>\<open>std::to_chars\<close> for an unsigned integer: its decimal digits, without leading zeros.\<close>

definition digit_char :: "nat \<Rightarrow> char" where
  "digit_char d = char_of (48 + d)"

fun to_chars :: "nat \<Rightarrow> string" where
  "to_chars n = (if n < 10 then [digit_char n] else to_chars (n div 10) @ [digit_char (n mod 10)])"

declare to_chars.simps [simp del]

text \<open>\<open>char\<close> is signed on the platforms the tools are built for.\<close>

definition char_value :: "char \<Rightarrow> int" where
  "char_value c = (if of_char c < (128 :: int) then of_char c else of_char c - 256)"

definition parseU64 :: "string \<Rightarrow> u64" where
  "parseU64 s = foldl (\<lambda>v c. v * 10 + word_of_int (char_value c - char_value (CHR ''0''))) 0 s"

lemma of_digit_char: "d < 10 \<Longrightarrow> of_char (digit_char d) = (48 + d :: nat)"
  by (simp add: digit_char_def)

lemma digit_char_value: "d < 10 \<Longrightarrow> char_value (digit_char d) - char_value (CHR ''0'') = int d"
proof -
  assume d: "d < 10"
  have "of_char (digit_char d) = int (of_char (digit_char d))" by (simp add: of_nat_of_char)
  then show ?thesis using d by (simp add: char_value_def of_digit_char)
qed

lemma digit_char_neq: "d < 10 \<Longrightarrow> digit_char d \<noteq> CHR '',''" "d < 10 \<Longrightarrow> digit_char d \<noteq> CHR ''.''" "d < 10 \<Longrightarrow> digit_char d \<noteq> CHR 0x0A"
  using of_digit_char [of d] by (force dest: arg_cong [of _ _ "of_char :: char \<Rightarrow> nat"])+

lemma parseU64_snoc: "parseU64 (s @ [c]) = parseU64 s * 10 + word_of_int (char_value c - char_value (CHR ''0''))"
  by (simp add: parseU64_def)

lemma parse_to_chars: "parseU64 (to_chars n) = word_of_nat n"
proof (induction n rule: to_chars.induct)
  case (1 n)
  show ?case
  proof (cases "n < 10")
    case True
    then have "to_chars n = [digit_char n]" by (simp add: to_chars.simps)
    then have "parseU64 (to_chars n) = word_of_int (char_value (digit_char n) - char_value (CHR ''0''))" by (simp add: parseU64_def)
    then show ?thesis unfolding digit_char_value [OF True] by simp
  next
    case False
    then have "to_chars n = to_chars (n div 10) @ [digit_char (n mod 10)]" by (subst to_chars.simps) simp
    then have "parseU64 (to_chars n) = parseU64 (to_chars (n div 10)) * 10 + word_of_int (int (n mod 10))"
      using digit_char_value [of "n mod 10"] by (simp add: parseU64_snoc)
    also have "\<dots> = word_of_nat (n div 10) * 10 + word_of_nat (n mod 10)" using 1 False by simp
    also have "\<dots> = word_of_nat (n div 10 * 10 + n mod 10)" by (simp only: of_nat_add of_nat_mult of_nat_numeral)
    finally show ?thesis by simp
  qed
qed

lemma to_chars_chars: "c \<in> set (to_chars n) \<Longrightarrow> \<exists>d < 10. c = digit_char d"
proof (induction n rule: to_chars.induct)
  case (1 n)
  show ?case
  proof (cases "n < 10")
    case True
    then show ?thesis using 1(2) by (auto simp: to_chars.simps)
  next
    case False
    then have "to_chars n = to_chars (n div 10) @ [digit_char (n mod 10)]" by (subst to_chars.simps) simp
    with 1(2) consider "c \<in> set (to_chars (n div 10))" | "c = digit_char (n mod 10)" by auto
    then show ?thesis
    proof cases
      case 1
      then show ?thesis using \<open>\<lbrakk>\<not> n < 10; c \<in> set (to_chars (n div 10))\<rbrakk> \<Longrightarrow> \<exists>d < 10. c = digit_char d\<close> False by blast
    next
      case 2
      moreover have "n mod 10 < 10" by simp
      ultimately show ?thesis by blast
    qed
  qed
qed

lemma to_chars_no_sep: "CHR '','' \<notin> set (to_chars n)" "CHR ''.'' \<notin> set (to_chars n)" "CHR 0x0A \<notin> set (to_chars n)"
  using to_chars_chars digit_char_neq by metis+

text \<open>Decimal digits and the number a run of them stands for.\<close>

definition is_digit :: "char \<Rightarrow> bool" where
  "is_digit c \<longleftrightarrow> 48 \<le> (of_char c :: nat) \<and> (of_char c :: nat) \<le> 57"

definition dec_value :: "string \<Rightarrow> nat" where
  "dec_value s = foldl (\<lambda>v c. v * 10 + (of_char c - 48)) 0 s"

lemma digit_char_digit: "d < 10 \<Longrightarrow> is_digit (digit_char d)"
  by (simp add: is_digit_def of_digit_char)

lemma to_chars_digit: "c \<in> set (to_chars n) \<Longrightarrow> is_digit c"
  using to_chars_chars digit_char_digit by blast

lemma to_chars_ne: "to_chars n \<noteq> []"
  by (subst to_chars.simps) simp

lemma dec_value_to_chars: "dec_value (to_chars n) = n"
proof (induction n rule: to_chars.induct)
  case (1 n)
  show ?case
  proof (cases "n < 10")
    case True
    then show ?thesis by (subst to_chars.simps) (simp add: dec_value_def of_digit_char)
  next
    case False
    moreover have "of_char (digit_char (n mod 10)) - 48 = n mod 10" by (simp add: of_digit_char)
    ultimately show ?thesis using 1 by (subst to_chars.simps) (simp add: dec_value_def)
  qed
qed

section \<open>Fields of a row\<close>

text \<open>
  \<open>splitRow\<close>: the loop over positions that cuts a line at its commas into a fixed number of
  fields; missing fields are empty, what follows the last field is dropped.
\<close>

function split_loop :: "nat \<Rightarrow> string \<Rightarrow> nat \<Rightarrow> nat \<Rightarrow> string list \<Rightarrow> string list" where
  "split_loop cols line i start fields =
     (if i \<le> length line \<and> length fields < cols
      then if i = length line \<or> line ! i = CHR '',''
        then split_loop cols line (i + 1) (i + 1) (fields @ [take (i - start) (drop start line)])
        else split_loop cols line (i + 1) start fields
      else fields)"
  by pat_completeness auto
termination by (relation "measure (\<lambda>(cols, line, i, start, fields). Suc (length line) - i)") auto

declare split_loop.simps [simp del]

definition splitRow :: "nat \<Rightarrow> string \<Rightarrow> string list" where
  "splitRow cols line = (let fields = split_loop cols line 0 0 [] in fields @ replicate (cols - length fields) [])"

text \<open>The reference: the pieces between separators.\<close>

fun pieces :: "'a \<Rightarrow> 'a list \<Rightarrow> 'a list list" where
  "pieces c [] = [[]]"
| "pieces c (x # xs) = (if x = c then [] # pieces c xs else (x # hd (pieces c xs)) # tl (pieces c xs))"

lemma pieces_ne [simp]: "pieces c xs \<noteq> []"
  by (cases xs) auto

lemma pieces_append: "c \<notin> set xs \<Longrightarrow> pieces c (xs @ c # ys) = xs # pieces c ys"
  by (induction xs) auto

lemma pieces_none: "c \<notin> set xs \<Longrightarrow> pieces c xs = [xs]"
  by (induction xs) auto

lemma pieces_prefix: "c \<notin> set xs \<Longrightarrow> pieces c (xs @ ys) = (xs @ hd (pieces c ys)) # tl (pieces c ys)"
  by (induction xs) auto

lemma split_loop_pieces:
  assumes "start \<le> i" and "i \<le> length line" and "CHR '','' \<notin> set (take (i - start) (drop start line))"
  shows "split_loop cols line i start fields = take (max cols (length fields)) (fields @ pieces (CHR '','') (drop start line))"
  using assms
proof (induction "length line - i" arbitrary: i start fields rule: less_induct)
  case less
  let ?cur = "take (i - start) (drop start line)"
  have cut: "drop start line = ?cur @ drop i line" using less.prems(1) by (metis append_take_drop_id drop_drop le_add_diff_inverse2)
  have pc: "pieces (CHR '','') (drop start line) = (?cur @ hd (pieces (CHR '','') (drop i line))) # tl (pieces (CHR '','') (drop i line))"
    using pieces_prefix [OF less.prems(3), of "drop i line"] cut by simp
  show ?case
  proof (cases "length fields < cols")
    case False
    then show ?thesis by (simp add: split_loop.simps [of cols line i])
  next
    case True
    then have "max cols (length fields) = cols" "max cols (length (fields @ [?cur])) = cols" by simp_all
    consider (last) "i = length line" | (comma) "i < length line" "line ! i = CHR '',''" | (char) "i < length line" "line ! i \<noteq> CHR '',''"
      using less.prems(2) by linarith
    then show ?thesis
    proof cases
      case last
      then have "split_loop cols line i start fields = split_loop cols line (Suc i) (Suc i) (fields @ [?cur])"
        by (subst split_loop.simps) (use last True in simp)
      also have "\<dots> = fields @ [?cur]" by (subst split_loop.simps) (use last in simp)
      finally show ?thesis using pc last True by simp
    next
      case comma
      have d: "drop i line = CHR '','' # drop (Suc i) line" using comma by (metis Cons_nth_drop_Suc)
      have "split_loop cols line i start fields = split_loop cols line (Suc i) (Suc i) (fields @ [?cur])"
        using True comma by (simp add: split_loop.simps [of cols line i])
      also have "\<dots> = take (max cols (length (fields @ [?cur]))) ((fields @ [?cur]) @ pieces (CHR '','') (drop (Suc i) line))"
        by (rule less.hyps) (use comma in auto)
      also have "\<dots> = take (max cols (length fields)) (fields @ pieces (CHR '','') (drop start line))"
        using pc d \<open>max cols (length (fields @ [?cur])) = cols\<close> \<open>max cols (length fields) = cols\<close> by simp
      finally show ?thesis .
    next
      case char
      have d: "drop i line = line ! i # drop (Suc i) line" using char by (metis Cons_nth_drop_Suc)
      have cur: "take (Suc i - start) (drop start line) = ?cur @ [line ! i]"
        using less.prems(1) char by (simp add: Suc_diff_le take_Suc_conv_app_nth)
      have "split_loop cols line i start fields = split_loop cols line (Suc i) start fields"
        using True char by (simp add: split_loop.simps [of cols line i])
      also have "\<dots> = take (max cols (length fields)) (fields @ pieces (CHR '','') (drop start line))"
        by (rule less.hyps) (use less.prems char cur in auto)
      finally show ?thesis .
    qed
  qed
qed

lemma splitRow_pieces: "splitRow cols line = take cols (pieces (CHR '','') line @ replicate cols [])"
  using split_loop_pieces [of 0 0 line cols "[]"]
  by (simp add: splitRow_def Let_def take_replicate min_def)

lemma splitRow_length: "length (splitRow cols line) = cols"
  by (simp add: splitRow_pieces)

text \<open>A row printed field by field, each field followed by a comma but the last.\<close>

definition join_fields :: "string list \<Rightarrow> string" where
  "join_fields fs = concat (map (\<lambda>f. f @ '','') (butlast fs)) @ last fs"

lemma pieces_join:
  assumes "fs \<noteq> []" and "\<forall>f \<in> set fs. CHR '','' \<notin> set f"
  shows "pieces (CHR '','') (join_fields fs) = fs"
  using assms
proof (induction fs rule: list_nonempty_induct)
  case (single f)
  then show ?case by (simp add: join_fields_def pieces_none)
next
  case (cons f fs)
  then have "join_fields (f # fs) = f @ CHR '','' # join_fields fs" by (simp add: join_fields_def)
  with cons show ?case by (simp add: pieces_append)
qed

lemma splitRow_join:
  assumes "length fs = cols" and "fs \<noteq> []" and "\<forall>f \<in> set fs. CHR '','' \<notin> set f"
  shows "splitRow cols (join_fields fs) = fs"
  using pieces_join [OF assms(2,3)] assms(1) by (simp add: splitRow_pieces)

section \<open>Lines\<close>

text \<open>\<open>find\<close> from a position on; \<open>None\<close> is \<open>npos\<close>.\<close>

fun find_from :: "char \<Rightarrow> string \<Rightarrow> nat \<Rightarrow> nat option" where
  "find_from c [] k = None"
| "find_from c (x # xs) k = (if x = c then Some k else find_from c xs (k + 1))"

definition find_char :: "char \<Rightarrow> string \<Rightarrow> nat \<Rightarrow> nat option" where
  "find_char c s start = find_from c (drop start s) start"

lemma find_from_Some: "find_from c s k = Some e \<Longrightarrow> k \<le> e \<and> e < k + length s \<and> s ! (e - k) = c \<and> c \<notin> set (take (e - k) s)"
proof (induction s arbitrary: k)
  case (Cons x xs)
  show ?case
  proof (cases "x = c")
    case True
    then show ?thesis using Cons.prems by auto
  next
    case False
    with Cons.prems Cons.IH [of "Suc k"] have "Suc k \<le> e \<and> e < Suc k + length xs \<and> xs ! (e - Suc k) = c \<and> c \<notin> set (take (e - Suc k) xs)" by simp
    moreover from this have "e - k = Suc (e - Suc k)" by linarith
    ultimately show ?thesis using False by simp
  qed
qed simp

lemma find_from_None: "find_from c s k = None \<longleftrightarrow> c \<notin> set s"
  by (induction s arbitrary: k) auto

text \<open>The lines handed to the callback of \<open>forEachLine\<close>, in order.\<close>

function lines_from :: "string \<Rightarrow> nat \<Rightarrow> string list" where
  "lines_from input start =
     (if start < length input
      then let stop = (case find_char (CHR 0x0A) input start of Some e \<Rightarrow> e | None \<Rightarrow> length input) in
        (if stop > start then [take (stop - start) (drop start input)] else []) @ lines_from input (stop + 1)
      else [])"
  by pat_completeness auto
termination
  by (relation "measure (\<lambda>(input, start). length input - start)")
    (auto simp: find_char_def split: option.splits dest!: find_from_Some)

declare lines_from.simps [simp del]

definition forEachLine :: "string \<Rightarrow> string list" where
  "forEachLine input = lines_from input 0"

lemma lines_from_pieces: "lines_from input start = filter (\<lambda>l. l \<noteq> []) (pieces (CHR 0x0A) (drop start input))"
proof (induction input start rule: lines_from.induct)
  case (1 input start)
  show ?case
  proof (cases "start < length input")
    case False
    then show ?thesis by (simp add: lines_from.simps)
  next
    case True
    show ?thesis
    proof (cases "find_char (CHR 0x0A) input start")
      case None
      then have "CHR 0x0A \<notin> set (drop start input)" by (simp add: find_char_def find_from_None)
      moreover have "lines_from input (Suc (length input)) = []" by (simp add: lines_from.simps)
      ultimately show ?thesis using True None by (simp add: lines_from.simps [of input start] Let_def pieces_none)
    next
      case (Some e)
      let ?cur = "take (e - start) (drop start input)"
      have e: "start \<le> e" "e < length input" "input ! e = CHR 0x0A" "CHR 0x0A \<notin> set ?cur"
        using find_from_Some [OF Some [unfolded find_char_def]] True by auto
      have "drop e input = CHR 0x0A # drop (Suc e) input" using e(2,3) by (metis Cons_nth_drop_Suc)
      moreover have "drop start input = ?cur @ drop e input" using e(1) by (metis append_take_drop_id drop_drop le_add_diff_inverse2)
      ultimately have p: "pieces (CHR 0x0A) (drop start input) = ?cur # pieces (CHR 0x0A) (drop (Suc e) input)"
        using pieces_append [OF e(4)] by metis
      have ne: "start < e \<longleftrightarrow> ?cur \<noteq> []" using e(1,2) by auto
      have "lines_from input start = (if start < e then [?cur] else []) @ lines_from input (Suc e)"
        using True Some by (simp add: lines_from.simps [of input start] Let_def)
      moreover have "lines_from input (Suc e) = filter (\<lambda>l. l \<noteq> []) (pieces (CHR 0x0A) (drop (Suc e) input))"
        using 1 [OF True refl] Some by simp
      ultimately show ?thesis unfolding p using ne by simp
    qed
  qed
qed

lemma forEachLine_pieces: "forEachLine input = filter (\<lambda>l. l \<noteq> []) (pieces (CHR 0x0A) input)"
  by (simp add: forEachLine_def lines_from_pieces)

text \<open>The lines of a text as any reader of lines sees them, empty ones included.\<close>

abbreviation newline :: char where
  "newline \<equiv> CHR 0x0A"

definition lines_of :: "string \<Rightarrow> string list" where
  "lines_of s = butlast (pieces newline s)"

lemma pieces_split: "pieces c (xs @ c # ys) = pieces c xs @ pieces c ys"
  by (induction xs) auto

lemma length_pieces: "length (pieces c xs) = Suc (count_list xs c)"
  by (induction xs) auto

lemma lines_of_split: "lines_of (a @ newline # b) = pieces newline a @ lines_of b"
  by (simp add: lines_of_def pieces_split butlast_append)

lemma lines_of_line: "newline \<notin> set a \<Longrightarrow> lines_of (a @ newline # b) = a # lines_of b"
  by (simp add: lines_of_split pieces_none)

lemma lines_of_Nil [simp]: "lines_of [] = []"
  by (simp add: lines_of_def)

lemma lines_of_lines: "\<forall>l \<in> set ls. newline \<notin> set l \<Longrightarrow> lines_of (concat (map (\<lambda>l. l @ [newline]) ls)) = ls"
  by (induction ls) (simp_all add: lines_of_line)

end
