(* ===== verification/Itch_Options.thy ===== *)
theory Itch_Options
  imports Text_Format
begin

text \<open>
  The command line of \<open>itch_to_csv\<close> and the session date it derives from the input file's
  name (\<open>tools/itch/itch_to_csv.cpp\<close>). The calendar function \<open>mktime\<close> is a parameter.
\<close>

section \<open>Command line and session date\<close>

text \<open>The prefix rules of \<open>strtol\<close> and its relatives: blanks, a sign, digits.\<close>

definition is_blank :: "char \<Rightarrow> bool" where
  "is_blank c \<longleftrightarrow> (of_char c :: nat) \<in> {9, 10, 11, 12, 13, 32}"

definition sign_and_digits :: "string \<Rightarrow> bool \<times> string" where
  "sign_and_digits s =
     (case dropWhile is_blank s of
        [] \<Rightarrow> (False, [])
      | c # r \<Rightarrow> if c = CHR ''-'' then (True, takeWhile is_digit r)
               else if c = CHR ''+'' then (False, takeWhile is_digit r)
               else (False, takeWhile is_digit (c # r)))"

definition stoi :: "string \<Rightarrow> error + int" where
  "stoi s =
     (case sign_and_digits s of (neg, ds) \<Rightarrow>
        if ds = [] then Inl (InvalidArgument ''stoi'')
        else if neg then Inr (- int (dec_value ds)) else Inr (int (dec_value ds)))"

definition strtoull :: "string \<Rightarrow> u64" where
  "strtoull s =
     (case sign_and_digits s of (neg, ds) \<Rightarrow>
        let v = (if dec_value ds < 2 ^ 64 then word_of_nat (dec_value ds) else - 1) in if neg then - v else v)"

record itch_cli =
  cli_input :: string
  cli_output :: string
  cli_symbols :: "string list"
  cli_date :: string
  cli_limit :: u64
  cli_system :: bool

definition cli_default :: itch_cli where
  "cli_default = \<lparr>cli_input = [], cli_output = ''-'', cli_symbols = [], cli_date = [], cli_limit = 0, cli_system = True\<rparr>"

text \<open>The argument after an option, or the empty string when there is none.\<close>

definition next_arg :: "string list \<Rightarrow> string" where
  "next_arg args = (case args of [] \<Rightarrow> [] | a # _ \<Rightarrow> a)"

function parse_args :: "string list \<Rightarrow> itch_cli \<Rightarrow> itch_cli option" where
  "parse_args [] cli = Some cli"
| "parse_args (a # rest) cli =
     (if a = ''--input'' then parse_args (tl rest) (cli\<lparr>cli_input := next_arg rest\<rparr>)
      else if a = ''--output'' then parse_args (tl rest) (cli\<lparr>cli_output := next_arg rest\<rparr>)
      else if a = ''--symbol'' then parse_args (tl rest) (cli\<lparr>cli_symbols := cli_symbols cli @ [next_arg rest]\<rparr>)
      else if a = ''--date'' then parse_args (tl rest) (cli\<lparr>cli_date := next_arg rest\<rparr>)
      else if a = ''--limit'' then parse_args (tl rest) (cli\<lparr>cli_limit := strtoull (next_arg rest)\<rparr>)
      else if a = ''--no-system'' then parse_args rest (cli\<lparr>cli_system := False\<rparr>)
      else None)"
  by pat_completeness auto
termination by (relation "measure (\<lambda>(args, cli). length args)") auto

definition find_last :: "char \<Rightarrow> string \<Rightarrow> nat option" where
  "find_last c s = (if c \<in> set s then Some (length s - 1 - length (takeWhile (\<lambda>x. x \<noteq> c) (rev s))) else None)"

definition dateFromPath :: "string \<Rightarrow> string" where
  "dateFromPath path =
     (let name = (case find_last (CHR ''/'') path of None \<Rightarrow> path | Some slash \<Rightarrow> drop (slash + 1) path) in
      if length name < 8 then []
      else let digits = take 8 name in
        if \<not> list_all is_digit digits then []
        else take 4 digits @ ''-'' @ take 2 (drop 4 digits) @ ''-'' @ take 2 (drop 6 digits))"

text \<open>
  \<open>mktime\<close> in the time zone of the exchange is a parameter: year, month and day of a
  midnight to seconds since the epoch, or -1.
\<close>

definition epochBaseNanos :: "(int \<Rightarrow> int \<Rightarrow> int \<Rightarrow> int) \<Rightarrow> string \<Rightarrow> error + u64" where
  "epochBaseNanos mktime date =
     (if length date \<noteq> 10 then Inr 0
      else case stoi (take 4 date) of Inl e \<Rightarrow> Inl e | Inr y \<Rightarrow>
        (case stoi (take 2 (drop 5 date)) of Inl e \<Rightarrow> Inl e | Inr mo \<Rightarrow>
        (case stoi (take 2 (drop 8 date)) of Inl e \<Rightarrow> Inl e | Inr d \<Rightarrow>
          let midnight = mktime (y - 1900) (mo - 1) d in
          if midnight = - 1 then Inr 0 else Inr (word_of_int midnight * 1000000000))))"

definition itch_configure :: "(int \<Rightarrow> int \<Rightarrow> int \<Rightarrow> int) \<Rightarrow> string list \<Rightarrow> (nat + itch_cli \<times> u64) option" where
  "itch_configure mktime args =
     (case parse_args args cli_default of
        None \<Rightarrow> Some (Inl 2)
      | Some cli \<Rightarrow>
        if cli_input cli = [] then Some (Inl 2)
        else let cli1 = (if cli_date cli = [] then cli\<lparr>cli_date := dateFromPath (cli_input cli)\<rparr> else cli) in
          (case epochBaseNanos mktime (cli_date cli1) of Inl e \<Rightarrow> None | Inr base \<Rightarrow> Some (Inr (cli1, base))))"

lemma find_last_slash:
  assumes "c \<notin> set name"
  shows "find_last c (dir @ c # name) = Some (length dir)"
proof -
  have "takeWhile (\<lambda>x. x \<noteq> c) (rev name @ c # rev dir) = rev name"
    using assms by (subst takeWhile_append2) auto
  then show ?thesis by (simp add: find_last_def)
qed

lemma stoi_digits:
  assumes "ds \<noteq> []" and "list_all is_digit ds"
  shows "stoi ds = Inr (int (dec_value ds))"
proof -
  obtain c r where ds: "ds = c # r" using assms(1) by (cases ds) auto
  have "\<not> is_blank c" "c \<noteq> CHR ''-''" "c \<noteq> CHR ''+''" using assms(2) ds by (auto simp: is_digit_def is_blank_def)
  moreover have "takeWhile is_digit ds = ds" using assms(2) by (simp add: takeWhile_eq_all_conv list_all_iff)
  ultimately show ?thesis using ds by (simp add: stoi_def sign_and_digits_def)
qed

lemma dateFromPath_digits:
  assumes "list_all is_digit ds" and "length ds = 8" and "CHR ''/'' \<notin> set rest"
  shows "dateFromPath (dir @ CHR ''/'' # ds @ rest) = take 4 ds @ ''-'' @ take 2 (drop 4 ds) @ ''-'' @ take 2 (drop 6 ds)"
proof -
  have "CHR ''/'' \<notin> set (ds @ rest)" using assms(1,3) by (auto simp: list_all_iff is_digit_def)
  from find_last_slash [OF this, of dir] assms(1,2) show ?thesis by (simp add: dateFromPath_def Let_def)
qed

lemma epochBaseNanos_parts:
  assumes "length y = 4" and "length m = 2" and "length d = 2" and "stoi y = Inr a" and "stoi m = Inr b" and "stoi d = Inr c"
  shows "epochBaseNanos mktime (y @ ''-'' @ m @ ''-'' @ d) =
    (let midnight = mktime (a - 1900) (b - 1) c in Inr (if midnight = - 1 then 0 else word_of_int midnight * 1000000000))"
proof -
  have "take 4 (y @ ''-'' @ m @ ''-'' @ d) = y" "take 2 (drop 5 (y @ ''-'' @ m @ ''-'' @ d)) = m"
    "take 2 (drop 8 (y @ ''-'' @ m @ ''-'' @ d)) = d" using assms(1-3) by simp_all
  then show ?thesis using assms by (simp add: epochBaseNanos_def Let_def)
qed

text \<open>
  The session date comes from the file name: for a file whose name starts with eight
  digits the epoch base is computed from exactly that year, month and day and never fails,
  whatever the calendar function answers.
\<close>
theorem itch_date_from_filename:
  assumes "list_all is_digit ds" and "length ds = 8" and "CHR ''/'' \<notin> set rest"
  shows "epochBaseNanos mktime (dateFromPath (dir @ CHR ''/'' # ds @ rest)) =
    (let midnight = mktime (int (dec_value (take 4 ds)) - 1900) (int (dec_value (take 2 (drop 4 ds))) - 1) (int (dec_value (drop 6 ds)))
     in Inr (if midnight = - 1 then 0 else word_of_int midnight * 1000000000))"
proof -
  let ?y = "take 4 ds" and ?m = "take 2 (drop 4 ds)" and ?d = "take 2 (drop 6 ds)"
  have d: "?d = drop 6 ds" using assms(2) by simp
  have all: "list_all is_digit ?y" "list_all is_digit ?m" "list_all is_digit ?d"
    using assms(1) by (auto simp: list_all_iff dest!: in_set_takeD in_set_dropD)
  have ne: "?y \<noteq> []" "?m \<noteq> []" "?d \<noteq> []" "length ?y = 4" "length ?m = 2" "length ?d = 2" using assms(2) by auto
  show ?thesis unfolding dateFromPath_digits [OF assms]
    using epochBaseNanos_parts [OF ne(4,5,6) stoi_digits [OF ne(1) all(1)] stoi_digits [OF ne(2) all(2)] stoi_digits [OF ne(3) all(3)], of mktime] d
    by simp
qed

theorem itch_date_from_filename_witness:
  "epochBaseNanos (\<lambda>y m d. y * 365 + m * 31 + d) (dateFromPath ''/data/20190730.BX_ITCH_50'') =
     (let midnight = 119 * 365 + 6 * 31 + 30 in Inr (if midnight = - 1 then 0 else word_of_int midnight * 1000000000))"
proof -
  have "list_all is_digit ''20190730''" by (simp add: is_digit_def)
  from itch_date_from_filename [OF this, of "''.BX_ITCH_50''" "\<lambda>y m d. y * 365 + m * 31 + d" "''/data''"]
  show ?thesis by (simp add: dec_value_def Let_def)
qed

end
