(* ===== verification/Order_Model.thy ===== *)
theory Order_Model
  imports Leka_Prelude
begin

text \<open>
  The value types (\<open>include/lob/types\<close>), the order (\<open>order.hpp\<close>, \<open>order.cpp\<close>), the
  event payloads (\<open>order_event.hpp\<close>, \<open>order_event.cpp\<close>), the execution record
  (\<open>execution.hpp\<close>, \<open>execution.cpp\<close>) and the two identifier generators. The wrapper
  classes hold one \<open>std::uint64_t\<close>; the model uses the 64-bit word itself, with the
  class's validity test as a definition of its own.
\<close>

section \<open>Value types\<close>

definition OrderId_isValid :: "u64 \<Rightarrow> bool" where
  "OrderId_isValid i \<longleftrightarrow> i \<noteq> 0"

definition Price_isValid :: "u64 \<Rightarrow> bool" where
  "Price_isValid p \<longleftrightarrow> p \<noteq> 0"

definition Quantity_isValid :: "u64 \<Rightarrow> bool" where
  "Quantity_isValid q \<longleftrightarrow> q \<noteq> 0"

definition Quantity_plus :: "u64 \<Rightarrow> u64 \<Rightarrow> u64" where
  "Quantity_plus a b = a + b"

definition Timestamp_isValid :: "u64 \<Rightarrow> bool" where
  "Timestamp_isValid t \<longleftrightarrow> t \<noteq> 0"

definition SequenceNumber_isValid :: "u64 \<Rightarrow> bool" where
  "SequenceNumber_isValid s \<longleftrightarrow> s \<noteq> 0"

text \<open>
  A C++ enum class value may hold a number that is no enumerator (the unit tests build
  \<open>static_cast<OrderSide>(99)\<close>), so both enumerations have a constructor for the rest.
\<close>

datatype order_side = BUY | SELL | OtherSide nat

datatype order_type = LIMIT | MARKET | OtherType nat

section \<open>Orders\<close>

text \<open>
  Order objects live at addresses inside the pages of the pool; a null pointer is
  \<open>None\<close>. A price level never moves, so its address is which ladder it belongs to and
  its index there.
\<close>

type_synonym ptr = u64

datatype ladder_id = Bids | Asks

type_synonym level_ref = "ladder_id \<times> nat"

record order =
  orderId :: u64
  price :: u64
  originalQuantity :: u64
  remainingQuantity :: u64
  timestamp :: u64
  orderSide :: order_side
  orderType :: order_type
  sequenceNumber :: u64
  nextOrder :: "ptr option"
  previousOrder :: "ptr option"
  priceLevel :: "level_ref option"

type_synonym heap = "ptr \<Rightarrow> order option"

definition Order_full ::
  "u64 \<Rightarrow> u64 \<Rightarrow> u64 \<Rightarrow> u64 \<Rightarrow> u64 \<Rightarrow> order_side \<Rightarrow> order_type \<Rightarrow> u64 \<Rightarrow> order" where
  "Order_full i p oq rq t sd ty sq =
     \<lparr>orderId = i, price = p, originalQuantity = oq, remainingQuantity = rq, timestamp = t,
      orderSide = sd, orderType = ty, sequenceNumber = sq,
      nextOrder = None, previousOrder = None, priceLevel = None\<rparr>"

definition Order_new ::
  "u64 \<Rightarrow> u64 \<Rightarrow> u64 \<Rightarrow> u64 \<Rightarrow> order_side \<Rightarrow> order_type \<Rightarrow> u64 \<Rightarrow> order" where
  "Order_new i p oq t sd ty sq = Order_full i p oq oq t sd ty sq"

definition isBuy :: "order \<Rightarrow> bool" where
  "isBuy ord \<longleftrightarrow> orderSide ord = BUY"

definition isSell :: "order \<Rightarrow> bool" where
  "isSell ord \<longleftrightarrow> orderSide ord = SELL"

definition isLimit :: "order \<Rightarrow> bool" where
  "isLimit ord \<longleftrightarrow> orderType ord = LIMIT"

definition isMarket :: "order \<Rightarrow> bool" where
  "isMarket ord \<longleftrightarrow> orderType ord = MARKET"

definition reduceRemainingQuantity :: "u64 \<Rightarrow> order \<Rightarrow> (unit, order) outcome" where
  "reduceRemainingQuantity q ord =
     (if q > remainingQuantity ord
      then Throw (InvalidArgument ''Cannot reduce order quantity below zero'') ord
      else Ret () (ord\<lparr>remainingQuantity := remainingQuantity ord - q\<rparr>))"

definition isFullyFilled :: "order \<Rightarrow> bool" where
  "isFullyFilled ord \<longleftrightarrow> remainingQuantity ord = 0"

definition Order_isValid :: "order \<Rightarrow> bool" where
  "Order_isValid ord =
     (let validSide = isBuy ord \<or> isSell ord;
          validType = isLimit ord \<or> isMarket ord;
          validPrice = isMarket ord \<or> Price_isValid (price ord)
      in OrderId_isValid (orderId ord) \<and> Quantity_isValid (originalQuantity ord) \<and>
         remainingQuantity ord \<le> originalQuantity ord \<and> Timestamp_isValid (timestamp ord) \<and>
         SequenceNumber_isValid (sequenceNumber ord) \<and> validSide \<and> validType \<and> validPrice)"

definition setRemainingQuantity :: "u64 \<Rightarrow> order \<Rightarrow> (unit, order) outcome" where
  "setRemainingQuantity q ord =
     (if \<not> Quantity_isValid q
      then Throw (InvalidArgument ''Modified quantity must be valid'') ord
      else if q > originalQuantity ord
      then Throw (InvalidArgument ''Modified quantity exceeds original quantity'') ord
      else Ret () (ord\<lparr>remainingQuantity := q\<rparr>))"

section \<open>Events\<close>

datatype order_event_type = NEW | CANCEL | REDUCE

record new_order =
  newOrderId :: u64
  newPrice :: u64
  newQuantity :: u64
  newTimestamp :: u64
  newSide :: order_side
  newType :: order_type

record cancel_order =
  cancelOrderId :: u64

record reduce_order =
  reduceOrderId :: u64
  reduceQuantity :: u64

datatype order_event =
    NewEvent new_order
  | CancelEvent cancel_order
  | ReduceEvent reduce_order

fun getEventType :: "order_event \<Rightarrow> order_event_type" where
  "getEventType (NewEvent _) = NEW"
| "getEventType (CancelEvent _) = CANCEL"
| "getEventType (ReduceEvent _) = REDUCE"

fun getNewOrder :: "order_event \<Rightarrow> error + new_order" where
  "getNewOrder (NewEvent n) = Inr n"
| "getNewOrder _ = Inl (LogicError ''Order event is not NEW'')"

fun getCancelOrder :: "order_event \<Rightarrow> error + cancel_order" where
  "getCancelOrder (CancelEvent c) = Inr c"
| "getCancelOrder _ = Inl (LogicError ''Order event is not CANCEL'')"

fun getReduceOrder :: "order_event \<Rightarrow> error + reduce_order" where
  "getReduceOrder (ReduceEvent r) = Inr r"
| "getReduceOrder _ = Inl (LogicError ''Order event is not REDUCE'')"

section \<open>Executions\<close>

record execution =
  incomingOrderId :: u64
  restingOrderId :: u64
  executionPrice :: u64
  executionQuantity :: u64

definition Execution_isValid :: "execution \<Rightarrow> bool" where
  "Execution_isValid e \<longleftrightarrow>
     OrderId_isValid (incomingOrderId e) \<and> OrderId_isValid (restingOrderId e) \<and>
     Price_isValid (executionPrice e) \<and> Quantity_isValid (executionQuantity e)"

section \<open>Generators\<close>

text \<open>
  Both generators keep the last number handed out and refuse to wrap. The sequence
  counter is a static member: one counter per process, shared by every engine.
\<close>

definition OrderIdGenerator_generate :: "u64 \<Rightarrow> (u64, u64) outcome" where
  "OrderIdGenerator_generate currentId =
     (if currentId = - 1
      then Throw (OverflowError ''Order ID space exhausted'') currentId
      else Ret (currentId + 1) (currentId + 1))"

definition SequenceNumberGenerator_generate :: "u64 \<Rightarrow> (u64, u64) outcome" where
  "SequenceNumberGenerator_generate currentSequence =
     (if currentSequence = - 1
      then Throw (OverflowError ''Sequence number space exhausted'') currentSequence
      else Ret (currentSequence + 1) (currentSequence + 1))"

text \<open>Calling a generator \<open>n\<close> times, collecting what it returns until it throws.\<close>

fun generate_many :: "(u64 \<Rightarrow> (u64, u64) outcome) \<Rightarrow> nat \<Rightarrow> u64 \<Rightarrow> u64 list \<times> u64" where
  "generate_many gen 0 c = ([], c)"
| "generate_many gen (Suc n) c =
     (case gen c of
        Throw e c' \<Rightarrow> ([], c')
      | Ret i c' \<Rightarrow> (case generate_many gen n c' of (is, c'') \<Rightarrow> (i # is, c'')))"

section \<open>Lemmas\<close>

lemmas valid_defs =
  OrderId_isValid_def Price_isValid_def Quantity_isValid_def Timestamp_isValid_def
  SequenceNumber_isValid_def

lemmas order_kind_defs = isBuy_def isSell_def isLimit_def isMarket_def

lemma Order_full_sel [simp]:
  "orderId (Order_full i p oq rq t sd ty sq) = i"
  "price (Order_full i p oq rq t sd ty sq) = p"
  "originalQuantity (Order_full i p oq rq t sd ty sq) = oq"
  "remainingQuantity (Order_full i p oq rq t sd ty sq) = rq"
  "timestamp (Order_full i p oq rq t sd ty sq) = t"
  "orderSide (Order_full i p oq rq t sd ty sq) = sd"
  "orderType (Order_full i p oq rq t sd ty sq) = ty"
  "sequenceNumber (Order_full i p oq rq t sd ty sq) = sq"
  "nextOrder (Order_full i p oq rq t sd ty sq) = None"
  "previousOrder (Order_full i p oq rq t sd ty sq) = None"
  "priceLevel (Order_full i p oq rq t sd ty sq) = None"
  by (simp_all add: Order_full_def)

lemma unat_Suc_u64: "(c :: u64) \<noteq> - 1 \<Longrightarrow> unat (c + 1) = unat c + 1"
proof -
  assume "c \<noteq> - 1"
  then have "unat c \<noteq> SIZE_RANGE - 1"
    by (metis unat_max_u64 word_unat_eq_iff)
  moreover have "unat c < SIZE_RANGE" by simp
  ultimately have "unat c + unat (1 :: u64) < SIZE_RANGE" by (simp add: SIZE_RANGE_def)
  from unat_add_u64 [OF this] show ?thesis by simp
qed

lemma generate_step:
  "SequenceNumberGenerator_generate c = Ret s c' \<longleftrightarrow> c \<noteq> - 1 \<and> s = c + 1 \<and> c' = c + 1"
  by (auto simp: SequenceNumberGenerator_generate_def)

lemma OrderIdGenerator_step: "c \<noteq> - 1 \<Longrightarrow> OrderIdGenerator_generate c = Ret (c + 1) (c + 1)"
  by (simp add: OrderIdGenerator_generate_def)

lemma generate_many_consecutive:
  assumes "unat c + n < SIZE_RANGE"
  shows "map unat (fst (generate_many OrderIdGenerator_generate n c)) = map (\<lambda>k. unat c + k) [1..<Suc n]
       \<and> unat (snd (generate_many OrderIdGenerator_generate n c)) = unat c + n"
  using assms
proof (induction n arbitrary: c)
  case 0
  then show ?case by simp
next
  case (Suc n)
  then have c: "c \<noteq> - 1" by auto
  obtain xs c' where many: "generate_many OrderIdGenerator_generate n (c + 1) = (xs, c')"
    by fastforce
  from Suc.prems c have "unat (c + 1) + n < SIZE_RANGE" by (simp add: unat_Suc_u64)
  from Suc.IH [OF this] many c
  have IH: "map unat xs = map (\<lambda>k. unat c + k) (map Suc [1..<Suc n])" "unat c' = unat c + Suc n"
    by (simp_all add: unat_Suc_u64)
  have "[1..<Suc (Suc n)] = 1 # map Suc [1..<Suc n]"
    by (simp only: map_Suc_upt) (simp add: upt_conv_Cons)
  with IH many c show ?case
    by (simp add: OrderIdGenerator_step unat_Suc_u64 del: upt_Suc)
qed

section \<open>Properties\<close>

text \<open>
  C36. Identifiers never repeat and are never the reserved zero: from a fresh generator,
  \<open>n\<close> calls (for any \<open>n\<close> the 64-bit space allows) return exactly 1, 2, ..., n, all of
  them distinct and valid, and the call after the last representable one throws and leaves
  the generator unchanged.
\<close>
theorem order_ids_unique:
  assumes "n < SIZE_RANGE"
  shows "map unat (fst (generate_many OrderIdGenerator_generate n 0)) = [1..<Suc n]
    \<and> distinct (fst (generate_many OrderIdGenerator_generate n 0))
    \<and> list_all OrderId_isValid (fst (generate_many OrderIdGenerator_generate n 0))
    \<and> OrderIdGenerator_generate (- 1) = Throw (OverflowError ''Order ID space exhausted'') (- 1)"
proof -
  let ?ids = "fst (generate_many OrderIdGenerator_generate n 0)"
  from generate_many_consecutive [of 0 n] assms
  have ids: "map unat ?ids = [1..<Suc n]" by (simp del: upt_Suc)
  then have "distinct (map unat ?ids)" by (simp del: upt_Suc)
  then have "distinct ?ids" by (simp add: distinct_map)
  moreover have "list_all OrderId_isValid ?ids"
  proof (unfold list_all_iff, intro ballI)
    fix i assume "i \<in> set ?ids"
    then have "unat i \<in> set (map unat ?ids)" by auto
    then have "unat i \<noteq> 0" unfolding ids by auto
    then show "OrderId_isValid i" by (auto simp: OrderId_isValid_def)
  qed
  ultimately show ?thesis using ids by (simp add: OrderIdGenerator_generate_def)
qed

theorem order_ids_unique_witness:
  "map unat (fst (generate_many OrderIdGenerator_generate 3 0)) = [1..<Suc 3]"
proof -
  have "(3 :: nat) < SIZE_RANGE" by (simp add: SIZE_RANGE_def)
  from order_ids_unique [OF this] show ?thesis by (rule conjunct1)
qed

end
