(* ===== verification/Price_Level.thy ===== *)
theory Price_Level
  imports Order_Model
begin

text \<open>
  \<open>PriceLevel\<close> (\<open>price_level.hpp\<close>, \<open>price_level.cpp\<close>): the intrusive FIFO of the orders
  resting at one price. The links are fields of the orders themselves, so the operations
  read and write the store of orders; a read or write through a pointer to no live order is
  \<open>UndefinedBehaviour\<close>. The lemmas show that the pointer surgery implements append and
  removal on the list of resting orders and touches nothing else.
\<close>

section \<open>Model\<close>

record price_level =
  levelPrice :: u64
  headOrder :: "ptr option"
  tailOrder :: "ptr option"
  level_count :: nat
  totalQuantity :: u64

definition PriceLevel_new :: "u64 \<Rightarrow> price_level" where
  "PriceLevel_new p =
     \<lparr>levelPrice = p, headOrder = None, tailOrder = None, level_count = 0, totalQuantity = 0\<rparr>"

definition write_order ::
  "ptr \<Rightarrow> (order \<Rightarrow> order) \<Rightarrow> price_level \<times> heap \<Rightarrow> (unit, price_level \<times> heap) outcome" where
  "write_order p f s =
     (case snd s p of
        None \<Rightarrow> Throw (UndefinedBehaviour ''write to an order that is not alive'') s
      | Some ord \<Rightarrow> Ret () (fst s, (snd s)(p \<mapsto> f ord)))"

definition write_level ::
  "(price_level \<Rightarrow> price_level) \<Rightarrow> price_level \<times> heap \<Rightarrow> (unit, price_level \<times> heap) outcome" where
  "write_level f s = Ret () (f (fst s), snd s)"

definition PriceLevel_addOrder ::
  "level_ref \<Rightarrow> ptr option \<Rightarrow> price_level \<times> heap \<Rightarrow> (unit, price_level \<times> heap) outcome" where
  "PriceLevel_addOrder self pointer s =
     (case pointer of
        None \<Rightarrow> Throw (InvalidArgument ''Cannot add a null order'') s
      | Some p \<Rightarrow>
     (case snd s p of
        None \<Rightarrow> Throw (UndefinedBehaviour ''read of an order that is not alive'') s
      | Some ord \<Rightarrow>
        if price ord \<noteq> levelPrice (fst s)
        then Throw (InvalidArgument ''Order price does not match price level'') s
        else if priceLevel ord \<noteq> None
        then Throw (InvalidArgument ''Order already belongs to a price level'') s
        else if isFullyFilled ord
        then Throw (InvalidArgument ''Cannot add a fully filled order'') s
        else if remainingQuantity ord > - 1 - totalQuantity (fst s)
        then Throw (OverflowError ''Price level quantity overflow'') s
        else
          bind_outcome (write_order p (previousOrder_update (\<lambda>_. tailOrder (fst s))) s) (\<lambda>_ s1.
          bind_outcome (write_order p (nextOrder_update (\<lambda>_. None)) s1) (\<lambda>_ s2.
          bind_outcome
            (case tailOrder (fst s2) of
               Some t \<Rightarrow> write_order t (nextOrder_update (\<lambda>_. Some p)) s2
             | None \<Rightarrow> write_level (headOrder_update (\<lambda>_. Some p)) s2) (\<lambda>_ s3.
          bind_outcome
            (write_level (\<lambda>l. l\<lparr>tailOrder := Some p, level_count := sz_inc (level_count l),
               totalQuantity := Quantity_plus (totalQuantity l) (remainingQuantity ord)\<rparr>) s3) (\<lambda>_ s4.
          write_order p (priceLevel_update (\<lambda>_. Some self)) s4))))))"

definition PriceLevel_removeOrder ::
  "level_ref \<Rightarrow> ptr option \<Rightarrow> price_level \<times> heap \<Rightarrow> (unit, price_level \<times> heap) outcome" where
  "PriceLevel_removeOrder self pointer s =
     (case pointer of
        None \<Rightarrow> Throw (InvalidArgument ''Order does not belong to this price level'') s
      | Some p \<Rightarrow>
     (case snd s p of
        None \<Rightarrow> Throw (UndefinedBehaviour ''read of an order that is not alive'') s
      | Some ord \<Rightarrow>
        if priceLevel ord \<noteq> Some self
        then Throw (InvalidArgument ''Order does not belong to this price level'') s
        else
          bind_outcome
            (case previousOrder ord of
               Some q \<Rightarrow> write_order q (nextOrder_update (\<lambda>_. nextOrder ord)) s
             | None \<Rightarrow> write_level (headOrder_update (\<lambda>_. nextOrder ord)) s) (\<lambda>_ s1.
          bind_outcome
            (case nextOrder ord of
               Some q \<Rightarrow> write_order q (previousOrder_update (\<lambda>_. previousOrder ord)) s1
             | None \<Rightarrow> write_level (tailOrder_update (\<lambda>_. previousOrder ord)) s1) (\<lambda>_ s2.
          bind_outcome
            (write_level (\<lambda>l. l\<lparr>totalQuantity := totalQuantity l - remainingQuantity ord,
               level_count := sz_dec (level_count l)\<rparr>) s2) (\<lambda>_ s3.
          write_order p (\<lambda>r. r\<lparr>previousOrder := None, nextOrder := None, priceLevel := None\<rparr>) s3)))))"

definition reduceTotalQuantity :: "u64 \<Rightarrow> price_level \<Rightarrow> (unit, price_level) outcome" where
  "reduceTotalQuantity q l =
     (if q > totalQuantity l
      then Throw (InvalidArgument ''Cannot reduce price level quantity below zero'') l
      else Ret () (l\<lparr>totalQuantity := totalQuantity l - q\<rparr>))"

definition PriceLevel_isEmpty :: "price_level \<Rightarrow> bool" where
  "PriceLevel_isEmpty l \<longleftrightarrow> level_count l = 0"

section \<open>Representation\<close>

text \<open>
  \<open>level_rep h r l ps\<close>: the level \<open>l\<close> at address \<open>r\<close> holds exactly the orders \<open>ps\<close>, oldest
  first. The aggregate is only bounded below by the resting quantity: matching leaves the
  quantity of a filled order in it (\<open>level_exact\<close> is the stronger statement that the
  header documents, and the operations of this class keep it).
\<close>

definition next_of :: "heap \<Rightarrow> ptr \<Rightarrow> ptr option" where
  "next_of h p = (case h p of None \<Rightarrow> None | Some ord \<Rightarrow> nextOrder ord)"

definition prev_of :: "heap \<Rightarrow> ptr \<Rightarrow> ptr option" where
  "prev_of h p = (case h p of None \<Rightarrow> None | Some ord \<Rightarrow> previousOrder ord)"

definition rem_of :: "heap \<Rightarrow> ptr \<Rightarrow> nat" where
  "rem_of h p = (case h p of None \<Rightarrow> 0 | Some ord \<Rightarrow> unat (remainingQuantity ord))"

text \<open>The contents of an order: everything but its links.\<close>

definition strip :: "order \<Rightarrow> order" where
  "strip ord = ord\<lparr>nextOrder := None, previousOrder := None, priceLevel := None\<rparr>"

definition level_links :: "heap \<Rightarrow> price_level \<Rightarrow> ptr list \<Rightarrow> bool" where
  "level_links h l ps \<longleftrightarrow>
     distinct ps \<and> dlseg (next_of h) (prev_of h) None (headOrder l) ps (tailOrder l) None"

definition level_member :: "heap \<Rightarrow> level_ref \<Rightarrow> u64 \<Rightarrow> ptr \<Rightarrow> bool" where
  "level_member h r pr p \<longleftrightarrow>
     (\<exists>ord. h p = Some ord \<and> price ord = pr \<and> priceLevel ord = Some r)"

definition level_rep :: "heap \<Rightarrow> level_ref \<Rightarrow> price_level \<Rightarrow> ptr list \<Rightarrow> bool" where
  "level_rep h r l ps \<longleftrightarrow>
     level_links h l ps \<and> list_all (level_member h r (levelPrice l)) ps \<and>
     level_count l = length ps \<and> length ps < SIZE_RANGE \<and>
     sum_list (map (rem_of h) ps) \<le> unat (totalQuantity l)"

definition level_exact :: "heap \<Rightarrow> price_level \<Rightarrow> ptr list \<Rightarrow> bool" where
  "level_exact h l ps \<longleftrightarrow> unat (totalQuantity l) = sum_list (map (rem_of h) ps)"

text \<open>The orders of a level read off the links, as the code itself would walk them.\<close>

definition level_ptrs :: "heap \<Rightarrow> price_level \<Rightarrow> ptr list" where
  "level_ptrs h l = walk (next_of h) (level_count l) (headOrder l)"

text \<open>The store changed only in the links of the orders in \<open>A\<close>.\<close>

definition relinked :: "ptr set \<Rightarrow> heap \<Rightarrow> heap \<Rightarrow> bool" where
  "relinked A h h' \<longleftrightarrow>
     (\<forall>p. map_option strip (h' p) = map_option strip (h p)) \<and> (\<forall>p. p \<notin> A \<longrightarrow> h' p = h p)"

section \<open>Lemmas\<close>

subsection \<open>Reading the store\<close>

lemma of_heap_upd [simp]:
  "next_of (h(p \<mapsto> ord)) q = (if q = p then nextOrder ord else next_of h q)"
  "prev_of (h(p \<mapsto> ord)) q = (if q = p then previousOrder ord else prev_of h q)"
  "rem_of (h(p \<mapsto> ord)) q = (if q = p then unat (remainingQuantity ord) else rem_of h q)"
  by (simp_all add: next_of_def prev_of_def rem_of_def)

lemma of_heap_Some:
  assumes "h p = Some ord"
  shows "next_of h p = nextOrder ord" "prev_of h p = previousOrder ord"
    "rem_of h p = unat (remainingQuantity ord)"
  using assms by (simp_all add: next_of_def prev_of_def rem_of_def)

lemma strip_links [simp]:
  "strip (nextOrder_update f ord) = strip ord"
  "strip (previousOrder_update f ord) = strip ord"
  "strip (priceLevel_update g ord) = strip ord"
  by (simp_all add: strip_def)

lemma strip_eqD:
  assumes "strip a = strip b"
  shows "orderId a = orderId b" "price a = price b" "originalQuantity a = originalQuantity b"
    "remainingQuantity a = remainingQuantity b" "timestamp a = timestamp b"
    "orderSide a = orderSide b" "orderType a = orderType b" "sequenceNumber a = sequenceNumber b"
  using assms by (cases a; cases b; simp add: strip_def)+

lemma strip_sel [simp]:
  "orderId (strip a) = orderId a" "price (strip a) = price a"
  "originalQuantity (strip a) = originalQuantity a" "remainingQuantity (strip a) = remainingQuantity a"
  "timestamp (strip a) = timestamp a" "orderSide (strip a) = orderSide a"
  "orderType (strip a) = orderType a" "sequenceNumber (strip a) = sequenceNumber a"
  by (simp_all add: strip_def)

lemma relinked_upd:
  assumes "relinked A h h'" and "h' p = Some ord" and "p \<in> A" and "strip ord' = strip ord"
  shows "relinked A h (h'(p \<mapsto> ord'))"
  using assms by (auto simp: relinked_def fun_upd_def split: option.splits) (metis option.map(2))+

lemma relinked_refl [simp]: "relinked A h h"
  by (simp add: relinked_def)

lemma relinked_mono: "relinked A h h' \<Longrightarrow> A \<subseteq> B \<Longrightarrow> relinked B h h'"
  by (auto simp: relinked_def)

lemma relinked_Some:
  assumes "relinked A h h'" and "h p = Some ord"
  obtains ord' where "h' p = Some ord'" and "strip ord' = strip ord"
  using assms unfolding relinked_def by (metis map_option_eq_Some)

lemma relinked_None: "relinked A h h' \<Longrightarrow> h' p = None \<longleftrightarrow> h p = None"
  unfolding relinked_def by (metis map_option_is_None)

lemma relinked_dom: "relinked A h h' \<Longrightarrow> dom h' = dom h"
  by (auto simp: dom_def relinked_None)

lemma rem_of_strip:
  "rem_of h p = (case map_option strip (h p) of None \<Rightarrow> 0 | Some ord \<Rightarrow> unat (remainingQuantity ord))"
  by (simp add: rem_of_def split: option.splits)

lemma relinked_rem: "relinked A h h' \<Longrightarrow> rem_of h' p = rem_of h p"
  by (simp add: rem_of_strip relinked_def)

lemma relinked_strip: "relinked A h h' \<Longrightarrow> map_option strip (h' p) = map_option strip (h p)"
  by (simp add: relinked_def)

lemma relinked_frame: "relinked A h h' \<Longrightarrow> p \<notin> A \<Longrightarrow> h' p = h p"
  by (simp add: relinked_def)


subsection \<open>Appending and unlinking\<close>

lemma level_rep_sum: "level_rep h r l ps \<Longrightarrow> sum_list (map (rem_of h) ps) \<le> unat (totalQuantity l)"
  by (simp add: level_rep_def)

lemma level_rep_memD:
  assumes "level_rep h r l ps" and "p \<in> set ps"
  obtains ord where "h p = Some ord" "price ord = levelPrice l" "priceLevel ord = Some r"
  using assms by (auto simp: level_rep_def list_all_iff level_member_def)

lemma level_rep_unlinked: "level_rep h r l ps \<Longrightarrow> h p = Some ord \<Longrightarrow> priceLevel ord \<noteq> Some r \<Longrightarrow> p \<notin> set ps"
  by (auto elim: level_rep_memD)

lemma level_rep_tail:
  assumes "level_rep h r l ps"
  shows "tailOrder l = (if ps = [] then None else Some (last ps))"
    and "headOrder l = (if ps = [] then None else Some (hd ps))"
  using assms by (cases ps; auto simp: level_rep_def level_links_def dest: dlseg_last)+

lemma level_ptrs_rep: "level_rep h r l ps \<Longrightarrow> level_ptrs h l = ps"
  by (auto simp: level_rep_def level_links_def level_ptrs_def intro: walk_dlseg)

lemma list_all_memberI:
  assumes "list_all (level_member h r pr) ps"
    and "\<And>p d. p \<in> set ps \<Longrightarrow> h p = Some d \<Longrightarrow>
      \<exists>d'. h' p = Some d' \<and> price d' = price d \<and> priceLevel d' = priceLevel d"
  shows "list_all (level_member h' r pr) ps"
  using assms unfolding list_all_iff level_member_def by fastforce

lemma length_le_sum_list: "list_all (\<lambda>x. f x \<noteq> (0::nat)) xs \<Longrightarrow> length xs \<le> sum_list (map f xs)"
  by (induction xs) auto

lemma map_rem_cong: "(\<And>p. p \<in> set ps \<Longrightarrow> rem_of h' p = rem_of h p) \<Longrightarrow>
    sum_list (map (rem_of h') ps) = sum_list (map (rem_of h) ps)"
  by (simp cong: map_cong)

text \<open>What the two operations leave behind when every pointer they follow is alive.\<close>

definition link_heap :: "level_ref \<Rightarrow> price_level \<Rightarrow> ptr \<Rightarrow> order \<Rightarrow> heap \<Rightarrow> heap" where
  "link_heap r l p ord h =
     (case tailOrder l of None \<Rightarrow> h
      | Some t \<Rightarrow> h(t := map_option (nextOrder_update (\<lambda>_. Some p)) (h t)))
     (p \<mapsto> ord\<lparr>previousOrder := tailOrder l, nextOrder := None, priceLevel := Some r\<rparr>)"

definition link_level :: "ptr \<Rightarrow> order \<Rightarrow> price_level \<Rightarrow> price_level" where
  "link_level p ord l = l\<lparr>headOrder := (if tailOrder l = None then Some p else headOrder l),
     tailOrder := Some p, level_count := sz_inc (level_count l),
     totalQuantity := totalQuantity l + remainingQuantity ord\<rparr>"

definition unlink_heap :: "ptr \<Rightarrow> order \<Rightarrow> heap \<Rightarrow> heap" where
  "unlink_heap p ord h =
     (let h1 = (case previousOrder ord of None \<Rightarrow> h
            | Some q \<Rightarrow> h(q := map_option (nextOrder_update (\<lambda>_. nextOrder ord)) (h q)));
          h2 = (case nextOrder ord of None \<Rightarrow> h1
            | Some q \<Rightarrow> h1(q := map_option (previousOrder_update (\<lambda>_. previousOrder ord)) (h1 q)))
      in h2(p \<mapsto> strip ord))"

definition unlink_level :: "order \<Rightarrow> price_level \<Rightarrow> price_level" where
  "unlink_level ord l = l\<lparr>headOrder := (if previousOrder ord = None then nextOrder ord else headOrder l),
     tailOrder := (if nextOrder ord = None then previousOrder ord else tailOrder l),
     totalQuantity := totalQuantity l - remainingQuantity ord, level_count := sz_dec (level_count l)\<rparr>"

lemma strip_idem [simp]: "strip (strip ord) = strip ord"
  by (simp add: strip_def)

lemma map_option_strip_links [simp]:
  "map_option strip (map_option (nextOrder_update f) d) = map_option strip d"
  "map_option strip (map_option (previousOrder_update f) d) = map_option strip d"
  by (cases d; simp)+

lemma level_rep_alive:
  "level_rep h r l ps \<Longrightarrow> q \<in> set ps \<Longrightarrow> \<exists>d. h q = Some d"
  by (elim level_rep_memD) auto

lemma PriceLevel_addOrder_run:
  assumes rep: "level_rep h r l ps" and p: "h p = Some ord" "p \<notin> set ps"
    and "price ord = levelPrice l" "priceLevel ord = None" "remainingQuantity ord \<noteq> 0"
    and fits: "unat (remainingQuantity ord) + unat (totalQuantity l) < SIZE_RANGE"
  shows "PriceLevel_addOrder r (Some p) (l, h) = Ret () (link_level p ord l, link_heap r l p ord h)"
proof -
  have "\<not> remainingQuantity ord > - 1 - totalQuantity l"
    using fits by (simp add: u64_less_iff unat_sub_u64)
  moreover have "ps \<noteq> [] \<Longrightarrow> \<exists>t. h (last ps) = Some t" "ps \<noteq> [] \<Longrightarrow> last ps \<noteq> p"
    using level_rep_alive [OF rep] p(2) last_in_set [of ps] by auto
  ultimately show ?thesis
    using assms level_rep_tail(1) [OF rep]
    by (cases "ps = []") (auto simp: PriceLevel_addOrder_def isFullyFilled_def write_order_def
        write_level_def Quantity_plus_def link_heap_def link_level_def)
qed

lemma link_relinked:
  assumes rep: "level_rep h r l ps" and "h p = Some ord" "p \<notin> set ps"
  shows "relinked (set (ps @ [p])) h (link_heap r l p ord h)"
  using assms level_rep_tail(1) [OF rep] last_in_set [of ps]
  by (auto simp: relinked_def link_heap_def split: option.splits if_splits)

lemma link_links:
  assumes rep: "level_rep h r l ps" and "h p = Some ord" and notin: "p \<notin> set ps"
  shows "level_links (link_heap r l p ord h) (link_level p ord l) (ps @ [p])"
proof -
  let ?h' = "link_heap r l p ord h"
  have "dlseg (next_of ?h') (prev_of ?h') None (if tailOrder l = None then Some p else headOrder l)
      (ps @ [p]) (Some p) None"
  proof (rule dlseg_snoc)
    show "dlseg (next_of h) (prev_of h) None (headOrder l) ps (tailOrder l) None" "distinct ps"
      using rep by (auto simp: level_rep_def level_links_def)
  next
    fix q assume q: "q \<in> set ps"
    then have "q \<noteq> p" "\<exists>d. h q = Some d" using notin level_rep_alive [OF rep] by auto
    then show "next_of ?h' q = (if tailOrder l = Some q then Some p else next_of h q)"
      "prev_of ?h' q = prev_of h q"
      by (auto simp: link_heap_def next_of_def prev_of_def split: option.splits)
  qed (use notin in \<open>auto simp: link_heap_def\<close>)
  with rep notin show ?thesis by (simp add: level_links_def level_rep_def link_level_def)
qed

lemma PriceLevel_addOrder_ok:
  assumes rep: "level_rep h r l ps" and p: "h p = Some ord"
    and pr: "price ord = levelPrice l" and un: "priceLevel ord = None"
    and nz: "remainingQuantity ord \<noteq> 0" and nzs: "list_all (\<lambda>q. rem_of h q \<noteq> 0) ps"
    and fits: "unat (remainingQuantity ord) + unat (totalQuantity l) < SIZE_RANGE"
  obtains l' h' where
    "PriceLevel_addOrder r (Some p) (l, h) = Ret () (l', h')"
    "level_rep h' r l' (ps @ [p])" "levelPrice l' = levelPrice l"
    "unat (totalQuantity l') = unat (totalQuantity l) + unat (remainingQuantity ord)"
    "relinked (set (ps @ [p])) h h'"
proof -
  let ?h' = "link_heap r l p ord h" and ?l' = "link_level p ord l"
  have notin: "p \<notin> set ps" using level_rep_unlinked [OF rep p] un by simp
  note rel = link_relinked [OF rep p notin]
  have "list_all (level_member h r (levelPrice l)) ps" using rep by (simp add: level_rep_def)
  then have "list_all (level_member ?h' r (levelPrice l)) ps"
    by (rule list_all_memberI) (use notin in \<open>auto simp: link_heap_def split: option.splits\<close>)
  then have mem: "list_all (level_member ?h' r (levelPrice ?l')) (ps @ [p])"
    using pr by (simp add: link_level_def level_member_def link_heap_def)
  have tot: "unat (totalQuantity ?l') = unat (totalQuantity l) + unat (remainingQuantity ord)"
    using fits by (simp add: link_level_def unat_add_u64)
  have sum: "sum_list (map (rem_of ?h') (ps @ [p])) \<le> unat (totalQuantity ?l')"
    using level_rep_sum [OF rep] tot relinked_rem [OF rel] p
    by (simp add: of_heap_Some cong: map_cong)
  have "length ps \<le> unat (totalQuantity l)"
    using length_le_sum_list [OF nzs] level_rep_sum [OF rep] by simp
  then have len: "length ps + 1 < SIZE_RANGE" using fits nz by (simp add: u64_eq_0_iff)
  then have "level_count ?l' = length (ps @ [p])"
    using rep by (simp add: link_level_def level_rep_def sz_inc_small)
  with link_links [OF rep p notin] mem len sum have "level_rep ?h' r ?l' (ps @ [p])"
    by (simp add: level_rep_def)
  from that [OF PriceLevel_addOrder_run [OF rep p notin pr un nz fits] this _ tot rel]
  show thesis by (simp add: link_level_def)
qed

lemma level_rep_split:
  assumes "level_rep h r l (xs @ p # ys)" and "h p = Some ord"
  shows "distinct (xs @ p # ys)" and "priceLevel ord = Some r"
    and "dlseg (next_of h) (prev_of h) None (headOrder l) (xs @ p # ys) (tailOrder l) None"
    and "\<And>q. previousOrder ord = Some q \<Longrightarrow> q \<in> set xs"
    and "\<And>q. nextOrder ord = Some q \<Longrightarrow> q \<in> set ys"
proof -
  show dist: "distinct (xs @ p # ys)"
    and seg: "dlseg (next_of h) (prev_of h) None (headOrder l) (xs @ p # ys) (tailOrder l) None"
    using assms by (auto simp: level_rep_def level_links_def)
  show "priceLevel ord = Some r"
    using level_rep_memD [OF assms(1), of p] assms(2) by (metis in_set_conv_decomp option.inject)
  show "q \<in> set xs" if "previousOrder ord = Some q" for q
    using that dlseg_neighbours(1) [OF seg] assms(2) by (auto simp: of_heap_Some split: if_splits)
  show "q \<in> set ys" if "nextOrder ord = Some q" for q
    using that dlseg_neighbours(2) [OF seg] assms(2) by (auto simp: of_heap_Some split: if_splits)
qed

lemma PriceLevel_removeOrder_run:
  assumes rep: "level_rep h r l (xs @ p # ys)" and hp: "h p = Some ord"
  shows "PriceLevel_removeOrder r (Some p) (l, h) = Ret () (unlink_level ord l, unlink_heap p ord h)"
proof -
  note sp = level_rep_split [OF rep hp]
  have "\<exists>d. h q = Some d" "q \<noteq> p" if "previousOrder ord = Some q" for q
    using level_rep_alive [OF rep, of q] sp(4) [OF that] sp(1) by auto
  moreover have "\<exists>d. h q = Some d" "q \<noteq> p" "previousOrder ord \<noteq> Some q" if "nextOrder ord = Some q" for q
    using level_rep_alive [OF rep, of q] sp(4) [of q] sp(5) [OF that] sp(1) by auto
  ultimately show ?thesis
    using hp sp(2) by (cases "previousOrder ord"; cases "nextOrder ord")
      (fastforce simp: PriceLevel_removeOrder_def write_order_def write_level_def
        unlink_heap_def unlink_level_def strip_def)+
qed

lemma unlink_relinked:
  assumes rep: "level_rep h r l (xs @ p # ys)" and hp: "h p = Some ord"
  shows "relinked (set (xs @ p # ys)) h (unlink_heap p ord h)"
  unfolding relinked_def
proof (intro conjI allI impI)
  note sp = level_rep_split [OF rep hp]
  fix q
  show "map_option strip (unlink_heap p ord h q) = map_option strip (h q)"
    by (auto simp: unlink_heap_def hp Let_def split: option.splits)
  show "unlink_heap p ord h q = h q" if "q \<notin> set (xs @ p # ys)"
    using that sp(4,5) [of q] by (auto simp: unlink_heap_def Let_def split: option.splits)
qed

lemma unlink_links:
  assumes rep: "level_rep h r l (xs @ p # ys)" and hp: "h p = Some ord"
  shows "level_links (unlink_heap p ord h) (unlink_level ord l) (xs @ ys)"
proof -
  note sp = level_rep_split [OF rep hp]
  let ?h' = "unlink_heap p ord h"
  have "dlseg (next_of ?h') (prev_of ?h') None (if prev_of h p = None then next_of h p else headOrder l)
      (xs @ ys) (if next_of h p = None then prev_of h p else tailOrder l) None"
  proof (rule dlseg_remove [OF sp(3) sp(1)])
    fix q assume q: "q \<in> set xs \<union> set ys"
    then have "q \<noteq> p" and "\<exists>d. h q = Some d" using sp(1) level_rep_alive [OF rep, of q] by auto
    moreover have "\<not> (previousOrder ord = Some q \<and> nextOrder ord = Some q)"
      using sp by auto
    ultimately show "next_of ?h' q = (if prev_of h p = Some q then next_of h p else next_of h q)"
      "prev_of ?h' q = (if next_of h p = Some q then prev_of h p else prev_of h q)"
      using hp by (auto simp: unlink_heap_def Let_def next_of_def prev_of_def split: option.splits)
  qed
  then show ?thesis
    using sp(1) unfolding of_heap_Some(1,2) [of h p ord, OF hp] by (simp add: level_links_def unlink_level_def)
qed

lemma PriceLevel_removeOrder_ok:
  assumes rep: "level_rep h r l ps" and p: "p \<in> set ps" and hp: "h p = Some ord"
  obtains l' h' where
    "PriceLevel_removeOrder r (Some p) (l, h) = Ret () (l', h')"
    "level_rep h' r l' (filter (\<lambda>q. q \<noteq> p) ps)" "levelPrice l' = levelPrice l"
    "unat (totalQuantity l') = unat (totalQuantity l) - unat (remainingQuantity ord)"
    "relinked (set ps) h h'" "h' p = Some (strip ord)"
proof -
  obtain xs ys where ps: "ps = xs @ p # ys" using split_list [OF p] by blast
  note rep' = rep [unfolded ps]
  note sp = level_rep_split [OF rep' hp] and rel = unlink_relinked [OF rep' hp]
  let ?h' = "unlink_heap p ord h" and ?l' = "unlink_level ord l"
  have mem: "list_all (level_member ?h' r (levelPrice ?l')) (xs @ ys)"
  proof (rule list_all_memberI)
    show "list_all (level_member h r (levelPrice ?l')) (xs @ ys)"
      using rep' by (simp add: level_rep_def unlink_level_def)
    fix q d assume "q \<in> set (xs @ ys)" "h q = Some d"
    then show "\<exists>d'. ?h' q = Some d' \<and> price d' = price d \<and> priceLevel d' = priceLevel d"
      using sp(1) by (auto simp: unlink_heap_def Let_def split: option.splits)
  qed
  have le: "unat (remainingQuantity ord) + sum_list (map (rem_of h) (xs @ ys)) \<le> unat (totalQuantity l)"
    using level_rep_sum [OF rep'] hp by (simp add: of_heap_Some)
  then have tot: "unat (totalQuantity ?l') = unat (totalQuantity l) - unat (remainingQuantity ord)"
    by (simp add: unlink_level_def unat_sub_u64 u64_le_iff)
  have sum: "sum_list (map (rem_of ?h') (xs @ ys)) \<le> unat (totalQuantity ?l')"
    using le tot relinked_rem [OF rel] by (simp cong: map_cong)
  have "level_count ?l' = length (xs @ ys)"
    using rep' by (simp add: unlink_level_def level_rep_def sz_dec_pos)
  with unlink_links [OF rep' hp] mem sum rep' have "level_rep ?h' r ?l' (xs @ ys)"
    by (simp add: level_rep_def)
  moreover have "filter (\<lambda>q. q \<noteq> p) ps = xs @ ys" using filter_neq_mid [OF sp(1)] ps by simp
  ultimately show thesis
    using that [OF PriceLevel_removeOrder_run [OF rep' hp] _ _ tot] rel ps
    by (simp add: unlink_level_def unlink_heap_def Let_def)
qed

subsection \<open>Changing quantities, frames, exactness\<close>

lemma level_rep_frame:
  assumes "level_rep h r l ps" and "\<And>q. q \<in> set ps \<Longrightarrow> h' q = h q"
  shows "level_rep h' r l ps"
proof -
  have eq: "\<And>q. q \<in> set ps \<Longrightarrow> next_of h' q = next_of h q" "\<And>q. q \<in> set ps \<Longrightarrow> prev_of h' q = prev_of h q"
    "\<And>q. q \<in> set ps \<Longrightarrow> rem_of h' q = rem_of h q" "\<And>q. q \<in> set ps \<Longrightarrow> level_member h' r (levelPrice l) q = level_member h r (levelPrice l) q"
    using assms(2) by (simp_all add: next_of_def prev_of_def rem_of_def level_member_def)
  have "dlseg (next_of h') (prev_of h') None (headOrder l) ps (tailOrder l) None"
    using assms(1) dlseg_cong [of ps "next_of h'" "next_of h" "prev_of h'" "prev_of h"] eq(1,2)
    by (auto simp: level_rep_def level_links_def)
  moreover have "list_all (level_member h' r (levelPrice l)) ps"
    using assms(1) eq(4) by (auto simp: level_rep_def list_all_iff)
  ultimately show ?thesis
    using assms(1) map_rem_cong [of ps h' h, OF eq(3)] by (simp add: level_rep_def level_links_def)
qed

lemma level_rep_quantity:
  assumes rep: "level_rep h r l ps" and hp: "h p = Some ord"
    and sum: "sum_list (map (rem_of (h(p \<mapsto> ord\<lparr>remainingQuantity := q\<rparr>))) ps) \<le> unat t"
  shows "level_rep (h(p \<mapsto> ord\<lparr>remainingQuantity := q\<rparr>)) r (l\<lparr>totalQuantity := t\<rparr>) ps"
proof -
  let ?h = "h(p \<mapsto> ord\<lparr>remainingQuantity := q\<rparr>)"
  have "next_of ?h = next_of h" "prev_of ?h = prev_of h" "level_member ?h = level_member h"
    using hp by (auto simp: fun_eq_iff of_heap_Some level_member_def)
  with rep sum show ?thesis by (simp add: level_rep_def level_links_def)
qed

lemma sum_rem_upd:
  assumes "distinct ps" and "p \<in> set ps" and "h p = Some ord"
  shows "sum_list (map (rem_of (h(p \<mapsto> ord'))) ps) + unat (remainingQuantity ord)
       = sum_list (map (rem_of h) ps) + unat (remainingQuantity ord')"
proof -
  obtain xs ys where ps: "ps = xs @ p # ys" using split_list [OF assms(2)] by blast
  then have "map (rem_of (h(p \<mapsto> ord'))) (xs @ ys) = map (rem_of h) (xs @ ys)"
    using assms(1) by auto
  then have "sum_list (map (rem_of (h(p \<mapsto> ord'))) (xs @ ys)) = sum_list (map (rem_of h) (xs @ ys))"
    by (rule arg_cong)
  with ps assms(3) show ?thesis by (simp add: of_heap_Some)
qed

lemma level_rep_distinct: "level_rep h r l ps \<Longrightarrow> distinct ps"
  by (simp add: level_rep_def level_links_def)

lemma level_rep_member_le:
  assumes "level_rep h r l ps" and "p \<in> set ps" and "h p = Some ord"
  shows "remainingQuantity ord \<le> totalQuantity l"
  using sum_list_unat_member_le [OF assms(2), of "rem_of h"] assms(3) level_rep_sum [OF assms(1)]
  by (auto simp: u64_le_iff of_heap_Some)

text \<open>A partial fill or a reduction: the order and the aggregate shrink by the same amount.\<close>

lemma level_rep_reduce:
  assumes rep: "level_rep h r l ps" and p: "p \<in> set ps" and hp: "h p = Some ord"
    and q: "q \<le> remainingQuantity ord"
  shows "level_rep (h(p \<mapsto> ord\<lparr>remainingQuantity := remainingQuantity ord - q\<rparr>)) r
           (l\<lparr>totalQuantity := totalQuantity l - q\<rparr>) ps"
proof (rule level_rep_quantity [OF rep hp])
  let ?ord = "ord\<lparr>remainingQuantity := remainingQuantity ord - q\<rparr>"
  have "q \<le> totalQuantity l" using level_rep_member_le [OF rep p hp] q by (rule order.trans [rotated])
  then show "sum_list (map (rem_of (h(p \<mapsto> ?ord))) ps) \<le> unat (totalQuantity l - q)"
    using sum_rem_upd [of ps p h ord ?ord, OF level_rep_distinct [OF rep] p hp] level_rep_sum [OF rep] q
    by (simp add: unat_sub_u64 u64_le_iff)
qed

text \<open>A full fill: the order's quantity drops to zero, the aggregate is left alone.\<close>

lemma level_rep_fill:
  assumes rep: "level_rep h r l ps" and p: "p \<in> set ps" and hp: "h p = Some ord"
    and q: "q \<le> remainingQuantity ord"
  shows "level_rep (h(p \<mapsto> ord\<lparr>remainingQuantity := q\<rparr>)) r l ps"
proof -
  let ?ord = "ord\<lparr>remainingQuantity := q\<rparr>"
  have "sum_list (map (rem_of (h(p \<mapsto> ?ord))) ps) \<le> unat (totalQuantity l)"
    using sum_rem_upd [of ps p h ord ?ord, OF level_rep_distinct [OF rep] p hp] level_rep_sum [OF rep] q
    by (simp add: u64_le_iff)
  from level_rep_quantity [OF rep hp this] show ?thesis by simp
qed

lemma level_rep_new: "level_rep h r (PriceLevel_new p) []"
  by (simp add: level_rep_def level_links_def PriceLevel_new_def)

lemma PriceLevel_isEmpty_rep: "level_rep h r l ps \<Longrightarrow> PriceLevel_isEmpty l \<longleftrightarrow> ps = []"
  by (simp add: level_rep_def PriceLevel_isEmpty_def)

lemma level_exact_add:
  assumes "level_exact h l ps" and "relinked A h h'" and "h p = Some ord"
    and "unat (totalQuantity l') = unat (totalQuantity l) + unat (remainingQuantity ord)"
  shows "level_exact h' l' (ps @ [p])"
  using assms by (simp add: level_exact_def relinked_rem of_heap_Some cong: map_cong)

lemma level_exact_remove:
  assumes ex: "level_exact h l ps" and rel: "relinked A h h'" and hp: "h p = Some ord"
    and p: "p \<in> set ps" "distinct ps"
    and t: "unat (totalQuantity l') = unat (totalQuantity l) - unat (remainingQuantity ord)"
  shows "level_exact h' l' (filter (\<lambda>q. q \<noteq> p) ps)"
proof -
  obtain xs ys where ps: "ps = xs @ p # ys" using split_list [OF p(1)] by blast
  have "filter (\<lambda>q. q \<noteq> p) ps = xs @ ys" using filter_neq_mid p(2) ps by metis
  moreover have "sum_list (map (rem_of h) ps) = unat (remainingQuantity ord) + sum_list (map (rem_of h) (xs @ ys))"
    using ps hp by (simp add: of_heap_Some)
  ultimately show ?thesis
    using ex t relinked_rem [OF rel] by (simp add: level_exact_def cong: map_cong)
qed

section \<open>The level as a FIFO interface\<close>

text \<open>
  What the book relies on: a level is a list of orders, appended to and unlinked from. The
  interface says of every call whether it is refused, with which error and then without any
  effect, or what it does to the list. A client may then run any sequence of calls.
\<close>

datatype 'p level_call = Link "'p option" | Unlink "'p option"

fun level_step :: "('p option \<Rightarrow> 's \<Rightarrow> (unit, 's) outcome) \<Rightarrow> ('p option \<Rightarrow> 's \<Rightarrow> (unit, 's) outcome)
    \<Rightarrow> 'p level_call \<Rightarrow> 's \<Rightarrow> (unit, 's) outcome" where
  "level_step push unlink (Link p) = push p"
| "level_step push unlink (Unlink p) = unlink p"

fun fifo_calls :: "('p option \<Rightarrow> 'p list \<Rightarrow> error option) \<Rightarrow> ('p option \<Rightarrow> 'p list \<Rightarrow> error option)
    \<Rightarrow> 'p level_call list \<Rightarrow> 'p list \<Rightarrow> error option list \<times> 'p list" where
  "fifo_calls link_error unlink_error [] ps = ([], ps)"
| "fifo_calls link_error unlink_error (Link p # cs) ps =
     (let e = link_error p ps; qs = (if e = None then ps @ [the p] else ps)
      in case fifo_calls link_error unlink_error cs qs of (es, rs) \<Rightarrow> (e # es, rs))"
| "fifo_calls link_error unlink_error (Unlink p # cs) ps =
     (let e = unlink_error p ps; qs = (if e = None then filter (\<lambda>q. q \<noteq> the p) ps else ps)
      in case fifo_calls link_error unlink_error cs qs of (es, rs) \<Rightarrow> (e # es, rs))"

fun error_of :: "('a, 's) outcome \<Rightarrow> error option" where
  "error_of (Ret x s) = None"
| "error_of (Throw e s) = Some e"

locale fifo_level =
  fixes ok :: "'s \<Rightarrow> 'p list \<Rightarrow> bool"
    and push :: "'p option \<Rightarrow> 's \<Rightarrow> (unit, 's) outcome" and unlink :: "'p option \<Rightarrow> 's \<Rightarrow> (unit, 's) outcome"
    and push_error :: "'p option \<Rightarrow> 'p list \<Rightarrow> error option" and unlink_error :: "'p option \<Rightarrow> 'p list \<Rightarrow> error option"
  assumes push_accepted: "ok s ps \<Longrightarrow> push_error p ps = None \<Longrightarrow> \<exists>s'. push p s = Ret () s' \<and> ok s' (ps @ [the p])"
    and push_refused: "ok s ps \<Longrightarrow> push_error p ps = Some e \<Longrightarrow> push p s = Throw e s"
    and unlink_accepted: "ok s ps \<Longrightarrow> unlink_error p ps = None \<Longrightarrow> \<exists>s'. unlink p s = Ret () s' \<and> ok s' (filter (\<lambda>q. q \<noteq> the p) ps)"
    and unlink_refused: "ok s ps \<Longrightarrow> unlink_error p ps = Some e \<Longrightarrow> unlink p s = Throw e s"
begin

lemma step_ok:
  assumes "ok s ps" and "fifo_calls push_error unlink_error [c] ps = ([e], qs)"
  shows "error_of (level_step push unlink c s) = e \<and> ok (state_of (level_step push unlink c s)) qs"
proof (cases c)
  case (Link p)
  with assms(2) have "push_error p ps = e" "qs = (if e = None then ps @ [the p] else ps)" by (auto simp: Let_def)
  with push_accepted [OF assms(1), of p] push_refused [OF assms(1), of p] Link show ?thesis using assms(1) by (cases e) auto
next
  case (Unlink p)
  with assms(2) have "unlink_error p ps = e" "qs = (if e = None then filter (\<lambda>q. q \<noteq> the p) ps else ps)" by (auto simp: Let_def)
  with unlink_accepted [OF assms(1), of p] unlink_refused [OF assms(1), of p] Unlink show ?thesis using assms(1) by (cases e) auto
qed

lemma step_split:
  obtains e qs where "fifo_calls push_error unlink_error [c] ps = ([e], qs)"
    "\<And>cs. fifo_calls push_error unlink_error (c # cs) ps = (case fifo_calls push_error unlink_error cs qs of (es, rs) \<Rightarrow> (e # es, rs))"
  by (cases c) (auto simp: Let_def)

lemma calls_ok:
  assumes "ok s ps" and "run_calls (level_step push unlink) cs s = (rs, s')"
    and "fifo_calls push_error unlink_error cs ps = (es, qs)"
  shows "map error_of rs = es \<and> ok s' qs"
  using assms
proof (induction cs arbitrary: s ps rs es)
  case (Cons c cs)
  obtain e ps1 where c: "fifo_calls push_error unlink_error [c] ps = ([e], ps1)"
    "fifo_calls push_error unlink_error (c # cs) ps = (case fifo_calls push_error unlink_error cs ps1 of (es, rs) \<Rightarrow> (e # es, rs))"
    using step_split [of c ps] by metis
  note st = step_ok [OF Cons.prems(1) c(1)]
  from Cons.prems(2) obtain rs1 where rs: "run_calls (level_step push unlink) cs (state_of (level_step push unlink c s)) = (rs1, s')"
    "rs = level_step push unlink c s # rs1" by (auto simp: Let_def split: prod.splits)
  from Cons.prems(3) obtain es1 where es: "fifo_calls push_error unlink_error cs ps1 = (es1, qs)" "es = e # es1"
    unfolding c(2) by (auto split: prod.splits)
  from Cons.IH [OF conjunct2 [OF st] rs(1) es(1)] st rs(2) es(2) show ?case by simp
qed simp

end

text \<open>
  The model's instance. An order that stands on another level stays there; otherwise a call
  is refused by the price, by membership, by a zero quantity or because the exact sum of the
  resting quantities would pass the width of the total.
\<close>

definition elsewhere :: "level_ref \<Rightarrow> order \<Rightarrow> bool" where
  "elsewhere r ord \<longleftrightarrow> priceLevel ord \<noteq> None \<and> priceLevel ord \<noteq> Some r"

definition link_error :: "heap \<Rightarrow> level_ref \<Rightarrow> u64 \<Rightarrow> ptr option \<Rightarrow> ptr list \<Rightarrow> error option" where
  "link_error h r pr pointer ps =
     (case pointer of
        None \<Rightarrow> Some (InvalidArgument ''Cannot add a null order'')
      | Some p \<Rightarrow>
     (case h p of
        None \<Rightarrow> Some (UndefinedBehaviour ''read of an order that is not alive'')
      | Some ord \<Rightarrow>
        if price ord \<noteq> pr then Some (InvalidArgument ''Order price does not match price level'')
        else if p \<in> set ps \<or> elsewhere r ord then Some (InvalidArgument ''Order already belongs to a price level'')
        else if remainingQuantity ord = 0 then Some (InvalidArgument ''Cannot add a fully filled order'')
        else if unat (remainingQuantity ord) + sum_list (map (rem_of h) ps) \<ge> SIZE_RANGE
        then Some (OverflowError ''Price level quantity overflow'') else None))"

definition unlink_error :: "heap \<Rightarrow> ptr option \<Rightarrow> ptr list \<Rightarrow> error option" where
  "unlink_error h pointer ps =
     (case pointer of
        None \<Rightarrow> Some (InvalidArgument ''Order does not belong to this price level'')
      | Some p \<Rightarrow>
        if h p = None then Some (UndefinedBehaviour ''read of an order that is not alive'')
        else if p \<notin> set ps then Some (InvalidArgument ''Order does not belong to this price level'') else None)"

text \<open>
  A level with an exact total whose members are the orders that point to it; \<open>level_state\<close>
  is the same relative to the store \<open>h0\<close> at the start of a run, which gives the contents of
  the orders and says which of them stand on other levels.
\<close>

definition level_sound :: "level_ref \<Rightarrow> price_level \<times> heap \<Rightarrow> ptr list \<Rightarrow> bool" where
  "level_sound r s ps \<longleftrightarrow>
     level_rep (snd s) r (fst s) ps \<and> level_exact (snd s) (fst s) ps \<and> (\<forall>p \<in> set ps. rem_of (snd s) p \<noteq> 0) \<and>
     (\<forall>p ord. snd s p = Some ord \<and> priceLevel ord = Some r \<longrightarrow> p \<in> set ps)"

definition level_state :: "heap \<Rightarrow> level_ref \<Rightarrow> u64 \<Rightarrow> price_level \<times> heap \<Rightarrow> ptr list \<Rightarrow> bool" where
  "level_state h0 r pr s ps \<longleftrightarrow>
     level_sound r s ps \<and> levelPrice (fst s) = pr \<and> relinked UNIV h0 (snd s) \<and>
     (\<forall>p ord ord0. snd s p = Some ord \<and> h0 p = Some ord0 \<longrightarrow> elsewhere r ord = elsewhere r ord0)"

lemma level_state_start: "level_sound r (l, h) ps \<Longrightarrow> level_state h r (levelPrice l) (l, h) ps"
  by (auto simp: level_state_def)

lemma level_stateD:
  assumes "level_state h0 r pr (l, h) ps"
  shows "level_rep h r l ps" "level_exact h l ps" "p \<in> set ps \<Longrightarrow> rem_of h p \<noteq> 0"
    "h p = Some ord \<Longrightarrow> priceLevel ord = Some r \<longleftrightarrow> p \<in> set ps" "levelPrice l = pr" "relinked UNIV h0 h"
    "h p = Some ord \<Longrightarrow> h0 p = Some ord0 \<Longrightarrow> elsewhere r ord = elsewhere r ord0"
    "h p = Some ord \<Longrightarrow> h0 p = Some ord0 \<Longrightarrow> price ord = price ord0 \<and> remainingQuantity ord = remainingQuantity ord0"
    "h0 p = None \<longleftrightarrow> h p = None" "rem_of h = rem_of h0"
proof -
  show "level_rep h r l ps" "level_exact h l ps" "p \<in> set ps \<Longrightarrow> rem_of h p \<noteq> 0" "levelPrice l = pr"
    and rel: "relinked UNIV h0 h"
    and "h p = Some ord \<Longrightarrow> h0 p = Some ord0 \<Longrightarrow> elsewhere r ord = elsewhere r ord0"
    using assms by (auto simp: level_state_def level_sound_def)
  show "priceLevel ord = Some r \<longleftrightarrow> p \<in> set ps" if "h p = Some ord"
    using assms that level_rep_memD [of h r l ps p] unfolding level_state_def level_sound_def by auto
  show "h0 p = None \<longleftrightarrow> h p = None" "rem_of h = rem_of h0"
    using relinked_None [OF rel] relinked_rem [OF rel] by (auto simp: fun_eq_iff)
  show "price ord = price ord0 \<and> remainingQuantity ord = remainingQuantity ord0" if "h p = Some ord" "h0 p = Some ord0"
    using relinked_strip [OF rel, of p] that strip_eqD [of ord ord0] by simp
qed

lemma level_state_step:
  assumes st: "level_state h0 r pr (l, h) ps" and rep: "level_rep h' r l' qs" and ex: "level_exact h' l' qs" and pr: "levelPrice l' = levelPrice l"
    and rel: "relinked A h h'" and nz: "\<And>q. q \<in> set qs \<Longrightarrow> rem_of h q \<noteq> 0"
    and at: "\<And>q ord. q \<in> A \<Longrightarrow> h' q = Some ord \<Longrightarrow> q \<in> set qs \<and> priceLevel ord = Some r \<or> q \<notin> set qs \<and> priceLevel ord = None"
    and A: "set ps \<subseteq> A" "\<And>q ord. q \<in> A \<Longrightarrow> h q = Some ord \<Longrightarrow> \<not> elsewhere r ord"
  shows "level_state h0 r pr (l', h') qs"
proof -
  note D = level_stateD [OF st]
  have same: "h' q = h q" if "q \<notin> A" for q by (rule relinked_frame [OF rel that])
  have "q \<in> set qs" if "h' q = Some ord" "priceLevel ord = Some r" for q ord
    using that at [of q ord] same [of q] D(4) [of q ord] A(1) by (cases "q \<in> A") auto
  then have "level_sound r (l', h') qs"
    using rep ex nz relinked_rem [OF rel] by (auto simp: level_sound_def)
  moreover have "relinked UNIV h0 h'" using D(6) rel by (simp add: relinked_def)
  moreover have "elsewhere r ord = elsewhere r ord0" if q: "h' q = Some ord" "h0 q = Some ord0" for q ord ord0
  proof (cases "q \<in> A")
    case True
    obtain ord1 where "h q = Some ord1" using relinked_None [OF rel, of q] q(1) by (cases "h q") auto
    with D(7) [OF this q(2)] A(2) [OF True] at [OF True q(1)] show ?thesis by (auto simp: elsewhere_def)
  next
    case False
    with same q(1) D(7) [OF _ q(2)] show ?thesis by simp
  qed
  ultimately show ?thesis using D(5) pr by (auto simp: level_state_def)
qed

lemma level_link_ok:
  assumes st: "level_state h0 r pr s ps" and ok: "link_error h0 r pr p ps = None"
  shows "\<exists>s'. PriceLevel_addOrder r p s = Ret () s' \<and> level_state h0 r pr s' (ps @ [the p])"
proof -
  obtain l h where s: "s = (l, h)" by (cases s)
  note st' = st [unfolded s] and D = level_stateD [OF st [unfolded s]]
  obtain q ord0 where q: "p = Some q" "h0 q = Some ord0" "price ord0 = pr" "q \<notin> set ps" "\<not> elsewhere r ord0" "remainingQuantity ord0 \<noteq> 0"
    "unat (remainingQuantity ord0) + sum_list (map (rem_of h0) ps) < SIZE_RANGE"
    using ok by (auto simp: link_error_def split: option.splits if_splits)
  obtain ord where ord: "h q = Some ord" using D(9) [of q] q(2) by (cases "h q") auto
  have c: "price ord = levelPrice l" "remainingQuantity ord = remainingQuantity ord0" "\<not> elsewhere r ord" "priceLevel ord \<noteq> Some r"
    using D(4,7,8) ord q D(5) by auto
  then have un: "priceLevel ord = None" by (cases "priceLevel ord") (auto simp: elsewhere_def)
  have nz: "list_all (\<lambda>q. rem_of h q \<noteq> 0) ps" using D(3) by (simp add: list_all_iff)
  have fits: "unat (remainingQuantity ord) + unat (totalQuantity l) < SIZE_RANGE"
    using q(7) D(2) c(2) D(10) by (simp add: level_exact_def)
  obtain l' h' where r: "PriceLevel_addOrder r (Some q) (l, h) = Ret () (l', h')" "level_rep h' r l' (ps @ [q])" "levelPrice l' = levelPrice l"
    "unat (totalQuantity l') = unat (totalQuantity l) + unat (remainingQuantity ord)" "relinked (set (ps @ [q])) h h'"
    by (rule PriceLevel_addOrder_ok [OF D(1) ord c(1) un _ nz fits]) (use c(2) q(6) in auto)
  have "level_state h0 r pr (l', h') (ps @ [q])"
  proof (rule level_state_step [OF st' r(2) level_exact_add [OF D(2) r(5) ord r(4)] r(3,5)])
    show "rem_of h x \<noteq> 0" if "x \<in> set (ps @ [q])" for x using that D(3) ord c(2) q(6) by (auto simp: of_heap_Some u64_eq_0_iff)
    show "x \<in> set (ps @ [q]) \<and> priceLevel o' = Some r \<or> x \<notin> set (ps @ [q]) \<and> priceLevel o' = None"
      if "x \<in> set (ps @ [q])" "h' x = Some o'" for x o' using level_rep_memD [OF r(2) that(1)] that by auto
    show "\<not> elsewhere r o'" if "x \<in> set (ps @ [q])" "h x = Some o'" for x o'
      using that D(4) [of x o'] un ord by (auto simp: elsewhere_def)
  qed auto
  with r(1) show ?thesis by (simp add: s q(1))
qed

lemma addOrder_overflow: "a > - 1 - (t :: u64) \<longleftrightarrow> SIZE_RANGE \<le> unat a + unat t"
proof -
  have "unat (- 1 - t) = SIZE_RANGE - 1 - unat t" using unat_sub_u64 [of t "- 1", OF word_order.extremum] by simp
  then show ?thesis unfolding u64_less_iff using unat_less_range [of t] by linarith
qed

lemma level_link_throws:
  assumes st: "level_state h0 r pr s ps" and e: "link_error h0 r pr p ps = Some e"
  shows "PriceLevel_addOrder r p s = Throw e s"
proof -
  obtain l h where s: "s = (l, h)" by (cases s)
  note D = level_stateD [OF st [unfolded s]]
  show ?thesis
  proof (cases p)
    case (Some q)
    show ?thesis
    proof (cases "h q")
      case None
      with e Some D(9) [of q] show ?thesis by (simp add: link_error_def PriceLevel_addOrder_def s)
    next
      case (Some ord)
      then obtain ord0 where o0: "h0 q = Some ord0" using D(9) [of q] by (cases "h0 q") auto
      have c: "price ord0 = price ord" "remainingQuantity ord0 = remainingQuantity ord" "levelPrice l = pr"
        "priceLevel ord \<noteq> None \<longleftrightarrow> q \<in> set ps \<or> elsewhere r ord0"
        using D(4,7,8) [OF Some] D(5) o0 by (auto simp: elsewhere_def)
      have t: "unat (totalQuantity l) = sum_list (map (rem_of h0) ps)" using D(2,10) by (simp add: level_exact_def)
      have "SIZE_RANGE \<le> unat (remainingQuantity ord) + sum_list (map (rem_of h0) ps) \<longleftrightarrow> remainingQuantity ord > - 1 - totalQuantity l"
        unfolding addOrder_overflow t ..
      then show ?thesis using e \<open>p = Some q\<close> Some o0 c
        by (auto simp: link_error_def PriceLevel_addOrder_def s isFullyFilled_def split: if_splits)
    qed
  qed (use e in \<open>simp add: link_error_def PriceLevel_addOrder_def s\<close>)
qed

lemma level_unlink_ok:
  assumes st: "level_state h0 r pr s ps" and ok: "unlink_error h0 p ps = None"
  shows "\<exists>s'. PriceLevel_removeOrder r p s = Ret () s' \<and> level_state h0 r pr s' (filter (\<lambda>q. q \<noteq> the p) ps)"
proof -
  obtain l h where s: "s = (l, h)" by (cases s)
  note st' = st [unfolded s] and D = level_stateD [OF st [unfolded s]]
  obtain q where q: "p = Some q" "q \<in> set ps" using ok by (auto simp: unlink_error_def split: option.splits if_splits)
  obtain ord where ord: "h q = Some ord" using level_rep_memD [OF D(1) q(2)] by blast
  let ?qs = "filter (\<lambda>x. x \<noteq> q) ps"
  obtain l' h' where r: "PriceLevel_removeOrder r (Some q) (l, h) = Ret () (l', h')" "level_rep h' r l' ?qs" "levelPrice l' = levelPrice l"
    "unat (totalQuantity l') = unat (totalQuantity l) - unat (remainingQuantity ord)" "relinked (set ps) h h'" "h' q = Some (strip ord)"
    by (rule PriceLevel_removeOrder_ok [OF D(1) q(2) ord])
  have "level_state h0 r pr (l', h') ?qs"
  proof (rule level_state_step [OF st' r(2) level_exact_remove [OF D(2) r(5) ord q(2) level_rep_distinct [OF D(1)] r(4)] r(3,5)])
    show "x \<in> set ?qs \<and> priceLevel o' = Some r \<or> x \<notin> set ?qs \<and> priceLevel o' = None"
      if "x \<in> set ps" "h' x = Some o'" for x o'
    proof (cases "x = q")
      case True
      with that r(6) show ?thesis by (auto simp: strip_def)
    next
      case False
      with that have x: "x \<in> set ?qs" by simp
      with level_rep_memD [OF r(2) x] that show ?thesis by auto
    qed
    show "\<not> elsewhere r o'" if "x \<in> set ps" "h x = Some o'" for x o'
      using that D(4) [of x o'] by (auto simp: elsewhere_def)
  qed (use D(3) in auto)
  with r(1) show ?thesis by (simp add: s q(1))
qed

lemma level_unlink_throws:
  assumes st: "level_state h0 r pr s ps" and e: "unlink_error h0 p ps = Some e"
  shows "PriceLevel_removeOrder r p s = Throw e s"
proof -
  obtain l h where s: "s = (l, h)" by (cases s)
  note D = level_stateD [OF st [unfolded s]]
  show ?thesis
    using e D(4) D(9) unfolding unlink_error_def PriceLevel_removeOrder_def s
    by (auto split: option.splits if_splits)
qed

interpretation lvl: fifo_level "level_state h0 r pr" "PriceLevel_addOrder r" "PriceLevel_removeOrder r" "link_error h0 r pr" "unlink_error h0"
  for h0 r pr
  by unfold_locales (fact level_link_ok level_link_throws level_unlink_ok level_unlink_throws)+

section \<open>Properties\<close>


section \<open>Witnesses\<close>

text \<open>Three orders at one price and one at another, none of them on a level yet.\<close>

definition demo_heap :: heap where
  "demo_heap = [10 \<mapsto> Order_full 1 7 1 1 9 SELL LIMIT 1, 20 \<mapsto> Order_full 2 7 2 2 9 SELL LIMIT 2,
     30 \<mapsto> Order_full 3 7 3 3 9 SELL LIMIT 3, 40 \<mapsto> Order_full 4 8 4 4 9 SELL LIMIT 4]"


end
