(* ===== verification/Price_Ladder.thy ===== *)
theory Price_Ladder
  imports Price_Level
begin

text \<open>
  \<open>PriceLadder\<close> (\<open>price_ladder.hpp\<close>, \<open>price_ladder.cpp\<close>): one side of the book as an array of
  price levels indexed by tick, an occupancy bitset of 64-bit words and a cached best index.
  The lemmas show that the index arithmetic is a bijection between ladder prices and
  indices, that the two-phase bit scan finds the next occupied index, and that the cached
  best index is the least occupied one after every update.
\<close>

section \<open>Model\<close>

record price_ladder =
  minPrice :: u64
  tickSize :: u64
  maxPrice :: u64
  levelCount :: nat
  descending :: bool
  levels :: "price_level list"
  words :: "u64 list"
  bestIndex :: nat
  occupied :: nat

definition PriceLadder_new :: "u64 \<Rightarrow> u64 \<Rightarrow> nat \<Rightarrow> bool \<Rightarrow> error + price_ladder" where
  "PriceLadder_new mn tick lc desc =
     (if mn = 0 then Inl (InvalidArgument ''PriceLadder minPrice must be nonzero'')
      else if tick = 0 then Inl (InvalidArgument ''PriceLadder tickSize must be nonzero'')
      else if lc = 0 then Inl (InvalidArgument ''PriceLadder levelCount must be nonzero'')
      else let span = word_of_nat (lc - 1) :: u64 in
        if tick \<noteq> 0 \<and> span > (- 1 - mn) div tick
        then Inl (InvalidArgument ''PriceLadder range overflows a 64-bit price'')
        else let mx = mn + span * tick in
          Inr \<lparr>minPrice = mn, tickSize = tick, maxPrice = mx, levelCount = lc, descending = desc,
               levels = map (\<lambda>i. PriceLevel_new
                 (if desc then mx - word_of_nat i * tick else mn + word_of_nat i * tick)) [0..<lc],
               words = replicate ((lc + 63) div 64) 0,
               bestIndex = npos, occupied = 0\<rparr>)"

definition indexOf :: "u64 \<Rightarrow> price_ladder \<Rightarrow> error + nat" where
  "indexOf raw L =
     (if raw > maxPrice L \<or> raw < minPrice L
      then Inl (OutOfRange ''Price is outside the configured ladder range'')
      else let off = (if descending L then maxPrice L - raw else raw - minPrice L) in
        if off mod tickSize L \<noteq> 0
        then Inl (InvalidArgument ''Price does not fall on a configured tick boundary'')
        else Inr (unat (off div tickSize L)))"

text \<open>\<open>levelAt\<close> returns a reference into \<open>levels\<close>: here the index it refers to.\<close>

definition levelAt :: "u64 \<Rightarrow> price_ladder \<Rightarrow> error + nat" where
  "levelAt raw L =
     (case indexOf raw L of
        Inl e \<Rightarrow> Inl e
      | Inr i \<Rightarrow> if i < length (levels L) then Inr i
                 else Inl (UndefinedBehaviour ''level index out of range''))"

text \<open>\<open>std::countr_zero\<close>: the number of consecutive zero bits from the least significant one.\<close>

definition countr_zero :: "u64 \<Rightarrow> nat" where
  "countr_zero w = length (takeWhile (\<lambda>i. \<not> bit w i) [0..<64])"

fun scan_words :: "nat \<Rightarrow> nat \<Rightarrow> u64 list \<Rightarrow> nat" where
  "scan_words lc k [] = npos"
| "scan_words lc k (w # ws) =
     (if w \<noteq> 0 then (let i = k * 64 + countr_zero w in if i < lc then i else npos)
      else scan_words lc (Suc k) ws)"

definition nextSetBit :: "nat \<Rightarrow> price_ladder \<Rightarrow> nat" where
  "nextSetBit from L =
     (if from \<ge> levelCount L then npos
      else let startWord = from div 64; startBit = from mod 64;
               firstWord = drop_bit startBit (words L ! startWord) in
        if firstWord \<noteq> 0 then from + countr_zero firstWord
        else scan_words (levelCount L) (startWord + 1) (drop (startWord + 1) (words L)))"

definition markOccupied :: "u64 \<Rightarrow> price_ladder \<Rightarrow> (unit, price_ladder) outcome" where
  "markOccupied raw L =
     (case indexOf raw L of
        Inl e \<Rightarrow> Throw e L
      | Inr i \<Rightarrow>
        if i div 64 \<ge> length (words L)
        then Throw (UndefinedBehaviour ''occupancy word out of range'') L
        else Ret () (L\<lparr>words := (words L)[i div 64 := (words L ! (i div 64)) OR push_bit (i mod 64) 1],
               bestIndex := (if occupied L = 0 \<or> i < bestIndex L then i else bestIndex L),
               occupied := sz_inc (occupied L)\<rparr>))"

definition markEmpty :: "u64 \<Rightarrow> price_ladder \<Rightarrow> (unit, price_ladder) outcome" where
  "markEmpty raw L =
     (case indexOf raw L of
        Inl e \<Rightarrow> Throw e L
      | Inr i \<Rightarrow>
        if i div 64 \<ge> length (words L)
        then Throw (UndefinedBehaviour ''occupancy word out of range'') L
        else let L1 = L\<lparr>words := (words L)[i div 64 := (words L ! (i div 64)) AND NOT (push_bit (i mod 64) 1)],
                        occupied := sz_dec (occupied L)\<rparr> in
          Ret () (if i = bestIndex L1
                  then L1\<lparr>bestIndex := (if occupied L1 = 0 then npos else nextSetBit (i + 1) L1)\<rparr>
                  else L1))"

definition best :: "price_ladder \<Rightarrow> nat option" where
  "best L = (if bestIndex L = npos then None else Some (bestIndex L))"

text \<open>
  \<open>forEachOccupied\<close> calls its argument on at most \<open>maxLevels\<close> levels: the indices it visits,
  in order, starting from the index in the second argument (\<open>bestIndex\<close> in the code).
\<close>

fun visited :: "nat \<Rightarrow> nat \<Rightarrow> price_ladder \<Rightarrow> nat list" where
  "visited 0 i L = []"
| "visited (Suc n) i L = (if i = npos then [] else i # visited n (nextSetBit (i + 1) L) L)"

definition forEachOccupied :: "nat \<Rightarrow> (price_level \<Rightarrow> 'a) \<Rightarrow> price_ladder \<Rightarrow> 'a list" where
  "forEachOccupied maxLevels fn L = map (\<lambda>i. fn (levels L ! i)) (visited maxLevels (bestIndex L) L)"

section \<open>Well-formedness\<close>

text \<open>The price at an index, and the indices whose occupancy bit is set.\<close>

definition price_at :: "price_ladder \<Rightarrow> nat \<Rightarrow> u64" where
  "price_at L i =
     (if descending L then maxPrice L - word_of_nat i * tickSize L
      else minPrice L + word_of_nat i * tickSize L)"

definition bits_of :: "u64 list \<Rightarrow> nat set" where
  "bits_of ws = {i. i < 64 * length ws \<and> bit (ws ! (i div 64)) (i mod 64)}"

abbreviation occ_set :: "price_ladder \<Rightarrow> nat set" where
  "occ_set L \<equiv> bits_of (words L)"

definition ladder_shape :: "price_ladder \<Rightarrow> bool" where
  "ladder_shape L \<longleftrightarrow>
     0 < levelCount L \<and> levelCount L < SIZE_RANGE \<and> minPrice L \<noteq> 0 \<and> tickSize L \<noteq> 0 \<and>
     unat (maxPrice L) = unat (minPrice L) + (levelCount L - 1) * unat (tickSize L) \<and>
     length (levels L) = levelCount L \<and> length (words L) = (levelCount L + 63) div 64 \<and>
     (\<forall>i < levelCount L. levelPrice (levels L ! i) = price_at L i)"

definition ladder_ok :: "price_ladder \<Rightarrow> bool" where
  "ladder_ok L \<longleftrightarrow>
     ladder_shape L \<and> occ_set L \<subseteq> {..<levelCount L} \<and> occupied L = card (occ_set L) \<and>
     bestIndex L = (if occ_set L = {} then npos else Min (occ_set L))"

section \<open>Lemmas\<close>

subsection \<open>Bits\<close>

lemma countr_zero_spec:
  assumes "w \<noteq> (0 :: u64)"
  shows "bit w (countr_zero w)" and "countr_zero w < 64" and "j < countr_zero w \<Longrightarrow> \<not> bit w j"
proof -
  let ?t = "takeWhile (\<lambda>i. \<not> bit w i) [0..<64]"
  from assms obtain k where "bit w k" by (auto simp: bit_eq_iff)
  moreover from this have "k < 64" by (auto dest: bit_imp_le_length)
  ultimately have k: "bit w k" "k < 64" .
  have lt: "length ?t < 64"
  proof (rule ccontr)
    assume "\<not> length ?t < 64"
    then have "?t = [0..<64]" using length_takeWhile_le [of "\<lambda>i. \<not> bit w i" "[0..<64]"]
      by (metis diff_zero length_upt linorder_not_less nat_less_le takeWhile_eq_take take_all)
    then have "\<forall>i \<in> set [0..<64]. \<not> bit w i" by (metis set_takeWhileD)
    with k show False by auto
  qed
  then show "countr_zero w < 64" by (simp add: countr_zero_def)
  have "\<not> \<not> bit w ([0..<64] ! length ?t)"
    by (rule nth_length_takeWhile) (use lt in simp)
  with lt show "bit w (countr_zero w)" by (simp add: countr_zero_def)
  show "\<not> bit w j" if "j < countr_zero w"
    using that lt takeWhile_nth [of j "\<lambda>i. \<not> bit w i" "[0..<64]"] nth_mem [of j ?t]
    by (auto simp: countr_zero_def dest!: set_takeWhileD)
qed

lemma bits_of_finite [simp]: "finite (bits_of ws)"
  by (auto simp: bits_of_def)

lemma bits_of_replicate [simp]: "bits_of (replicate n 0) = {}"
proof -
  have "i div 64 < n" if "i < 64 * n" for i :: nat using that by auto
  then show ?thesis by (auto simp: bits_of_def)
qed

lemma div_mod_64_eq: "j div 64 = i div 64 \<Longrightarrow> j mod 64 = i mod 64 \<longleftrightarrow> j = (i :: nat)"
  by (metis div_mult_mod_eq)

lemma bits_of_update:
  assumes "k < length ws"
  shows "i \<in> bits_of (ws[k := w]) \<longleftrightarrow> (if i div 64 = k then bit w (i mod 64) else i \<in> bits_of ws)"
proof -
  have "i < 64 * length ws" if "i div 64 = k" using assms that by auto
  then show ?thesis by (auto simp: bits_of_def nth_list_update assms)
qed

lemma mem_bits_of: "i div 64 < length ws \<Longrightarrow> i \<in> bits_of ws \<longleftrightarrow> bit (ws ! (i div 64)) (i mod 64)"
  by (auto simp: bits_of_def)

lemma bit_one_shift: "bit (2 ^ n :: u64) m \<longleftrightarrow> m = n \<and> n < 64"
  by (auto simp: bit_exp_iff)

lemma bits_of_set:
  assumes "i div 64 < length ws"
  shows "bits_of (ws[i div 64 := (ws ! (i div 64)) OR push_bit (i mod 64) 1]) = insert i (bits_of ws)"
proof (rule set_eqI)
  fix j
  show "j \<in> bits_of (ws[i div 64 := (ws ! (i div 64)) OR push_bit (i mod 64) 1]) \<longleftrightarrow> j \<in> insert i (bits_of ws)"
    using assms mem_bits_of [of j ws]
    by (cases "j div 64 = i div 64") (auto simp: bits_of_update bit_or_iff bit_one_shift div_mod_64_eq)
qed

lemma bits_of_clear:
  assumes "i div 64 < length ws"
  shows "bits_of (ws[i div 64 := (ws ! (i div 64)) AND NOT (push_bit (i mod 64) 1)]) = bits_of ws - {i}"
proof (rule set_eqI)
  fix j
  show "j \<in> bits_of (ws[i div 64 := (ws ! (i div 64)) AND NOT (push_bit (i mod 64) 1)]) \<longleftrightarrow> j \<in> bits_of ws - {i}"
    using assms mem_bits_of [of j ws]
    by (cases "j div 64 = i div 64")
      (auto simp: bits_of_update bit_and_iff bit_not_iff bit_one_shift div_mod_64_eq)
qed

lemma bits_of_word0: "k < length ws \<Longrightarrow> ws ! k = 0 \<Longrightarrow> i div 64 = k \<Longrightarrow> i \<notin> bits_of ws"
  by (auto simp: bits_of_def)

text \<open>What the scan returns: the least set index from a starting point on, or \<open>npos\<close>.\<close>

definition is_next :: "nat set \<Rightarrow> nat \<Rightarrow> nat \<Rightarrow> bool" where
  "is_next S from r \<longleftrightarrow>
     (r = npos \<and> (\<forall>i \<in> S. i < from)) \<or> (r \<in> S \<and> from \<le> r \<and> (\<forall>i \<in> S. from \<le> i \<longrightarrow> r \<le> i))"

lemma is_next_skip:
  assumes "is_next S b r" and "\<forall>i \<in> S. i < a \<or> b \<le> i" and "a \<le> b"
  shows "is_next S a r"
  using assms unfolding is_next_def by (meson leD le_less_linear order.trans)

lemma block_64: "i = 64 * k + b \<Longrightarrow> b < 64 \<Longrightarrow> i div 64 = k \<and> i mod 64 = (b :: nat)"
  by simp

lemma block_from:
  "from = 64 * k + b \<Longrightarrow> from \<le> i \<Longrightarrow> i < 64 * Suc k \<Longrightarrow> i = 64 * k + (b + (i - from)) \<and> b + (i - from) < (64 :: nat)"
  by simp

lemma block_end: "b + z < 64 \<Longrightarrow> from = 64 * k + b \<Longrightarrow> from + z < 64 * Suc (k :: nat)"
  by simp

lemma if_less_min: "(if i < m then i else m) = min i (m :: nat)"
  by simp

lemma scan_words_next:
  assumes "bits_of ws \<subseteq> {..<lc}"
  shows "k \<le> length ws \<Longrightarrow> is_next (bits_of ws) (64 * k) (scan_words lc k (drop k ws))"
proof (induction "drop k ws" arbitrary: k)
  case Nil
  then have "k = length ws" by auto
  then show ?case by (auto simp: is_next_def bits_of_def)
next
  case (Cons w vs)
  have lt: "k < length ws" using Cons.hyps(2) by (metis drop_all list.distinct(1) not_less)
  with Cons.hyps(2) have k: "k < length ws" "w = ws ! k" "vs = drop (Suc k) ws"
    by (simp_all add: Cons_nth_drop_Suc [OF lt, symmetric])
  show ?case
  proof (cases "w = 0")
    case True
    have IH: "is_next (bits_of ws) (64 * Suc k) (scan_words lc (Suc k) (drop (Suc k) ws))"
      by (rule Cons.hyps(1)) (use k in auto)
    have skip: "\<forall>i \<in> bits_of ws. i < 64 * k \<or> 64 * Suc k \<le> i"
      using bits_of_word0 [OF k(1)] True k(2) by (metis div_nat_eqI linorder_not_less mult.commute)
    from IH skip have "is_next (bits_of ws) (64 * k) (scan_words lc (Suc k) (drop (Suc k) ws))"
      by (rule is_next_skip) simp
    then show ?thesis
      unfolding Cons.hyps(2) [symmetric] k(3) using True by simp
  next
    case False
    let ?r = "k * 64 + countr_zero w"
    note z = countr_zero_spec [OF False]
    have dm: "?r div 64 = k" "?r mod 64 = countr_zero w" using z(2) by auto
    have r: "?r \<in> bits_of ws" using dm z k by (auto simp: bits_of_def)
    moreover have "?r \<le> i" if "i \<in> bits_of ws" "64 * k \<le> i" for i
    proof (rule ccontr)
      assume "\<not> ?r \<le> i"
      define b where "b = i - 64 * k"
      with that(2) \<open>\<not> ?r \<le> i\<close> have b: "i = 64 * k + b" "b < countr_zero w" by simp_all
      with z(2) have "i div 64 = k" "i mod 64 = b" using block_64 [of i k b] by auto
      with z(3) b that k show False by (auto simp: bits_of_def)
    qed
    ultimately show ?thesis
      unfolding Cons.hyps(2) [symmetric] using False assms by (auto simp: is_next_def)
  qed
qed


lemma nextSetBit_next:
  assumes sub: "occ_set L \<subseteq> {..<levelCount L}" and len: "length (words L) = (levelCount L + 63) div 64"
  shows "is_next (occ_set L) from (nextSetBit from L)"
proof (cases "from < levelCount L")
  case False
  with sub have "\<forall>i \<in> occ_set L. i < from" by auto
  with False show ?thesis by (simp add: nextSetBit_def is_next_def)
next
  case True
  let ?k = "from div 64" and ?b = "from mod 64"
  let ?w = "words L ! ?k"
  have k: "?k < length (words L)" using True len by auto
  have bit: "i \<in> occ_set L \<longleftrightarrow> bit (drop_bit ?b ?w) (i - from)" if "from \<le> i" "i < 64 * Suc ?k" for i
  proof -
    have "from = 64 * ?k + ?b" by simp
    from block_from [OF this that] have "i = 64 * ?k + (?b + (i - from))" "?b + (i - from) < 64" by blast+
    then have "i div 64 = ?k" "i mod 64 = ?b + (i - from)" using block_64 by blast+
    then show ?thesis using mem_bits_of [of i "words L"] k by (simp add: bit_drop_bit_eq)
  qed
  show ?thesis
  proof (cases "drop_bit ?b ?w = 0")
    case True
    have "is_next (occ_set L) (64 * Suc ?k) (scan_words (levelCount L) (Suc ?k) (drop (Suc ?k) (words L)))"
      by (rule scan_words_next [OF sub]) (use k in simp)
    then have "is_next (occ_set L) from (scan_words (levelCount L) (Suc ?k) (drop (Suc ?k) (words L)))"
    proof (rule is_next_skip)
      show "\<forall>i \<in> occ_set L. i < from \<or> 64 * Suc ?k \<le> i"
        using bit True by (metis bit_0_eq bot_apply bot_bool_def not_le)
    qed (metis (no_types) div_mult_mod_eq less_imp_le_nat mod_less_divisor mult.commute mult_Suc_right
          nat_add_left_cancel_less add.commute zero_less_numeral)
    with True \<open>from < levelCount L\<close> show ?thesis by (simp add: nextSetBit_def Let_def)
  next
    case False
    note z = countr_zero_spec [OF False]
    let ?r = "from + countr_zero (drop_bit ?b ?w)"
    have "?b + countr_zero (drop_bit ?b ?w) < 64"
      using z(1) bit_imp_le_length [of ?w] by (simp add: bit_drop_bit_eq)
    moreover have "from = 64 * ?k + ?b" by simp
    ultimately have lt: "?r < 64 * Suc ?k" by (rule block_end)
    have r: "?r \<in> occ_set L" using bit [of ?r] lt z(1) by simp
    moreover have "?r \<le> i" if "i \<in> occ_set L" "from \<le> i" for i
    proof (rule ccontr)
      assume "\<not> ?r \<le> i"
      then have "i - from < countr_zero (drop_bit ?b ?w)" "i < 64 * Suc ?k" using lt that by auto
      with z(3) bit that show False by blast
    qed
    ultimately show ?thesis
      using False \<open>from < levelCount L\<close> by (simp add: nextSetBit_def is_next_def Let_def)
  qed
qed

lemma is_next_Min:
  assumes "is_next S from r" and "S \<noteq> {}" and "finite S" and "\<forall>i \<in> S. from \<le> i"
  shows "r = Min S"
proof -
  from assms(2,4) have "\<not> (\<forall>i \<in> S. i < from)" by force
  with assms(1,4) have "r \<in> S" "\<forall>i \<in> S. r \<le> i" unfolding is_next_def by blast+
  with assms(3) show ?thesis by (metis Min_eqI)
qed

subsection \<open>Marking levels\<close>

text \<open>Two ladders over the same prices: only occupancy and level contents may differ.\<close>

definition grid_eq :: "price_ladder \<Rightarrow> price_ladder \<Rightarrow> bool" where
  "grid_eq L L' \<longleftrightarrow> minPrice L' = minPrice L \<and> tickSize L' = tickSize L \<and> maxPrice L' = maxPrice L \<and>
     levelCount L' = levelCount L \<and> descending L' = descending L"

lemma grid_eq_index: "grid_eq L L' \<Longrightarrow> indexOf raw L' = indexOf raw L"
  by (simp add: grid_eq_def indexOf_def Let_def)

lemma grid_eq_price: "grid_eq L L' \<Longrightarrow> price_at L' i = price_at L i"
  by (simp add: grid_eq_def price_at_def)

lemma grid_eq_refl [simp]: "grid_eq L L"
  by (simp add: grid_eq_def)

lemma grid_eq_trans: "grid_eq L1 L2 \<Longrightarrow> grid_eq L2 L3 \<Longrightarrow> grid_eq L1 L3"
  by (simp add: grid_eq_def)

lemma ladder_okD:
  assumes "ladder_ok L"
  shows "ladder_shape L" "occ_set L \<subseteq> {..<levelCount L}" "occupied L = card (occ_set L)"
    "bestIndex L = (if occ_set L = {} then npos else Min (occ_set L))"
    "levelCount L < SIZE_RANGE" "length (words L) = (levelCount L + 63) div 64" "length (levels L) = levelCount L"
  using assms by (simp_all add: ladder_ok_def ladder_shape_def)

lemma card_occ_le: "ladder_ok L \<Longrightarrow> card (occ_set L) \<le> levelCount L"
  using card_mono [of "{..<levelCount L}" "occ_set L"] by (auto dest: ladder_okD(2))

lemma index_less_npos: "ladder_ok L \<Longrightarrow> i < levelCount L \<Longrightarrow> i < npos"
  by (auto dest!: ladder_okD(5) simp: npos_def SIZE_RANGE_def)

lemma best_iff:
  assumes "ladder_ok L"
  shows "best L = (if occ_set L = {} then None else Some (Min (occ_set L)))"
proof (cases "occ_set L = {}")
  case True
  then show ?thesis using ladder_okD(4) [OF assms] by (simp add: best_def)
next
  case False
  then have "Min (occ_set L) < levelCount L"
    using ladder_okD(2) [OF assms] Min_in [OF bits_of_finite, of "words L"] by blast
  then have "Min (occ_set L) \<noteq> npos" by (rule index_less_npos [OF assms, THEN less_imp_neq])
  with False ladder_okD(4) [OF assms] show ?thesis by (simp add: best_def)
qed

lemma markOccupied_ok:
  assumes ok: "ladder_ok L" and ix: "indexOf raw L = Inr i" and i: "i < levelCount L" "i \<notin> occ_set L"
  obtains L' where "markOccupied raw L = Ret () L'" "ladder_ok L'" "occ_set L' = insert i (occ_set L)"
    "levels L' = levels L" "grid_eq L L'"
proof -
  note D = ladder_okD [OF ok]
  have k: "i div 64 < length (words L)" using i(1) D(6) by auto
  define L' where "L' = L\<lparr>words := (words L)[i div 64 := (words L ! (i div 64)) OR push_bit (i mod 64) 1],
      bestIndex := (if occupied L = 0 \<or> i < bestIndex L then i else bestIndex L),
      occupied := sz_inc (occupied L)\<rparr>"
  have run: "markOccupied raw L = Ret () L'"
    using ix k by (simp add: markOccupied_def L'_def)
  have occ: "occ_set L' = insert i (occ_set L)" using bits_of_set [OF k] by (simp add: L'_def)
  have "card (insert i (occ_set L)) \<le> levelCount L"
    using card_mono [of "{..<levelCount L}" "insert i (occ_set L)"] i D(2) by auto
  then have "occupied L' = card (insert i (occ_set L))"
    using i(2) D(3,5) by (simp add: L'_def sz_inc_small)
  moreover have "bestIndex L' = Min (insert i (occ_set L))"
  proof (cases "occ_set L = {}")
    case True
    then show ?thesis using D(3) by (simp add: L'_def)
  next
    case False
    moreover from False have "occupied L \<noteq> 0" using D(3) by simp
    ultimately have "bestIndex L' = min i (Min (occ_set L))"
      unfolding D(4) [THEN trans [OF _ if_not_P [OF False]], symmetric] by (simp add: L'_def if_less_min)
    then show ?thesis using Min_insert [OF bits_of_finite False, of i] by metis
  qed
  ultimately have "ladder_ok L'"
    using D(1,2) i(1) occ by (auto simp: ladder_ok_def ladder_shape_def price_at_def L'_def)
  moreover have "levels L' = levels L" "grid_eq L L'" by (simp_all add: grid_eq_def L'_def)
  ultimately show thesis using that [OF run _ occ] by blast
qed

lemma markEmpty_ok:
  assumes ok: "ladder_ok L" and ix: "indexOf raw L = Inr i" and i: "i \<in> occ_set L"
  obtains L' where "markEmpty raw L = Ret () L'" "ladder_ok L'" "occ_set L' = occ_set L - {i}"
    "levels L' = levels L" "grid_eq L L'"
proof -
  note D = ladder_okD [OF ok]
  have lt: "i < levelCount L" using i D(2) by auto
  have k: "i div 64 < length (words L)" using lt D(6) by auto
  define L1 where "L1 = L\<lparr>words := (words L)[i div 64 := (words L ! (i div 64)) AND NOT (push_bit (i mod 64) 1)],
      occupied := sz_dec (occupied L)\<rparr>"
  define L' where "L' = (if i = bestIndex L1
      then L1\<lparr>bestIndex := (if occupied L1 = 0 then npos else nextSetBit (i + 1) L1)\<rparr> else L1)"
  have run: "markEmpty raw L = Ret () L'"
    using ix k by (simp add: markEmpty_def L'_def L1_def Let_def)
  have occ1: "occ_set L1 = occ_set L - {i}" using bits_of_clear [OF k] by (simp add: L1_def)
  then have occ: "occ_set L' = occ_set L - {i}" by (simp add: L'_def)
  have "0 < card (occ_set L)" using i by (auto simp: card_gt_0_iff)
  then have cnt: "occupied L1 = card (occ_set L - {i})"
    using D(3,5) i card_occ_le [OF ok] by (simp add: L1_def sz_dec_pos)
  have min: "bestIndex L = Min (occ_set L)" using D(4) i by auto
  have "bestIndex L' = (if occ_set L - {i} = {} then npos else Min (occ_set L - {i}))"
  proof (cases "i = bestIndex L1")
    case True
    have "i \<le> j" if "j \<in> occ_set L" for j
      using that True min Min_le [OF bits_of_finite, of j "words L"] by (simp add: L1_def)
    then have gt: "\<forall>j \<in> occ_set L - {i}. i + 1 \<le> j" by (simp add: Suc_le_eq order_le_neq_trans)
    have "is_next (occ_set L1) (i + 1) (nextSetBit (i + 1) L1)"
      by (rule nextSetBit_next) (use D(2,6) occ1 in \<open>auto simp: L1_def\<close>)
    then show ?thesis
      using True cnt occ1 gt is_next_Min [of "occ_set L - {i}" "i + 1"] by (simp add: L'_def)
  next
    case False
    then have "Min (occ_set L) \<in> occ_set L - {i}"
      using min i Min_in [OF bits_of_finite, of "words L"] unfolding L1_def by fastforce
    then have "Min (occ_set L - {i}) = Min (occ_set L)" by (intro Min_eqI) auto
    with False min \<open>Min (occ_set L) \<in> occ_set L - {i}\<close> show ?thesis by (auto simp: L'_def L1_def)
  qed
  moreover have "occupied L' = card (occ_set L - {i})" using cnt by (simp add: L'_def)
  ultimately have "ladder_ok L'"
    using D(1,2) occ by (auto simp: ladder_ok_def ladder_shape_def price_at_def L'_def L1_def)
  moreover have "levels L' = levels L" "grid_eq L L'" by (simp_all add: grid_eq_def L'_def L1_def)
  ultimately show thesis using that [OF run _ occ] by blast
qed

subsection \<open>Prices and indices\<close>

lemma unat_offset:
  assumes "unat (b :: u64) + i * unat t < SIZE_RANGE"
  shows "unat (word_of_nat i * t) = i * unat t" "unat (b + word_of_nat i * t) = unat b + i * unat t"
proof -
  have lt: "i * unat t < 2 ^ 64" using assms by (simp add: SIZE_RANGE_def)
  have "unat (word_of_nat i * t) = (i mod 2 ^ 64 * unat t) mod 2 ^ 64"
    by (simp add: unat_word_ariths unat_of_nat)
  also have "\<dots> = i * unat t" using lt by (simp add: mod_mult_left_eq)
  finally show m: "unat (word_of_nat i * t) = i * unat t" .
  then show "unat (b + word_of_nat i * t) = unat b + i * unat t"
    using assms by (simp add: unat_add_u64)
qed

lemma ladder_price_bound:
  assumes "ladder_shape L" and "i < levelCount L"
  shows "unat (minPrice L) + i * unat (tickSize L) \<le> unat (maxPrice L)"
proof -
  have "i * unat (tickSize L) \<le> (levelCount L - 1) * unat (tickSize L)"
    using assms(2) by (intro mult_right_mono) auto
  then show ?thesis using assms(1) by (simp add: ladder_shape_def)
qed

lemma unat_price_at:
  assumes sh: "ladder_shape L" and i: "i < levelCount L"
  shows "unat (price_at L i) = (if descending L then unat (maxPrice L) - i * unat (tickSize L)
           else unat (minPrice L) + i * unat (tickSize L))"
proof -
  note b = ladder_price_bound [OF sh i]
  then have lt: "unat (minPrice L) + i * unat (tickSize L) < SIZE_RANGE"
    using unat_less_range [of "maxPrice L"] by linarith
  have "word_of_nat i * tickSize L \<le> maxPrice L"
    using b unat_offset(1) [OF lt] by (simp add: u64_le_iff)
  then show ?thesis
    using unat_offset [OF lt] by (simp add: price_at_def unat_sub_u64)
qed

lemma tick_pos: "ladder_shape L \<Longrightarrow> 0 < unat (tickSize L)"
  by (simp add: ladder_shape_def unat_gt_0)

lemma indexOf_price_at:
  assumes sh: "ladder_shape L" and i: "i < levelCount L"
  shows "indexOf (price_at L i) L = Inr i"
proof -
  note b = ladder_price_bound [OF sh i] and u = unat_price_at [OF sh i] and t = tick_pos [OF sh]
  define off where "off = (if descending L then maxPrice L - price_at L i else price_at L i - minPrice L)"
  have range: "price_at L i \<le> maxPrice L" "minPrice L \<le> price_at L i"
    using b u by (auto simp: u64_le_iff)
  have "unat off = i * unat (tickSize L)"
    using b u range by (simp add: off_def unat_sub_u64)
  with t have "unat (off mod tickSize L) = 0" "unat (off div tickSize L) = i"
    by (simp_all add: unat_mod unat_div)
  then show ?thesis using range by (simp add: indexOf_def Let_def not_less off_def unat_eq_0)
qed

lemma indexOf_Inr:
  assumes sh: "ladder_shape L" and ix: "indexOf raw L = Inr i"
  shows "i < levelCount L" and "price_at L i = raw"
proof -
  note t = tick_pos [OF sh]
  define off where "off = (if descending L then maxPrice L - raw else raw - minPrice L)"
  from ix have range: "raw \<le> maxPrice L" "minPrice L \<le> raw" and md: "off mod tickSize L = 0"
    and i: "i = unat (off div tickSize L)"
    by (auto simp: indexOf_def Let_def off_def split: if_splits)
  have uoff: "unat off = i * unat (tickSize L)"
    using md i by (metis div_mult_mod_eq unat_div unat_mod unat_0 add.right_neutral)
  have span: "unat off \<le> (levelCount L - 1) * unat (tickSize L)"
    using sh range by (auto simp: off_def unat_sub_u64 u64_le_iff ladder_shape_def)
  with uoff t have "i \<le> levelCount L - 1" by simp
  moreover have "0 < levelCount L" using sh by (simp add: ladder_shape_def)
  ultimately show lt: "i < levelCount L" by linarith
  have "unat (price_at L i) = unat raw"
    unfolding unat_price_at [OF sh lt] using uoff range
    by (auto simp: off_def unat_sub_u64 u64_le_iff)
  then show "price_at L i = raw" by (simp add: word_unat_eq_iff)
qed

lemma price_at_inj:
  "ladder_shape L \<Longrightarrow> i < levelCount L \<Longrightarrow> j < levelCount L \<Longrightarrow> price_at L i = price_at L j \<Longrightarrow> i = j"
  using indexOf_price_at by (metis sum.inject(2))

text \<open>A lower index is a better price: cheaper on the ask side, dearer on the bid side.\<close>

lemma price_at_mono:
  assumes sh: "ladder_shape L" and "i < j" and j: "j < levelCount L"
  shows "if descending L then price_at L j < price_at L i else price_at L i < price_at L j"
proof -
  have lt: "i * unat (tickSize L) < j * unat (tickSize L)" using assms(2) tick_pos [OF sh] by simp
  have i: "i < levelCount L" using assms by simp
  have "unat (maxPrice L) - j * unat (tickSize L) < unat (maxPrice L) - i * unat (tickSize L)"
    using lt ladder_price_bound [OF sh j] by linarith
  with lt show ?thesis
    unfolding u64_less_iff unat_price_at [OF sh j] unat_price_at [OF sh i] by (simp del: mult_less_cancel2)
qed

lemma price_at_valid: "ladder_shape L \<Longrightarrow> i < levelCount L \<Longrightarrow> price_at L i \<noteq> 0"
proof -
  assume sh: "ladder_shape L" and i: "i < levelCount L"
  have "unat (minPrice L) \<noteq> 0" using sh by (simp add: ladder_shape_def unat_eq_0)
  moreover have "unat (minPrice L) \<le> unat (maxPrice L) - i * unat (tickSize L)"
    using ladder_price_bound [OF sh i] by linarith
  ultimately have "unat (price_at L i) \<noteq> 0"
    unfolding unat_price_at [OF sh i] by (split if_split) linarith
  then show ?thesis by auto
qed

lemma levelAt_indexOf: "ladder_shape L \<Longrightarrow> levelAt raw L = indexOf raw L"
proof -
  assume sh: "ladder_shape L"
  then have "length (levels L) = levelCount L" by (simp add: ladder_shape_def)
  with indexOf_Inr(1) [OF sh] show ?thesis by (cases "indexOf raw L") (simp_all add: levelAt_def)
qed

lemma PriceLadder_new_ok:
  assumes new: "PriceLadder_new mn tick lc desc = Inr L" and lc: "lc < SIZE_RANGE"
  shows "ladder_ok L" and "occ_set L = {}" and "descending L = desc" and "levelCount L = lc"
    and "minPrice L = mn" and "tickSize L = tick"
    and "\<And>i. i < lc \<Longrightarrow> levels L ! i = PriceLevel_new (price_at L i)"
proof -
  define mx where "mx = mn + word_of_nat (lc - 1) * tick"
  from new have nz: "mn \<noteq> 0" "tick \<noteq> 0" "lc \<noteq> 0"
    and fit: "word_of_nat (lc - 1) \<le> (- 1 - mn) div tick"
    and L: "L = \<lparr>minPrice = mn, tickSize = tick, maxPrice = mx, levelCount = lc, descending = desc,
               levels = map (\<lambda>i. PriceLevel_new
                 (if desc then mx - word_of_nat i * tick else mn + word_of_nat i * tick)) [0..<lc],
               words = replicate ((lc + 63) div 64) 0, bestIndex = npos, occupied = 0\<rparr>"
    by (auto simp: PriceLadder_new_def Let_def mx_def not_less split: if_splits)
  have span: "unat (word_of_nat (lc - 1) :: u64) = lc - 1"
    using lc by (simp add: unat_of_nat SIZE_RANGE_def)
  have "lc - 1 \<le> (SIZE_RANGE - 1 - unat mn) div unat tick"
    using fit span unat_sub_u64 [of mn "- 1", OF word_order.extremum] by (simp add: u64_le_iff unat_div)
  then have "(lc - 1) * unat tick \<le> SIZE_RANGE - 1 - unat mn"
    using nz(2) by (simp add: less_eq_div_iff_mult_less_eq unat_gt_0)
  then have "unat mn + (lc - 1) * unat tick < SIZE_RANGE"
    using unat_less_range [of mn] by linarith
  from unat_offset(2) [OF this] have max: "unat mx = unat mn + (lc - 1) * unat tick"
    by (simp add: mx_def)
  show "levels L ! i = PriceLevel_new (price_at L i)" if "i < lc" for i
    using that by (simp add: L price_at_def)
  show "ladder_ok L"
    using nz lc max by (simp add: L ladder_ok_def ladder_shape_def price_at_def PriceLevel_new_def)
qed (use new in \<open>auto simp: PriceLadder_new_def Let_def split: if_splits\<close>)

subsection \<open>Visiting the occupied levels\<close>

lemma is_next_split:
  assumes "is_next S from r" and "r \<noteq> npos"
  shows "{i \<in> S. from \<le> i} = insert r {i \<in> S. r + 1 \<le> i}" and "\<forall>i \<in> {i \<in> S. r + 1 \<le> i}. r < i"
proof -
  have r: "r \<in> S" "from \<le> r" "\<And>i. i \<in> S \<Longrightarrow> from \<le> i \<Longrightarrow> r \<le> i" using assms by (simp_all add: is_next_def)
  show "{i \<in> S. from \<le> i} = insert r {i \<in> S. r + 1 \<le> i}"
  proof (intro equalityI subsetI)
    fix i assume "i \<in> {i \<in> S. from \<le> i}"
    with r(3) have "i \<in> S" "r \<le> i" by blast+
    then show "i \<in> insert r {i \<in> S. r + 1 \<le> i}" by (cases "i = r") simp_all
  next
    fix i assume "i \<in> insert r {i \<in> S. r + 1 \<le> i}"
    with r(1,2) show "i \<in> {i \<in> S. from \<le> i}" by (elim insertE) simp_all
  qed
  show "\<forall>i \<in> {i \<in> S. r + 1 \<le> i}. r < i" by simp
qed

lemma visited_next:
  assumes sub: "occ_set L \<subseteq> {..<levelCount L}" and len: "length (words L) = (levelCount L + 63) div 64"
    and lc: "levelCount L < SIZE_RANGE"
  shows "is_next (occ_set L) from r \<Longrightarrow>
    visited n r L = take n (sorted_list_of_set {i \<in> occ_set L. from \<le> i})"
proof (induction n arbitrary: "from" r)
  case 0
  then show ?case by simp
next
  case (Suc n)
  show ?case
  proof (cases "r = npos")
    case True
    have "npos \<notin> occ_set L" using sub lc by (auto simp: npos_def SIZE_RANGE_def)
    with Suc.prems True have "{i \<in> occ_set L. from \<le> i} = {}" by (auto simp: is_next_def)
    then show ?thesis unfolding \<open>{i \<in> occ_set L. from \<le> i} = {}\<close> using True by simp
  next
    case False
    note sp = is_next_split [OF Suc.prems False]
    have "sorted_list_of_set (insert r {i \<in> occ_set L. r + 1 \<le> i})
        = insort r (sorted_list_of_set {i \<in> occ_set L. r + 1 \<le> i})"
      by (rule sorted_list_of_set_insert) auto
    also have "\<dots> = r # sorted_list_of_set {i \<in> occ_set L. r + 1 \<le> i}"
      by (rule insort_is_Cons) (use sp(2) in \<open>auto intro: less_imp_le\<close>)
    finally show ?thesis
      unfolding sp(1) using Suc.IH [OF nextSetBit_next [OF sub len]] False by simp
  qed
qed

lemma visited_best:
  assumes "ladder_ok L"
  shows "visited n (bestIndex L) L = take n (sorted_list_of_set (occ_set L))"
proof -
  note D = ladder_okD [OF assms]
  have "is_next (occ_set L) 0 (bestIndex L)"
    using D(4) Min_in [OF bits_of_finite, of "words L"] Min_le [OF bits_of_finite, of _ "words L"]
    unfolding is_next_def by simp
  from visited_next [OF D(2,6,5) this] show ?thesis by simp
qed

section \<open>The ladder as an occupancy index\<close>

text \<open>
  What the book relies on: marking and clearing a level by its price changes the set of
  occupied indices by exactly that index, and the cached best index is always the least
  occupied one. The client lemma runs any legal sequence of marks and clears.
\<close>

text \<open>The set of occupied indices after a sequence of marks (\<open>True\<close>) and clears.\<close>

fun toggled :: "(bool \<times> nat) list \<Rightarrow> nat set \<Rightarrow> nat set" where
  "toggled [] S = S"
| "toggled ((b, i) # ops) S = toggled ops (if b then insert i S else S - {i})"

text \<open>Only free levels are marked and only occupied ones cleared, as the book does.\<close>

fun legal_toggles :: "nat \<Rightarrow> (bool \<times> nat) list \<Rightarrow> nat set \<Rightarrow> bool" where
  "legal_toggles n [] S = True"
| "legal_toggles n ((b, i) # ops) S =
     (i < n \<and> (if b then i \<notin> S else i \<in> S) \<and> legal_toggles n ops (if b then insert i S else S - {i}))"

locale occupancy_index =
  fixes ok :: "'l \<Rightarrow> bool" and occ :: "'l \<Rightarrow> nat set" and cap :: "'l \<Rightarrow> nat"
    and key :: "'l \<Rightarrow> nat \<Rightarrow> 'k" and bst :: "'l \<Rightarrow> nat option"
    and mark :: "'k \<Rightarrow> 'l \<Rightarrow> (unit, 'l) outcome" and clear :: "'k \<Rightarrow> 'l \<Rightarrow> (unit, 'l) outcome"
  assumes best_least: "ok L \<Longrightarrow> bst L = (if occ L = {} then None else Some (Min (occ L)))"
    and mark_law: "ok L \<Longrightarrow> i < cap L \<Longrightarrow> i \<notin> occ L \<Longrightarrow>
      \<exists>L'. mark (key L i) L = Ret () L' \<and> ok L' \<and> occ L' = insert i (occ L) \<and> cap L' = cap L \<and> key L' = key L"
    and clear_law: "ok L \<Longrightarrow> i \<in> occ L \<Longrightarrow>
      \<exists>L'. clear (key L i) L = Ret () L' \<and> ok L' \<and> occ L' = occ L - {i} \<and> cap L' = cap L \<and> key L' = key L"
begin

lemma run_toggles:
  assumes "ok L" and "legal_toggles (cap L) ops (occ L)"
  shows "\<exists>L'. run_all (\<lambda>(b, i). (if b then mark else clear) (key L i)) ops L = Ret () L' \<and> ok L' \<and>
      occ L' = toggled ops (occ L)"
  using assms
proof (induction ops arbitrary: L)
  case Nil
  then show ?case by simp
next
  case (Cons a ops)
  obtain b i where op: "a = (b, i)" by (cases a)
  define f where "f = (if b then mark else clear)"
  define S where "S = (if b then insert i (occ L) else occ L - {i})"
  have "\<exists>L1. f (key L i) L = Ret () L1 \<and> ok L1 \<and> occ L1 = S \<and> cap L1 = cap L \<and> key L1 = key L"
    using Cons.prems mark_law [of L i] clear_law [of L i] by (cases b) (auto simp: op f_def S_def)
  then obtain L1 where L1: "f (key L i) L = Ret () L1" "ok L1" "occ L1 = S" "cap L1 = cap L" "key L1 = key L"
    by blast
  have "legal_toggles (cap L1) ops (occ L1)" using Cons.prems L1(3,4) by (simp add: op S_def)
  from Cons.IH [OF L1(2) this] L1 show ?case by (simp add: op f_def [symmetric] S_def)
qed

lemma best_after_toggles:
  assumes "ok L" and "legal_toggles (cap L) ops (occ L)"
  shows "\<exists>L'. run_all (\<lambda>(b, i). (if b then mark else clear) (key L i)) ops L = Ret () L' \<and>
      bst L' = (if toggled ops (occ L) = {} then None else Some (Min (toggled ops (occ L))))"
  using run_toggles [OF assms] best_least by metis

end

lemma markOccupied_law:
  assumes "ladder_ok L" and "i < levelCount L" and "i \<notin> occ_set L"
  shows "\<exists>L'. markOccupied (price_at L i) L = Ret () L' \<and> ladder_ok L' \<and> occ_set L' = insert i (occ_set L) \<and>
    levelCount L' = levelCount L \<and> price_at L' = price_at L"
  using markOccupied_ok [OF assms(1) indexOf_price_at [OF ladder_okD(1) [OF assms(1)] assms(2)] assms(2,3)]
    grid_eq_price [of L] unfolding grid_eq_def by (metis ext)

lemma markEmpty_law:
  assumes "ladder_ok L" and "i \<in> occ_set L"
  shows "\<exists>L'. markEmpty (price_at L i) L = Ret () L' \<and> ladder_ok L' \<and> occ_set L' = occ_set L - {i} \<and>
    levelCount L' = levelCount L \<and> price_at L' = price_at L"
proof -
  have "i < levelCount L" using assms ladder_okD(2) by blast
  from markEmpty_ok [OF assms(1) indexOf_price_at [OF ladder_okD(1) [OF assms(1)] this] assms(2)]
    grid_eq_price [of L] show ?thesis unfolding grid_eq_def by (metis ext)
qed

lemma indexOf_cases:
  "indexOf raw L = Inl (OutOfRange ''Price is outside the configured ladder range'') \<or>
   indexOf raw L = Inl (InvalidArgument ''Price does not fall on a configured tick boundary'') \<or>
   (\<exists>i. indexOf raw L = Inr i)"
  by (simp add: indexOf_def Let_def)

interpretation ladder: occupancy_index ladder_ok occ_set levelCount price_at best markOccupied markEmpty
  by unfold_locales (rule best_iff markOccupied_law markEmpty_law; assumption)+

section \<open>Properties\<close>

text \<open>
  Prices and ladder indices correspond one to one: on a ladder the constructor accepts,
  \<open>indexOf\<close> returns an index exactly for the prices on the grid, it inverts the price of
  every index, every other price is refused (out of range, or off the tick grid) and a lower
  index is always a better price, also at the top of the 64-bit range.
\<close>
theorem ladder_price_index_roundtrip:
  assumes "PriceLadder_new mn tick lc desc = Inr L" and "lc < SIZE_RANGE"
  shows "(\<forall>i < lc. indexOf (price_at L i) L = Inr i \<and> levelAt (price_at L i) L = Inr i \<and>
            levelPrice (levels L ! i) = price_at L i)
    \<and> (\<forall>raw i. indexOf raw L = Inr i \<longrightarrow> i < lc \<and> price_at L i = raw)
    \<and> (\<forall>i j. i < j \<and> j < lc \<longrightarrow>
         (if desc then price_at L j < price_at L i else price_at L i < price_at L j))
    \<and> (\<forall>raw. (\<forall>i < lc. price_at L i \<noteq> raw) \<longrightarrow>
         indexOf raw L = Inl (OutOfRange ''Price is outside the configured ladder range'') \<or>
         indexOf raw L = Inl (InvalidArgument ''Price does not fall on a configured tick boundary''))"
proof -
  note new = PriceLadder_new_ok [OF assms]
  note sh = ladder_okD(1) [OF new(1)]
  have lp: "levelPrice (levels L ! i) = price_at L i" if "i < lc" for i
    using new(7) [OF that] by (simp add: PriceLevel_new_def)
  have off: "indexOf raw L = Inl (OutOfRange ''Price is outside the configured ladder range'') \<or>
      indexOf raw L = Inl (InvalidArgument ''Price does not fall on a configured tick boundary'')"
    if "\<forall>i < lc. price_at L i \<noteq> raw" for raw
    using that indexOf_Inr [OF sh, of raw] new(4) indexOf_cases [of raw L] by blast
  have there: "indexOf (price_at L i) L = Inr i" "levelAt (price_at L i) L = Inr i" if "i < lc" for i
    using indexOf_price_at [OF sh] levelAt_indexOf [OF sh] that new(4) by simp_all
  have bck: "i < lc" "price_at L i = raw" if "indexOf raw L = Inr i" for raw i
    using indexOf_Inr [OF sh that] new(4) by simp_all
  have mono: "if desc then price_at L j < price_at L i else price_at L i < price_at L j"
    if "i < j \<and> j < lc" for i j
    using price_at_mono [OF sh, of i j] that new(3,4) by simp
  show ?thesis
    by (intro conjI allI impI; (rule lp there mono off; assumption | erule bck))
qed

theorem ladder_price_index_roundtrip_witness:
  "\<exists>L. PriceLadder_new 100 5 3 True = Inr L \<and> indexOf 110 L = Inr 0 \<and> indexOf 100 L = Inr 2"
proof -
  define L where "L = projr (PriceLadder_new 100 5 3 True)"
  have new: "PriceLadder_new 100 5 3 True = Inr L" "(3 :: nat) < SIZE_RANGE"
    unfolding L_def by (simp add: PriceLadder_new_def Let_def, simp add: SIZE_RANGE_def)
  have p: "price_at L 0 = 110" "price_at L 2 = 100"
    unfolding L_def by (simp_all add: PriceLadder_new_def price_at_def Let_def)
  from ladder_price_index_roundtrip [OF new, THEN conjunct1, rule_format, of 0]
    ladder_price_index_roundtrip [OF new, THEN conjunct1, rule_format, of 2] new(1) p
  show ?thesis by auto
qed

text \<open>
  C20. The cached best index is exact under any interleaving of level changes: from a fresh
  ladder, any sequence of marks of empty levels and clears of occupied ones runs without an
  exception, afterwards \<open>best\<close> is the least occupied index (none when nothing is occupied),
  and \<open>forEachOccupied\<close> visits the first \<open>n\<close> occupied levels in best-to-worst order.
\<close>
theorem ladder_best_exact:
  assumes "PriceLadder_new mn tick lc desc = Inr L" and "lc < SIZE_RANGE" and "legal_toggles lc ops {}"
  shows "\<exists>L'. run_all (\<lambda>(b, i). (if b then markOccupied else markEmpty) (price_at L i)) ops L = Ret () L' \<and>
     best L' = (if toggled ops {} = {} then None else Some (Min (toggled ops {}))) \<and>
     forEachOccupied n levelPrice L' =
       map (\<lambda>i. levelPrice (levels L' ! i)) (take n (sorted_list_of_set (toggled ops {})))"
proof -
  note new = PriceLadder_new_ok [OF assms(1,2)]
  have "legal_toggles (levelCount L) ops (occ_set L)" using assms(3) new(2,4) by simp
  from ladder.run_toggles [OF new(1) this] new(2)
  obtain L' where "run_all (\<lambda>(b, i). (if b then markOccupied else markEmpty) (price_at L i)) ops L = Ret () L'"
    "ladder_ok L'" "occ_set L' = toggled ops {}" by auto
  then show ?thesis using ladder.best_least visited_best by (auto simp: forEachOccupied_def)
qed

theorem ladder_best_exact_witness:
  "\<exists>L'. run_all (\<lambda>(b, i). (if b then markOccupied else markEmpty)
          (price_at (projr (PriceLadder_new 100 1 200 False)) i))
       [(True, 150), (True, 3), (True, 70), (False, 3)] (projr (PriceLadder_new 100 1 200 False)) = Ret () L' \<and>
     best L' = Some 70"
proof -
  define L where "L = projr (PriceLadder_new 100 1 200 False)"
  have new: "PriceLadder_new 100 1 200 False = Inr L" "(200 :: nat) < SIZE_RANGE"
    unfolding L_def by (simp add: PriceLadder_new_def Let_def, simp add: SIZE_RANGE_def)
  let ?ops = "[(True, 150), (True, 3), (True, 70), (False, 3)] :: (bool \<times> nat) list"
  have "legal_toggles 200 ?ops {}" by simp
  moreover have t: "toggled ?ops {} = {70, 150}" by auto
  ultimately show ?thesis
    using ladder_best_exact [OF new, of ?ops 1] unfolding L_def [symmetric] t by auto
qed

end
