(* ===== verification/Order_Index.thy ===== *)
theory Order_Index
  imports Order_Model "HOL-Library.Log_Nat"
begin

text \<open>
  \<open>OrderIndex\<close> (\<open>order_index.hpp\<close>, \<open>order_index.cpp\<close>): the open-addressing hash table from
  order identifiers to orders, with linear probing, growth by doubling at a load factor of
  one half and backward-shift deletion. \<open>std::hash\<close> is a parameter: nothing is assumed of
  it. A probe loop that revisits its starting slot never ends, so the loops are given as
  many steps as there are slots and report \<open>Diverges\<close> beyond; the lemmas show that a
  well-formed table always keeps an empty slot, so that this never happens, and that the
  table implements a finite map.
\<close>

section \<open>Model\<close>

record slot =
  slotKey :: u64
  slotValue :: "ptr option"

definition Slot_empty :: slot where
  "Slot_empty = \<lparr>slotKey = 0, slotValue = None\<rparr>"

record order_index =
  slots :: "slot list"
  index_count :: nat

definition OrderIndex_new :: order_index where
  "OrderIndex_new = \<lparr>slots = [], index_count = 0\<rparr>"

type_synonym hash_fun = "u64 \<Rightarrow> u64"

definition InitialCapacity :: nat where
  "InitialCapacity = 16"

text \<open>
  The load test compares \<open>double\<close> values. \<open>to_double n\<close> is \<open>static_cast<double>(n)\<close> for a
  64-bit \<open>n\<close>: rounding to a 53-bit significand, ties to even. Halving a power of two is
  exact, so \<open>a > b * 0.5\<close> is \<open>2 * a > b\<close>.
\<close>

definition to_double :: "nat \<Rightarrow> nat" where
  "to_double n =
     (if n < 2 ^ 53 then n
      else let u = 2 ^ (floorlog 2 n - 53); q = n div u; r = n mod u in
        (if 2 * r > u \<or> (2 * r = u \<and> odd q) then q + 1 else q) * u)"

text \<open>\<open>std::vector<Slot>(n)\<close> throws \<open>std::length_error\<close> beyond \<open>max_size()\<close>, 16 bytes a slot.\<close>

definition MaxSlots :: nat where
  "MaxSlots = (2 ^ 63 - 1) div 16"

definition inCyclicRange :: "nat \<Rightarrow> nat \<Rightarrow> nat \<Rightarrow> bool" where
  "inCyclicRange k i j = (if i \<le> j then i < k \<and> k \<le> j else k > i \<or> k \<le> j)"

definition indexFor :: "hash_fun \<Rightarrow> u64 \<Rightarrow> nat \<Rightarrow> nat" where
  "indexFor H i capacity = unat (H i) AND (capacity - 1)"

definition next_slot :: "slot list \<Rightarrow> nat \<Rightarrow> nat" where
  "next_slot ss i = (i + 1) AND (length ss - 1)"

fun probe_key :: "u64 \<Rightarrow> slot list \<Rightarrow> nat \<Rightarrow> nat \<Rightarrow> error + nat" where
  "probe_key k ss 0 i = Inl (Diverges ''probe loop without an empty slot'')"
| "probe_key k ss (Suc n) i =
     (if i \<ge> length ss then Inl (UndefinedBehaviour ''slot out of range'')
      else case slotValue (ss ! i) of
        None \<Rightarrow> Inr i
      | Some _ \<Rightarrow> if slotKey (ss ! i) = k then Inr i else probe_key k ss n (next_slot ss i))"

definition findSlot :: "hash_fun \<Rightarrow> u64 \<Rightarrow> order_index \<Rightarrow> error + nat" where
  "findSlot H i ix =
     (if slots ix = [] then Inr npos
      else probe_key i (slots ix) (length (slots ix)) (indexFor H i (length (slots ix))))"

text \<open>The rehash loop shared by \<open>reserve\<close> and \<open>growIfNeeded\<close>.\<close>

fun probe_empty :: "slot list \<Rightarrow> nat \<Rightarrow> nat \<Rightarrow> error + nat" where
  "probe_empty ss 0 i = Inl (Diverges ''probe loop without an empty slot'')"
| "probe_empty ss (Suc n) i =
     (if i \<ge> length ss then Inl (UndefinedBehaviour ''slot out of range'')
      else case slotValue (ss ! i) of
        None \<Rightarrow> Inr i
      | Some _ \<Rightarrow> probe_empty ss n (next_slot ss i))"

fun rehash :: "hash_fun \<Rightarrow> slot list \<Rightarrow> slot list \<Rightarrow> error + slot list" where
  "rehash H [] grown = Inr grown"
| "rehash H (s # ss) grown =
     (case slotValue s of
        None \<Rightarrow> rehash H ss grown
      | Some _ \<Rightarrow>
        (case probe_empty grown (length grown) (indexFor H (slotKey s) (length grown)) of
           Inl e \<Rightarrow> Inl e
         | Inr i \<Rightarrow> rehash H ss (grown[i := s])))"

definition rehash_into :: "hash_fun \<Rightarrow> nat \<Rightarrow> order_index \<Rightarrow> (unit, order_index) outcome" where
  "rehash_into H capacity ix =
     (if capacity > MaxSlots
      then Throw (LogicError ''cannot create std::vector larger than max_size()'') ix
      else case rehash H (slots ix) (replicate capacity Slot_empty) of
        Inl e \<Rightarrow> Throw e ix
      | Inr grown \<Rightarrow> Ret () (ix\<lparr>slots := grown\<rparr>))"

text \<open>
  The doubling loop of \<open>reserve\<close>, on a wrapping \<open>size_t\<close>. After at most 64 doublings the
  capacity is zero and stays zero, so 65 rounds decide it: \<open>None\<close> is a loop that never ends.
\<close>

fun reserve_capacity :: "nat \<Rightarrow> nat \<Rightarrow> nat \<Rightarrow> nat option" where
  "reserve_capacity 0 orderCount capacity = None"
| "reserve_capacity (Suc n) orderCount capacity =
     (if 2 * to_double orderCount > capacity
      then reserve_capacity n orderCount ((capacity * 2) mod SIZE_RANGE)
      else Some capacity)"

definition OrderIndex_reserve :: "hash_fun \<Rightarrow> nat \<Rightarrow> order_index \<Rightarrow> (unit, order_index) outcome" where
  "OrderIndex_reserve H orderCount ix =
     (case reserve_capacity 65 orderCount (if slots ix = [] then InitialCapacity else length (slots ix)) of
        None \<Rightarrow> Throw (Diverges ''doubling a capacity that has wrapped to zero'') ix
      | Some capacity \<Rightarrow>
        if slots ix \<noteq> [] \<and> capacity \<le> length (slots ix) then Ret () ix
        else rehash_into H capacity ix)"

definition growIfNeeded :: "hash_fun \<Rightarrow> order_index \<Rightarrow> (unit, order_index) outcome" where
  "growIfNeeded H ix =
     (if slots ix = [] then Ret () (ix\<lparr>slots := replicate InitialCapacity Slot_empty\<rparr>)
      else if 2 * to_double (sz_inc (index_count ix)) \<le> length (slots ix) then Ret () ix
      else rehash_into H ((length (slots ix) * 2) mod SIZE_RANGE) ix)"

fun probe_insert :: "u64 \<Rightarrow> slot list \<Rightarrow> nat \<Rightarrow> nat \<Rightarrow> error + nat" where
  "probe_insert k ss 0 i = Inl (Diverges ''probe loop without an empty slot'')"
| "probe_insert k ss (Suc n) i =
     (if i \<ge> length ss then Inl (UndefinedBehaviour ''slot out of range'')
      else case slotValue (ss ! i) of
        None \<Rightarrow> Inr i
      | Some _ \<Rightarrow>
        if slotKey (ss ! i) = k
        then Inl (LogicError ''Order with the same OrderId already exists in the index'')
        else probe_insert k ss n (next_slot ss i))"

definition OrderIndex_addOrder ::
  "hash_fun \<Rightarrow> heap \<Rightarrow> ptr option \<Rightarrow> order_index \<Rightarrow> (unit, order_index) outcome" where
  "OrderIndex_addOrder H h pointer ix =
     (case pointer of
        None \<Rightarrow> Throw (InvalidArgument ''Cannot add a null order'') ix
      | Some p \<Rightarrow>
        bind_outcome (growIfNeeded H ix) (\<lambda>_ ix1.
        (case h p of
           None \<Rightarrow> Throw (UndefinedBehaviour ''read of an order that is not alive'') ix1
         | Some ord \<Rightarrow>
           (case probe_insert (orderId ord) (slots ix1) (length (slots ix1))
                   (indexFor H (orderId ord) (length (slots ix1))) of
              Inl e \<Rightarrow> Throw e ix1
            | Inr i \<Rightarrow> Ret () (ix1\<lparr>slots := (slots ix1)[i := \<lparr>slotKey = orderId ord, slotValue = Some p\<rparr>],
                 index_count := sz_inc (index_count ix1)\<rparr>)))))"

fun shift_back :: "hash_fun \<Rightarrow> nat \<Rightarrow> nat \<Rightarrow> nat \<Rightarrow> slot list \<Rightarrow> error + slot list" where
  "shift_back H 0 vacated scan ss = Inl (Diverges ''shift loop without an empty slot'')"
| "shift_back H (Suc n) vacated scan ss =
     (if scan \<ge> length ss \<or> vacated \<ge> length ss then Inl (UndefinedBehaviour ''slot out of range'')
      else case slotValue (ss ! scan) of
        None \<Rightarrow> Inr ss
      | Some _ \<Rightarrow>
        if \<not> inCyclicRange (indexFor H (slotKey (ss ! scan)) (length ss)) vacated scan
        then shift_back H n scan (next_slot ss scan) (ss[vacated := ss ! scan, scan := Slot_empty])
        else shift_back H n vacated (next_slot ss scan) ss)"

definition OrderIndex_removeOrder ::
  "hash_fun \<Rightarrow> heap \<Rightarrow> ptr option \<Rightarrow> order_index \<Rightarrow> (unit, order_index) outcome" where
  "OrderIndex_removeOrder H h pointer ix =
     (case pointer of
        None \<Rightarrow> Throw (InvalidArgument ''Cannot remove a null order'') ix
      | Some p \<Rightarrow>
     (case h p of
        None \<Rightarrow> Throw (UndefinedBehaviour ''read of an order that is not alive'') ix
      | Some ord \<Rightarrow>
     (case findSlot H (orderId ord) ix of
        Inl e \<Rightarrow> Throw e ix
      | Inr hole \<Rightarrow>
        if hole = npos \<or> slotValue (slots ix ! hole) = None
        then Throw (LogicError ''Order not found in the index'') ix
        else if slotValue (slots ix ! hole) \<noteq> Some p
        then Throw (LogicError ''Order pointer does not match indexed order'') ix
        else let ix1 = ix\<lparr>slots := (slots ix)[hole := Slot_empty], index_count := sz_dec (index_count ix)\<rparr> in
          (case shift_back H (length (slots ix1)) hole (next_slot (slots ix1) hole) (slots ix1) of
             Inl e \<Rightarrow> Throw e ix1
           | Inr ss \<Rightarrow> Ret () (ix1\<lparr>slots := ss\<rparr>)))))"

definition OrderIndex_findOrder :: "hash_fun \<Rightarrow> u64 \<Rightarrow> order_index \<Rightarrow> error + ptr option" where
  "OrderIndex_findOrder H i ix =
     (case findSlot H i ix of
        Inl e \<Rightarrow> Inl e
      | Inr index \<Rightarrow>
        if index = npos then Inr None
        else if index \<ge> length (slots ix) then Inl (UndefinedBehaviour ''slot out of range'')
        else Inr (slotValue (slots ix ! index)))"

definition OrderIndex_size :: "order_index \<Rightarrow> nat" where
  "OrderIndex_size ix = index_count ix"

section \<open>Well-formedness\<close>

definition used :: "slot \<Rightarrow> bool" where
  "used s \<longleftrightarrow> slotValue s \<noteq> None"

text \<open>How far slot \<open>i\<close> is from slot \<open>b\<close>, walking forward around a table of \<open>cap\<close> slots.\<close>

definition ahead :: "nat \<Rightarrow> nat \<Rightarrow> nat \<Rightarrow> nat" where
  "ahead cap b i = (if b \<le> i then i - b else cap + i - b)"

text \<open>
  Every entry is reachable: the slots from its natural index up to it are all in use,
  except possibly the ones in \<open>V\<close> (empty outside the deletion loop).
\<close>

definition reachable_from :: "hash_fun \<Rightarrow> nat set \<Rightarrow> slot list \<Rightarrow> nat \<Rightarrow> bool" where
  "reachable_from H V ss i \<longleftrightarrow>
     (let b = indexFor H (slotKey (ss ! i)) (length ss) in
      \<forall>m < length ss. ahead (length ss) b m < ahead (length ss) b i \<longrightarrow> used (ss ! m) \<or> m \<in> V)"

definition reachable_all :: "hash_fun \<Rightarrow> nat set \<Rightarrow> slot list \<Rightarrow> bool" where
  "reachable_all H V ss \<longleftrightarrow> (\<forall>i < length ss. used (ss ! i) \<longrightarrow> reachable_from H V ss i)"

definition entries :: "slot list \<Rightarrow> slot multiset" where
  "entries ss = filter_mset used (mset ss)"

definition keys_distinct :: "slot list \<Rightarrow> bool" where
  "keys_distinct ss \<longleftrightarrow> distinct (map slotKey (filter used ss))"

definition pow2_length :: "slot list \<Rightarrow> bool" where
  "pow2_length ss \<longleftrightarrow> (\<exists>k < 59. length ss = 2 ^ k)"

definition index_ok :: "hash_fun \<Rightarrow> order_index \<Rightarrow> bool" where
  "index_ok H ix \<longleftrightarrow>
     index_count ix = size (entries (slots ix)) \<and>
     (slots ix = [] \<or>
      pow2_length (slots ix) \<and> size (entries (slots ix)) < length (slots ix) \<and>
      keys_distinct (slots ix) \<and> reachable_all H {} (slots ix))"

text \<open>The finite map the table stands for.\<close>

definition index_map :: "order_index \<Rightarrow> u64 \<rightharpoonup> ptr" where
  "index_map ix = map_of (map (\<lambda>s. (slotKey s, the (slotValue s))) (filter used (slots ix)))"

section \<open>Lemmas\<close>

subsection \<open>Positions around the table\<close>

lemma ahead_less: "b < cap \<Longrightarrow> i < cap \<Longrightarrow> ahead cap b i < cap"
  unfolding ahead_def by (split if_split) linarith

lemma ahead_0 [simp]: "ahead cap b b = 0"
  by (simp add: ahead_def)

lemma ahead_inj: "b < cap \<Longrightarrow> i < cap \<Longrightarrow> j < cap \<Longrightarrow> ahead cap b i = ahead cap b j \<longleftrightarrow> i = j"
  by (auto simp: ahead_def)

lemma ahead_eq_0: "b < cap \<Longrightarrow> i < cap \<Longrightarrow> ahead cap b i = 0 \<longleftrightarrow> i = b"
  by (auto simp: ahead_def)

text \<open>Walking from \<open>b\<close> to \<open>i\<close> passes \<open>m\<close>: the same statement seen from another origin.\<close>

lemma ahead_shift:
  assumes "z < cap" "b < cap" "i < cap" "m < cap"
  shows "ahead cap b m < ahead cap b i \<longleftrightarrow>
    (if ahead cap z b \<le> ahead cap z i then ahead cap z b \<le> ahead cap z m \<and> ahead cap z m < ahead cap z i
     else ahead cap z b \<le> ahead cap z m \<or> ahead cap z m < ahead cap z i)"
  using assms unfolding ahead_def by (cases "z \<le> b"; cases "z \<le> i"; cases "z \<le> m"; cases "b \<le> m"; cases "b \<le> i") auto

lemma inCyclicRange_ahead:
  assumes "z < cap" "k < cap" "i < cap" "j < cap" "ahead cap z i < ahead cap z j"
  shows "inCyclicRange k i j \<longleftrightarrow> ahead cap z i < ahead cap z k \<and> ahead cap z k \<le> ahead cap z j"
  using assms unfolding ahead_def inCyclicRange_def
  by (cases "z \<le> k"; cases "z \<le> i"; cases "z \<le> j"; cases "i \<le> j") auto

lemma pow2_length_pos: "pow2_length ss \<Longrightarrow> 0 < length ss"
  by (auto simp: pow2_length_def)

lemma indexFor_mod: "pow2_length ss \<Longrightarrow> indexFor H k (length ss) = unat (H k) mod length ss"
  unfolding pow2_length_def indexFor_def using and_mask_nat by auto

lemma indexFor_less: "pow2_length ss \<Longrightarrow> indexFor H k (length ss) < length ss"
  unfolding indexFor_mod by (rule mod_less_divisor) (rule pow2_length_pos)

lemma next_slot_eq: "pow2_length ss \<Longrightarrow> i < length ss \<Longrightarrow> next_slot ss i = (if i + 1 = length ss then 0 else i + 1)"
  unfolding pow2_length_def next_slot_def using and_mask_nat by auto

lemma next_slot_less: "pow2_length ss \<Longrightarrow> i < length ss \<Longrightarrow> next_slot ss i < length ss"
  by (auto simp: next_slot_eq)

lemma ahead_next_slot:
  assumes "pow2_length ss" "i < length ss" "b < length ss" "ahead (length ss) b i + 1 < length ss"
  shows "ahead (length ss) b (next_slot ss i) = ahead (length ss) b i + 1"
  using assms by (auto simp: next_slot_eq ahead_def split: if_splits)

lemma pow2_length_cong: "length ss' = length ss \<Longrightarrow> pow2_length ss' = pow2_length ss"
  by (simp add: pow2_length_def)

subsection \<open>Entries\<close>

lemma entries_update:
  assumes "i < length ss"
  shows "entries (ss[i := s]) =
    (if used s then {#s#} else {#}) + (entries ss - (if used (ss ! i) then {#ss ! i#} else {#}))"
  using assms by (simp add: entries_def mset_update)

lemma entries_mem: "s \<in># entries ss \<longleftrightarrow> s \<in> set ss \<and> used s"
  by (simp add: entries_def)

lemma nth_entry: "i < length ss \<Longrightarrow> used (ss ! i) \<Longrightarrow> ss ! i \<in># entries ss"
  by (simp add: entries_mem)

lemma used_empty [simp]: "\<not> used Slot_empty" "used \<lparr>slotKey = k, slotValue = Some p\<rparr>"
  by (simp_all add: used_def Slot_empty_def)

lemma entries_replicate [simp]: "entries (replicate n Slot_empty) = {#}"
  by (simp add: entries_def)

lemma entries_filter: "entries ss = mset (filter used ss)"
  by (simp add: entries_def)

lemma size_entries: "size (entries ss) = length (filter used ss)"
  unfolding entries_filter by (rule size_mset)

lemma size_entries_empty_slot:
  assumes "size (entries ss) < length ss"
  obtains i where "i < length ss" "\<not> used (ss ! i)"
proof -
  have "length (filter used ss) < length ss" using assms by (simp add: size_entries)
  then have "\<exists>s \<in> set ss. \<not> used s" by (metis filter_True less_irrefl)
  then show thesis using that by (metis in_set_conv_nth)
qed

lemma size_entries_less: "i < length ss \<Longrightarrow> \<not> used (ss ! i) \<Longrightarrow> size (entries ss) < length ss"
  unfolding size_entries by (rule length_filter_less [of "ss ! i"]) simp_all

lemma keys_distinct_mset: "keys_distinct ss \<longleftrightarrow> (\<forall>k. count (image_mset slotKey (entries ss)) k \<le> 1)"
  unfolding keys_distinct_def entries_filter mset_map [symmetric] distinct_count_atmost_1
  by (metis count_mset_0_iff le_eq_less_or_eq less_one not_less zero_le bot_nat_0.extremum)

lemma keys_distinct_cong: "entries ss' = entries ss \<Longrightarrow> keys_distinct ss' = keys_distinct ss"
  by (simp add: keys_distinct_mset)

lemma index_map_iff:
  assumes "keys_distinct (slots ix)"
  shows "index_map ix k = Some p \<longleftrightarrow> \<lparr>slotKey = k, slotValue = Some p\<rparr> \<in># entries (slots ix)"
proof -
  let ?f = "\<lambda>s. (slotKey s, the (slotValue s))"
  have "index_map ix k = Some p \<longleftrightarrow> (k, p) \<in> set (map ?f (filter used (slots ix)))"
    unfolding index_map_def
    by (rule map_of_eq_Some_iff) (use assms in \<open>simp add: keys_distinct_def comp_def\<close>)
  also have "\<dots> \<longleftrightarrow> \<lparr>slotKey = k, slotValue = Some p\<rparr> \<in># entries (slots ix)"
  proof
    assume "(k, p) \<in> set (map ?f (filter used (slots ix)))"
    then obtain s where "s \<in> set (slots ix)" "used s" "slotKey s = k" "the (slotValue s) = p" by auto
    moreover from this have "s = \<lparr>slotKey = k, slotValue = Some p\<rparr>"
      by (intro slot.equality) (simp_all add: used_def, metis option.sel)
    ultimately show "\<lparr>slotKey = k, slotValue = Some p\<rparr> \<in># entries (slots ix)"
      by (simp add: entries_mem)
  next
    assume "\<lparr>slotKey = k, slotValue = Some p\<rparr> \<in># entries (slots ix)"
    then show "(k, p) \<in> set (map ?f (filter used (slots ix)))" by (force simp: entries_mem)
  qed
  finally show ?thesis .
qed

lemma index_map_None:
  "index_map ix k = None \<longleftrightarrow> (\<forall>s \<in># entries (slots ix). slotKey s \<noteq> k)"
  by (force simp: index_map_def map_of_eq_None_iff entries_mem image_iff)

subsection \<open>Probing\<close>

text \<open>
  The slot a probe for \<open>k\<close> stops at, \<open>d\<close> steps after its natural index: the first slot that
  is empty or holds \<open>k\<close>.
\<close>

definition stops_at :: "slot list \<Rightarrow> nat \<Rightarrow> u64 \<Rightarrow> nat \<Rightarrow> bool" where
  "stops_at ss b k i \<longleftrightarrow>
     i < length ss \<and> (used (ss ! i) \<longrightarrow> slotKey (ss ! i) = k) \<and>
     (\<forall>m < length ss. ahead (length ss) b m < ahead (length ss) b i \<longrightarrow>
        used (ss ! m) \<and> slotKey (ss ! m) \<noteq> k)"

lemma ex_stops_at:
  assumes "b < length ss" and "size (entries ss) < length ss"
  obtains i where "stops_at ss b k i"
proof -
  let ?P = "\<lambda>d. \<exists>i < length ss. ahead (length ss) b i = d \<and> (used (ss ! i) \<longrightarrow> slotKey (ss ! i) = k)"
  obtain e where "e < length ss" "\<not> used (ss ! e)" using size_entries_empty_slot [OF assms(2)] .
  then have "?P (ahead (length ss) b e)" by auto
  from LeastI [of ?P, OF this] obtain i where
    i: "i < length ss" "ahead (length ss) b i = (LEAST d. ?P d)" "used (ss ! i) \<longrightarrow> slotKey (ss ! i) = k" by auto
  moreover have "used (ss ! m) \<and> slotKey (ss ! m) \<noteq> k"
    if "m < length ss" "ahead (length ss) b m < ahead (length ss) b i" for m
    using that not_less_Least [of "ahead (length ss) b m" ?P] i(2) by auto
  ultimately show thesis by (intro that [of i]) (simp add: stops_at_def)
qed

lemma probe_step:
  assumes "pow2_length ss" "b < length ss" "i < length ss" "j < length ss"
    and "ahead (length ss) b j < ahead (length ss) b i"
  shows "next_slot ss j < length ss" "ahead (length ss) b (next_slot ss j) = ahead (length ss) b j + 1"
proof -
  have "ahead (length ss) b i < length ss" by (rule ahead_less) (use assms in auto)
  then show "ahead (length ss) b (next_slot ss j) = ahead (length ss) b j + 1"
    using ahead_next_slot assms by simp
  show "next_slot ss j < length ss" by (rule next_slot_less) (use assms in auto)
qed

lemma probe_key_stops:
  assumes pw: "pow2_length ss" and b: "b < length ss" and st: "stops_at ss b k i"
  shows "j < length ss \<Longrightarrow> ahead (length ss) b j \<le> ahead (length ss) b i \<Longrightarrow>
    ahead (length ss) b i < ahead (length ss) b j + n \<Longrightarrow> probe_key k ss n j = Inr i"
proof (induction n arbitrary: j)
  case 0
  then show ?case by simp
next
  case (Suc n)
  have i: "i < length ss" using st by (simp add: stops_at_def)
  show ?case
  proof (cases "j = i")
    case True
    then show ?thesis using st by (auto simp: stops_at_def used_def split: option.splits)
  next
    case False
    then have lt: "ahead (length ss) b j < ahead (length ss) b i"
      using Suc.prems ahead_inj [of b "length ss" j i] b i by simp
    with st Suc.prems(1) have "used (ss ! j)" "slotKey (ss ! j) \<noteq> k" by (auto simp: stops_at_def)
    then show ?thesis
      using Suc.IH [of "next_slot ss j"] probe_step [OF pw b i Suc.prems(1) lt] Suc.prems lt
      by (auto simp: used_def)
  qed
qed

lemma probe_insert_key:
  "probe_insert k ss n j =
     (case probe_key k ss n j of Inl e \<Rightarrow> Inl e
      | Inr i \<Rightarrow> if used (ss ! i) then Inl (LogicError ''Order with the same OrderId already exists in the index'')
               else Inr i)"
  by (induction n arbitrary: j) (auto simp: used_def split: option.splits)

lemma probe_empty_key:
  "\<forall>s \<in># entries ss. slotKey s \<noteq> k \<Longrightarrow> probe_empty ss n j = probe_key k ss n j"
  by (induction n arbitrary: j) (auto simp: entries_mem used_def split: option.splits)

lemma probe_key_result:
  assumes "pow2_length ss" and "size (entries ss) < length ss"
  obtains i where "probe_key k ss (length ss) (indexFor H k (length ss)) = Inr i"
    "stops_at ss (indexFor H k (length ss)) k i"
proof -
  note b = indexFor_less [OF assms(1), of H k]
  obtain i where i: "stops_at ss (indexFor H k (length ss)) k i" using ex_stops_at [OF b assms(2)] .
  moreover from i have "ahead (length ss) (indexFor H k (length ss)) i < length ss"
    using ahead_less b by (simp add: stops_at_def)
  ultimately show thesis
    using probe_key_stops [OF assms(1) b i, of "indexFor H k (length ss)" "length ss"] b that by simp
qed

text \<open>Where a probe stops at an empty slot the key is absent: nothing can lie beyond it.\<close>

lemma stops_at_absent:
  assumes "reachable_all H {} ss" and st: "stops_at ss (indexFor H k (length ss)) k i" and "\<not> used (ss ! i)"
    and pw: "pow2_length ss"
  shows "\<forall>s \<in># entries ss. slotKey s \<noteq> k"
proof (intro ballI notI)
  fix s assume "s \<in># entries ss" "slotKey s = k"
  then obtain j where j: "j < length ss" "used (ss ! j)" "slotKey (ss ! j) = k"
    by (auto simp: entries_mem in_set_conv_nth)
  let ?a = "ahead (length ss) (indexFor H k (length ss))"
  have i: "i < length ss" using st by (simp add: stops_at_def)
  have "\<not> ?a j < ?a i" using st j by (auto simp: stops_at_def)
  moreover have "?a j \<noteq> ?a i" using j assms(3) ahead_inj indexFor_less [OF pw] i by metis
  moreover have "\<not> ?a i < ?a j"
    using assms(1,3) i j by (auto simp: reachable_all_def reachable_from_def Let_def)
  ultimately show False by simp
qed

lemma findOrder_map:
  assumes "index_ok H ix"
  shows "OrderIndex_findOrder H k ix = Inr (index_map ix k)"
proof (cases "slots ix = []")
  case True
  then show ?thesis by (simp add: OrderIndex_findOrder_def findSlot_def index_map_def)
next
  case False
  with assms have ok: "pow2_length (slots ix)" "size (entries (slots ix)) < length (slots ix)"
    "keys_distinct (slots ix)" "reachable_all H {} (slots ix)" by (auto simp: index_ok_def)
  obtain i where i: "probe_key k (slots ix) (length (slots ix)) (indexFor H k (length (slots ix))) = Inr i"
    "stops_at (slots ix) (indexFor H k (length (slots ix))) k i" using probe_key_result [OF ok(1,2)] .
  have lt: "i < length (slots ix)" using i(2) by (simp add: stops_at_def)
  have "length (slots ix) \<le> 2 ^ 58"
    using ok(1) unfolding pow2_length_def by (metis less_Suc_eq_le numeral_nat(7) power_increasing one_le_numeral eval_nat_numeral(3) numeral_eq_Suc pred_numeral_simps)
  then have "i \<noteq> npos" using lt by (simp add: npos_def)
  moreover have "slotValue (slots ix ! i) = index_map ix k"
  proof (cases "slotValue (slots ix ! i)")
    case None
    then have "\<not> used (slots ix ! i)" by (simp add: used_def)
    from stops_at_absent [OF ok(4) i(2) this ok(1)] index_map_None [of ix k] None show ?thesis by simp
  next
    case (Some p)
    with i(2) have "slots ix ! i = \<lparr>slotKey = k, slotValue = Some p\<rparr>" by (simp add: stops_at_def used_def)
    with nth_entry [OF lt] Some have "\<lparr>slotKey = k, slotValue = Some p\<rparr> \<in># entries (slots ix)"
      by (simp add: used_def)
    with index_map_iff [OF ok(3), of k p] Some show ?thesis by simp
  qed
  ultimately show ?thesis using False i lt by (simp add: OrderIndex_findOrder_def findSlot_def)
qed

subsection \<open>Inserting and growing\<close>

text \<open>A table with room: the part of \<open>index_ok\<close> that holds once storage is allocated.\<close>

definition table_ok :: "hash_fun \<Rightarrow> slot list \<Rightarrow> bool" where
  "table_ok H ss \<longleftrightarrow> pow2_length ss \<and> size (entries ss) < length ss \<and> keys_distinct ss \<and> reachable_all H {} ss"

lemma index_ok_table:
  "index_ok H ix \<longleftrightarrow> index_count ix = size (entries (slots ix)) \<and> (slots ix = [] \<or> table_ok H (slots ix))"
  by (auto simp: index_ok_def table_ok_def)

lemma table_okD:
  assumes "table_ok H ss"
  shows "pow2_length ss" "size (entries ss) < length ss" "keys_distinct ss" "reachable_all H {} ss"
  using assms by (simp_all add: table_ok_def)

lemma reachable_insert:
  assumes re: "reachable_all H {} ss" and i: "i < length ss" "\<not> used (ss ! i)" and s: "used s"
    and st: "stops_at ss (indexFor H (slotKey s) (length ss)) (slotKey s) i"
  shows "reachable_all H {} (ss[i := s])"
  unfolding reachable_all_def
proof (intro allI impI)
  fix j assume j: "j < length (ss[i := s])" "used (ss[i := s] ! j)"
  show "reachable_from H {} (ss[i := s]) j"
  proof (cases "j = i")
    case True
    with i st show ?thesis by (auto simp: reachable_from_def stops_at_def nth_list_update s)
  next
    case False
    with re j have "reachable_from H {} ss j" by (simp add: reachable_all_def)
    with False show ?thesis using i(1) s by (auto simp: reachable_from_def Let_def nth_list_update)
  qed
qed

lemma table_insert:
  assumes ok: "table_ok H ss" and room: "size (entries ss) + 1 < length ss" and s: "used s"
    and st: "stops_at ss (indexFor H (slotKey s) (length ss)) (slotKey s) i" and i: "\<not> used (ss ! i)"
  shows "table_ok H (ss[i := s])" "entries (ss[i := s]) = add_mset s (entries ss)"
proof -
  note D = table_okD [OF ok]
  have lt: "i < length ss" using st by (simp add: stops_at_def)
  show e: "entries (ss[i := s]) = add_mset s (entries ss)" using entries_update [OF lt] i s by simp
  have "slotKey s \<notin># image_mset slotKey (entries ss)"
    using stops_at_absent [OF D(4) st i D(1)] by auto
  then have "count (image_mset slotKey (entries ss)) (slotKey s) = 0" by (simp add: count_eq_zero_iff)
  then have "keys_distinct (ss[i := s])"
    using D(3) unfolding keys_distinct_mset e by simp
  then show "table_ok H (ss[i := s])"
    using D(1) room reachable_insert [OF D(4) lt i s st] e
    by (simp add: table_ok_def pow2_length_def)
qed

lemma rehash_table:
  assumes "table_ok H grown" and "size (entries grown) + length (filter used ss) + 1 \<le> length grown"
    and "distinct (map slotKey (filter used ss))"
    and "\<forall>s \<in># entries grown. slotKey s \<notin> slotKey ` set (filter used ss)"
  shows "\<exists>ss'. rehash H ss grown = Inr ss' \<and> table_ok H ss' \<and> length ss' = length grown \<and>
    entries ss' = entries grown + entries ss"
  using assms
proof (induction ss arbitrary: grown)
  case Nil
  then show ?case by (simp add: entries_def)
next
  case (Cons s ss)
  show ?case
  proof (cases "used s")
    case False
    with Cons show ?thesis by (simp add: used_def entries_def)
  next
    case True
    note D = table_okD [OF Cons.prems(1)]
    have absent: "\<forall>t \<in># entries grown. slotKey t \<noteq> slotKey s" using Cons.prems(4) True by auto
    obtain i where i: "probe_key (slotKey s) grown (length grown) (indexFor H (slotKey s) (length grown)) = Inr i"
      "stops_at grown (indexFor H (slotKey s) (length grown)) (slotKey s) i" using probe_key_result [OF D(1,2)] .
    then have "\<not> used (grown ! i)" using absent nth_entry [of i grown] by (auto simp: stops_at_def)
    moreover have "size (entries grown) + 1 < length grown" using Cons.prems(2) True by simp
    ultimately have ins: "table_ok H (grown[i := s])" "entries (grown[i := s]) = add_mset s (entries grown)"
      using table_insert [OF Cons.prems(1) _ True i(2)] by blast+
    have "\<exists>ss'. rehash H ss (grown[i := s]) = Inr ss' \<and> table_ok H ss' \<and> length ss' = length (grown[i := s]) \<and>
        entries ss' = entries (grown[i := s]) + entries ss"
      by (rule Cons.IH [OF ins(1)]) (use Cons.prems True ins(2) in auto)
    then show ?thesis
      using True i(1) ins(2) probe_empty_key [OF absent] by (auto simp: used_def entries_def)
  qed
qed

lemma table_ok_new: "k < 59 \<Longrightarrow> table_ok H (replicate (2 ^ k) Slot_empty)"
  by (auto simp: table_ok_def pow2_length_def keys_distinct_def reachable_all_def)

lemma rehash_into_ok:
  assumes ok: "index_ok H ix" and cap: "capacity = 2 ^ k" "k < 59" and room: "size (entries (slots ix)) < capacity"
  shows "\<exists>ss. rehash_into H capacity ix = Ret () (ix\<lparr>slots := ss\<rparr>) \<and> table_ok H ss \<and> length ss = capacity \<and>
    entries ss = entries (slots ix)"
proof -
  have "(2 :: nat) ^ k \<le> 2 ^ 58" using cap(2) by (intro power_increasing) auto
  then have "\<not> capacity > MaxSlots" using cap(1) by (simp add: MaxSlots_def)
  moreover have "distinct (map slotKey (filter used (slots ix)))"
    using ok by (auto simp: index_ok_def keys_distinct_def)
  ultimately show ?thesis
    using rehash_table [OF table_ok_new [OF cap(2)], of "slots ix" H] room cap(1)
    by (auto simp: rehash_into_def size_entries)
qed

lemma to_double_ge_pow2: "2 ^ k \<le> n \<Longrightarrow> 2 ^ k \<le> to_double n"
proof (cases "n < 2 ^ 53")
  case False
  assume n: "2 ^ k \<le> n"
  define e where "e = floorlog 2 n - 53"
  define q where "q = n div 2 ^ e"
  have "2 ^ k \<le> q * 2 ^ e"
  proof (cases "k \<le> e")
    case True
    have "0 < q"
    proof -
      have "(2 :: nat) ^ e \<le> 2 ^ (floorlog 2 n - 1)" unfolding e_def by (rule power_increasing) auto
      also have "\<dots> \<le> n" using floorlog_bounds [of n 2] False by auto
      finally show ?thesis by (simp add: q_def div_greater_zero_iff)
    qed
    moreover have "(2 :: nat) ^ k \<le> 2 ^ e" using True by (rule power_increasing) simp
    ultimately show ?thesis by (metis One_nat_def Suc_leI mult_le_mono nat_mult_1)
  next
    case False
    then obtain d where d: "k = d + e" by (metis add.commute le_Suc_ex nat_le_linear)
    have "2 ^ d * 2 ^ e div 2 ^ e \<le> n div (2 ^ e)" using n d by (intro div_le_mono) (simp add: power_add)
    then have "2 ^ d \<le> q" by (simp add: q_def)
    then show ?thesis using d by (simp add: power_add)
  qed
  also have "\<dots> \<le> to_double n"
    using False by (simp add: to_double_def Let_def e_def q_def)
  finally show ?thesis .
qed (simp add: to_double_def)

definition length_error :: error where
  "length_error = LogicError ''cannot create std::vector larger than max_size()''"

lemma entries_Nil [simp]: "entries [] = {#}"
  by (simp add: entries_def)

lemma index_count_small:
  assumes "index_ok H ix"
  shows "index_count ix < 2 ^ 58"
proof (cases "slots ix = []")
  case True
  then show ?thesis using assms by (simp add: index_ok_def entries_def)
next
  case False
  with assms obtain k where k: "k < 59" "length (slots ix) = 2 ^ k" "index_count ix < 2 ^ k"
    by (auto simp: index_ok_def pow2_length_def)
  have "(2 :: nat) ^ k \<le> 2 ^ 58" using k(1) by (intro power_increasing) auto
  with k(3) show ?thesis by linarith
qed

lemma sz_inc_index: "index_ok H ix \<Longrightarrow> sz_inc (index_count ix) = index_count ix + 1"
  using index_count_small [of H ix] by (intro sz_inc_small) (simp add: SIZE_RANGE_def)

text \<open>The cases of \<open>growIfNeeded\<close>: a table with room for one more, or a vector that is too long.\<close>

lemma growIfNeeded_cases:
  assumes ok: "index_ok H ix"
  obtains (grown) ss where "growIfNeeded H ix = Ret () (ix\<lparr>slots := ss\<rparr>)" "table_ok H ss"
      "entries ss = entries (slots ix)" "size (entries ss) + 1 < length ss"
    | (too_long) "growIfNeeded H ix = Throw length_error ix" "2 ^ 53 \<le> index_count ix + 1"
proof (cases "slots ix = []")
  case True
  have "table_ok H (replicate InitialCapacity Slot_empty)"
    using table_ok_new [of 4 H] by (simp add: InitialCapacity_def)
  then show thesis
    using True grown [of "replicate InitialCapacity Slot_empty"]
    by (simp add: growIfNeeded_def InitialCapacity_def)
next
  case False
  let ?n = "index_count ix + 1"
  from ok False have tab: "table_ok H (slots ix)" and cnt: "index_count ix = size (entries (slots ix))"
    by (auto simp: index_ok_table)
  obtain k where k: "k < 59" "length (slots ix) = 2 ^ k" using table_okD(1) [OF tab] by (auto simp: pow2_length_def)
  have full: "?n \<le> 2 ^ k" using table_okD(2) [OF tab] cnt k(2) by simp
  note inc = sz_inc_index [OF ok]
  have "(2 :: nat) ^ k \<le> 2 ^ 58" using k(1) by (intro power_increasing) auto
  then have dbl: "length (slots ix) * 2 mod SIZE_RANGE = 2 ^ Suc k" using k(2) by (simp add: SIZE_RANGE_def)
  show thesis
  proof (cases "2 * to_double ?n \<le> 2 ^ k")
    case True
    moreover have "(0 :: nat) < 2 ^ k" by simp
    ultimately have "?n < 2 ^ k" using to_double_ge_pow2 [of k ?n] by linarith
    with True False tab cnt k(2) inc show thesis
      using grown [of "slots ix"] by (simp add: growIfNeeded_def)
  next
    case grow: False
    show thesis
    proof (cases "Suc k < 59")
      case True
      from rehash_into_ok [OF ok refl True] full cnt
      obtain ss where "rehash_into H (2 ^ Suc k) ix = Ret () (ix\<lparr>slots := ss\<rparr>)" "table_ok H ss"
        "length ss = 2 ^ Suc k" "entries ss = entries (slots ix)" by auto
      with grow False full cnt k(2) inc dbl show thesis
        using grown [of ss] by (simp add: growIfNeeded_def)
    next
      case big: False
      with k(1) have k58: "k = 58" by simp
      have "2 ^ 53 \<le> ?n" using grow k58 by (cases "?n < 2 ^ 53") (auto simp: to_double_def)
      then show thesis
        using too_long grow False k58 k(2) inc dbl
        by (simp add: growIfNeeded_def rehash_into_def MaxSlots_def length_error_def)
    qed
  qed
qed

lemma index_map_cong:
  assumes "entries (slots ix') = entries (slots ix)" and "keys_distinct (slots ix)"
  shows "index_map ix' = index_map ix"
proof (rule ext)
  fix k
  have "index_map ix' k = Some p \<longleftrightarrow> index_map ix k = Some p" for p
    using assms index_map_iff keys_distinct_cong by metis
  then show "index_map ix' k = index_map ix k" by (metis not_None_eq)
qed

lemma keys_distinct_Nil [simp]: "keys_distinct []"
  by (simp add: keys_distinct_def)

lemma index_ok_keys: "index_ok H ix \<Longrightarrow> keys_distinct (slots ix)"
  by (auto simp: index_ok_table table_ok_def)

lemma index_map_insert:
  assumes "entries (slots ix') = add_mset \<lparr>slotKey = k, slotValue = Some p\<rparr> (entries (slots ix))"
    and "keys_distinct (slots ix')" and "keys_distinct (slots ix)"
  shows "index_map ix' = (index_map ix)(k \<mapsto> p)"
proof (rule ext)
  fix j
  have "index_map ix' j = Some q \<longleftrightarrow> ((index_map ix)(k \<mapsto> p)) j = Some q" if "j \<noteq> k" for q
    using that assms index_map_iff by auto
  moreover have "index_map ix' k = Some p" using assms(1) index_map_iff [OF assms(2)] by simp
  ultimately show "index_map ix' j = ((index_map ix)(k \<mapsto> p)) j" by (metis fun_upd_same not_None_eq)
qed

lemma OrderIndex_addOrder_cases:
  assumes ok: "index_ok H ix" and hp: "h p = Some ord"
  obtains (added) ix' where "index_map ix (orderId ord) = None" "OrderIndex_addOrder H h (Some p) ix = Ret () ix'"
      "index_ok H ix'" "index_map ix' = (index_map ix)(orderId ord \<mapsto> p)" "index_count ix' = index_count ix + 1"
    | (duplicate) ix' where "index_map ix (orderId ord) \<noteq> None"
      "OrderIndex_addOrder H h (Some p) ix =
         Throw (LogicError ''Order with the same OrderId already exists in the index'') ix'"
      "index_ok H ix'" "index_map ix' = index_map ix" "index_count ix' = index_count ix"
    | (too_long) "OrderIndex_addOrder H h (Some p) ix = Throw length_error ix" "2 ^ 53 \<le> index_count ix + 1"
proof (cases rule: growIfNeeded_cases [OF ok])
  case (1 ss)
  let ?k = "orderId ord" and ?ix1 = "ix\<lparr>slots := ss\<rparr>"
  note D = table_okD [OF 1(2)] and inc = sz_inc_index [OF ok]
  have cnt: "index_count ix = size (entries ss)" using ok 1(3) by (simp add: index_ok_def)
  have same: "index_map ?ix1 = index_map ix" by (rule index_map_cong) (use 1(3) index_ok_keys [OF ok] in simp_all)
  obtain i where i: "probe_key ?k ss (length ss) (indexFor H ?k (length ss)) = Inr i"
    "stops_at ss (indexFor H ?k (length ss)) ?k i" using probe_key_result [OF D(1,2)] .
  show thesis
  proof (cases "used (ss ! i)")
    case True
    have "ss ! i \<in># entries ss" "slotKey (ss ! i) = ?k"
      using i(2) True nth_entry [of i ss] by (auto simp: stops_at_def)
    then have "index_map ?ix1 ?k \<noteq> None" by (auto simp: index_map_None)
    with same have "index_map ix ?k \<noteq> None" by simp
    moreover have "index_ok H ?ix1" using 1(2,3) ok by (simp add: index_ok_table)
    ultimately show thesis using duplicate [of ?ix1] same 1(1) hp i(1) True
      by (simp add: OrderIndex_addOrder_def probe_insert_key)
  next
    case False
    let ?s = "\<lparr>slotKey = ?k, slotValue = Some p\<rparr>"
    let ?ix' = "?ix1\<lparr>slots := ss[i := ?s], index_count := sz_inc (index_count ix)\<rparr>"
    have ins: "table_ok H (ss[i := ?s])" "entries (ss[i := ?s]) = add_mset ?s (entries ss)"
      using table_insert [OF 1(2,4), of ?s i] i(2) False by simp_all
    have "index_map ix ?k = None"
      using stops_at_absent [OF D(4) i(2) False D(1)] same index_map_None [of ?ix1 ?k] by simp
    moreover have "index_ok H ?ix'" using ins cnt inc by (simp add: index_ok_table)
    moreover have "index_map ?ix' = (index_map ix)(?k \<mapsto> p)"
      by (rule index_map_insert) (use ins(2) 1(3) table_okD(3) [OF ins(1)] index_ok_keys [OF ok] in simp_all)
    ultimately show thesis using added [of ?ix'] 1(1) hp i(1) False inc
      by (simp add: OrderIndex_addOrder_def probe_insert_key)
  qed
next
  case 2
  then show thesis using too_long by (simp add: OrderIndex_addOrder_def)
qed

subsection \<open>Backward-shift deletion\<close>

text \<open>
  The loop invariant, with distances measured from the hole: \<open>v\<close> is the vacated slot, \<open>c\<close>
  the slot being scanned, \<open>e\<close> an empty slot ahead. The slots strictly between \<open>v\<close> and
  \<open>c\<close> are in use and their entries do not need \<open>v\<close>; every other entry needs at most
  \<open>v\<close> filled.
\<close>

definition shifting :: "hash_fun \<Rightarrow> nat \<Rightarrow> nat \<Rightarrow> nat \<Rightarrow> nat \<Rightarrow> slot list \<Rightarrow> bool" where
  "shifting H z e v c ss \<longleftrightarrow>
     pow2_length ss \<and> z < length ss \<and> e < length ss \<and> v < length ss \<and> c < length ss \<and>
     \<not> used (ss ! e) \<and> \<not> used (ss ! v) \<and>
     ahead (length ss) z v < ahead (length ss) z c \<and> ahead (length ss) z c \<le> ahead (length ss) z e \<and>
     (\<forall>i < length ss. ahead (length ss) z v < ahead (length ss) z i \<and> ahead (length ss) z i < ahead (length ss) z c
        \<longrightarrow> used (ss ! i) \<and> reachable_from H {} ss i) \<and>
     reachable_all H {v} ss"

text \<open>The loop ends at an empty slot: then no entry needs the vacated one any more.\<close>

lemma shifting_done:
  assumes sh: "shifting H z e v c ss" and c: "\<not> used (ss ! c)"
  shows "reachable_all H {} ss"
  unfolding reachable_all_def
proof (intro allI impI)
  fix i assume i: "i < length ss" "used (ss ! i)"
  let ?a = "ahead (length ss) z" and ?b = "indexFor H (slotKey (ss ! i)) (length ss)"
  from sh have lt: "z < length ss" "v < length ss" "c < length ss" "?a v < ?a c"
    and pw: "pow2_length ss" and re: "reachable_all H {v} ss" by (simp_all add: shifting_def)
  have b: "?b < length ss" using pw by (rule indexFor_less)
  from re i have fr: "reachable_from H {v} ss i" by (simp add: reachable_all_def)
  have cv: "c \<noteq> v" using lt(4) by auto
  have ne: "?a i \<noteq> ?a c" using i c lt(1,3) ahead_inj by metis
  show "reachable_from H {} ss i"
  proof (cases "?a v < ?a i \<and> ?a i < ?a c")
    case True
    with sh i(1) show ?thesis by (auto simp: shifting_def)
  next
    case False
    have "\<not> ahead (length ss) ?b c < ahead (length ss) ?b i"
      using fr lt(3) c cv by (auto simp: reachable_from_def Let_def)
    then have "\<not> ahead (length ss) ?b v < ahead (length ss) ?b i"
      using False ne lt(4) unfolding ahead_shift [OF lt(1) b i(1) lt(3)] ahead_shift [OF lt(1) b i(1) lt(2)]
      by (auto split: if_splits)
    then show ?thesis using fr by (auto simp: reachable_from_def Let_def)
  qed
qed

lemma shifting_next:
  assumes "shifting H z e v c ss" and "used (ss ! c)"
  shows "next_slot ss c < length ss" "ahead (length ss) z (next_slot ss c) = ahead (length ss) z c + 1"
    "ahead (length ss) z c + 1 \<le> ahead (length ss) z e"
proof -
  from assms(1) have lt: "pow2_length ss" "z < length ss" "e < length ss" "c < length ss" "\<not> used (ss ! e)"
    "ahead (length ss) z c \<le> ahead (length ss) z e" by (simp_all add: shifting_def)
  have "ahead (length ss) z c \<noteq> ahead (length ss) z e" using lt assms(2) ahead_inj by metis
  with lt(6) have less: "ahead (length ss) z c < ahead (length ss) z e" by simp
  then show "ahead (length ss) z c + 1 \<le> ahead (length ss) z e" by simp
  show "next_slot ss c < length ss" "ahead (length ss) z (next_slot ss c) = ahead (length ss) z c + 1"
    using probe_step [OF lt(1,2,3,4) less] by simp_all
qed

text \<open>An entry that stays: its natural index lies after the vacated slot.\<close>

lemma shifting_keep:
  assumes sh: "shifting H z e v c ss" and c: "used (ss ! c)"
    and rg: "inCyclicRange (indexFor H (slotKey (ss ! c)) (length ss)) v c"
  shows "shifting H z e v (next_slot ss c) ss"
proof -
  let ?a = "ahead (length ss) z" and ?b = "indexFor H (slotKey (ss ! c)) (length ss)"
  from sh have lt: "z < length ss" "v < length ss" "c < length ss" "?a v < ?a c"
    and pw: "pow2_length ss" and re: "reachable_all H {v} ss" by (simp_all add: shifting_def)
  note nx = shifting_next [OF sh c]
  have b: "?b < length ss" using pw by (rule indexFor_less)
  have "?a v < ?a ?b" "?a ?b \<le> ?a c" using rg inCyclicRange_ahead [OF lt(1) b lt(2-4)] by simp_all
  then have "\<not> ahead (length ss) ?b v < ahead (length ss) ?b c"
    unfolding ahead_shift [OF lt(1) b lt(3) lt(2)] by simp
  moreover have "reachable_from H {v} ss c" using re c lt(3) by (simp add: reachable_all_def)
  ultimately have "reachable_from H {} ss c" by (auto simp: reachable_from_def Let_def)
  moreover have "i = c" if "i < length ss" "?a i < ?a c + 1" "\<not> ?a i < ?a c" for i
    using that ahead_inj [OF lt(1) that(1) lt(3)] by simp
  ultimately show ?thesis using sh nx c unfolding shifting_def by auto
qed

text \<open>An entry that moves back into the vacated slot and vacates its own.\<close>

lemma shifting_move:
  assumes sh: "shifting H z e v c ss" and c: "used (ss ! c)"
    and rg: "\<not> inCyclicRange (indexFor H (slotKey (ss ! c)) (length ss)) v c"
  defines "ss' \<equiv> ss[v := ss ! c, c := Slot_empty]"
  shows "shifting H z e c (next_slot ss c) ss'"
proof -
  let ?a = "ahead (length ss) z" and ?b = "indexFor H (slotKey (ss ! c)) (length ss)"
  from sh have lt: "z < length ss" "v < length ss" "c < length ss" "?a v < ?a c"
    and pw: "pow2_length ss" and re: "reachable_all H {v} ss" and e: "\<not> used (ss ! e)" "e < length ss"
    by (simp_all add: shifting_def)
  note nx = shifting_next [OF sh c]
  have b: "?b < length ss" using pw by (rule indexFor_less)
  have vc: "v \<noteq> c" and ec: "e \<noteq> c" and ev: "e \<noteq> v" using lt(4) e c nx(3) by auto
  have nth: "ss' ! i = (if i = c then Slot_empty else if i = v then ss ! c else ss ! i)" for i
    using lt by (simp add: ss'_def nth_list_update)
  have len: "length ss' = length ss" by (simp add: ss'_def)
  have out: "\<not> (?a v < ?a ?b \<and> ?a ?b \<le> ?a c)" using rg inCyclicRange_ahead [OF lt(1) b lt(2-4)] by simp
  have all: "reachable_all H {c} ss'"
    unfolding reachable_all_def
  proof (intro allI impI)
    fix i assume i: "i < length ss'" "used (ss' ! i)"
    then have ic: "i \<noteq> c" by (auto simp: nth)
    show "reachable_from H {c} ss' i"
    proof (cases "i = v")
      case True
      have "reachable_from H {v} ss c" using re c lt(3) by (simp add: reachable_all_def)
      then have path: "used (ss ! m) \<or> m = v" if "m < length ss" "ahead (length ss) ?b m < ahead (length ss) ?b c" for m
        using that by (auto simp: reachable_from_def Let_def)
      have "ahead (length ss) ?b m < ahead (length ss) ?b c" if "m < length ss" "ahead (length ss) ?b m < ahead (length ss) ?b v" for m
        using that(2) out lt(4)
        unfolding ahead_shift [OF lt(1) b lt(3) that(1)] ahead_shift [OF lt(1) b lt(2) that(1)] by (auto split: if_splits)
      with path True vc show ?thesis by (auto simp: reachable_from_def Let_def nth len c)
    next
      case False
      with re i ic have "reachable_from H {v} ss i" by (simp add: reachable_all_def nth len)
      with False ic show ?thesis by (auto simp: reachable_from_def Let_def nth len c)
    qed
  qed
  have "pow2_length ss'" using pw by (simp add: pow2_length_def len)
  moreover have "\<not> (?a c < ?a i \<and> ?a i < ?a c + 1)" for i by simp
  ultimately show ?thesis
    using all lt e nx ec ev unfolding shifting_def len by (simp add: nth)
qed

lemma entries_move:
  assumes "v < length ss" "c < length ss" "v \<noteq> c" "\<not> used (ss ! v)" "used (ss ! c)"
  shows "entries (ss[v := ss ! c, c := Slot_empty]) = entries ss"
  using assms by (simp add: entries_update)

lemma shift_back_ok:
  "shifting H z e v c ss \<Longrightarrow> ahead (length ss) z e < ahead (length ss) z c + n \<Longrightarrow>
    \<exists>ss'. shift_back H n v c ss = Inr ss' \<and> length ss' = length ss \<and> entries ss' = entries ss \<and>
      reachable_all H {} ss'"
proof (induction n arbitrary: v c ss)
  case 0
  then show ?case by (simp add: shifting_def)
next
  case (Suc n)
  from Suc.prems(1) have lt: "v < length ss" "c < length ss" "\<not> used (ss ! v)"
    "ahead (length ss) z v < ahead (length ss) z c" by (simp_all add: shifting_def)
  then have vc: "v \<noteq> c" by auto
  show ?case
  proof (cases "used (ss ! c)")
    case False
    then show ?thesis using shifting_done [OF Suc.prems(1)] lt by (auto simp: used_def)
  next
    case True
    note nx = shifting_next [OF Suc.prems(1) True]
    show ?thesis
    proof (cases "inCyclicRange (indexFor H (slotKey (ss ! c)) (length ss)) v c")
      case rg: True
      from Suc.IH [OF shifting_keep [OF Suc.prems(1) True rg]] nx Suc.prems(2) True rg lt
      show ?thesis by (auto simp: used_def)
    next
      case rg: False
      let ?ss = "ss[v := ss ! c, c := Slot_empty]"
      have "\<exists>ss'. shift_back H n c (next_slot ss c) ?ss = Inr ss' \<and> length ss' = length ?ss \<and>
          entries ss' = entries ?ss \<and> reachable_all H {} ss'"
        by (rule Suc.IH [OF shifting_move [OF Suc.prems(1) True rg]]) (use nx Suc.prems(2) in simp)
      then show ?thesis
        using True rg lt entries_move [OF lt(1,2) vc lt(3) True] by (auto simp: used_def)
    qed
  qed
qed

lemma shifting_start:
  assumes tab: "table_ok H ss" and z: "z < length ss" "used (ss ! z)"
  obtains e where "shifting H z e z (next_slot (ss[z := Slot_empty]) z) (ss[z := Slot_empty])"
    "ahead (length ss) z e < length ss" "ahead (length ss) z (next_slot (ss[z := Slot_empty]) z) = 1"
proof -
  let ?ss = "ss[z := Slot_empty]"
  note D = table_okD [OF tab]
  obtain e where e: "e < length ss" "\<not> used (ss ! e)" using size_entries_empty_slot [OF D(2)] .
  with z have ez: "e \<noteq> z" by auto
  have pos: "0 < ahead (length ss) z e" using ahead_eq_0 [OF z(1) e(1)] ez by simp
  have pw: "pow2_length ?ss" using D(1) by (simp add: pow2_length_def)
  have nx: "next_slot ?ss z < length ss" "ahead (length ss) z (next_slot ?ss z) = 1"
    using probe_step [OF pw, of z e z] z(1) e(1) pos by simp_all
  have "reachable_all H {z} ?ss"
    unfolding reachable_all_def
  proof (intro allI impI)
    fix i assume i: "i < length ?ss" "used (?ss ! i)"
    then have "i \<noteq> z" by auto
    with i D(4) have "reachable_from H {} ss i" by (simp add: reachable_all_def)
    with \<open>i \<noteq> z\<close> show "reachable_from H {z} ?ss i" by (auto simp: reachable_from_def Let_def nth_list_update)
  qed
  then have "shifting H z e z (next_slot ?ss z) ?ss"
    using pw z e ez pos nx by (auto simp: shifting_def)
  with nx(2) that ahead_less [OF z(1) e(1)] show thesis by blast
qed

lemma findSlot_hit:
  assumes ok: "index_ok H ix" and hit: "index_map ix k = Some p"
  obtains i where "findSlot H k ix = Inr i" "i < length (slots ix)" "i \<noteq> npos"
    "slots ix ! i = \<lparr>slotKey = k, slotValue = Some p\<rparr>" "table_ok H (slots ix)"
proof -
  have ne: "slots ix \<noteq> []" using hit by (auto simp: index_map_def)
  with ok have tab: "table_ok H (slots ix)" by (simp add: index_ok_table)
  note D = table_okD [OF tab]
  obtain i where i: "probe_key k (slots ix) (length (slots ix)) (indexFor H k (length (slots ix))) = Inr i"
    "stops_at (slots ix) (indexFor H k (length (slots ix))) k i" using probe_key_result [OF D(1,2)] .
  have lt: "i < length (slots ix)" using i(2) by (simp add: stops_at_def)
  have "used (slots ix ! i)"
    using stops_at_absent [OF D(4) i(2) _ D(1)] hit index_map_iff [OF D(3), of k p] by fastforce
  then obtain q where q: "slots ix ! i = \<lparr>slotKey = k, slotValue = Some q\<rparr>"
    using i(2) by (metis (full_types) stops_at_def used_def not_None_eq slot.surjective unit.exhaust)
  then have "index_map ix k = Some q"
    using index_map_iff [OF D(3), of k q] nth_entry [OF lt] by simp
  moreover obtain k' where "k' < 59" "length (slots ix) = 2 ^ k'" using D(1) by (auto simp: pow2_length_def)
  moreover from this have "(2 :: nat) ^ k' \<le> 2 ^ 58" by (intro power_increasing) auto
  ultimately show thesis using that [of i] hit q ne i lt tab by (simp add: findSlot_def npos_def)
qed

lemma findSlot_miss:
  assumes "index_ok H ix" and "index_map ix k = None"
  shows "\<exists>i. findSlot H k ix = Inr i \<and> (i = npos \<or> slotValue (slots ix ! i) = None)"
  using findOrder_map [OF assms(1), of k] assms(2)
  by (auto simp: OrderIndex_findOrder_def split: sum.splits if_splits)

lemma keys_distinct_removed:
  assumes "keys_distinct ss" and "entries ss = add_mset s (entries ss')"
  shows "keys_distinct ss'" and "\<forall>t \<in># entries ss'. slotKey t \<noteq> slotKey s"
proof -
  let ?M = "image_mset slotKey (entries ss')"
  have le: "count (add_mset (slotKey s) ?M) k \<le> 1" for k
    using assms by (simp add: keys_distinct_mset)
  have "count ?M k \<le> 1" for k using le [of k] by (simp split: if_splits)
  then show "keys_distinct ss'" by (simp add: keys_distinct_mset)
  have "count ?M (slotKey s) = 0" using le [of "slotKey s"] by simp
  then have "slotKey s \<notin> slotKey ` set_mset (entries ss')" unfolding count_eq_zero_iff set_image_mset .
  then show "\<forall>t \<in># entries ss'. slotKey t \<noteq> slotKey s" by (metis image_eqI)
qed

lemma OrderIndex_removeOrder_ok:
  assumes ok: "index_ok H ix" and hp: "h p = Some ord" and hit: "index_map ix (orderId ord) = Some p"
  obtains ix' where "OrderIndex_removeOrder H h (Some p) ix = Ret () ix'" "index_ok H ix'"
    "index_map ix' = (index_map ix)(orderId ord := None)" "index_count ix' = index_count ix - 1"
proof -
  let ?k = "orderId ord"
  let ?s = "\<lparr>slotKey = ?k, slotValue = Some p\<rparr>"
  obtain z where z: "findSlot H ?k ix = Inr z" "z < length (slots ix)" "z \<noteq> npos" "slots ix ! z = ?s"
    "table_ok H (slots ix)" using findSlot_hit [OF ok hit] .
  let ?ss = "(slots ix)[z := Slot_empty]"
  note D = table_okD [OF z(5)]
  have us: "used (slots ix ! z)" using z(4) by simp
  obtain e where e: "shifting H z e z (next_slot ?ss z) ?ss" "ahead (length (slots ix)) z e < length (slots ix)"
    "ahead (length (slots ix)) z (next_slot ?ss z) = 1" using shifting_start [OF z(5,2) us] .
  from shift_back_ok [OF e(1), of "length ?ss"] e(2,3)
  obtain ss' where ss': "shift_back H (length ?ss) z (next_slot ?ss z) ?ss = Inr ss'"
    "length ss' = length ?ss" "entries ss' = entries ?ss" "reachable_all H {} ss'" by auto
  have "?s \<in># entries (slots ix)" using nth_entry [OF z(2) us] z(4) by simp
  then have ent: "entries (slots ix) = add_mset ?s (entries ss')"
    using ss'(3) entries_update [OF z(2)] z(4) by simp
  define ix' where "ix' = \<lparr>slots = ss', index_count = sz_dec (index_count ix)\<rparr>"
  have "0 < index_count ix" using ok ent by (simp add: index_ok_def)
  then have cnt: "index_count ix' = index_count ix - 1"
    using index_count_small [OF ok] by (simp add: ix'_def sz_dec_pos SIZE_RANGE_def)
  note kd = keys_distinct_removed [OF D(3) ent]
  then have "index_map ix' ?k = None" by (simp add: index_map_None ix'_def)
  moreover have "index_map ix = (index_map ix')(?k \<mapsto> p)"
    by (rule index_map_insert) (use ent kd(1) D(3) in \<open>simp_all add: ix'_def\<close>)
  ultimately have "index_map ix' = (index_map ix)(?k := None)" by auto
  moreover have "table_ok H ss'" using D(1,2) kd(1) ss'(2,4) ent by (simp add: table_ok_def pow2_length_def)
  then have "index_ok H ix'" using cnt ok ent by (simp add: index_ok_table ix'_def)
  moreover have "OrderIndex_removeOrder H h (Some p) ix = Ret () ix'"
    using hp z ss'(1) by (simp add: OrderIndex_removeOrder_def Let_def ix'_def)
  ultimately show thesis using that cnt by blast
qed

lemma OrderIndex_removeOrder_absent:
  assumes "index_ok H ix" and "h p = Some ord" and "index_map ix (orderId ord) = None"
  shows "OrderIndex_removeOrder H h (Some p) ix = Throw (LogicError ''Order not found in the index'') ix"
  using findSlot_miss [OF assms(1,3)] assms(2) by (auto simp: OrderIndex_removeOrder_def)

subsection \<open>Reserving\<close>

lemma reserve_capacity_ok:
  assumes "n < 2 ^ 53"
  shows "k < 59 \<Longrightarrow> 0 < f \<Longrightarrow> 55 \<le> f + k \<Longrightarrow>
    \<exists>j. k \<le> j \<and> j < 59 \<and> reserve_capacity f n (2 ^ k) = Some (2 ^ j) \<and> 2 * n \<le> 2 ^ j"
proof (induction f arbitrary: k)
  case 0
  then show ?case by simp
next
  case (Suc f)
  have exact: "to_double n = n" using assms by (simp add: to_double_def)
  show ?case
  proof (cases "2 * n > 2 ^ k")
    case True
    have "k < 54"
    proof (rule ccontr)
      assume "\<not> k < 54"
      then have "(2 :: nat) ^ 54 \<le> 2 ^ k" by (intro power_increasing) auto
      with True assms show False by simp
    qed
    then have "(2 :: nat) ^ Suc k \<le> 2 ^ 54" by (intro power_increasing) auto
    then have "2 ^ k * 2 mod SIZE_RANGE = 2 ^ Suc k" by (simp add: SIZE_RANGE_def)
    moreover have "\<exists>j. Suc k \<le> j \<and> j < 59 \<and> reserve_capacity f n (2 ^ Suc k) = Some (2 ^ j) \<and> 2 * n \<le> 2 ^ j"
      by (rule Suc.IH) (use \<open>k < 54\<close> Suc.prems in auto)
    ultimately show ?thesis using True exact by auto
  next
    case False
    then show ?thesis using Suc.prems(1) exact by auto
  qed
qed

lemma doublings: "c < SIZE_RANGE \<Longrightarrow> ((\<lambda>c. c * 2 mod SIZE_RANGE) ^^ k) c = c * 2 ^ k mod SIZE_RANGE"
proof (induction k)
  case (Suc k)
  have "c * 2 ^ k mod SIZE_RANGE * 2 mod SIZE_RANGE = c * 2 ^ k * 2 mod SIZE_RANGE" by (rule mod_mult_left_eq)
  then show ?case using Suc by (simp add: ac_simps)
qed simp

lemma doublings_zero: "64 \<le> k \<Longrightarrow> c < SIZE_RANGE \<Longrightarrow> ((\<lambda>c. c * 2 mod SIZE_RANGE) ^^ k) c = 0"
proof -
  assume k: "64 \<le> k" and c: "c < SIZE_RANGE"
  have "(2 :: nat) ^ k = 2 ^ (k - 64) * 2 ^ 64" using k by (simp only: power_add [symmetric] le_add_diff_inverse2)
  then have "(2 :: nat) ^ k = 2 ^ (k - 64) * SIZE_RANGE" by (simp add: SIZE_RANGE_def)
  then show ?thesis unfolding doublings [OF c] by (simp add: mult.assoc [symmetric])
qed

text \<open>A capacity is a power of two until it is zero.\<close>

lemma reserve_capacity_wraps:
  assumes "2 ^ 62 < to_double n"
  shows "c = 0 \<or> (\<exists>k < 64. c = 2 ^ k) \<Longrightarrow> reserve_capacity f n c = None"
proof (induction f arbitrary: c)
  case (Suc f)
  have "c \<le> 2 ^ 63"
  proof (cases "c = 0")
    case False
    with Suc.prems obtain k where "k < 64" "c = 2 ^ k" by blast
    moreover from this have "(2 :: nat) ^ k \<le> 2 ^ 63" by (intro power_increasing) auto
    ultimately show ?thesis by simp
  qed simp
  then have "2 * to_double n > c" using assms by simp
  moreover have "c * 2 mod SIZE_RANGE = 0 \<or> (\<exists>k < 64. c * 2 mod SIZE_RANGE = 2 ^ k)"
  proof (cases "c = 0 \<or> c = 2 ^ 63")
    case True
    then show ?thesis by (auto simp: SIZE_RANGE_def)
  next
    case False
    with Suc.prems obtain k where k: "c = 2 ^ k" "k < 63" using less_antisym [of _ 63] by fastforce
    have "(2 :: nat) ^ Suc k < SIZE_RANGE" unfolding SIZE_RANGE_def using k(2) by (intro power_strict_increasing) auto
    then have "c * 2 mod SIZE_RANGE = 2 ^ Suc k" by (simp add: k(1))
    with k(2) show ?thesis by (intro disjI2 exI [of _ "Suc k"]) simp
  qed
  ultimately show ?case using Suc.IH by simp
qed simp

lemma reserve_capacity_ends:
  assumes "to_double n \<le> 2 ^ 62"
  shows "k < 64 \<Longrightarrow> 64 \<le> f + k \<Longrightarrow> \<exists>c. reserve_capacity f n (2 ^ k) = Some c \<and> 2 * to_double n \<le> c"
proof (induction f arbitrary: k)
  case (Suc f)
  show ?case
  proof (cases "2 * to_double n > 2 ^ k")
    case True
    have "k < 63"
    proof (rule ccontr)
      assume "\<not> k < 63"
      then have "(2 :: nat) ^ 63 \<le> 2 ^ k" by (intro power_increasing) auto
      with True assms show False by simp
    qed
    have "(2 :: nat) ^ Suc k < SIZE_RANGE" unfolding SIZE_RANGE_def using \<open>k < 63\<close> by (intro power_strict_increasing) auto
    then have "2 ^ k * 2 mod SIZE_RANGE = 2 ^ Suc k" by simp
    with Suc.IH [of "Suc k"] True \<open>k < 63\<close> Suc.prems(2) show ?thesis by simp
  qed auto
qed simp

lemma OrderIndex_reserve_ok:
  assumes ok: "index_ok H ix" and n: "n < 2 ^ 53"
  obtains ix' where "OrderIndex_reserve H n ix = Ret () ix'" "index_ok H ix'" "index_map ix' = index_map ix"
    "index_count ix' = index_count ix" "2 * n \<le> length (slots ix')" "slots ix' \<noteq> []"
proof -
  let ?cap = "if slots ix = [] then InitialCapacity else length (slots ix)"
  have "\<exists>k < 59. ?cap = 2 ^ k"
    using ok by (cases "slots ix = []")
      (auto simp: InitialCapacity_def index_ok_table table_ok_def pow2_length_def intro!: exI [of _ 4])
  then obtain k where k: "k < 59" "?cap = 2 ^ k" by blast
  from reserve_capacity_ok [OF n k(1), of 65] obtain j where
    j: "k \<le> j" "j < 59" "reserve_capacity 65 n (2 ^ k) = Some (2 ^ j)" "2 * n \<le> 2 ^ j" by auto
  show thesis
  proof (cases "slots ix \<noteq> [] \<and> 2 ^ j \<le> length (slots ix)")
    case True
    then show thesis using that [of ix] ok j k(2) by (simp add: OrderIndex_reserve_def)
  next
    case False
    have "size (entries (slots ix)) < ?cap"
      using ok by (auto simp: InitialCapacity_def index_ok_table table_ok_def)
    moreover have "?cap \<le> 2 ^ j" unfolding k(2) using j(1) by (rule power_increasing) simp
    ultimately have "size (entries (slots ix)) < 2 ^ j" by linarith
    from rehash_into_ok [OF ok refl j(2) this] obtain ss where
      ss: "rehash_into H (2 ^ j) ix = Ret () (ix\<lparr>slots := ss\<rparr>)" "table_ok H ss" "length ss = 2 ^ j"
      "entries ss = entries (slots ix)" by auto
    have "index_map (ix\<lparr>slots := ss\<rparr>) = index_map ix"
      by (rule index_map_cong) (use ss(4) index_ok_keys [OF ok] in simp_all)
    moreover have "OrderIndex_reserve H n ix = Ret () (ix\<lparr>slots := ss\<rparr>)"
      using False ss(1) j(3) unfolding OrderIndex_reserve_def k(2) by auto
    moreover have "index_ok H (ix\<lparr>slots := ss\<rparr>)" using ok ss(2,4) by (simp add: index_ok_table)
    moreover have "ss \<noteq> []" using ss(3) by auto
    ultimately show thesis using that [of "ix\<lparr>slots := ss\<rparr>"] ss(3) j(4) by simp
  qed
qed

section \<open>The index as a finite map\<close>

text \<open>
  What the book relies on: under its invariant the index behaves as a finite map from
  identifiers to orders. The client lemma runs any sequence of insertions and removals.
\<close>

datatype index_op = IndexAdd ptr | IndexRemove ptr

fun op_id :: "heap \<Rightarrow> ptr \<Rightarrow> u64" where
  "op_id h p = (case h p of None \<Rightarrow> 0 | Some ord \<Rightarrow> orderId ord)"

fun map_after :: "heap \<Rightarrow> index_op list \<Rightarrow> (u64 \<rightharpoonup> ptr) \<Rightarrow> (u64 \<rightharpoonup> ptr)" where
  "map_after h [] m = m"
| "map_after h (IndexAdd p # ops) m = map_after h ops (m(op_id h p \<mapsto> p))"
| "map_after h (IndexRemove p # ops) m = map_after h ops (m(op_id h p := None))"

text \<open>Each insertion is of a live order whose identifier is free, each removal of an indexed one.\<close>

fun legal_ops :: "heap \<Rightarrow> index_op list \<Rightarrow> (u64 \<rightharpoonup> ptr) \<Rightarrow> bool" where
  "legal_ops h [] m = True"
| "legal_ops h (IndexAdd p # ops) m =
     (h p \<noteq> None \<and> m (op_id h p) = None \<and> legal_ops h ops (m(op_id h p \<mapsto> p)))"
| "legal_ops h (IndexRemove p # ops) m =
     (h p \<noteq> None \<and> m (op_id h p) = Some p \<and> legal_ops h ops (m(op_id h p := None)))"

locale id_index =
  fixes ok :: "'i \<Rightarrow> bool" and mp :: "'i \<Rightarrow> u64 \<rightharpoonup> ptr" and cnt :: "'i \<Rightarrow> nat"
    and find :: "u64 \<Rightarrow> 'i \<Rightarrow> error + ptr option"
    and add :: "heap \<Rightarrow> ptr option \<Rightarrow> 'i \<Rightarrow> (unit, 'i) outcome"
    and remove :: "heap \<Rightarrow> ptr option \<Rightarrow> 'i \<Rightarrow> (unit, 'i) outcome"
  assumes find_law: "ok ix \<Longrightarrow> find k ix = Inr (mp ix k)"
    and add_law: "ok ix \<Longrightarrow> h p = Some ord \<Longrightarrow> mp ix (orderId ord) = None \<Longrightarrow> cnt ix + 1 < 2 ^ 53 \<Longrightarrow>
      \<exists>ix'. add h (Some p) ix = Ret () ix' \<and> ok ix' \<and> mp ix' = (mp ix)(orderId ord \<mapsto> p) \<and> cnt ix' \<le> cnt ix + 1"
    and remove_law: "ok ix \<Longrightarrow> h p = Some ord \<Longrightarrow> mp ix (orderId ord) = Some p \<Longrightarrow>
      \<exists>ix'. remove h (Some p) ix = Ret () ix' \<and> ok ix' \<and> mp ix' = (mp ix)(orderId ord := None) \<and> cnt ix' \<le> cnt ix"
begin

lemma run_ops:
  assumes "ok ix" and "legal_ops h ops (mp ix)" and "cnt ix + length ops < 2 ^ 53"
  shows "\<exists>ix'. run_all (\<lambda>a. case a of IndexAdd p \<Rightarrow> add h (Some p) | IndexRemove p \<Rightarrow> remove h (Some p)) ops ix
      = Ret () ix' \<and> ok ix' \<and> mp ix' = map_after h ops (mp ix)"
  using assms
proof (induction ops arbitrary: ix)
  case Nil
  then show ?case by simp
next
  case (Cons a ops)
  show ?case
  proof (cases a)
    case (IndexAdd p)
    with Cons.prems obtain ord where "h p = Some ord" "mp ix (orderId ord) = None" by auto
    with add_law [OF Cons.prems(1)] Cons.prems(3) obtain ix1 where
      "add h (Some p) ix = Ret () ix1" "ok ix1" "mp ix1 = (mp ix)(orderId ord \<mapsto> p)" "cnt ix1 \<le> cnt ix + 1" by force
    note ix1 = this
    have "legal_ops h ops (mp ix1)" "cnt ix1 + length ops < 2 ^ 53"
      using Cons.prems IndexAdd \<open>h p = Some ord\<close> ix1(3,4) by simp_all
    from Cons.IH [OF ix1(2) this] show ?thesis unfolding ix1(3) using IndexAdd \<open>h p = Some ord\<close> ix1(1) by (auto simp: fun_upd_def)
  next
    case (IndexRemove p)
    with Cons.prems obtain ord where "h p = Some ord" "mp ix (orderId ord) = Some p" by auto
    with remove_law [OF Cons.prems(1)] obtain ix1 where
      "remove h (Some p) ix = Ret () ix1" "ok ix1" "mp ix1 = (mp ix)(orderId ord := None)" "cnt ix1 \<le> cnt ix" by force
    note ix1 = this
    have "legal_ops h ops (mp ix1)" "cnt ix1 + length ops < 2 ^ 53"
      using Cons.prems IndexRemove \<open>h p = Some ord\<close> ix1(3,4) by simp_all
    from Cons.IH [OF ix1(2) this] show ?thesis unfolding ix1(3) using IndexRemove \<open>h p = Some ord\<close> ix1(1) by (auto simp: fun_upd_def)
  qed
qed

lemma find_after_ops:
  assumes "ok ix" and "legal_ops h ops (mp ix)" and "cnt ix + length ops < 2 ^ 53"
  shows "\<exists>ix'. run_all (\<lambda>a. case a of IndexAdd p \<Rightarrow> add h (Some p) | IndexRemove p \<Rightarrow> remove h (Some p)) ops ix
      = Ret () ix' \<and> (\<forall>k. find k ix' = Inr (map_after h ops (mp ix) k))"
  using run_ops [OF assms] find_law by metis

end

lemma OrderIndex_add_law:
  assumes "index_ok H ix" and "h p = Some ord" and "index_map ix (orderId ord) = None" and "index_count ix + 1 < 2 ^ 53"
  shows "\<exists>ix'. OrderIndex_addOrder H h (Some p) ix = Ret () ix' \<and> index_ok H ix' \<and>
    index_map ix' = (index_map ix)(orderId ord \<mapsto> p) \<and> index_count ix' \<le> index_count ix + 1"
  by (rule OrderIndex_addOrder_cases [of H ix h p ord, OF assms(1,2)]) (use assms(3,4) in auto)

lemma OrderIndex_remove_law:
  assumes "index_ok H ix" and "h p = Some ord" and "index_map ix (orderId ord) = Some p"
  shows "\<exists>ix'. OrderIndex_removeOrder H h (Some p) ix = Ret () ix' \<and> index_ok H ix' \<and>
    index_map ix' = (index_map ix)(orderId ord := None) \<and> index_count ix' \<le> index_count ix"
  by (rule OrderIndex_removeOrder_ok [of H ix h p ord, OF assms]) auto

interpretation idx: id_index "index_ok H" index_map index_count "OrderIndex_findOrder H"
    "OrderIndex_addOrder H" "OrderIndex_removeOrder H" for H
  by unfold_locales (rule findOrder_map OrderIndex_add_law OrderIndex_remove_law; assumption)+

lemma index_ok_new [simp]: "index_ok H OrderIndex_new" "index_map OrderIndex_new = Map.empty"
  by (simp_all add: index_ok_table OrderIndex_new_def index_map_def)

section \<open>Properties\<close>

text \<open>
  C12. The identifier index is a correct map whatever the hash function: from an empty index,
  any sequence of insertions of fresh identifiers and removals of indexed orders (with every
  growth, probe run and backward shift they cause) succeeds, no probe or shift loop runs
  forever or leaves the table, and afterwards a lookup of any identifier returns exactly the
  order the sequence leaves under it, or null.
\<close>
theorem order_index_is_map:
  assumes "legal_ops h ops Map.empty" and "length ops < 2 ^ 53"
  shows "\<exists>ix. run_all (\<lambda>a. case a of IndexAdd p \<Rightarrow> OrderIndex_addOrder H h (Some p)
                                | IndexRemove p \<Rightarrow> OrderIndex_removeOrder H h (Some p)) ops OrderIndex_new = Ret () ix
     \<and> (\<forall>k. OrderIndex_findOrder H k ix = Inr (map_after h ops Map.empty k))"
proof -
  have "index_count OrderIndex_new = 0" by (simp add: OrderIndex_new_def)
  with idx.find_after_ops [of H OrderIndex_new h ops] assms show ?thesis by simp
qed

theorem order_index_is_map_witness:
  "\<exists>ix. run_all (\<lambda>a. case a of IndexAdd p \<Rightarrow> OrderIndex_addOrder (\<lambda>_. 15) [8 \<mapsto> Order_new 1 5 5 1 BUY LIMIT 1, 16 \<mapsto> Order_new 2 5 5 1 BUY LIMIT 2] (Some p)
        | IndexRemove p \<Rightarrow> OrderIndex_removeOrder (\<lambda>_. 15) [8 \<mapsto> Order_new 1 5 5 1 BUY LIMIT 1, 16 \<mapsto> Order_new 2 5 5 1 BUY LIMIT 2] (Some p))
       [IndexAdd 8, IndexAdd 16, IndexRemove 8] OrderIndex_new = Ret () ix
     \<and> OrderIndex_findOrder (\<lambda>_. 15) 2 ix = Inr (Some 16) \<and> OrderIndex_findOrder (\<lambda>_. 15) 1 ix = Inr None"
  (is "\<exists>ix. run_all (\<lambda>a. case a of IndexAdd p \<Rightarrow> OrderIndex_addOrder _ ?h _ | _ \<Rightarrow> _) ?ops _ = _ \<and> _")
proof -
  have "legal_ops ?h ?ops Map.empty" "length ?ops < 2 ^ 53" by (simp_all add: Order_new_def)
  moreover have "map_after ?h ?ops Map.empty 2 = Some 16" "map_after ?h ?ops Map.empty 1 = None"
    by (simp_all add: Order_new_def)
  ultimately show ?thesis using order_index_is_map [of ?h ?ops "\<lambda>_. 15"] by metis
qed

text \<open>
  Reserving moves the rehash out of the hot path: for fewer than \<open>2 ^ 53\<close> orders
  \<open>reserve\<close> returns, keeps the contents, and from then on no insertion that stays within the
  reserved count grows the table.
\<close>
theorem order_index_reserve_no_rehash:
  assumes "index_ok H ix" and "n < 2 ^ 53"
  shows "\<exists>ix'. OrderIndex_reserve H n ix = Ret () ix' \<and> (\<forall>k. OrderIndex_findOrder H k ix' = OrderIndex_findOrder H k ix) \<and>
     (\<forall>ix''. index_ok H ix'' \<and> length (slots ix'') = length (slots ix') \<and> index_count ix'' + 1 \<le> n \<longrightarrow>
        growIfNeeded H ix'' = Ret () ix'')"
proof -
  obtain ix' where ix': "OrderIndex_reserve H n ix = Ret () ix'" "index_ok H ix'" "index_map ix' = index_map ix"
    "2 * n \<le> length (slots ix')" "slots ix' \<noteq> []"
    using OrderIndex_reserve_ok [OF assms] by blast
  have "growIfNeeded H ix'' = Ret () ix''"
    if "index_ok H ix''" "length (slots ix'') = length (slots ix')" "index_count ix'' + 1 \<le> n" for ix''
    using that ix'(4,5) assms(2) sz_inc_index [OF that(1)] by (auto simp: growIfNeeded_def to_double_def)
  with ix' findOrder_map [OF assms(1)] findOrder_map [OF ix'(2)] show ?thesis by auto
qed

theorem order_index_reserve_no_rehash_witness:
  "\<exists>ix'. OrderIndex_reserve (\<lambda>k. k) 100 OrderIndex_new = Ret () ix' \<and> OrderIndex_findOrder (\<lambda>k. k) 7 ix' = Inr None"
proof -
  have "(100 :: nat) < 2 ^ 53" "OrderIndex_findOrder (\<lambda>k. k) 7 OrderIndex_new = Inr None"
    by (simp_all add: OrderIndex_findOrder_def findSlot_def OrderIndex_new_def)
  with order_index_reserve_no_rehash [of "\<lambda>k. k" OrderIndex_new 100] show ?thesis by auto
qed

text \<open>
  C35. For too many orders \<open>reserve\<close> hangs, and the theorem says for exactly how many: when the
  count, read as a double, exceeds \<open>2 ^ 62\<close> (every count from \<open>2 ^ 63\<close> on does), no capacity a
  \<open>size_t\<close> can hold is large enough; from the sixty-fourth doubling on the capacity has wrapped
  to zero, and the loop does not end in any number of rounds. For all other counts it ends with
  a capacity of at least twice the count.
\<close>
theorem order_index_reserve_hangs:
  fixes ix
  defines "start \<equiv> if slots ix = [] then InitialCapacity else length (slots ix)"
  assumes "index_ok H ix"
  shows "(2 ^ 62 < to_double n \<longleftrightarrow> (\<forall>rounds. reserve_capacity rounds n start = None)) \<and>
    (2 ^ 62 < to_double n \<longrightarrow>
       OrderIndex_reserve H n ix = Throw (Diverges ''doubling a capacity that has wrapped to zero'') ix \<and>
       (\<forall>k \<ge> 64. ((\<lambda>c. c * 2 mod SIZE_RANGE) ^^ k) start = 0)) \<and>
    (2 ^ 63 \<le> n \<longrightarrow> 2 ^ 62 < to_double n) \<and>
    (to_double n \<le> 2 ^ 62 \<longrightarrow> (\<exists>rounds capacity. reserve_capacity rounds n start = Some capacity \<and> 2 * to_double n \<le> capacity))"
proof -
  have "\<exists>k < 59. start = 2 ^ k"
    using assms(2) unfolding start_def by (cases "slots ix = []")
      (auto simp: InitialCapacity_def index_ok_table table_ok_def pow2_length_def intro!: exI [of _ 4])
  then obtain k where k: "k < 64" "start = 2 ^ k" by fastforce
  have "start < SIZE_RANGE" unfolding k(2) SIZE_RANGE_def using k(1) by (intro power_strict_increasing) auto
  then have zero: "((\<lambda>c. c * 2 mod SIZE_RANGE) ^^ j) start = 0" if "64 \<le> j" for j using that by (rule doublings_zero [rotated])
  have hang: "reserve_capacity rounds n start = None" if "2 ^ 62 < to_double n" for rounds
    by (rule reserve_capacity_wraps [OF that]) (use k in blast)
  have stop: "\<exists>capacity. reserve_capacity 64 n start = Some capacity \<and> 2 * to_double n \<le> capacity" if "to_double n \<le> 2 ^ 62"
    unfolding k(2) by (rule reserve_capacity_ends [OF that k(1)]) simp
  have "2 ^ 62 < to_double n" if "2 ^ 63 \<le> n" using to_double_ge_pow2 [OF that] by simp
  moreover have "OrderIndex_reserve H n ix = Throw (Diverges ''doubling a capacity that has wrapped to zero'') ix" if "2 ^ 62 < to_double n"
    using hang [OF that, of 65] unfolding start_def OrderIndex_reserve_def by (simp del: reserve_capacity.simps)
  moreover have "2 ^ 62 < to_double n" if none: "\<forall>rounds. reserve_capacity rounds n start = None"
  proof (rule ccontr)
    assume "\<not> 2 ^ 62 < to_double n"
    with stop none show False by (auto simp del: reserve_capacity.simps)
  qed
  ultimately show ?thesis using zero hang stop by blast
qed

theorem order_index_reserve_hangs_witness:
  "OrderIndex_reserve (\<lambda>k. k) (2 ^ 63 + 5) OrderIndex_new = Throw (Diverges ''doubling a capacity that has wrapped to zero'') OrderIndex_new \<and>
   (\<exists>rounds capacity. reserve_capacity rounds 100 InitialCapacity = Some capacity)"
proof -
  have e: "slots OrderIndex_new = []" by (simp add: OrderIndex_new_def)
  have "to_double 100 = 100" by (simp add: to_double_def)
  note h = order_index_reserve_hangs [OF index_ok_new(1), unfolded e simp_thms if_True]
  have "\<exists>rounds capacity. reserve_capacity rounds 100 InitialCapacity = Some capacity"
    using h [of 100 "\<lambda>k. k"] \<open>to_double 100 = 100\<close> by (auto simp del: reserve_capacity.simps)
  moreover have "(2 :: nat) ^ 63 \<le> 2 ^ 63 + 5" by simp
  ultimately show ?thesis using h [of "2 ^ 63 + 5" "\<lambda>k. k"] by blast
qed

end
