(* ===== verification/Order_Pool.thy ===== *)
theory Order_Pool
  imports Price_Level
begin

text \<open>
  \<open>OrderPool\<close> (\<open>order_pool.hpp\<close>, \<open>order_pool.cpp\<close>): stable storage for orders in 64 KiB
  pages of 819 slots, with a free list of slots inside every page and a doubly linked list
  of the pages that have a free slot. The operating system is a parameter: the answer of
  \<open>sysconf\<close> and, for every \<open>mmap\<close> call in turn, the address it returns or a failure. What
  is assumed of it is \<open>os_fresh\<close>: a new mapping does not overlap a page still in use. The
  lemmas show that an allocation returns a slot no live order occupies, that the order
  pointers stay valid until released, and that a wrong or repeated release is detected.
\<close>

section \<open>Model\<close>

definition PageSize :: nat where
  "PageSize = 64 * 1024"

definition sizeof_Order :: nat where
  "sizeof_Order = 80"

definition SlotsPerPage :: nat where
  "SlotsPerPage = PageSize div sizeof_Order"

text \<open>The fixed-size arrays of a page are functions of the slot index.\<close>

record page =
  storage :: u64
  nextFree :: "nat \<Rightarrow> nat"
  slotOccupied :: "nat \<Rightarrow> bool"
  firstFree :: nat
  freeCount :: nat
  previousFreePage :: "nat option"
  nextFreePage :: "nat option"
  onFreePageList :: bool

text \<open>
  A \<open>Page*\<close> is the position of the page in \<open>pages\<close>: pages are only ever appended. \<open>mem\<close>
  holds the order objects alive in the slots, and \<open>mmapCalls\<close> counts the mappings asked
  of the operating system so far.
\<close>

record order_pool =
  pages :: "page list"
  pageIndex :: "u64 \<rightharpoonup> nat"
  firstPageWithFreeSlot :: "nat option"
  liveOrderCount :: nat
  mem :: heap
  mmapCalls :: nat

record os_env =
  sysconfPageSize :: int
  mmapResult :: "nat \<Rightarrow> u64 option"

definition OrderPool_new :: order_pool where
  "OrderPool_new = \<lparr>pages = [], pageIndex = Map.empty, firstPageWithFreeSlot = None,
     liveOrderCount = 0, mem = Map.empty, mmapCalls = 0\<rparr>"

definition align_up :: "u64 \<Rightarrow> u64" where
  "align_up address = (address + word_of_nat PageSize - 1) AND NOT (word_of_nat PageSize - 1)"

text \<open>The constructor of a page: the page or the exception, and the number of mappings made.\<close>

definition Page_new :: "os_env \<Rightarrow> nat \<Rightarrow> (error + page) \<times> nat" where
  "Page_new os calls =
     (if sysconfPageSize os \<le> 0 \<or> int PageSize mod sysconfPageSize os \<noteq> 0
      then (Inl (RuntimeError ''OrderPool page size is incompatible with the system page size''), calls)
      else case mmapResult os calls of
        None \<Rightarrow> (Inl (SystemError ''mmap failed''), calls + 1)
      | Some address \<Rightarrow>
        (Inr \<lparr>storage = align_up address,
              nextFree = (\<lambda>index. if index + 1 < SlotsPerPage then index + 1 else SlotsPerPage),
              slotOccupied = (\<lambda>_. False), firstFree = 0, freeCount = SlotsPerPage,
              previousFreePage = None, nextFreePage = None, onFreePageList = False\<rparr>, calls + 1))"

text \<open>The \<open>munmap\<close> calls of the constructor, which keep the aligned page of the mapping, and that of the destructor.\<close>

definition Page_trim :: "u64 \<Rightarrow> (u64 \<times> nat) list" where
  "Page_trim address =
     (let prefixSize = unat (align_up address - address); suffixSize = PageSize * 2 - prefixSize - PageSize in
      (if prefixSize \<noteq> 0 then [(address, prefixSize)] else []) @
      (if suffixSize \<noteq> 0 then [(align_up address + word_of_nat PageSize, suffixSize)] else []))"

definition rawSlot :: "page \<Rightarrow> nat \<Rightarrow> ptr" where
  "rawSlot pg index = storage pg + word_of_nat (index * sizeof_Order)"

definition write_page :: "nat \<Rightarrow> (page \<Rightarrow> page) \<Rightarrow> order_pool \<Rightarrow> (unit, order_pool) outcome" where
  "write_page k f P =
     (if k \<ge> length (pages P) then Throw (UndefinedBehaviour ''page pointer is not valid'') P
      else Ret () (P\<lparr>pages := (pages P)[k := f (pages P ! k)]\<rparr>))"

definition write_pool :: "(order_pool \<Rightarrow> order_pool) \<Rightarrow> order_pool \<Rightarrow> (unit, order_pool) outcome" where
  "write_pool f P = Ret () (f P)"

definition addToFreePageList :: "nat \<Rightarrow> order_pool \<Rightarrow> (unit, order_pool) outcome" where
  "addToFreePageList k P =
     (if k < length (pages P) \<and> onFreePageList (pages P ! k) then Ret () P
      else
        bind_outcome (write_page k (\<lambda>pg. pg\<lparr>previousFreePage := None,
            nextFreePage := firstPageWithFreeSlot P\<rparr>) P) (\<lambda>_ P1.
        bind_outcome
          (case firstPageWithFreeSlot P1 of
             Some f \<Rightarrow> write_page f (previousFreePage_update (\<lambda>_. Some k)) P1
           | None \<Rightarrow> Ret () P1) (\<lambda>_ P2.
        bind_outcome (write_pool (firstPageWithFreeSlot_update (\<lambda>_. Some k)) P2) (\<lambda>_ P3.
        write_page k (onFreePageList_update (\<lambda>_. True)) P3))))"

definition removeFromFreePageList :: "nat \<Rightarrow> order_pool \<Rightarrow> (unit, order_pool) outcome" where
  "removeFromFreePageList k P =
     (if k \<ge> length (pages P) then Throw (UndefinedBehaviour ''page pointer is not valid'') P
      else let pg = pages P ! k in
        if \<not> onFreePageList pg then Ret () P
        else
          bind_outcome
            (case previousFreePage pg of
               Some j \<Rightarrow> write_page j (nextFreePage_update (\<lambda>_. nextFreePage pg)) P
             | None \<Rightarrow> write_pool (firstPageWithFreeSlot_update (\<lambda>_. nextFreePage pg)) P) (\<lambda>_ P1.
          bind_outcome
            (case nextFreePage pg of
               Some j \<Rightarrow> write_page j (previousFreePage_update (\<lambda>_. previousFreePage pg)) P1
             | None \<Rightarrow> Ret () P1) (\<lambda>_ P2.
          write_page k (\<lambda>pg. pg\<lparr>previousFreePage := None, nextFreePage := None, onFreePageList := False\<rparr>) P2)))"

definition createPage :: "os_env \<Rightarrow> order_pool \<Rightarrow> (nat, order_pool) outcome" where
  "createPage os P =
     (case Page_new os (mmapCalls P) of
        (Inl e, calls) \<Rightarrow> Throw e (P\<lparr>mmapCalls := calls\<rparr>)
      | (Inr pg, calls) \<Rightarrow>
        if pageIndex P (storage pg) \<noteq> None
        then Throw (LogicError ''Duplicate OrderPool page address'') (P\<lparr>mmapCalls := calls\<rparr>)
        else let k = length (pages P) in
          bind_outcome
            (addToFreePageList k (P\<lparr>pages := pages P @ [pg], pageIndex := (pageIndex P)(storage pg \<mapsto> k),
               mmapCalls := calls\<rparr>))
            (\<lambda>_ P1. Ret k P1))"

text \<open>\<open>allocate\<close> with explicit quantities; \<open>ord\<close> is the order constructed in place.\<close>

definition OrderPool_allocate :: "os_env \<Rightarrow> order \<Rightarrow> order_pool \<Rightarrow> (ptr, order_pool) outcome" where
  "OrderPool_allocate os ord P =
     bind_outcome
       (case firstPageWithFreeSlot P of Some k \<Rightarrow> Ret k P | None \<Rightarrow> createPage os P) (\<lambda>k P1.
     if k \<ge> length (pages P1) \<or> firstFree (pages P1 ! k) \<ge> SlotsPerPage
     then Throw (UndefinedBehaviour ''slot out of range'') P1
     else let pg = pages P1 ! k; index = firstFree pg; p = rawSlot pg index in
       bind_outcome (write_pool (\<lambda>P. P\<lparr>mem := (mem P)(p \<mapsto> ord)\<rparr>) P1) (\<lambda>_ P2.
       bind_outcome (write_page k (\<lambda>pg. pg\<lparr>firstFree := nextFree pg index, freeCount := sz_dec (freeCount pg),
           slotOccupied := (slotOccupied pg)(index := True)\<rparr>) P2) (\<lambda>_ P3.
       bind_outcome
         (if freeCount (pages P3 ! k) = 0 then removeFromFreePageList k P3 else Ret () P3) (\<lambda>_ P4.
       bind_outcome (write_pool (\<lambda>P. P\<lparr>liveOrderCount := sz_inc (liveOrderCount P)\<rparr>) P4) (\<lambda>_ P5. Ret p P5)))))"

text \<open>The loop of \<open>reserve\<close>: as many pages as are missing; \<open>orderCount + 818\<close> wraps.\<close>

fun create_pages :: "os_env \<Rightarrow> nat \<Rightarrow> order_pool \<Rightarrow> (unit, order_pool) outcome" where
  "create_pages os 0 P = Ret () P"
| "create_pages os (Suc n) P = bind_outcome (createPage os P) (\<lambda>_. create_pages os n)"

definition OrderPool_reserve :: "os_env \<Rightarrow> nat \<Rightarrow> order_pool \<Rightarrow> (unit, order_pool) outcome" where
  "OrderPool_reserve os orderCount P =
     (let neededPages = ((orderCount + SlotsPerPage - 1) mod SIZE_RANGE) div SlotsPerPage in
      create_pages os (neededPages - length (pages P)) P)"

definition OrderPool_release :: "ptr option \<Rightarrow> order_pool \<Rightarrow> (unit, order_pool) outcome" where
  "OrderPool_release pointer P =
     (case pointer of
        None \<Rightarrow> Throw (InvalidArgument ''Cannot release a null order'') P
      | Some p \<Rightarrow>
        let pageBase = p AND NOT (word_of_nat PageSize - 1) in
     (case pageIndex P pageBase of
        None \<Rightarrow> Throw (InvalidArgument ''Order does not belong to this pool'') P
      | Some k \<Rightarrow>
        let offset = unat (p - pageBase); index = offset div sizeof_Order in
        if offset mod sizeof_Order \<noteq> 0 then Throw (InvalidArgument ''Pointer is not an Order slot'') P
        else if k \<ge> length (pages P) then Throw (UndefinedBehaviour ''page pointer is not valid'') P
        else if index \<ge> SlotsPerPage \<or> \<not> slotOccupied (pages P ! k) index
        then Throw (InvalidArgument ''Order slot is not allocated'') P
        else
          bind_outcome (write_pool (\<lambda>P. P\<lparr>mem := (mem P)(p := None)\<rparr>) P) (\<lambda>_ P1.
          bind_outcome (write_page k (\<lambda>pg. pg\<lparr>slotOccupied := (slotOccupied pg)(index := False),
              nextFree := (nextFree pg)(index := firstFree pg), firstFree := index\<rparr>) P1) (\<lambda>_ P2.
          bind_outcome
            (if freeCount (pages P2 ! k) = 0 then addToFreePageList k P2 else Ret () P2) (\<lambda>_ P3.
          bind_outcome (write_page k (freeCount_update sz_inc) P3) (\<lambda>_ P4.
          write_pool (\<lambda>P. P\<lparr>liveOrderCount := sz_dec (liveOrderCount P)\<rparr>) P4))))))"

definition Page_destroy :: "page \<Rightarrow> u64 \<times> nat" where
  "Page_destroy pg = (storage pg, PageSize)"

definition destroy_order :: "page \<Rightarrow> nat \<Rightarrow> order_pool \<Rightarrow> (unit, order_pool) outcome" where
  "destroy_order pg index P =
     (if \<not> slotOccupied pg index then Ret () P
      else if mem P (rawSlot pg index) = None then Throw (UndefinedBehaviour ''destruction of a dead order'') P
      else Ret () (P\<lparr>mem := (mem P)(rawSlot pg index := None)\<rparr>))"

text \<open>The destructor: its body destroys the orders alive, then the pages return their mappings.\<close>

definition OrderPool_destroy :: "order_pool \<Rightarrow> ((u64 \<times> nat) list, order_pool) outcome" where
  "OrderPool_destroy P =
     bind_outcome (run_all (\<lambda>pg. run_all (destroy_order pg) [0..<SlotsPerPage]) (pages P) P)
       (\<lambda>_ P1. Ret (map Page_destroy (pages P1)) (P1\<lparr>pages := []\<rparr>))"

section \<open>Well-formedness\<close>

text \<open>
  What the operating system promises: a mapping is not at address zero, fits the address
  space, and never overlaps the aligned page kept from an earlier mapping.
\<close>

definition os_fresh :: "os_env \<Rightarrow> bool" where
  "os_fresh os \<longleftrightarrow>
     (\<forall>j a. mmapResult os j = Some a \<longrightarrow>
        0 < unat a \<and> unat a + 2 * PageSize \<le> SIZE_RANGE \<and>
        (\<forall>i b. i < j \<and> mmapResult os i = Some b \<longrightarrow>
           unat (align_up b) + PageSize \<le> unat a \<or> unat a + 2 * PageSize \<le> unat (align_up b)))"

fun slot_chain :: "(nat \<Rightarrow> nat) \<Rightarrow> nat \<Rightarrow> nat list \<Rightarrow> bool" where
  "slot_chain nf cur [] = (cur = SlotsPerPage)"
| "slot_chain nf cur (i # is) = (cur = i \<and> slot_chain nf (nf i) is)"

definition page_ok :: "page \<Rightarrow> bool" where
  "page_ok pg \<longleftrightarrow>
     (\<exists>fs. slot_chain (nextFree pg) (firstFree pg) fs \<and> distinct fs \<and> freeCount pg = length fs \<and>
        set fs = {i. i < SlotsPerPage \<and> \<not> slotOccupied pg i}) \<and>
     0 < unat (storage pg) \<and> unat (storage pg) mod PageSize = 0"

definition next_page :: "page list \<Rightarrow> nat \<Rightarrow> nat option" where
  "next_page pgs k = nextFreePage (pgs ! k)"

definition prev_page :: "page list \<Rightarrow> nat \<Rightarrow> nat option" where
  "prev_page pgs k = previousFreePage (pgs ! k)"

definition free_list_ok :: "order_pool \<Rightarrow> bool" where
  "free_list_ok P \<longleftrightarrow>
     (\<exists>ks l. dlseg (next_page (pages P)) (prev_page (pages P)) None (firstPageWithFreeSlot P) ks l None \<and>
        distinct ks \<and> set ks = {k. k < length (pages P) \<and> onFreePageList (pages P ! k)})"

definition live_slots :: "order_pool \<Rightarrow> ptr set" where
  "live_slots P = {p. \<exists>k i. k < length (pages P) \<and> i < SlotsPerPage \<and>
     slotOccupied (pages P ! k) i \<and> p = rawSlot (pages P ! k) i}"

definition pool_ok :: "os_env \<Rightarrow> order_pool \<Rightarrow> bool" where
  "pool_ok os P \<longleftrightarrow>
     list_all page_ok (pages P) \<and> free_list_ok P \<and>
     (\<forall>k < length (pages P). onFreePageList (pages P ! k) \<longleftrightarrow> freeCount (pages P ! k) \<noteq> 0) \<and>
     (\<forall>b k. pageIndex P b = Some k \<longleftrightarrow> k < length (pages P) \<and> storage (pages P ! k) = b) \<and>
     (\<forall>k < length (pages P). \<exists>i a. i < mmapCalls P \<and> mmapResult os i = Some a \<and> storage (pages P ! k) = align_up a) \<and>
     dom (mem P) = live_slots P \<and> liveOrderCount P = card (dom (mem P))"

section \<open>Lemmas\<close>

subsection \<open>Addresses\<close>

lemma pool_constants [simp]: "SlotsPerPage = 819" "PageSize = 65536" "sizeof_Order = 80"
  by (simp_all add: SlotsPerPage_def PageSize_def sizeof_Order_def)

lemma unat_page_base: "unat (p AND NOT (65535 :: u64)) = unat p - unat p mod 65536"
proof -
  have m: "(65535 :: u64) = mask 16" by (simp add: mask_eq_exp_minus_1)
  have "p AND NOT 65535 = push_bit 16 (drop_bit 16 p)"
    unfolding m by (rule bit_eqI) (auto simp: bit_simps)
  then have "unat (p AND NOT 65535) = unat (drop_bit 16 p) * 65536 mod 2 ^ 64"
    by (simp add: push_bit_eq_mult unat_word_ariths)
  also have "unat (drop_bit 16 p) = unat p div 65536" by (simp add: drop_bit_eq_div unat_div)
  also have "unat p div 65536 * 65536 mod 2 ^ 64 = unat p div 65536 * 65536"
    by (rule mod_less) (use unat_less_range [of p] div_times_less_eq_dividend [of "unat p" 65536] in \<open>simp add: SIZE_RANGE_def\<close>)
  also have "\<dots> = unat p - unat p mod 65536" by (simp add: minus_mod_eq_div_mult)
  finally show ?thesis .
qed

lemma aligned_bound:
  assumes "unat (b :: u64) mod 65536 = 0"
  shows "unat b + 65536 \<le> SIZE_RANGE"
proof -
  from assms obtain q where q: "unat b = 65536 * q" by (auto simp: dvd_def mod_eq_0_iff_dvd)
  have "unat b < 2 ^ 64" by (metis SIZE_RANGE_def unat_less_range)
  with q have "q + 1 \<le> 2 ^ 48" by simp
  with q show ?thesis by (simp add: SIZE_RANGE_def)
qed

lemma aligned_page_base:
  assumes "unat (b :: u64) mod 65536 = 0" and "unat p = unat b + n" and "n < 65536"
  shows "p AND NOT 65535 = b" and "unat (p - b) = n"
proof -
  have "unat p mod 65536 = n" using assms by (metis add.commute mod_add_right_eq add_0 mod_less)
  then have "unat (p AND NOT 65535) = unat b" using unat_page_base assms(2) by simp
  then show "p AND NOT 65535 = b" by (simp add: word_unat_eq_iff)
  show "unat (p - b) = n" using assms(2) by (simp add: unat_sub_u64 u64_le_iff)
qed

lemma unat_rawSlot:
  assumes "unat (storage pg) mod 65536 = 0" and "i < 819"
  shows "unat (rawSlot pg i) = unat (storage pg) + 80 * i"
proof -
  have "unat (word_of_nat (i * 80) :: u64) = 80 * i" unfolding unat_of_nat using assms(2) by simp
  moreover have "unat (storage pg) + 80 * i < SIZE_RANGE" using aligned_bound [OF assms(1)] assms(2) by simp
  ultimately show ?thesis using unat_add_u64 [of "storage pg" "word_of_nat (i * 80)"] by (simp add: rawSlot_def)
qed

lemma rawSlot_base:
  assumes "unat (storage pg) mod 65536 = 0" and "i < 819"
  shows "rawSlot pg i AND NOT 65535 = storage pg" and "unat (rawSlot pg i - storage pg) = 80 * i"
  using aligned_page_base [OF assms(1) unat_rawSlot [OF assms]] assms(2) by simp_all

lemma rawSlot_inj:
  assumes "unat (storage pg) mod 65536 = 0" "i < 819" "unat (storage pg') mod 65536 = 0" "j < 819"
    and "rawSlot pg i = rawSlot pg' j"
  shows "storage pg = storage pg' \<and> i = j"
  using rawSlot_base [OF assms(1,2)] rawSlot_base [OF assms(3,4)] assms(5) by simp

lemma align_up_ok:
  assumes "unat a + 131072 \<le> SIZE_RANGE" and "0 < unat a"
  shows "unat (align_up a) mod 65536 = 0" "unat a \<le> unat (align_up a)" "unat (align_up a) \<le> unat a + 65535"
proof -
  have c: "word_of_nat PageSize - 1 = (65535 :: u64)" "a + word_of_nat PageSize - 1 = a + 65535" by simp_all
  have s: "unat (a + 65535) = unat a + 65535"
    using unat_add_u64 [of a 65535] assms(1) by simp
  have u: "unat (align_up a) = unat a + 65535 - (unat a + 65535) mod 65536"
    unfolding align_up_def c unat_page_base s ..
  then show "unat (align_up a) mod 65536 = 0"
    by (simp add: minus_mod_eq_div_mult)
  have "(unat a + 65535) mod 65536 < 65536" by simp
  with u show "unat a \<le> unat (align_up a)" "unat (align_up a) \<le> unat a + 65535" by linarith+
qed

lemma os_freshD:
  assumes "os_fresh os" and "mmapResult os j = Some a"
  shows "unat (align_up a) mod 65536 = 0" "0 < unat (align_up a)"
    "\<And>i b. i < j \<Longrightarrow> mmapResult os i = Some b \<Longrightarrow> align_up b \<noteq> align_up a"
proof -
  from assms have a: "0 < unat a" "unat a + 131072 \<le> SIZE_RANGE" by (auto simp: os_fresh_def)
  note al = align_up_ok [OF a(2,1)]
  show "unat (align_up a) mod 65536 = 0" "0 < unat (align_up a)" using al a(1) by simp_all
  fix i b assume "i < j" "mmapResult os i = Some b"
  with assms have "unat (align_up b) + 65536 \<le> unat a \<or> unat a + 131072 \<le> unat (align_up b)"
    unfolding os_fresh_def by fastforce
  with al show "align_up b \<noteq> align_up a" by (auto simp: word_unat_eq_iff)
qed

subsection \<open>The free slots of a page\<close>

lemma slot_chain_cong: "(\<And>i. i \<in> set fs \<Longrightarrow> nf' i = nf i) \<Longrightarrow> slot_chain nf' cur fs = slot_chain nf cur fs"
  by (induction fs arbitrary: cur) auto

lemma page_okE:
  assumes "page_ok pg"
  obtains fs where "slot_chain (nextFree pg) (firstFree pg) fs" "distinct fs" "freeCount pg = length fs"
    "set fs = {i. i < 819 \<and> \<not> slotOccupied pg i}" "length fs \<le> 819"
proof -
  from assms obtain fs where fs: "slot_chain (nextFree pg) (firstFree pg) fs" "distinct fs" "freeCount pg = length fs"
    "set fs = {i. i < 819 \<and> \<not> slotOccupied pg i}" by (auto simp: page_ok_def)
  have "card (set fs) \<le> card {..<819 :: nat}" by (rule card_mono) (use fs(4) in auto)
  with fs(2) that [OF fs] show thesis by (simp add: distinct_card)
qed

lemma page_okI:
  assumes "slot_chain (nextFree pg) (firstFree pg) fs" and "distinct fs" and "freeCount pg = length fs"
    and "set fs = {i. i < 819 \<and> \<not> slotOccupied pg i}" and "0 < unat (storage pg)" and "unat (storage pg) mod 65536 = 0"
  shows "page_ok pg"
  unfolding page_ok_def pool_constants using assms by blast

lemma page_ok_base: "page_ok pg \<Longrightarrow> 0 < unat (storage pg)" "page_ok pg \<Longrightarrow> unat (storage pg) mod 65536 = 0"
  by (simp_all add: page_ok_def)

text \<open>Taking the first free slot.\<close>

definition take_slot :: "page \<Rightarrow> page" where
  "take_slot pg = pg\<lparr>firstFree := nextFree pg (firstFree pg), freeCount := sz_dec (freeCount pg),
     slotOccupied := (slotOccupied pg)(firstFree pg := True)\<rparr>"

lemma take_slot_ok:
  assumes "page_ok pg" and "freeCount pg \<noteq> 0"
  shows "firstFree pg < 819" "\<not> slotOccupied pg (firstFree pg)" "page_ok (take_slot pg)"
    "freeCount (take_slot pg) = freeCount pg - 1"
proof -
  from assms(1) obtain fs where fs: "slot_chain (nextFree pg) (firstFree pg) fs" "distinct fs"
    "freeCount pg = length fs" "set fs = {i. i < 819 \<and> \<not> slotOccupied pg i}" "length fs \<le> 819" by (rule page_okE)
  with assms(2) obtain fs' where cons: "fs = firstFree pg # fs'" by (cases fs) auto
  then have "firstFree pg \<in> set fs" by simp
  then show ff: "firstFree pg < 819" "\<not> slotOccupied pg (firstFree pg)" using fs(4) by auto
  show cnt: "freeCount (take_slot pg) = freeCount pg - 1"
    using assms(2) fs(3,5) by (simp add: take_slot_def sz_dec_pos SIZE_RANGE_def)
  have "set fs' = set fs - {firstFree pg}" using cons fs(2) by auto
  then have "set fs' = {i. i < 819 \<and> \<not> slotOccupied (take_slot pg) i}"
    unfolding fs(4) by (auto simp: take_slot_def)
  moreover have "slot_chain (nextFree pg) (nextFree pg (firstFree pg)) fs'" "distinct fs'" "freeCount (take_slot pg) = length fs'"
    using fs cons cnt by simp_all
  ultimately show "page_ok (take_slot pg)"
    using page_ok_base [OF assms(1)] by (intro page_okI [of _ fs']) (simp_all add: take_slot_def)
qed

text \<open>Putting a slot back.\<close>

definition put_slot :: "nat \<Rightarrow> page \<Rightarrow> page" where
  "put_slot i pg = pg\<lparr>slotOccupied := (slotOccupied pg)(i := False), nextFree := (nextFree pg)(i := firstFree pg),
     firstFree := i\<rparr>"

lemma put_slot_ok:
  assumes "page_ok pg" and "i < 819" and "slotOccupied pg i"
  shows "page_ok (freeCount_update sz_inc (put_slot i pg))"
    "freeCount (freeCount_update sz_inc (put_slot i pg)) = freeCount pg + 1"
proof -
  from assms(1) obtain fs where fs: "slot_chain (nextFree pg) (firstFree pg) fs" "distinct fs"
    "freeCount pg = length fs" "set fs = {j. j < 819 \<and> \<not> slotOccupied pg j}" "length fs \<le> 819" by (rule page_okE)
  have new: "i \<notin> set fs" using fs(4) assms(3) by auto
  let ?pg = "freeCount_update sz_inc (put_slot i pg)"
  show cnt: "freeCount ?pg = freeCount pg + 1" using fs(3,5) by (simp add: put_slot_def sz_inc_small SIZE_RANGE_def)
  have "slot_chain (nextFree ?pg) (firstFree ?pg) (i # fs)"
    using fs(1) slot_chain_cong [of fs "nextFree ?pg" "nextFree pg"] new by (simp add: put_slot_def, metis fun_upd_other)
  moreover have "set (i # fs) = {j. j < 819 \<and> \<not> slotOccupied ?pg j}"
    using fs(4) assms(2) by (auto simp: put_slot_def)
  ultimately show "page_ok ?pg"
    using page_ok_base [OF assms(1)] new fs(2,3) cnt
    by (intro page_okI [of _ "i # fs"]) (simp_all add: put_slot_def)
qed

lemma slot_chain_upt: "m + n = 819 \<Longrightarrow> slot_chain (\<lambda>i. if i + 1 < 819 then i + 1 else 819) m [m..<819]"
proof (induction n arbitrary: m)
  case (Suc n)
  then have "[m..<819] = m # [Suc m..<819]" by (simp add: upt_conv_Cons)
  moreover have "slot_chain (\<lambda>i. if i + 1 < 819 then i + 1 else 819) (Suc m) [Suc m..<819]" using Suc by simp
  moreover have "(if m + 1 < 819 then m + 1 else 819) = Suc m" using Suc.prems by simp
  ultimately show ?case by simp
qed simp

lemma Page_new_ok:
  assumes "os_fresh os" and "Page_new os calls = (Inr pg, calls')"
  shows "page_ok pg" "freeCount pg = 819" "\<not> onFreePageList pg" "\<And>i. \<not> slotOccupied pg i" "calls' = calls + 1"
    "\<exists>a. mmapResult os calls = Some a \<and> storage pg = align_up a"
    "nextFreePage pg = None" "previousFreePage pg = None"
proof -
  from assms(2) obtain a where a: "mmapResult os calls = Some a"
    and pg: "pg = \<lparr>storage = align_up a, nextFree = (\<lambda>i. if i + 1 < 819 then i + 1 else 819),
      slotOccupied = (\<lambda>_. False), firstFree = 0, freeCount = 819,
      previousFreePage = None, nextFreePage = None, onFreePageList = False\<rparr>" and "calls' = calls + 1"
    unfolding Page_new_def pool_constants by (auto split: if_splits option.splits)
  then show "freeCount pg = 819" "\<not> onFreePageList pg" "\<And>i. \<not> slotOccupied pg i" "calls' = calls + 1"
    "\<exists>a. mmapResult os calls = Some a \<and> storage pg = align_up a" "nextFreePage pg = None" "previousFreePage pg = None"
    by simp_all
  have "set [0..<819] = {i :: nat. i < 819 \<and> \<not> False}" "length [0..<819] = 819" by auto
  then show "page_ok pg"
    using slot_chain_upt [of 0 819] os_freshD(1,2) [OF assms(1) a] unfolding pg
    by (intro page_okI [of _ "[0..<819]"]) simp_all
qed

lemma Page_new_Inl:
  "Page_new os calls = (Inl e, calls') \<Longrightarrow>
    e = RuntimeError ''OrderPool page size is incompatible with the system page size'' \<or> e = SystemError ''mmap failed''"
  by (auto simp: Page_new_def split: if_splits option.splits)

lemma Page_new_calls: "Page_new os calls = (r, calls') \<Longrightarrow> calls \<le> calls'"
  by (auto simp: Page_new_def split: if_splits option.splits)

subsection \<open>The list of pages with a free slot\<close>

text \<open>A page without its links.\<close>

definition page_core :: "page \<Rightarrow> page" where
  "page_core pg = pg\<lparr>previousFreePage := None, nextFreePage := None, onFreePageList := False\<rparr>"

lemma page_core_links [simp]:
  "page_core (previousFreePage_update f pg) = page_core pg"
  "page_core (nextFreePage_update f pg) = page_core pg"
  "page_core (onFreePageList_update g pg) = page_core pg"
  by (simp_all add: page_core_def)

lemma page_core_sel:
  assumes "page_core a = page_core b"
  shows "storage a = storage b" "nextFree a = nextFree b" "slotOccupied a = slotOccupied b"
    "firstFree a = firstFree b" "freeCount a = freeCount b"
  using assms by (cases a; cases b; simp add: page_core_def)+

lemma page_core_ok: "page_core a = page_core b \<Longrightarrow> page_ok a = page_ok b"
  by (simp add: page_ok_def page_core_sel [of a b])

text \<open>Only links changed, and the pages on the free list are the ones in \<open>S\<close>.\<close>

definition relisted :: "nat set \<Rightarrow> page list \<Rightarrow> page list \<Rightarrow> bool" where
  "relisted S pgs pgs' \<longleftrightarrow> map page_core pgs' = map page_core pgs \<and>
     (\<forall>j < length pgs. onFreePageList (pgs' ! j) \<longleftrightarrow> j \<in> S)"

lemma relisted_length: "relisted S pgs pgs' \<Longrightarrow> length pgs' = length pgs"
  unfolding relisted_def by (metis length_map)

lemma relisted_core:
  assumes "relisted S pgs pgs'" and "j < length pgs"
  shows "page_core (pgs' ! j) = page_core (pgs ! j)"
  using assms relisted_length [OF assms(1)] unfolding relisted_def by (metis nth_map)

definition listed :: "page list \<Rightarrow> nat set" where
  "listed pgs = {k. k < length pgs \<and> onFreePageList (pgs ! k)}"

lemma free_list_okE:
  assumes "free_list_ok P"
  obtains ks l where
    "dlseg (next_page (pages P)) (prev_page (pages P)) None (firstPageWithFreeSlot P) ks l None"
    "distinct ks" "set ks = listed (pages P)"
  using assms by (auto simp: free_list_ok_def listed_def)

lemma free_list_okI:
  assumes "dlseg (next_page (pages P)) (prev_page (pages P)) None (firstPageWithFreeSlot P) ks l None"
    and "distinct ks" and "set ks = listed (pages P)"
  shows "free_list_ok P"
  using assms unfolding free_list_ok_def listed_def by blast

lemma free_list_first:
  assumes "free_list_ok P"
  shows "firstPageWithFreeSlot P = None \<longleftrightarrow> listed (pages P) = {}"
    and "firstPageWithFreeSlot P = Some k \<Longrightarrow> k \<in> listed (pages P)"
proof -
  obtain ks l where d: "dlseg (next_page (pages P)) (prev_page (pages P)) None (firstPageWithFreeSlot P) ks l None"
    "set ks = listed (pages P)" using free_list_okE [OF assms] .
  then show "firstPageWithFreeSlot P = None \<longleftrightarrow> listed (pages P) = {}" by (cases ks) auto
  show "firstPageWithFreeSlot P = Some k \<Longrightarrow> k \<in> listed (pages P)"
    unfolding d(2) [symmetric] using d(1) by (cases ks) auto
qed

lemma addToFreePageList_ok:
  assumes fl: "free_list_ok P" and k: "k < length (pages P)" "\<not> onFreePageList (pages P ! k)"
  obtains pgs where "addToFreePageList k P = Ret () (P\<lparr>pages := pgs, firstPageWithFreeSlot := Some k\<rparr>)"
    "relisted (insert k (listed (pages P))) (pages P) pgs"
    "free_list_ok (P\<lparr>pages := pgs, firstPageWithFreeSlot := Some k\<rparr>)"
proof -
  obtain ks l where d: "dlseg (next_page (pages P)) (prev_page (pages P)) None (firstPageWithFreeSlot P) ks l None"
    "distinct ks" "set ks = listed (pages P)" using free_list_okE [OF fl] .
  have kn: "k \<notin> set ks" using d(3) k by (simp add: listed_def)
  have f: "j < length (pages P)" "j \<noteq> k" if "firstPageWithFreeSlot P = Some j" for j
    using free_list_first(2) [OF fl that] k by (auto simp: listed_def)
  define pgs where "pgs = (let p1 = (pages P)[k := (pages P ! k)\<lparr>previousFreePage := None, nextFreePage := firstPageWithFreeSlot P\<rparr>];
      p2 = (case firstPageWithFreeSlot P of Some j \<Rightarrow> p1[j := (p1 ! j)\<lparr>previousFreePage := Some k\<rparr>] | None \<Rightarrow> p1)
    in p2[k := (p2 ! k)\<lparr>onFreePageList := True\<rparr>])"
  have nth: "pgs ! j = (if j = k then (pages P ! k)\<lparr>previousFreePage := None, nextFreePage := firstPageWithFreeSlot P, onFreePageList := True\<rparr>
      else if firstPageWithFreeSlot P = Some j then (pages P ! j)\<lparr>previousFreePage := Some k\<rparr> else pages P ! j)"
    if "j < length (pages P)" for j
    using that k f by (auto simp: pgs_def Let_def nth_list_update split: option.splits)
  have len: "length pgs = length (pages P)" by (auto simp: pgs_def Let_def split: option.splits)
  have run: "addToFreePageList k P = Ret () (P\<lparr>pages := pgs, firstPageWithFreeSlot := Some k\<rparr>)"
    using k f by (auto simp: addToFreePageList_def write_page_def write_pool_def pgs_def Let_def split: option.splits)
  have rel: "relisted (insert k (listed (pages P))) (pages P) pgs"
    unfolding relisted_def using len by (auto simp: nth listed_def intro!: nth_equalityI)
  have "dlseg (next_page pgs) (prev_page pgs) None (Some k) (k # ks) (if firstPageWithFreeSlot P = None then Some k else l) None"
  proof (rule dlseg_push [OF d(1) kn d(2)])
    show "next_page pgs k = firstPageWithFreeSlot P" "prev_page pgs k = None"
      using nth [OF k(1)] by (simp_all add: next_page_def prev_page_def)
    fix q assume "q \<in> set ks"
    then have "q < length (pages P)" "q \<noteq> k" using d(3) kn by (auto simp: listed_def)
    then show "next_page pgs q = next_page (pages P) q"
      "prev_page pgs q = (if firstPageWithFreeSlot P = Some q then Some k else prev_page (pages P) q)"
      by (simp_all add: nth next_page_def prev_page_def)
  qed
  moreover have "set (k # ks) = listed pgs"
    using d(3) rel k(1) len by (auto simp: listed_def relisted_def)
  ultimately have "free_list_ok (P\<lparr>pages := pgs, firstPageWithFreeSlot := Some k\<rparr>)"
    using kn d(2) by (intro free_list_okI [of _ "k # ks" "if firstPageWithFreeSlot P = None then Some k else l"]) simp_all
  with run rel show thesis by (rule that)
qed

lemma removeFromFreePageList_run:
  assumes k: "k < length (pages P)" "onFreePageList (pages P ! k)"
    and pv: "\<And>j. previousFreePage (pages P ! k) = Some j \<Longrightarrow> j < length (pages P) \<and> j \<noteq> k"
    and nx: "\<And>j. nextFreePage (pages P ! k) = Some j \<Longrightarrow> j < length (pages P) \<and> j \<noteq> k"
    and pn: "\<And>j. previousFreePage (pages P ! k) = Some j \<Longrightarrow> nextFreePage (pages P ! k) \<noteq> Some j"
  obtains pgs where "removeFromFreePageList k P = Ret () (P\<lparr>pages := pgs, firstPageWithFreeSlot :=
      (if previousFreePage (pages P ! k) = None then nextFreePage (pages P ! k) else firstPageWithFreeSlot P)\<rparr>)"
    "length pgs = length (pages P)"
    "\<And>j. j < length (pages P) \<Longrightarrow> pgs ! j =
      (if j = k then page_core (pages P ! k)
       else if previousFreePage (pages P ! k) = Some j then (pages P ! j)\<lparr>nextFreePage := nextFreePage (pages P ! k)\<rparr>
       else if nextFreePage (pages P ! k) = Some j then (pages P ! j)\<lparr>previousFreePage := previousFreePage (pages P ! k)\<rparr>
       else pages P ! j)"
proof -
  let ?pg = "pages P ! k"
  define p1 where "p1 = (case previousFreePage ?pg of Some j \<Rightarrow> (pages P)[j := (pages P ! j)\<lparr>nextFreePage := nextFreePage ?pg\<rparr>] | None \<Rightarrow> pages P)"
  define p2 where "p2 = (case nextFreePage ?pg of Some j \<Rightarrow> p1[j := (p1 ! j)\<lparr>previousFreePage := previousFreePage ?pg\<rparr>] | None \<Rightarrow> p1)"
  define pgs where "pgs = p2[k := page_core (p2 ! k)]"
  have len: "length p1 = length (pages P)" "length p2 = length (pages P)"
    by (auto simp: p1_def p2_def split: option.splits)
  have "removeFromFreePageList k P = Ret () (P\<lparr>pages := pgs, firstPageWithFreeSlot :=
      (if previousFreePage ?pg = None then nextFreePage ?pg else firstPageWithFreeSlot P)\<rparr>)"
    using k pv nx len
    by (cases "previousFreePage ?pg"; cases "nextFreePage ?pg")
      (auto simp: removeFromFreePageList_def write_page_def write_pool_def pgs_def p1_def p2_def page_core_def Let_def)
  moreover have "pgs ! j =
      (if j = k then page_core ?pg
       else if previousFreePage ?pg = Some j then (pages P ! j)\<lparr>nextFreePage := nextFreePage ?pg\<rparr>
       else if nextFreePage ?pg = Some j then (pages P ! j)\<lparr>previousFreePage := previousFreePage ?pg\<rparr>
       else pages P ! j)" if "j < length (pages P)" for j
    using that k pv nx pn len
    by (cases "previousFreePage ?pg"; cases "nextFreePage ?pg") (auto simp: pgs_def p1_def p2_def nth_list_update)
  moreover have "length pgs = length (pages P)" by (simp add: pgs_def len)
  ultimately show thesis using that by blast
qed

lemma removeFromFreePageList_ok:
  assumes fl: "free_list_ok P" and k: "k < length (pages P)" "onFreePageList (pages P ! k)"
  obtains pgs f where "removeFromFreePageList k P = Ret () (P\<lparr>pages := pgs, firstPageWithFreeSlot := f\<rparr>)"
    "relisted (listed (pages P) - {k}) (pages P) pgs" "free_list_ok (P\<lparr>pages := pgs, firstPageWithFreeSlot := f\<rparr>)"
proof -
  let ?pg = "pages P ! k"
  obtain ks l where d: "dlseg (next_page (pages P)) (prev_page (pages P)) None (firstPageWithFreeSlot P) ks l None"
    "distinct ks" "set ks = listed (pages P)" using free_list_okE [OF fl] .
  have "k \<in> set ks" using d(3) k by (simp add: listed_def)
  then obtain xs ys where ks: "ks = xs @ k # ys" using split_list by metis
  note nb = dlseg_neighbours [OF d(1) [unfolded ks]]
  have pv: "j \<in> set xs" if "previousFreePage ?pg = Some j" for j
    using nb(1) that last_in_set [of xs] by (auto simp: prev_page_def split: if_splits)
  have nx: "j \<in> set ys" if "nextFreePage ?pg = Some j" for j
    using nb(2) that hd_in_set [of ys] by (auto simp: next_page_def split: if_splits)
  have mem: "j < length (pages P) \<and> j \<noteq> k" if "j \<in> set xs \<union> set ys" for j
    using that d(2,3) unfolding ks listed_def by auto
  have disj: "set xs \<inter> set ys = {}" using d(2) ks by auto
  obtain pgs where run: "removeFromFreePageList k P = Ret () (P\<lparr>pages := pgs, firstPageWithFreeSlot :=
      (if previousFreePage ?pg = None then nextFreePage ?pg else firstPageWithFreeSlot P)\<rparr>)"
    and len: "length pgs = length (pages P)"
    and nth: "\<And>j. j < length (pages P) \<Longrightarrow> pgs ! j =
      (if j = k then page_core ?pg
       else if previousFreePage ?pg = Some j then (pages P ! j)\<lparr>nextFreePage := nextFreePage ?pg\<rparr>
       else if nextFreePage ?pg = Some j then (pages P ! j)\<lparr>previousFreePage := previousFreePage ?pg\<rparr>
       else pages P ! j)"
    by (rule removeFromFreePageList_run [OF k]) (use pv nx mem disj in blast)+
  let ?f = "if previousFreePage ?pg = None then nextFreePage ?pg else firstPageWithFreeSlot P"
  have rel: "relisted (listed (pages P) - {k}) (pages P) pgs"
    unfolding relisted_def using len
    by (auto simp: nth listed_def page_core_def intro!: nth_equalityI)
  have seg: "dlseg (next_page pgs) (prev_page pgs) None
      (if prev_page (pages P) k = None then next_page (pages P) k else firstPageWithFreeSlot P) (xs @ ys)
      (if next_page (pages P) k = None then prev_page (pages P) k else l) None"
  proof (rule dlseg_remove [OF d(1) [unfolded ks] d(2) [unfolded ks]])
    fix q assume q: "q \<in> set xs \<union> set ys"
    then show "next_page pgs q = (if prev_page (pages P) k = Some q then next_page (pages P) k else next_page (pages P) q)"
      "prev_page pgs q = (if next_page (pages P) k = Some q then prev_page (pages P) k else prev_page (pages P) q)"
      using mem [OF q] nth [of q] pv [of q] nx [of q] disj by (auto simp: next_page_def prev_page_def)
  qed
  have "set (xs @ ys) = listed pgs"
    using d(2,3) rel len unfolding ks by (auto simp: listed_def relisted_def)
  then have "free_list_ok (P\<lparr>pages := pgs, firstPageWithFreeSlot := ?f\<rparr>)"
    by (intro free_list_okI [of _ "xs @ ys"]) (use seg d(2) ks in \<open>simp_all add: next_page_def prev_page_def cong: if_cong\<close>)
  with run rel show thesis by (rule that)
qed

subsection \<open>Parts of the pool invariant\<close>

text \<open>What does not depend on the links between pages.\<close>

definition pool_base :: "os_env \<Rightarrow> order_pool \<Rightarrow> bool" where
  "pool_base os P \<longleftrightarrow>
     list_all page_ok (pages P) \<and>
     (\<forall>b k. pageIndex P b = Some k \<longleftrightarrow> k < length (pages P) \<and> storage (pages P ! k) = b) \<and>
     (\<forall>k < length (pages P). \<exists>i a. i < mmapCalls P \<and> mmapResult os i = Some a \<and> storage (pages P ! k) = align_up a) \<and>
     dom (mem P) = live_slots P \<and> liveOrderCount P = card (dom (mem P))"

definition flags_ok :: "page list \<Rightarrow> bool" where
  "flags_ok pgs \<longleftrightarrow> (\<forall>k < length pgs. onFreePageList (pgs ! k) \<longleftrightarrow> freeCount (pgs ! k) \<noteq> 0)"

lemma pool_ok_parts: "pool_ok os P \<longleftrightarrow> pool_base os P \<and> free_list_ok P \<and> flags_ok (pages P)"
  by (auto simp: pool_ok_def pool_base_def flags_ok_def)

lemma pool_baseD:
  assumes "pool_base os P"
  shows "k < length (pages P) \<Longrightarrow> page_ok (pages P ! k)"
    "pageIndex P b = Some k \<longleftrightarrow> k < length (pages P) \<and> storage (pages P ! k) = b"
    "dom (mem P) = live_slots P" "liveOrderCount P = card (dom (mem P))"
  using assms by (simp_all add: pool_base_def list_all_length)

lemma same_storage:
  assumes "pool_base os P" and "i < length (pages P)" "j < length (pages P)" "storage (pages P ! i) = storage (pages P ! j)"
  shows "i = j"
proof -
  have "pageIndex P (storage (pages P ! i)) = Some i" "pageIndex P (storage (pages P ! j)) = Some j"
    using pool_baseD(2) [OF assms(1)] assms(2,3) by blast+
  then show ?thesis unfolding assms(4) by (metis option.inject)
qed

lemma relisted_base:
  assumes "relisted S (pages P) pgs"
  shows "pool_base os (P\<lparr>pages := pgs, firstPageWithFreeSlot := f\<rparr>) = pool_base os P"
proof -
  note len = relisted_length [OF assms] and core = relisted_core [OF assms]
  have sel: "storage (pgs ! k) = storage (pages P ! k)" "slotOccupied (pgs ! k) = slotOccupied (pages P ! k)"
    "page_ok (pgs ! k) = page_ok (pages P ! k)" if "k < length (pages P)" for k
    using page_core_sel [OF core [OF that]] page_core_ok [OF core [OF that]] by simp_all
  have "live_slots (P\<lparr>pages := pgs, firstPageWithFreeSlot := f\<rparr>) = live_slots P"
  proof (rule set_eqI)
    fix p
    have "rawSlot (pgs ! k) i = rawSlot (pages P ! k) i" if "k < length (pages P)" for k i
      using sel(1) [OF that] by (simp add: rawSlot_def)
    then show "p \<in> live_slots (P\<lparr>pages := pgs, firstPageWithFreeSlot := f\<rparr>) \<longleftrightarrow> p \<in> live_slots P"
      unfolding live_slots_def using len sel(2) by simp metis
  qed
  then show ?thesis unfolding pool_base_def by (simp add: len sel list_all_length cong: conj_cong)
qed

lemma live_slot_iff:
  assumes base: "pool_base os P" and k: "k < length (pages P)" and i: "i < 819"
  shows "mem P (rawSlot (pages P ! k) i) \<noteq> None \<longleftrightarrow> slotOccupied (pages P ! k) i"
proof -
  note D = pool_baseD [OF base]
  have al: "unat (storage (pages P ! j)) mod 65536 = 0" if "j < length (pages P)" for j
    using page_ok_base(2) [OF D(1) [OF that]] .
  have "mem P (rawSlot (pages P ! k) i) \<noteq> None \<longleftrightarrow> rawSlot (pages P ! k) i \<in> live_slots P"
    using D(3) by auto
  also have "\<dots> \<longleftrightarrow> slotOccupied (pages P ! k) i"
  proof
    assume "rawSlot (pages P ! k) i \<in> live_slots P"
    then obtain j n where j: "j < length (pages P)" "n < 819" "slotOccupied (pages P ! j) n"
      "rawSlot (pages P ! k) i = rawSlot (pages P ! j) n" by (auto simp: live_slots_def)
    with rawSlot_inj [OF al [OF k] i al [OF j(1)] j(2,4)] same_storage [OF base k j(1)]
    show "slotOccupied (pages P ! k) i" by simp
  next
    assume "slotOccupied (pages P ! k) i"
    then show "rawSlot (pages P ! k) i \<in> live_slots P" using k i by (auto simp: live_slots_def)
  qed
  finally show ?thesis .
qed

lemma rawSlot_nonzero: "page_ok pg \<Longrightarrow> i < 819 \<Longrightarrow> rawSlot pg i \<noteq> 0"
  using unat_rawSlot [of pg i] page_ok_base [of pg] by (auto simp: u64_eq_0_iff)

lemma live_nonzero: "pool_base os P \<Longrightarrow> mem P 0 = None"
proof -
  assume base: "pool_base os P"
  note D = pool_baseD [OF base]
  have "0 \<notin> live_slots P" using rawSlot_nonzero D(1) by (fastforce simp: live_slots_def)
  with D(3) show ?thesis by auto
qed

lemma card_live_less:
  fixes m :: heap
  assumes "m 0 = None"
  shows "card (dom m) < SIZE_RANGE"
proof -
  have "card (UNIV :: u64 set) = SIZE_RANGE" by (simp add: card_word SIZE_RANGE_def)
  moreover have "card (dom m) < card (UNIV :: u64 set)"
    by (rule psubset_card_mono) (use assms in auto)
  ultimately show ?thesis by simp
qed

lemma free_list_update:
  assumes "free_list_ok P" and "k < length (pages P)"
    and "nextFreePage pg = nextFreePage (pages P ! k)" "previousFreePage pg = previousFreePage (pages P ! k)"
    "onFreePageList pg = onFreePageList (pages P ! k)"
  shows "free_list_ok (P\<lparr>pages := (pages P)[k := pg]\<rparr>)" "listed ((pages P)[k := pg]) = listed (pages P)"
proof -
  show l: "listed ((pages P)[k := pg]) = listed (pages P)"
    using assms(2,5) by (auto simp: listed_def nth_list_update)
  have "next_page ((pages P)[k := pg]) = next_page (pages P)" "prev_page ((pages P)[k := pg]) = prev_page (pages P)"
    using assms by (auto simp: next_page_def prev_page_def fun_eq_iff nth_list_update)
  then show "free_list_ok (P\<lparr>pages := (pages P)[k := pg]\<rparr>)"
    using free_list_okE [OF assms(1)] l by (metis free_list_okI order_pool.select_convs(1,3) order_pool.simps(1,3) order_pool.surjective order_pool.update_convs(1))
qed

subsection \<open>Creating pages\<close>

definition page_errors :: "error set" where
  "page_errors = {RuntimeError ''OrderPool page size is incompatible with the system page size'',
     SystemError ''mmap failed''}"

lemma pool_ok_calls:
  assumes "pool_ok os P" and "mmapCalls P \<le> c"
  shows "pool_ok os (P\<lparr>mmapCalls := c\<rparr>)"
proof -
  have "live_slots (P\<lparr>mmapCalls := c\<rparr>) = live_slots P" by (simp add: live_slots_def)
  then show ?thesis using assms unfolding pool_ok_def free_list_ok_def
    by (simp del: pool_constants) (meson less_le_trans)
qed

lemma pool_base_append:
  assumes base: "pool_base os P" and fresh: "os_fresh os" and pg: "Page_new os (mmapCalls P) = (Inr pg, c)"
  shows "pageIndex P (storage pg) = None"
    and "pool_base os (P\<lparr>pages := pages P @ [pg], pageIndex := (pageIndex P)(storage pg \<mapsto> length (pages P)), mmapCalls := c\<rparr>)"
proof -
  note D = pool_baseD [OF base] and new = Page_new_ok [OF fresh pg]
  obtain a where a: "mmapResult os (mmapCalls P) = Some a" "storage pg = align_up a" using new(6) by blast
  have diff: "storage (pages P ! k) \<noteq> storage pg" if "k < length (pages P)" for k
    using base that os_freshD(3) [OF fresh a(1)] unfolding a(2) pool_base_def by metis
  then show "pageIndex P (storage pg) = None" using D(2) [of "storage pg"] by (metis not_None_eq)
  let ?P = "P\<lparr>pages := pages P @ [pg], pageIndex := (pageIndex P)(storage pg \<mapsto> length (pages P)), mmapCalls := c\<rparr>"
  have live: "live_slots ?P = live_slots P"
    using new(4) by (auto simp: live_slots_def nth_append less_Suc_eq)
  have idx: "pageIndex ?P b = Some k \<longleftrightarrow> k < length (pages ?P) \<and> storage (pages ?P ! k) = b" for b k
    using D(2) [of b k] diff by (auto simp: nth_append less_Suc_eq)
  have "\<exists>i a. i < c \<and> mmapResult os i = Some a \<and> storage (pages ?P ! k) = align_up a" if "k < length (pages ?P)" for k
  proof (cases "k < length (pages P)")
    case True
    with base obtain i b where "i < mmapCalls P" "mmapResult os i = Some b" "storage (pages P ! k) = align_up b"
      unfolding pool_base_def by blast
    then show ?thesis using True new(5) by (auto simp: nth_append intro!: exI [of _ i])
  next
    case False
    then show ?thesis using that a new(5) by (auto simp: nth_append less_Suc_eq)
  qed
  then show "pool_base os ?P"
    using base idx live new(1) unfolding pool_base_def by simp
qed

lemma free_list_append:
  assumes "free_list_ok P" and "\<not> onFreePageList pg"
  shows "free_list_ok (P\<lparr>pages := pages P @ [pg], pageIndex := m, mmapCalls := c\<rparr>)"
    "listed (pages P @ [pg]) = listed (pages P)"
proof -
  show l: "listed (pages P @ [pg]) = listed (pages P)"
    using assms(2) by (auto simp: listed_def nth_append less_Suc_eq)
  obtain ks t where d: "dlseg (next_page (pages P)) (prev_page (pages P)) None (firstPageWithFreeSlot P) ks t None"
    "distinct ks" "set ks = listed (pages P)" using free_list_okE [OF assms(1)] .
  have "dlseg (next_page (pages P @ [pg])) (prev_page (pages P @ [pg])) None (firstPageWithFreeSlot P) ks t None
      = dlseg (next_page (pages P)) (prev_page (pages P)) None (firstPageWithFreeSlot P) ks t None"
    by (rule dlseg_cong) (use d(3) in \<open>auto simp: listed_def next_page_def prev_page_def nth_append\<close>)
  then show "free_list_ok (P\<lparr>pages := pages P @ [pg], pageIndex := m, mmapCalls := c\<rparr>)"
    using d l by (intro free_list_okI [of _ ks t]) simp_all
qed

text \<open>The operating system grants the page of the \<open>j\<close>-th mapping.\<close>

definition page_granted :: "os_env \<Rightarrow> nat \<Rightarrow> bool" where
  "page_granted os j \<longleftrightarrow> 0 < sysconfPageSize os \<and> int PageSize mod sysconfPageSize os = 0 \<and> mmapResult os j \<noteq> None"

lemma Page_new_granted:
  "Page_new os calls = (Inl e, c) \<Longrightarrow> \<not> page_granted os calls"
  "Page_new os calls = (Inr pg, c) \<Longrightarrow> c = Suc calls"
  by (auto simp: Page_new_def page_granted_def split: if_splits option.splits)

lemma createPage_cases:
  assumes ok: "pool_ok os P" and fresh: "os_fresh os"
  obtains (created) P' where "createPage os P = Ret (length (pages P)) P'" "pool_ok os P'" "mem P' = mem P"
      "liveOrderCount P' = liveOrderCount P" "length (pages P') = length (pages P) + 1"
      "firstPageWithFreeSlot P' = Some (length (pages P))" "length (pages P) \<in> listed (pages P')" "mmapCalls P' = Suc (mmapCalls P)"
    | (failed) e c where "createPage os P = Throw e (P\<lparr>mmapCalls := c\<rparr>)" "pool_ok os (P\<lparr>mmapCalls := c\<rparr>)" "e \<in> page_errors"
      "\<not> page_granted os (mmapCalls P)"
proof (cases "Page_new os (mmapCalls P)")
  case (Pair r c)
  show thesis
  proof (cases r)
    case (Inl e)
    show thesis
    proof (rule failed)
      show "createPage os P = Throw e (P\<lparr>mmapCalls := c\<rparr>)" using Pair Inl by (simp add: createPage_def)
      show "pool_ok os (P\<lparr>mmapCalls := c\<rparr>)" by (rule pool_ok_calls [OF ok]) (use Page_new_calls Pair in blast)
      show "e \<in> page_errors" using Page_new_Inl Pair Inl by (auto simp: page_errors_def)
      show "\<not> page_granted os (mmapCalls P)" using Page_new_granted(1) Pair Inl by blast
    qed
  next
    case (Inr pg)
    from ok have parts: "pool_base os P" "free_list_ok P" "flags_ok (pages P)" by (simp_all add: pool_ok_parts)
    have pg: "Page_new os (mmapCalls P) = (Inr pg, c)" using Pair Inr by simp
    note new = Page_new_ok [OF fresh pg]
    let ?k = "length (pages P)"
    let ?P1 = "P\<lparr>pages := pages P @ [pg], pageIndex := (pageIndex P)(storage pg \<mapsto> ?k), mmapCalls := c\<rparr>"
    note base = pool_base_append [OF parts(1) fresh pg] and fl = free_list_append [OF parts(2) new(3)]
    obtain pgs where add: "addToFreePageList ?k ?P1 = Ret () (?P1\<lparr>pages := pgs, firstPageWithFreeSlot := Some ?k\<rparr>)"
      "relisted (insert ?k (listed (pages ?P1))) (pages ?P1) pgs"
      "free_list_ok (?P1\<lparr>pages := pgs, firstPageWithFreeSlot := Some ?k\<rparr>)"
      by (rule addToFreePageList_ok [of ?P1 ?k]) (use fl(1) new(3) in auto)
    let ?P2 = "?P1\<lparr>pages := pgs, firstPageWithFreeSlot := Some ?k\<rparr>"
    note len = relisted_length [OF add(2)]
    have "flags_ok pgs" unfolding flags_ok_def
    proof (intro allI impI)
      fix j assume "j < length pgs"
      then have j: "j < length (pages ?P1)" using len by simp
      have "onFreePageList (pgs ! j) \<longleftrightarrow> j = ?k \<or> j \<in> listed (pages P)"
        using add(2) j fl(2) by (auto simp: relisted_def)
      moreover have "freeCount (pgs ! j) = freeCount (pages ?P1 ! j)"
        by (rule page_core_sel(5) [OF relisted_core [OF add(2) j]])
      ultimately show "onFreePageList (pgs ! j) \<longleftrightarrow> freeCount (pgs ! j) \<noteq> 0"
        using parts(3) new(2) j by (auto simp: flags_ok_def listed_def nth_append less_Suc_eq)
    qed
    then have "pool_ok os ?P2" using add(3) relisted_base [OF add(2), of os] base(2) by (simp add: pool_ok_parts)
    moreover have "?k \<in> listed pgs" using add(2) len by (auto simp: listed_def relisted_def)
    ultimately show thesis
      using created [of ?P2] base(1) pg add(1) len Page_new_granted(2) [OF pg] by (simp add: createPage_def Let_def)
  qed
qed

subsection \<open>Allocating\<close>

lemma relisted_refl: "relisted (listed pgs) pgs pgs"
  by (auto simp: relisted_def listed_def)

lemma free_list_cong:
  "pages P' = pages P \<Longrightarrow> firstPageWithFreeSlot P' = firstPageWithFreeSlot P \<Longrightarrow> free_list_ok P' = free_list_ok P"
  by (simp add: free_list_ok_def)

lemma rawSlot_storage: "storage pg' = storage pg \<Longrightarrow> rawSlot pg' i = rawSlot pg i"
  by (simp add: rawSlot_def)

text \<open>The occupied slots after one page changed the state of one slot.\<close>

lemma live_slots_update:
  assumes base: "pool_base os P" and k: "k < length (pages P)" and i: "i < 819"
    and st: "storage pg = storage (pages P ! k)" and oc: "slotOccupied pg = (slotOccupied (pages P ! k))(i := b)"
  shows "live_slots (P\<lparr>pages := (pages P)[k := pg]\<rparr>)
    = (if b then insert (rawSlot (pages P ! k) i) (live_slots P) else live_slots P - {rawSlot (pages P ! k) i})"
proof (rule set_eqI)
  fix p
  note D = pool_baseD [OF base]
  have al: "unat (storage (pages P ! j)) mod 65536 = 0" if "j < length (pages P)" for j
    using page_ok_base(2) [OF D(1) [OF that]] .
  have only: "j = k \<and> n = i"
    if "j < length (pages P)" "n < 819" "rawSlot (pages P ! j) n = rawSlot (pages P ! k) i" for j n
    using rawSlot_inj [OF al [OF that(1)] that(2) al [OF k] i that(3)] same_storage [OF base that(1) k] by simp
  have "p \<in> live_slots (P\<lparr>pages := (pages P)[k := pg]\<rparr>) \<longleftrightarrow>
      (\<exists>j n. j < length (pages P) \<and> n < 819 \<and> (if j = k \<and> n = i then b else slotOccupied (pages P ! j) n) \<and>
         p = rawSlot (pages P ! j) n)"
    using k rawSlot_storage [OF st] oc
    unfolding live_slots_def pool_constants mem_Collect_eq order_pool.simps length_list_update
    by (intro ex_cong1 conj_cong refl) (auto simp: nth_list_update)
  also have "\<dots> \<longleftrightarrow> p \<in> (if b then insert (rawSlot (pages P ! k) i) (live_slots P) else live_slots P - {rawSlot (pages P ! k) i})"
    using k i only unfolding live_slots_def pool_constants by (cases b) (simp, metis, simp, metis)
  finally show "p \<in> live_slots (P\<lparr>pages := (pages P)[k := pg]\<rparr>) \<longleftrightarrow>
    p \<in> (if b then insert (rawSlot (pages P ! k) i) (live_slots P) else live_slots P - {rawSlot (pages P ! k) i})" .
qed

lemma pool_base_update:
  assumes base: "pool_base os P" and k: "k < length (pages P)" and ok: "page_ok pg"
    and st: "storage pg = storage (pages P ! k)"
    and live: "dom m = live_slots (P\<lparr>pages := (pages P)[k := pg]\<rparr>)" and n: "n = card (dom m)"
  shows "pool_base os (P\<lparr>pages := (pages P)[k := pg], mem := m, liveOrderCount := n\<rparr>)"
proof -
  let ?P = "P\<lparr>pages := (pages P)[k := pg], mem := m, liveOrderCount := n\<rparr>"
  have s: "storage ((pages P)[k := pg] ! j) = storage (pages P ! j)" for j
    using k st by (cases "j = k") simp_all
  have "live_slots ?P = live_slots (P\<lparr>pages := (pages P)[k := pg]\<rparr>)" by (simp add: live_slots_def)
  moreover have "list_all page_ok ((pages P)[k := pg])"
    using base ok k by (auto simp: pool_base_def list_all_length nth_list_update)
  ultimately show ?thesis using base live n unfolding pool_base_def by (simp add: s)
qed

text \<open>
  After the slot bookkeeping and the change of the page list, whatever links changed.
\<close>

lemma pool_okI_relisted:
  assumes "pool_base os P" and "relisted S (pages P) pgs" and "free_list_ok (P\<lparr>pages := pgs, firstPageWithFreeSlot := f\<rparr>)"
    and "\<And>j. j < length (pages P) \<Longrightarrow> j \<in> S \<longleftrightarrow> freeCount (pages P ! j) \<noteq> 0"
  shows "pool_ok os (P\<lparr>pages := pgs, firstPageWithFreeSlot := f\<rparr>)"
proof -
  have "flags_ok pgs"
    using assms(2,4) relisted_length [OF assms(2)] page_core_sel(5) [OF relisted_core [OF assms(2)]]
    by (simp add: flags_ok_def relisted_def)
  with assms(1,3) relisted_base [OF assms(2)] show ?thesis by (simp add: pool_ok_parts)
qed

lemma unlist_full:
  assumes fl: "free_list_ok P" and k: "k < length (pages P)" "onFreePageList (pages P ! k)"
  obtains pgs f where "(if freeCount (pages P ! k) = 0 then removeFromFreePageList k P else Ret () P)
      = Ret () (P\<lparr>pages := pgs, firstPageWithFreeSlot := f\<rparr>)"
    "relisted (if freeCount (pages P ! k) = 0 then listed (pages P) - {k} else listed (pages P)) (pages P) pgs"
    "free_list_ok (P\<lparr>pages := pgs, firstPageWithFreeSlot := f\<rparr>)"
proof (cases "freeCount (pages P ! k) = 0")
  case True
  show thesis by (rule removeFromFreePageList_ok [OF assms]) (use True that in auto)
next
  case False
  then show thesis using that [where pgs = "pages P" and f = "firstPageWithFreeSlot P"] relisted_refl fl by simp
qed

lemma OrderPool_allocate_free:
  assumes ok: "pool_ok os P" and first: "firstPageWithFreeSlot P = Some k"
  obtains p P' where "OrderPool_allocate os ord P = Ret p P'" "mem P p = None" "p \<noteq> 0"
    "mem P' = (mem P)(p \<mapsto> ord)" "pool_ok os P'" "liveOrderCount P' = liveOrderCount P + 1"
    "length (pages P') = length (pages P)" "mmapCalls P' = mmapCalls P"
proof -
  from ok have parts: "pool_base os P" "free_list_ok P" "flags_ok (pages P)" by (simp_all add: pool_ok_parts)
  note D = pool_baseD [OF parts(1)]
  have k: "k < length (pages P)" "onFreePageList (pages P ! k)"
    using free_list_first(2) [OF parts(2) first] by (simp_all add: listed_def)
  let ?pg = "pages P ! k"
  let ?i = "firstFree ?pg" and ?p = "rawSlot ?pg (firstFree ?pg)"
  have "freeCount ?pg \<noteq> 0" using k parts(3) by (simp add: flags_ok_def)
  note tk = take_slot_ok [OF D(1) [OF k(1)] this]
  have dead: "mem P ?p = None" using live_slot_iff [OF parts(1) k(1) tk(1)] tk(2) by simp
  have nz: "?p \<noteq> 0" by (rule rawSlot_nonzero [OF D(1) [OF k(1)] tk(1)])
  let ?m = "(mem P)(?p \<mapsto> ord)" and ?pgs1 = "(pages P)[k := take_slot ?pg]"
  have "?m 0 = None" using nz live_nonzero [OF parts(1)] by simp
  then have small: "card (dom ?m) < SIZE_RANGE" by (rule card_live_less)
  have card: "card (dom ?m) = liveOrderCount P + 1" using D(4) dead by (simp add: card_insert_if domIff)
  have live: "dom ?m = live_slots (P\<lparr>pages := ?pgs1\<rparr>)"
    using live_slots_update [OF parts(1) k(1) tk(1), of "take_slot ?pg" True] D(3) by (simp add: take_slot_def)
  have base: "pool_base os (P\<lparr>pages := ?pgs1, mem := ?m, liveOrderCount := liveOrderCount P + 1\<rparr>)"
    by (rule pool_base_update [OF parts(1) k(1) tk(3) _ live]) (use card in \<open>simp_all add: take_slot_def\<close>)
  let ?P3 = "P\<lparr>mem := ?m, pages := ?pgs1\<rparr>"
  have fl: "free_list_ok ?P3" "listed ?pgs1 = listed (pages P)"
    using free_list_update [OF parts(2) k(1), of "take_slot ?pg"] free_list_cong [of ?P3 "P\<lparr>pages := ?pgs1\<rparr>"]
    by (simp_all add: take_slot_def)
  define S where "S = (if freeCount (take_slot ?pg) = 0 then listed (pages P) - {k} else listed (pages P))"
  have on: "onFreePageList (?pgs1 ! k)" using k by (simp add: take_slot_def)
  have S_eq: "(if freeCount (pages ?P3 ! k) = 0 then listed (pages ?P3) - {k} else listed (pages ?P3)) = S"
    using k fl(2) by (simp add: S_def)
  obtain pgs f where list: "(if freeCount (pages ?P3 ! k) = 0 then removeFromFreePageList k ?P3 else Ret () ?P3)
      = Ret () (?P3\<lparr>pages := pgs, firstPageWithFreeSlot := f\<rparr>)" "relisted S ?pgs1 pgs"
      "free_list_ok (?P3\<lparr>pages := pgs, firstPageWithFreeSlot := f\<rparr>)"
    by (rule unlist_full [OF fl(1), of k, unfolded S_eq]) (use k on in simp_all)
  define P' where "P' = ?P3\<lparr>pages := pgs, firstPageWithFreeSlot := f, liveOrderCount := liveOrderCount P + 1\<rparr>"
  have flags: "j \<in> S \<longleftrightarrow> freeCount (?pgs1 ! j) \<noteq> 0" if "j < length (pages P)" for j
    using that parts(3) k by (cases "j = k") (auto simp: S_def flags_ok_def listed_def)
  have "pool_ok os (P\<lparr>pages := ?pgs1, mem := ?m, liveOrderCount := liveOrderCount P + 1\<rparr>\<lparr>pages := pgs, firstPageWithFreeSlot := f\<rparr>)"
    by (rule pool_okI_relisted [OF base]) (use list(2,3) flags in \<open>simp_all add: free_list_ok_def\<close>)
  moreover have "P\<lparr>pages := ?pgs1, mem := ?m, liveOrderCount := liveOrderCount P + 1\<rparr>\<lparr>pages := pgs, firstPageWithFreeSlot := f\<rparr> = P'"
    by (rule order_pool.equality) (simp_all add: P'_def)
  ultimately have "pool_ok os P'" by simp
  moreover have "OrderPool_allocate os ord P =
      bind_outcome (if freeCount (pages ?P3 ! k) = 0 then removeFromFreePageList k ?P3 else Ret () ?P3)
        (\<lambda>_ Q. Ret ?p (Q\<lparr>liveOrderCount := sz_inc (liveOrderCount Q)\<rparr>))"
    using first k(1) tk(1)
    by (simp add: OrderPool_allocate_def write_pool_def write_page_def Let_def take_slot_def cong: if_cong)
  then have "OrderPool_allocate os ord P = Ret ?p P'"
    unfolding list(1) using small card by (simp add: P'_def sz_inc_small)
  ultimately show thesis
    using that [of ?p P'] dead nz relisted_length [OF list(2)] by (simp add: P'_def)
qed

text \<open>Allocation either returns a slot no live order uses, or no page could be created.\<close>

lemma OrderPool_allocate_cases:
  assumes ok: "pool_ok os P" and fresh: "os_fresh os"
  obtains (allocated) p P' where "OrderPool_allocate os ord P = Ret p P'" "mem P p = None" "p \<noteq> 0"
      "mem P' = (mem P)(p \<mapsto> ord)" "pool_ok os P'" "liveOrderCount P' = liveOrderCount P + 1"
    | (failed) e P' where "OrderPool_allocate os ord P = Throw e P'" "e \<in> page_errors" "mem P' = mem P"
      "pool_ok os P'" "liveOrderCount P' = liveOrderCount P" "firstPageWithFreeSlot P = None"
proof (cases "firstPageWithFreeSlot P")
  case (Some k)
  show thesis by (rule OrderPool_allocate_free [OF ok Some, of ord]) (use allocated in blast)
next
  case None
  show thesis
  proof (rule createPage_cases [OF ok fresh])
    fix P1 assume P1: "createPage os P = Ret (length (pages P)) P1" "pool_ok os P1" "mem P1 = mem P"
      "liveOrderCount P1 = liveOrderCount P" "firstPageWithFreeSlot P1 = Some (length (pages P))"
    have "OrderPool_allocate os ord P = OrderPool_allocate os ord P1"
      using None P1(1,5) by (simp add: OrderPool_allocate_def)
    then show thesis
      using OrderPool_allocate_free [OF P1(2,5), of ord] allocated P1(3,4) by metis
  next
    fix e c assume "createPage os P = Throw e (P\<lparr>mmapCalls := c\<rparr>)" "pool_ok os (P\<lparr>mmapCalls := c\<rparr>)" "e \<in> page_errors"
    then show thesis using None failed by (simp add: OrderPool_allocate_def)
  qed
qed

subsection \<open>Releasing\<close>

lemma relisted_count:
  assumes "relisted S A B" and "k < length A"
  shows "relisted S (A[k := freeCount_update g (A ! k)]) (B[k := freeCount_update g (B ! k)])"
proof -
  note len = relisted_length [OF assms(1)]
  have comm: "page_core (freeCount_update g pg) = freeCount_update g (page_core pg)" for pg
    by (simp add: page_core_def)
  have "map page_core (B[k := freeCount_update g (B ! k)]) = map page_core (A[k := freeCount_update g (A ! k)])"
    using assms relisted_core [OF assms] by (simp add: map_update comm relisted_def)
  moreover have "onFreePageList (B[k := freeCount_update g (B ! k)] ! j) \<longleftrightarrow> j \<in> S" if "j < length A" for j
    using that assms len by (cases "j = k") (simp_all add: relisted_def)
  ultimately show ?thesis by (simp add: relisted_def)
qed

lemma relist_nonfull:
  assumes fl: "free_list_ok P" and k: "k < length (pages P)"
    and fc: "onFreePageList (pages P ! k) \<longleftrightarrow> freeCount (pages P ! k) \<noteq> 0"
  obtains pgs f where "(if freeCount (pages P ! k) = 0 then addToFreePageList k P else Ret () P)
      = Ret () (P\<lparr>pages := pgs, firstPageWithFreeSlot := f\<rparr>)"
    "relisted (insert k (listed (pages P))) (pages P) pgs" "free_list_ok (P\<lparr>pages := pgs, firstPageWithFreeSlot := f\<rparr>)"
proof (cases "freeCount (pages P ! k) = 0")
  case True
  show thesis by (rule addToFreePageList_ok [OF fl k]) (use True fc that in auto)
next
  case False
  then have "insert k (listed (pages P)) = listed (pages P)" using k fc by (auto simp: listed_def)
  with False show thesis
    using that [where pgs = "pages P" and f = "firstPageWithFreeSlot P"] relisted_refl [of "pages P"] fl by simp
qed

lemma free_list_count:
  assumes "free_list_ok P" and "k < length (pages P)"
  shows "free_list_ok (P\<lparr>pages := (pages P)[k := freeCount_update g (pages P ! k)]\<rparr>)"
  by (rule free_list_update(1) [OF assms]) simp_all

lemma OrderPool_release_ok:
  assumes ok: "pool_ok os P" and p: "mem P p = Some ord"
  obtains P' where "OrderPool_release (Some p) P = Ret () P'" "mem P' = (mem P)(p := None)" "pool_ok os P'"
    "liveOrderCount P' = liveOrderCount P - 1"
proof -
  from ok have parts: "pool_base os P" "free_list_ok P" "flags_ok (pages P)" by (simp_all add: pool_ok_parts)
  note D = pool_baseD [OF parts(1)]
  from p D(3) have "p \<in> live_slots P" by (metis domI)
  then obtain k i where k: "k < length (pages P)" "i < 819" "slotOccupied (pages P ! k) i" "p = rawSlot (pages P ! k) i"
    by (auto simp: live_slots_def)
  let ?pg = "pages P ! k"
  note bs = rawSlot_base [OF page_ok_base(2) [OF D(1) [OF k(1)]] k(2)]
  note pk = put_slot_ok [OF D(1) [OF k(1)] k(2,3)]
  let ?m = "(mem P)(p := None)" and ?pgs1 = "(pages P)[k := put_slot i ?pg]"
    and ?pgs2 = "(pages P)[k := freeCount_update sz_inc (put_slot i ?pg)]"
  have cnt: "liveOrderCount P = card (dom (mem P))" "p \<in> dom (mem P)" using D(4) p by auto
  then have pos: "0 < liveOrderCount P" "liveOrderCount P < SIZE_RANGE"
    using card_live_less [of "mem P", OF live_nonzero [OF parts(1)]] by (auto simp: card_gt_0_iff)
  have card: "card (dom ?m) = liveOrderCount P - 1" using cnt by simp
  have live: "dom ?m = live_slots (P\<lparr>pages := ?pgs2\<rparr>)"
    using live_slots_update [OF parts(1) k(1,2), of "freeCount_update sz_inc (put_slot i ?pg)" False] D(3) k(4)
    by (simp add: put_slot_def)
  have base: "pool_base os (P\<lparr>pages := ?pgs2, mem := ?m, liveOrderCount := liveOrderCount P - 1\<rparr>)"
    by (rule pool_base_update [OF parts(1) k(1) pk(1) _ live]) (use card in \<open>simp_all add: put_slot_def\<close>)
  let ?P2 = "P\<lparr>mem := ?m, pages := ?pgs1\<rparr>"
  have fl: "free_list_ok ?P2" "listed ?pgs1 = listed (pages P)"
    using free_list_update [OF parts(2) k(1), of "put_slot i ?pg"] free_list_cong [of ?P2 "P\<lparr>pages := ?pgs1\<rparr>"]
    by (simp_all add: put_slot_def)
  let ?S = "insert k (listed (pages P))"
  obtain pgs f where list: "(if freeCount (pages ?P2 ! k) = 0 then addToFreePageList k ?P2 else Ret () ?P2)
      = Ret () (?P2\<lparr>pages := pgs, firstPageWithFreeSlot := f\<rparr>)" "relisted ?S ?pgs1 pgs"
      "free_list_ok (?P2\<lparr>pages := pgs, firstPageWithFreeSlot := f\<rparr>)"
    by (rule relist_nonfull [OF fl(1), of k])
      (use k(1) parts(3) fl(2) in \<open>simp_all add: flags_ok_def put_slot_def\<close>)
  note len = relisted_length [OF list(2)]
  let ?pgs3 = "pgs[k := freeCount_update sz_inc (pgs ! k)]"
  have rel: "relisted ?S ?pgs2 ?pgs3" using relisted_count [OF list(2), of k sz_inc] k(1) by simp
  define P' where "P' = ?P2\<lparr>pages := ?pgs3, firstPageWithFreeSlot := f, liveOrderCount := liveOrderCount P - 1\<rparr>"
  have flags: "j \<in> ?S \<longleftrightarrow> freeCount (?pgs2 ! j) \<noteq> 0" if "j < length (pages P)" for j
    using that parts(3) k pk(2) by (cases "j = k") (simp_all add: flags_ok_def listed_def)
  have "pool_ok os (P\<lparr>pages := ?pgs2, mem := ?m, liveOrderCount := liveOrderCount P - 1\<rparr>\<lparr>pages := ?pgs3, firstPageWithFreeSlot := f\<rparr>)"
    by (rule pool_okI_relisted [OF base, where S = ?S])
      (use rel flags free_list_count [OF list(3), of k sz_inc] k(1) len in \<open>simp_all add: free_list_ok_def\<close>)
  moreover have "P\<lparr>pages := ?pgs2, mem := ?m, liveOrderCount := liveOrderCount P - 1\<rparr>\<lparr>pages := ?pgs3, firstPageWithFreeSlot := f\<rparr> = P'"
    by (rule order_pool.equality) (simp_all add: P'_def)
  ultimately have "pool_ok os P'" by simp
  moreover have "OrderPool_release (Some p) P =
      bind_outcome (if freeCount (pages ?P2 ! k) = 0 then addToFreePageList k ?P2 else Ret () ?P2)
        (\<lambda>_ Q. bind_outcome (write_page k (freeCount_update sz_inc) Q)
          (\<lambda>_. write_pool (\<lambda>P. P\<lparr>liveOrderCount := sz_dec (liveOrderCount P)\<rparr>)))"
    using k bs D(2) [of "storage ?pg" k]
    by (simp add: OrderPool_release_def write_pool_def write_page_def Let_def put_slot_def cong: if_cong)
  then have "OrderPool_release (Some p) P = Ret () P'"
    unfolding list(1) using pos len k(1) by (simp add: P'_def sz_dec_pos write_page_def write_pool_def)
  moreover have "mem P' = ?m" "liveOrderCount P' = liveOrderCount P - 1" by (simp_all add: P'_def)
  ultimately show thesis using that [of P'] by blast
qed

text \<open>A pointer to no live order is refused, and the pool is left as it was.\<close>

lemma OrderPool_release_dead:
  assumes ok: "pool_ok os P" and p: "mem P p = None"
  shows "\<exists>msg. OrderPool_release (Some p) P = Throw (InvalidArgument msg) P"
proof (cases "pageIndex P (p AND NOT 65535)")
  case None
  then show ?thesis by (simp add: OrderPool_release_def)
next
  case (Some k)
  from ok have base: "pool_base os P" by (simp add: pool_ok_parts)
  note D = pool_baseD [OF base]
  have k: "k < length (pages P)" "storage (pages P ! k) = p AND NOT 65535" using Some D(2) by blast+
  let ?off = "unat (p - (p AND NOT 65535))"
  have "unat (p AND NOT 65535) \<le> unat p" unfolding unat_page_base by simp
  then have off: "unat p = unat (storage (pages P ! k)) + ?off" using k(2) by (simp add: unat_sub_u64 u64_le_iff)
  have "\<not> slotOccupied (pages P ! k) (?off div 80)" if "?off mod 80 = 0" "?off div 80 < 819"
  proof -
    have "unat (rawSlot (pages P ! k) (?off div 80)) = unat p"
      unfolding unat_rawSlot [OF page_ok_base(2) [OF D(1) [OF k(1)]] that(2)] off using that(1) by auto
    then have "rawSlot (pages P ! k) (?off div 80) = p" by (simp only: word_unat_eq_iff)
    then show ?thesis using live_slot_iff [OF base k(1) that(2)] p by simp
  qed
  then show ?thesis using Some k(1) by (auto simp: OrderPool_release_def Let_def not_le)
qed

subsection \<open>Reserving\<close>

lemma no_free_slot:
  assumes ok: "pool_ok os P" and "firstPageWithFreeSlot P = None"
  shows "liveOrderCount P = 819 * length (pages P)"
proof -
  from ok have parts: "pool_base os P" "free_list_ok P" "flags_ok (pages P)" by (simp_all add: pool_ok_parts)
  note D = pool_baseD [OF parts(1)]
  have full: "slotOccupied (pages P ! k) i" if "k < length (pages P)" "i < 819" for k i
  proof -
    have "freeCount (pages P ! k) = 0"
      using free_list_first(1) [OF parts(2)] assms(2) parts(3) that(1) by (auto simp: listed_def flags_ok_def)
    with page_okE [OF D(1) [OF that(1)]] that(2) show ?thesis by (metis (mono_tags, lifting) length_0_conv mem_Collect_eq list.set(1) empty_iff)
  qed
  let ?slot = "\<lambda>(k, i). rawSlot (pages P ! k) i" and ?A = "{..<length (pages P)} \<times> {..<819 :: nat}"
  have "live_slots P = ?slot ` ?A" using full by (force simp: live_slots_def)
  moreover have "inj_on ?slot ?A"
  proof (rule inj_onI, clarify)
    fix j m k i assume "j < length (pages P)" "m < (819 :: nat)" "k < length (pages P)" "i < (819 :: nat)"
      "rawSlot (pages P ! j) m = rawSlot (pages P ! k) i"
    then show "j = k \<and> m = i"
      using rawSlot_inj page_ok_base(2) [OF D(1)] same_storage [OF parts(1)] by metis
  qed
  ultimately show ?thesis using D(3,4) by (simp add: card_image card_cartesian_product)
qed

lemma create_pages_cases:
  assumes fresh: "os_fresh os"
  shows "pool_ok os P \<Longrightarrow>
    (\<exists>P'. create_pages os n P = Ret () P' \<and> pool_ok os P' \<and> mem P' = mem P \<and> liveOrderCount P' = liveOrderCount P \<and>
       length (pages P') = length (pages P) + n) \<or>
    (\<exists>e P'. create_pages os n P = Throw e P' \<and> e \<in> page_errors \<and> pool_ok os P' \<and> mem P' = mem P \<and>
       liveOrderCount P' = liveOrderCount P)"
proof (induction n arbitrary: P)
  case 0
  then show ?case by simp
next
  case (Suc n)
  show ?case
  proof (rule createPage_cases [OF Suc.prems fresh])
    fix P1 assume "createPage os P = Ret (length (pages P)) P1" "pool_ok os P1" "mem P1 = mem P"
      "liveOrderCount P1 = liveOrderCount P" "length (pages P1) = length (pages P) + 1"
    then show ?thesis using Suc.IH [of P1] by auto
  next
    fix e c assume "createPage os P = Throw e (P\<lparr>mmapCalls := c\<rparr>)" "pool_ok os (P\<lparr>mmapCalls := c\<rparr>)" "e \<in> page_errors"
    then show ?thesis by simp
  qed
qed

lemma create_pages_granted:
  assumes fresh: "os_fresh os"
  shows "pool_ok os P \<Longrightarrow> \<forall>j. mmapCalls P \<le> j \<and> j < mmapCalls P + n \<longrightarrow> page_granted os j \<Longrightarrow> \<exists>P'. create_pages os n P = Ret () P'"
proof (induction n arbitrary: P)
  case (Suc n)
  show ?case
  proof (rule createPage_cases [OF Suc.prems(1) fresh])
    fix P1 assume P1: "createPage os P = Ret (length (pages P)) P1" "pool_ok os P1" "mmapCalls P1 = Suc (mmapCalls P)"
    have "\<exists>P'. create_pages os n P1 = Ret () P'" by (rule Suc.IH [OF P1(2)]) (use Suc.prems(2) P1(3) in auto)
    with P1(1) show ?thesis by simp
  next
    assume "\<not> page_granted os (mmapCalls P)"
    with Suc.prems(2) show ?thesis by simp
  qed
qed simp

lemma pages_needed: "n \<le> 819 * (((n + 818) mod SIZE_RANGE) div 819)" if "n + 818 < SIZE_RANGE"
  using that by simp

lemma reserve_room:
  assumes "OrderPool_reserve os n P = Ret () P'" and "pool_ok os P" and "os_fresh os" and "n + 818 < SIZE_RANGE"
  shows "pool_ok os P'" "mem P' = mem P" "n \<le> 819 * length (pages P')"
proof -
  let ?m = "((n + 818) mod SIZE_RANGE) div 819"
  have run: "create_pages os (?m - length (pages P)) P = Ret () P'"
    using assms(1) by (simp add: OrderPool_reserve_def Let_def add.commute)
  from create_pages_cases [OF assms(3,2), of "?m - length (pages P)"]
  have c: "pool_ok os P' \<and> mem P' = mem P \<and> length (pages P') = length (pages P) + (?m - length (pages P))"
    unfolding run by simp
  then show "pool_ok os P'" "mem P' = mem P" by simp_all
  have "?m \<le> length (pages P')" using c by simp
  then have "819 * ?m \<le> 819 * length (pages P')" by simp
  with pages_needed [OF assms(4)] show "n \<le> 819 * length (pages P')" by (rule order.trans)
qed

section \<open>The pool as a store of orders\<close>

text \<open>
  What the book relies on: an allocation yields an address that held no order, a release
  frees exactly that address, and a pointer to no live order is refused. The client lemmas
  concern sequences of allocations and repeated releases.
\<close>

fun alloc_list :: "('o \<Rightarrow> 's \<Rightarrow> ('p, 's) outcome) \<Rightarrow> 'o list \<Rightarrow> 's \<Rightarrow> 'p list \<times> 's" where
  "alloc_list alloc [] s = ([], s)"
| "alloc_list alloc (x # xs) s =
     (case alloc x s of
        Throw e s' \<Rightarrow> ([], s')
      | Ret p s' \<Rightarrow> (case alloc_list alloc xs s' of (ps, s'') \<Rightarrow> (p # ps, s'')))"

locale order_store =
  fixes ok :: "'s \<Rightarrow> bool" and contents :: "'s \<Rightarrow> 'p \<rightharpoonup> 'o"
    and alloc :: "'o \<Rightarrow> 's \<Rightarrow> ('p, 's) outcome" and free :: "'p option \<Rightarrow> 's \<Rightarrow> (unit, 's) outcome"
  assumes alloc_Ret: "ok s \<Longrightarrow> alloc x s = Ret p s' \<Longrightarrow>
      contents s p = None \<and> contents s' = (contents s)(p \<mapsto> x) \<and> ok s'"
    and alloc_Throw: "ok s \<Longrightarrow> alloc x s = Throw e s' \<Longrightarrow> contents s' = contents s \<and> ok s' \<and> defined_error e"
    and free_live: "ok s \<Longrightarrow> contents s p = Some x \<Longrightarrow>
      \<exists>s'. free (Some p) s = Ret () s' \<and> contents s' = (contents s)(p := None) \<and> ok s'"
    and free_dead: "ok s \<Longrightarrow> contents s p = None \<Longrightarrow> \<exists>msg. free (Some p) s = Throw (InvalidArgument msg) s"
begin

lemma alloc_list_fresh:
  "ok s \<Longrightarrow> alloc_list alloc xs s = (ps, s') \<Longrightarrow>
     ok s' \<and> distinct ps \<and> (\<forall>p \<in> set ps. contents s p = None) \<and> length ps \<le> length xs \<and>
     contents s' = (contents s)(ps [\<mapsto>] take (length ps) xs)"
proof (induction xs arbitrary: s ps s')
  case Nil
  then show ?case by simp
next
  case (Cons x xs)
  show ?case
  proof (cases "alloc x s")
    case (Ret p s1)
    with Cons.prems(2) obtain qs where qs: "alloc_list alloc xs s1 = (qs, s')" "ps = p # qs"
      by (auto split: prod.splits)
    note a = alloc_Ret [OF Cons.prems(1) Ret]
    then have "ok s1" by simp
    from Cons.IH [OF this qs(1)]
    have IH: "ok s'" "distinct qs" "\<forall>q \<in> set qs. contents s1 q = None" "length qs \<le> length xs"
      "contents s' = (contents s1)(qs [\<mapsto>] take (length qs) xs)" by blast+
    have "p \<notin> set qs" using IH(3) a by auto
    moreover from this have "\<forall>q \<in> set qs. contents s q = None" using IH(3) a by (auto split: if_splits)
    moreover have "contents s' = (contents s)(ps [\<mapsto>] take (length ps) (x # xs))"
      unfolding IH(5) qs(2) using a by (metis length_Cons map_upds_Cons take_Suc_Cons)
    ultimately show ?thesis using IH a qs(2) by simp
  next
    case (Throw e s1)
    with Cons.prems alloc_Throw [OF Cons.prems(1) Throw] show ?thesis by simp
  qed
qed

lemma double_free:
  assumes "ok s" and "contents s p = Some x"
  shows "\<exists>s' msg. free (Some p) s = Ret () s' \<and> contents s' = (contents s)(p := None) \<and>
    free (Some p) s' = Throw (InvalidArgument msg) s'"
proof -
  from free_live [OF assms] obtain s' where
    s': "free (Some p) s = Ret () s'" "contents s' = (contents s)(p := None)" "ok s'" by blast
  then have "contents s' p = None" by simp
  from free_dead [OF s'(3) this] s'(1,2) show ?thesis by blast
qed

end

lemma page_errors_defined: "e \<in> page_errors \<Longrightarrow> defined_error e"
  by (auto simp: page_errors_def)

interpretation pool: order_store "\<lambda>P. os_fresh os \<and> pool_ok os P" mem "OrderPool_allocate os" OrderPool_release for os
proof unfold_locales
  show "mem s p = None \<and> mem s' = (mem s)(p \<mapsto> x) \<and> os_fresh os \<and> pool_ok os s'"
    if "os_fresh os \<and> pool_ok os s" "OrderPool_allocate os x s = Ret p s'" for s x p s'
    using that OrderPool_allocate_cases [of os s x] by (metis outcome.distinct(1) outcome.inject(1))
  show "mem s' = mem s \<and> (os_fresh os \<and> pool_ok os s') \<and> defined_error e"
    if "os_fresh os \<and> pool_ok os s" "OrderPool_allocate os x s = Throw e s'" for s x e s'
    using that OrderPool_allocate_cases [of os s x] page_errors_defined by (metis outcome.distinct(1) outcome.inject(2))
  show "\<exists>s'. OrderPool_release (Some p) s = Ret () s' \<and> mem s' = (mem s)(p := None) \<and> os_fresh os \<and> pool_ok os s'"
    if "os_fresh os \<and> pool_ok os s" "mem s p = Some x" for s p x
    using that OrderPool_release_ok [of os s p x] by metis
  show "\<exists>msg. OrderPool_release (Some p) s = Throw (InvalidArgument msg) s"
    if "os_fresh os \<and> pool_ok os s" "mem s p = None" for s p
    using that OrderPool_release_dead [of os s p] by blast
qed

lemma pool_ok_new [simp]: "pool_ok os OrderPool_new" "mem OrderPool_new = Map.empty"
proof -
  have "dlseg nxt prv None None [] None None" for nxt prv :: "nat \<Rightarrow> nat option" by simp
  then have "free_list_ok OrderPool_new"
    unfolding free_list_ok_def OrderPool_new_def by (intro exI [of _ "[]"] exI [of _ None]) simp
  then show "pool_ok os OrderPool_new" by (simp add: pool_ok_def OrderPool_new_def live_slots_def)
qed (simp add: OrderPool_new_def)

subsection \<open>Destruction\<close>

text \<open>The addresses of a range given to \<open>munmap\<close>.\<close>

definition byte_range :: "u64 \<times> nat \<Rightarrow> nat set" where
  "byte_range r = {unat (fst r)..<unat (fst r) + snd r}"

lemma Page_trim_exact:
  assumes "0 < unat a" and "unat a + 2 * PageSize \<le> SIZE_RANGE"
  shows "distinct (Page_trim a)"
    and "(\<Union>r \<in> set (Page_trim a). byte_range r) = byte_range (a, 2 * PageSize) - byte_range (align_up a, PageSize)"
proof -
  have b: "unat a + 131072 \<le> SIZE_RANGE" using assms(2) by simp
  note al = align_up_ok [OF b assms(1)]
  have p: "unat (align_up a - a) = unat (align_up a) - unat a" using al(2) by (simp add: unat_sub_u64 u64_le_iff)
  have e: "unat (align_up a + 65536) = unat (align_up a) + 65536"
    using unat_add_u64 [of "align_up a" 65536] al(3) b by simp
  then have "a \<noteq> align_up a + 65536" using al(2) by auto
  then show "distinct (Page_trim a)" by (simp add: Page_trim_def Let_def)
  show "(\<Union>r \<in> set (Page_trim a). byte_range r) = byte_range (a, 2 * PageSize) - byte_range (align_up a, PageSize)"
    using al e by (auto simp: Page_trim_def Let_def byte_range_def p)
qed

lemma destroy_orders_page:
  assumes "unat (storage pg) mod 65536 = 0" and "n \<le> 819" and "\<forall>i < n. slotOccupied pg i \<longrightarrow> mem P (rawSlot pg i) \<noteq> None"
  shows "run_all (destroy_order pg) [0..<n] P =
    Ret () (P\<lparr>mem := (mem P) |` (- (rawSlot pg ` {i. i < n \<and> slotOccupied pg i}))\<rparr>)"
  using assms(2,3)
proof (induction n)
  case 0
  then show ?case by simp
next
  case (Suc n)
  have "rawSlot pg n \<notin> rawSlot pg ` {i. i < n \<and> slotOccupied pg i}"
  proof
    assume "rawSlot pg n \<in> rawSlot pg ` {i. i < n \<and> slotOccupied pg i}"
    then obtain i where "i < n" "rawSlot pg n = rawSlot pg i" by blast
    with rawSlot_inj [of pg n pg i] assms(1) Suc.prems(1) show False by simp
  qed
  moreover have "{i. i < Suc n \<and> slotOccupied pg i} = (if slotOccupied pg n then {n} else {}) \<union> {i. i < n \<and> slotOccupied pg i}"
    by (auto simp: less_Suc_eq)
  ultimately show ?case using Suc
    by (auto simp: run_all_append destroy_order_def restrict_map_def fun_eq_iff intro!: arg_cong [where f = "\<lambda>m. P\<lparr>mem := m\<rparr>"])
qed

definition occupied_slots :: "page list \<Rightarrow> ptr set" where
  "occupied_slots pgs = (\<Union>pg \<in> set pgs. rawSlot pg ` {i. i < SlotsPerPage \<and> slotOccupied pg i})"

lemma destroy_orders_pages:
  assumes "\<forall>pg \<in> set pgs. unat (storage pg) mod 65536 = 0" and "distinct (map storage pgs)" and "occupied_slots pgs \<subseteq> dom (mem P)"
  shows "run_all (\<lambda>pg. run_all (destroy_order pg) [0..<SlotsPerPage]) pgs P = Ret () (P\<lparr>mem := (mem P) |` (- occupied_slots pgs)\<rparr>)"
  using assms
proof (induction pgs arbitrary: P)
  case Nil
  then show ?case by (simp add: occupied_slots_def)
next
  case (Cons pg pgs)
  let ?S = "rawSlot pg ` {i. i < 819 \<and> slotOccupied pg i}"
  have occ: "occupied_slots (pg # pgs) = ?S \<union> occupied_slots pgs" by (simp add: occupied_slots_def)
  have "?S \<inter> occupied_slots pgs = {}"
  proof (rule equals0I)
    fix p assume "p \<in> ?S \<inter> occupied_slots pgs"
    then obtain i pg' j where "i < 819" "pg' \<in> set pgs" "j < 819" "rawSlot pg i = rawSlot pg' j" by (auto simp: occupied_slots_def)
    with rawSlot_inj [of pg i pg' j] Cons.prems(1,2) show False by auto
  qed
  then have "occupied_slots pgs \<subseteq> dom ((mem P) |` (- ?S))" using Cons.prems(3) occ by auto
  moreover have "run_all (destroy_order pg) [0..<819] P = Ret () (P\<lparr>mem := (mem P) |` (- ?S)\<rparr>)"
    by (rule destroy_orders_page) (use Cons.prems(1,3) occ in auto)
  ultimately show ?case using Cons.IH [of "P\<lparr>mem := (mem P) |` (- ?S)\<rparr>"] Cons.prems(1,2) occ by (simp add: Compl_Un)
qed

lemma OrderPool_destroy_ok:
  assumes "pool_ok os P"
  shows "OrderPool_destroy P = Ret (map (\<lambda>pg. (storage pg, PageSize)) (pages P)) (P\<lparr>mem := Map.empty, pages := []\<rparr>)"
    and "distinct (map Page_destroy (pages P))"
proof -
  have base: "pool_base os P" using assms by (simp add: pool_ok_parts)
  note D = pool_baseD [OF base]
  have d: "distinct (map storage (pages P))" using same_storage [OF base] by (auto simp: distinct_conv_nth)
  then show "distinct (map Page_destroy (pages P))" by (auto simp: distinct_conv_nth Page_destroy_def)
  have "occupied_slots (pages P) = live_slots P"
    unfolding occupied_slots_def live_slots_def by (fastforce simp: in_set_conv_nth Bex_def)
  then have o: "occupied_slots (pages P) = dom (mem P)" using D(3) by simp
  have "(mem P) |` (- dom (mem P)) = Map.empty" by (auto simp: restrict_map_def fun_eq_iff)
  moreover have "\<forall>pg \<in> set (pages P). unat (storage pg) mod 65536 = 0"
    using D(1) page_ok_base(2) by (metis in_set_conv_nth)
  ultimately show "OrderPool_destroy P = Ret (map (\<lambda>pg. (storage pg, PageSize)) (pages P)) (P\<lparr>mem := Map.empty, pages := []\<rparr>)"
    using destroy_orders_pages [of "pages P" P] d o by (simp add: OrderPool_destroy_def Page_destroy_def)
qed

lemma page_mappings_returned:
  assumes "os_fresh os" and "pool_ok os P" and "pg \<in> set (pages P)"
  shows "\<exists>j a. mmapResult os j = Some a \<and>
    (\<Union>r \<in> set (Page_trim a). byte_range r) = byte_range (a, 2 * PageSize) - byte_range (Page_destroy pg) \<and>
    byte_range (Page_destroy pg) \<subseteq> byte_range (a, 2 * PageSize)"
proof -
  obtain k where "k < length (pages P)" "pg = pages P ! k" using assms(3) by (auto simp: in_set_conv_nth)
  with assms(2) obtain j a where a: "mmapResult os j = Some a" "storage pg = align_up a" by (auto simp: pool_ok_def)
  then have m: "0 < unat a" "unat a + 2 * PageSize \<le> SIZE_RANGE" using assms(1) by (auto simp: os_fresh_def)
  then have "unat a + 131072 \<le> SIZE_RANGE" by simp
  from align_up_ok [OF this m(1)] have "byte_range (align_up a, PageSize) \<subseteq> byte_range (a, 2 * PageSize)"
    by (auto simp: byte_range_def)
  with Page_trim_exact(2) [OF m] a show ?thesis by (auto simp: Page_destroy_def)
qed

section \<open>Properties\<close>

text \<open>
  C21. Pooled storage never hands out a slot twice: allocating any list of orders from a
  well-formed pool returns pairwise different addresses, none of which held a live order,
  every order is found at its address afterwards and no other order was touched, also when
  pages are created on the way or the operating system refuses one.
\<close>
theorem pool_allocations_disjoint:
  assumes "os_fresh os" and "pool_ok os P" and "alloc_list (OrderPool_allocate os) ords P = (ps, P')"
  shows "distinct ps \<and> (\<forall>p \<in> set ps. mem P p = None) \<and>
    mem P' = (mem P)(ps [\<mapsto>] take (length ps) ords) \<and> pool_ok os P'"
  using pool.alloc_list_fresh [OF _ assms(3)] assms(1,2) by blast

text \<open>
  C32. Releasing is safe: releasing a live order frees exactly that slot, and releasing the
  same pointer again, or any pointer that is not a live order of the pool (foreign, misaligned
  or already free), throws \<open>std::invalid_argument\<close> and leaves the pool as it was. The destructor
  destroys every order alive and no other and returns the memory of every page once; together
  with what the page returned when it was made this is the whole of its mapping, without overlap.
\<close>
theorem pool_release_checked:
  assumes "os_fresh os" and "pool_ok os P"
  shows "(\<forall>p ord. mem P p = Some ord \<longrightarrow>
       (\<exists>P' msg. OrderPool_release (Some p) P = Ret () P' \<and> mem P' = (mem P)(p := None) \<and>
          OrderPool_release (Some p) P' = Throw (InvalidArgument msg) P')) \<and>
     (\<forall>p. mem P p = None \<longrightarrow> (\<exists>msg. OrderPool_release (Some p) P = Throw (InvalidArgument msg) P)) \<and>
     (\<exists>P'. OrderPool_destroy P = Ret (map Page_destroy (pages P)) P' \<and> mem P' = Map.empty) \<and>
     distinct (map Page_destroy (pages P)) \<and>
     (\<forall>pg \<in> set (pages P). \<exists>j a. mmapResult os j = Some a \<and>
        (\<Union>r \<in> set (Page_trim a). byte_range r) = byte_range (a, 2 * PageSize) - byte_range (Page_destroy pg) \<and>
        byte_range (Page_destroy pg) \<subseteq> byte_range (a, 2 * PageSize))"
proof (intro conjI)
  show "\<exists>P'. OrderPool_destroy P = Ret (map Page_destroy (pages P)) P' \<and> mem P' = Map.empty"
    using OrderPool_destroy_ok(1) [OF assms(2)] by (simp add: Page_destroy_def)
  show "distinct (map Page_destroy (pages P))" by (rule OrderPool_destroy_ok(2) [OF assms(2)])
qed (use pool.double_free [of os P] pool.free_dead [of os P] page_mappings_returned [of os P] assms in blast)+

text \<open>
  Reserving moves page creation out of the hot path: once \<open>reserve(n)\<close> has returned, an
  allocation from a pool that still has those pages and holds fewer than \<open>n\<close> live orders
  succeeds without asking the operating system for memory.
\<close>
theorem pool_reserve_no_mmap:
  assumes "OrderPool_reserve os n P = Ret () P'" and "pool_ok os P" and "os_fresh os" and "n + 818 < SIZE_RANGE"
  shows "pool_ok os P' \<and> mem P' = mem P \<and>
    (\<forall>Q ord. pool_ok os Q \<and> length (pages P') \<le> length (pages Q) \<and> liveOrderCount Q < n \<longrightarrow>
       (\<exists>p Q'. OrderPool_allocate os ord Q = Ret p Q' \<and> mmapCalls Q' = mmapCalls Q))"
proof -
  note r = reserve_room [OF assms]
  have "\<exists>p Q'. OrderPool_allocate os ord Q = Ret p Q' \<and> mmapCalls Q' = mmapCalls Q"
    if q: "pool_ok os Q" "length (pages P') \<le> length (pages Q)" "liveOrderCount Q < n" for Q ord
  proof -
    have "819 * length (pages P') \<le> 819 * length (pages Q)" using q(2) by simp
    then have "firstPageWithFreeSlot Q \<noteq> None" using no_free_slot [OF q(1)] r(3) q(3) by linarith
    then obtain k where "firstPageWithFreeSlot Q = Some k" by blast
    from OrderPool_allocate_free [OF q(1) this, of ord] show ?thesis by metis
  qed
  with r(1,2) show ?thesis by blast
qed

text \<open>An operating system that grants one mapping, at address \<open>0x10000\<close>, and no more.\<close>

definition one_page_os :: os_env where
  "one_page_os = \<lparr>sysconfPageSize = 4096, mmapResult = (\<lambda>j. if j = 0 then Some 65536 else None)\<rparr>"

lemma one_page_os_fresh: "os_fresh one_page_os"
  by (simp add: os_fresh_def one_page_os_def SIZE_RANGE_def)

theorem pool_allocations_disjoint_witness:
  "fst (alloc_list (OrderPool_allocate one_page_os) [Order_new 1 5 5 1 BUY LIMIT 1, Order_new 2 5 5 1 BUY LIMIT 2] OrderPool_new)
     = [65536, 65616] \<and>
   mem (snd (alloc_list (OrderPool_allocate one_page_os) [Order_new 1 5 5 1 BUY LIMIT 1, Order_new 2 5 5 1 BUY LIMIT 2] OrderPool_new)) 65616
     = Some (Order_new 2 5 5 1 BUY LIMIT 2)"
  (is "fst ?r = _ \<and> _")
proof -
  have f: "fst ?r = [65536, 65616]"
    by (simp add: OrderPool_allocate_def createPage_def Page_new_def one_page_os_def OrderPool_new_def
        addToFreePageList_def write_page_def write_pool_def Let_def rawSlot_def align_up_def sz_dec_def SIZE_RANGE_def)
  have "?r = (fst ?r, snd ?r)" by simp
  from pool_allocations_disjoint [OF one_page_os_fresh pool_ok_new(1) this] f show ?thesis by simp
qed

theorem pool_release_checked_witness:
  "\<exists>msg. OrderPool_release (Some 12345) OrderPool_new = Throw (InvalidArgument msg) OrderPool_new"
  using pool_release_checked [OF one_page_os_fresh pool_ok_new(1)] by simp

theorem pool_reserve_no_mmap_witness:
  "\<exists>P'. OrderPool_reserve one_page_os 10 OrderPool_new = Ret () P' \<and> pool_ok one_page_os P' \<and>
     (\<exists>p Q'. OrderPool_allocate one_page_os (Order_new 1 5 5 1 BUY LIMIT 1) P' = Ret p Q' \<and> mmapCalls Q' = mmapCalls P')"
proof -
  have "\<exists>P'. OrderPool_reserve one_page_os 10 OrderPool_new = Ret () P' \<and> liveOrderCount P' = 0"
    by (simp add: OrderPool_reserve_def createPage_def Page_new_def one_page_os_def OrderPool_new_def
        addToFreePageList_def write_page_def write_pool_def Let_def align_up_def SIZE_RANGE_def)
  then obtain P' where P': "OrderPool_reserve one_page_os 10 OrderPool_new = Ret () P'" "liveOrderCount P' = 0" by blast
  from pool_reserve_no_mmap [OF P'(1) pool_ok_new(1) one_page_os_fresh] P' show ?thesis
    by (simp add: SIZE_RANGE_def)
qed

end
