(* ===== verification/Order_Book.thy ===== *)
theory Order_Book
  imports Price_Ladder Order_Index Order_Pool
begin

text \<open>
  \<open>OrderBook\<close> (\<open>order_book.hpp\<close>, \<open>order_book.cpp\<close>) and its snapshot
  (\<open>order_book_snapshot.hpp\<close>): the pool that owns the orders, the identifier index, and one
  ladder of price levels per side. An operation of a part runs on that part of the book's
  state; an exception keeps what was changed so far, so that the rollback of a failed
  insertion is modelled as it is written. The lemmas show that every operation keeps the
  three structures in agreement and never follows a dead pointer.
\<close>

section \<open>Model\<close>

record order_book =
  orderPool :: order_pool
  orderIndex :: order_index
  bids :: price_ladder
  asks :: price_ladder

text \<open>The parts of a book and the running of an operation on one of them.\<close>

fun ladder_of :: "ladder_id \<Rightarrow> order_book \<Rightarrow> price_ladder" where
  "ladder_of Bids B = bids B"
| "ladder_of Asks B = asks B"

fun set_ladder :: "ladder_id \<Rightarrow> price_ladder \<Rightarrow> order_book \<Rightarrow> order_book" where
  "set_ladder Bids L B = B\<lparr>bids := L\<rparr>"
| "set_ladder Asks L B = B\<lparr>asks := L\<rparr>"

definition set_mem :: "heap \<Rightarrow> order_book \<Rightarrow> order_book" where
  "set_mem h B = B\<lparr>orderPool := (orderPool B)\<lparr>mem := h\<rparr>\<rparr>"

definition book_mem :: "order_book \<Rightarrow> heap" where
  "book_mem B = mem (orderPool B)"

definition level_of :: "level_ref \<Rightarrow> order_book \<Rightarrow> price_level" where
  "level_of r B = levels (ladder_of (fst r) B) ! snd r"

definition set_level :: "level_ref \<Rightarrow> price_level \<Rightarrow> order_book \<Rightarrow> order_book" where
  "set_level r l B =
     set_ladder (fst r) ((ladder_of (fst r) B)\<lparr>levels := (levels (ladder_of (fst r) B))[snd r := l]\<rparr>) B"

definition on_pool :: "(order_pool \<Rightarrow> ('a, order_pool) outcome) \<Rightarrow> order_book \<Rightarrow> ('a, order_book) outcome" where
  "on_pool f B =
     (case f (orderPool B) of
        Ret a P \<Rightarrow> Ret a (B\<lparr>orderPool := P\<rparr>)
      | Throw e P \<Rightarrow> Throw e (B\<lparr>orderPool := P\<rparr>))"

definition on_index :: "(order_index \<Rightarrow> ('a, order_index) outcome) \<Rightarrow> order_book \<Rightarrow> ('a, order_book) outcome" where
  "on_index f B =
     (case f (orderIndex B) of
        Ret a ix \<Rightarrow> Ret a (B\<lparr>orderIndex := ix\<rparr>)
      | Throw e ix \<Rightarrow> Throw e (B\<lparr>orderIndex := ix\<rparr>))"

definition on_ladder ::
  "ladder_id \<Rightarrow> (price_ladder \<Rightarrow> ('a, price_ladder) outcome) \<Rightarrow> order_book \<Rightarrow> ('a, order_book) outcome" where
  "on_ladder d f B =
     (case f (ladder_of d B) of
        Ret a L \<Rightarrow> Ret a (set_ladder d L B)
      | Throw e L \<Rightarrow> Throw e (set_ladder d L B))"

definition on_level ::
  "level_ref \<Rightarrow> (price_level \<times> heap \<Rightarrow> ('a, price_level \<times> heap) outcome) \<Rightarrow> order_book
    \<Rightarrow> ('a, order_book) outcome" where
  "on_level r f B =
     (if snd r \<ge> length (levels (ladder_of (fst r) B))
      then Throw (UndefinedBehaviour ''price level is not valid'') B
      else case f (level_of r B, book_mem B) of
        Ret a (l, h) \<Rightarrow> Ret a (set_level r l (set_mem h B))
      | Throw e (l, h) \<Rightarrow> Throw e (set_level r l (set_mem h B)))"

definition level_only ::
  "(price_level \<Rightarrow> (unit, price_level) outcome) \<Rightarrow> price_level \<times> heap \<Rightarrow> (unit, price_level \<times> heap) outcome" where
  "level_only f s =
     (case f (fst s) of Ret a l \<Rightarrow> Ret a (l, snd s) | Throw e l \<Rightarrow> Throw e (l, snd s))"

text \<open>A member function called on the order a pointer refers to.\<close>

definition on_order :: "ptr \<Rightarrow> (order \<Rightarrow> (unit, order) outcome) \<Rightarrow> order_book \<Rightarrow> (unit, order_book) outcome" where
  "on_order p f B =
     (case book_mem B p of
        None \<Rightarrow> Throw (UndefinedBehaviour ''use of an order that is not alive'') B
      | Some ord \<Rightarrow>
        (case f ord of
           Ret a ord' \<Rightarrow> Ret a (set_mem ((book_mem B)(p \<mapsto> ord')) B)
         | Throw e ord' \<Rightarrow> Throw e (set_mem ((book_mem B)(p \<mapsto> ord')) B)))"

definition DefaultLevelCount :: nat where
  "DefaultLevelCount = 65536"

definition OrderBook_new :: "u64 \<Rightarrow> u64 \<Rightarrow> nat \<Rightarrow> error + order_book" where
  "OrderBook_new minP tick lc =
     (case PriceLadder_new minP tick lc True of
        Inl e \<Rightarrow> Inl e
      | Inr b \<Rightarrow>
     (case PriceLadder_new minP tick lc False of
        Inl e \<Rightarrow> Inl e
      | Inr a \<Rightarrow> Inr \<lparr>orderPool = OrderPool_new, orderIndex = OrderIndex_new, bids = b, asks = a\<rparr>))"

definition OrderBook_default :: "error + order_book" where
  "OrderBook_default = OrderBook_new 1 1 DefaultLevelCount"

text \<open>
  The two ways a failed insertion is undone: with the order already in its level or not.
  Both end by rethrowing the exception.
\<close>

definition release_and_rethrow :: "ptr \<Rightarrow> error \<Rightarrow> order_book \<Rightarrow> ('a, order_book) outcome" where
  "release_and_rethrow p e B = bind_outcome (on_pool (OrderPool_release (Some p)) B) (\<lambda>_ B1. Throw e B1)"

definition unlink_and_rethrow :: "level_ref \<Rightarrow> ptr \<Rightarrow> error \<Rightarrow> order_book \<Rightarrow> ('a, order_book) outcome" where
  "unlink_and_rethrow r p e B =
     bind_outcome (on_level r (PriceLevel_removeOrder r (Some p)) B) (\<lambda>_ B1.
     bind_outcome
       (if PriceLevel_isEmpty (level_of r B1)
        then case book_mem B1 p of
            None \<Rightarrow> Throw (UndefinedBehaviour ''read of an order that is not alive'') B1
          | Some ord \<Rightarrow> on_ladder (fst r) (markEmpty (price ord)) B1
        else Ret () B1) (\<lambda>_ B2.
     release_and_rethrow p e B2))"

definition addOrderWithQuantities ::
  "os_env \<Rightarrow> hash_fun \<Rightarrow> u64 \<Rightarrow> u64 \<Rightarrow> u64 \<Rightarrow> u64 \<Rightarrow> u64 \<Rightarrow> order_side \<Rightarrow> order_type \<Rightarrow> u64
    \<Rightarrow> order_book \<Rightarrow> (ptr, order_book) outcome" where
  "addOrderWithQuantities os H i pr oq rq t sd ty sq B =
     (if ty \<noteq> LIMIT
      then Throw (InvalidArgument ''OrderBook accepts resting limit orders only'') B
      else if \<not> Quantity_isValid oq \<or> \<not> Quantity_isValid rq \<or> rq > oq
      then Throw (InvalidArgument ''Invalid original or remaining quantity'') B
      else
        bind_outcome (on_pool (OrderPool_allocate os (Order_full i pr oq rq t sd ty sq)) B) (\<lambda>p B1.
        (case book_mem B1 p of
           None \<Rightarrow> Throw (UndefinedBehaviour ''read of an order that is not alive'') B1
         | Some ord \<Rightarrow>
           if \<not> Order_isValid ord
           then release_and_rethrow p (InvalidArgument ''Cannot add an invalid order'') B1
           else let d = (if isBuy ord then Bids else Asks) in
             (case levelAt (price ord) (ladder_of d B1) of
                Inl e \<Rightarrow> release_and_rethrow p e B1
              | Inr n \<Rightarrow>
                let wasEmpty = PriceLevel_isEmpty (level_of (d, n) B1) in
                (case on_level (d, n) (PriceLevel_addOrder (d, n) (Some p)) B1 of
                   Throw e B2 \<Rightarrow> release_and_rethrow p e B2
                 | Ret _ B2 \<Rightarrow>
                   (case bind_outcome
                           (if wasEmpty then on_ladder d (markOccupied (price ord)) B2 else Ret () B2)
                           (\<lambda>_ B3. on_index (OrderIndex_addOrder H (book_mem B3) (Some p)) B3) of
                      Throw e B4 \<Rightarrow> unlink_and_rethrow (d, n) p e B4
                    | Ret _ B4 \<Rightarrow> Ret p B4))))))"

definition OrderBook_addOrder ::
  "os_env \<Rightarrow> hash_fun \<Rightarrow> u64 \<Rightarrow> u64 \<Rightarrow> u64 \<Rightarrow> u64 \<Rightarrow> order_side \<Rightarrow> order_type \<Rightarrow> u64
    \<Rightarrow> order_book \<Rightarrow> (ptr, order_book) outcome" where
  "OrderBook_addOrder os H i pr q t sd ty sq = addOrderWithQuantities os H i pr q q t sd ty sq"

definition addRestingRemainder ::
  "os_env \<Rightarrow> hash_fun \<Rightarrow> u64 \<Rightarrow> u64 \<Rightarrow> u64 \<Rightarrow> u64 \<Rightarrow> u64 \<Rightarrow> order_side \<Rightarrow> order_type \<Rightarrow> u64
    \<Rightarrow> order_book \<Rightarrow> (ptr, order_book) outcome" where
  "addRestingRemainder os H i pr oq rq t sd ty sq = addOrderWithQuantities os H i pr oq rq t sd ty sq"

definition OrderBook_findOrder :: "hash_fun \<Rightarrow> u64 \<Rightarrow> order_book \<Rightarrow> error + ptr option" where
  "OrderBook_findOrder H i B = OrderIndex_findOrder H i (orderIndex B)"

definition OrderBook_removeOrder :: "hash_fun \<Rightarrow> ptr option \<Rightarrow> order_book \<Rightarrow> (unit, order_book) outcome" where
  "OrderBook_removeOrder H pointer B =
     (case pointer of
        None \<Rightarrow> Throw (InvalidArgument ''Cannot remove a null order'') B
      | Some p \<Rightarrow>
     (case book_mem B p of
        None \<Rightarrow> Throw (UndefinedBehaviour ''read of an order that is not alive'') B
      | Some ord \<Rightarrow>
     (case OrderIndex_findOrder H (orderId ord) (orderIndex B) of
        Inl e \<Rightarrow> Throw e B
      | Inr found \<Rightarrow>
        if found \<noteq> Some p then Throw (LogicError ''Order is not indexed in this book'') B
        else (case priceLevel ord of
           None \<Rightarrow> Throw (LogicError ''Order is not linked to a price level'') B
         | Some r \<Rightarrow>
           bind_outcome (on_level r (PriceLevel_removeOrder r (Some p)) B) (\<lambda>_ B1.
           bind_outcome
             (if PriceLevel_isEmpty (level_of r B1)
              then on_ladder (if isBuy ord then Bids else Asks) (markEmpty (price ord)) B1
              else Ret () B1) (\<lambda>_ B2.
           bind_outcome (on_index (OrderIndex_removeOrder H (book_mem B2) (Some p)) B2) (\<lambda>_ B3.
           on_pool (OrderPool_release (Some p)) B3)))))))"

definition cancelOrder :: "hash_fun \<Rightarrow> u64 \<Rightarrow> order_book \<Rightarrow> (bool, order_book) outcome" where
  "cancelOrder H i B =
     (case OrderIndex_findOrder H i (orderIndex B) of
        Inl e \<Rightarrow> Throw e B
      | Inr None \<Rightarrow> Ret False B
      | Inr (Some p) \<Rightarrow> bind_outcome (OrderBook_removeOrder H (Some p) B) (\<lambda>_ B1. Ret True B1))"

definition reduceOrder :: "hash_fun \<Rightarrow> u64 \<Rightarrow> u64 \<Rightarrow> order_book \<Rightarrow> (bool, order_book) outcome" where
  "reduceOrder H i newQ B =
     (case OrderIndex_findOrder H i (orderIndex B) of
        Inl e \<Rightarrow> Throw e B
      | Inr None \<Rightarrow> Ret False B
      | Inr (Some p) \<Rightarrow>
     (case book_mem B p of
        None \<Rightarrow> Throw (UndefinedBehaviour ''read of an order that is not alive'') B
      | Some ord \<Rightarrow>
        let remaining = remainingQuantity ord in
        if newQ = 0 \<or> newQ > remaining
        then Throw (InvalidArgument ''Reduction requires a nonzero quantity no greater than the remaining quantity'') B
        else if newQ = remaining then Ret True B
        else
          bind_outcome (on_order p (setRemainingQuantity newQ) B) (\<lambda>_ B1.
          (case priceLevel ord of
             None \<Rightarrow> Throw (UndefinedBehaviour ''null price level'') B1
           | Some r \<Rightarrow>
             bind_outcome (on_level r (level_only (reduceTotalQuantity (remaining - newQ))) B1) (\<lambda>_ B2.
             Ret True B2)))))"

definition getBestBid :: "order_book \<Rightarrow> level_ref option" where
  "getBestBid B = map_option (Pair Bids) (best (bids B))"

definition getBestAsk :: "order_book \<Rightarrow> level_ref option" where
  "getBestAsk B = map_option (Pair Asks) (best (asks B))"

definition reserveOrderCapacity :: "os_env \<Rightarrow> hash_fun \<Rightarrow> nat \<Rightarrow> order_book \<Rightarrow> (unit, order_book) outcome" where
  "reserveOrderCapacity os H n B =
     bind_outcome (on_pool (OrderPool_reserve os n) B) (\<lambda>_. on_index (OrderIndex_reserve H n))"

record snapshot_level =
  levelPriceRaw :: u64
  levelQuantity :: u64
  orderCount :: nat

record book_snapshot =
  snapSequence :: u64
  snapTsNs :: u64
  bestBidRaw :: u64
  bestAskRaw :: u64
  snapBids :: "snapshot_level list"
  snapAsks :: "snapshot_level list"
  bidLevelCount :: nat
  askLevelCount :: nat

definition BookSnapshot_new :: book_snapshot where
  "BookSnapshot_new = \<lparr>snapSequence = 0, snapTsNs = 0, bestBidRaw = 0, bestAskRaw = 0, snapBids = [], snapAsks = [],
     bidLevelCount = 0, askLevelCount = 0\<rparr>"

definition BookSnapshot_reset :: "book_snapshot \<Rightarrow> book_snapshot" where
  "BookSnapshot_reset s = s\<lparr>snapBids := [], snapAsks := [], snapSequence := 0, snapTsNs := 0, bestBidRaw := 0, bestAskRaw := 0,
     bidLevelCount := 0, askLevelCount := 0\<rparr>"

definition snapshot_of :: "price_level \<Rightarrow> snapshot_level" where
  "snapshot_of l = \<lparr>levelPriceRaw = levelPrice l, levelQuantity = totalQuantity l, orderCount = level_count l\<rparr>"

text \<open>A capture overwrites a snapshot of the caller; the sequence and the time stamp are the caller's.\<close>

definition captureSnapshot :: "nat \<Rightarrow> order_book \<Rightarrow> book_snapshot \<Rightarrow> book_snapshot" where
  "captureSnapshot depth B s =
     (let bs = forEachOccupied depth snapshot_of (bids B);
          as = forEachOccupied depth snapshot_of (asks B) in
      s\<lparr>snapBids := bs, snapAsks := as,
        bestBidRaw := (case bs of [] \<Rightarrow> 0 | l # _ \<Rightarrow> levelPriceRaw l),
        bestAskRaw := (case as of [] \<Rightarrow> 0 | l # _ \<Rightarrow> levelPriceRaw l),
        bidLevelCount := occupied (bids B), askLevelCount := occupied (asks B)\<rparr>)"

section \<open>Well-formedness\<close>

text \<open>
  \<open>book_rep os H B Q\<close>: the book is well formed and \<open>Q d i\<close> are the orders resting at
  index \<open>i\<close> of ladder \<open>d\<close>, oldest first. The pool, the index and the levels agree: a live
  order is in exactly the level it names, on the side of its ladder, and under its
  identifier in the index; a level is marked occupied exactly when it is not empty.
\<close>

type_synonym queues = "ladder_id \<Rightarrow> nat \<Rightarrow> ptr list"

definition good_order :: "ladder_id \<Rightarrow> order \<Rightarrow> bool" where
  "good_order d ord \<longleftrightarrow>
     Order_isValid ord \<and> isLimit ord \<and> remainingQuantity ord \<noteq> 0 \<and> (isBuy ord \<longleftrightarrow> d = Bids)"

text \<open>The orders in \<open>X\<close> may have been filled: the matching loop reduces before it removes.\<close>

definition levels_rep :: "ptr set \<Rightarrow> heap \<Rightarrow> order_book \<Rightarrow> queues \<Rightarrow> bool" where
  "levels_rep X h B Q \<longleftrightarrow>
     (\<forall>d i. i < levelCount (ladder_of d B) \<longrightarrow>
        level_rep h (d, i) (level_of (d, i) B) (Q d i) \<and>
        (\<forall>p \<in> set (Q d i). \<exists>ord. h p = Some ord \<and> (isBuy ord \<longleftrightarrow> d = Bids) \<and> (p \<notin> X \<longrightarrow> good_order d ord))) \<and>
     (\<forall>p. h p \<noteq> None \<longrightarrow> (\<exists>d i. i < levelCount (ladder_of d B) \<and> p \<in> set (Q d i)))"

definition ladders_ok :: "order_book \<Rightarrow> queues \<Rightarrow> bool" where
  "ladders_ok B Q \<longleftrightarrow>
     (\<forall>d. ladder_ok (ladder_of d B) \<and> (descending (ladder_of d B) \<longleftrightarrow> d = Bids) \<and>
        occ_set (ladder_of d B) = {i. i < levelCount (ladder_of d B) \<and> Q d i \<noteq> []})"

definition index_agrees :: "order_index \<Rightarrow> heap \<Rightarrow> bool" where
  "index_agrees ix h \<longleftrightarrow>
     (\<forall>k p. index_map ix k = Some p \<longleftrightarrow> (\<exists>ord. h p = Some ord \<and> orderId ord = k))"

definition book_rep_ex :: "ptr set \<Rightarrow> os_env \<Rightarrow> hash_fun \<Rightarrow> order_book \<Rightarrow> queues \<Rightarrow> bool" where
  "book_rep_ex X os H B Q \<longleftrightarrow>
     pool_ok os (orderPool B) \<and> index_ok H (orderIndex B) \<and> ladders_ok B Q \<and>
     levels_rep X (book_mem B) B Q \<and> index_agrees (orderIndex B) (book_mem B)"

definition book_rep :: "os_env \<Rightarrow> hash_fun \<Rightarrow> order_book \<Rightarrow> queues \<Rightarrow> bool" where
  "book_rep os H B Q \<longleftrightarrow> book_rep_ex {} os H B Q"

section \<open>Lemmas\<close>

subsection \<open>Parts of a book\<close>

lemma ladder_of_upd [simp]:
  "ladder_of d (set_mem h B) = ladder_of d B"
  "ladder_of d (B\<lparr>orderPool := P\<rparr>) = ladder_of d B"
  "ladder_of d (B\<lparr>orderIndex := ix\<rparr>) = ladder_of d B"
  "ladder_of d (set_ladder d' L B) = (if d = d' then L else ladder_of d B)"
  by (cases d; cases d'; simp add: set_mem_def)+

lemma book_mem_upd [simp]:
  "book_mem (set_mem h B) = h"
  "book_mem (B\<lparr>orderPool := P\<rparr>) = mem P"
  "book_mem (B\<lparr>orderIndex := ix\<rparr>) = book_mem B"
  "book_mem (set_ladder d L B) = book_mem B"
  "book_mem (set_level r l B) = book_mem B"
  by (cases d; simp add: set_mem_def book_mem_def set_level_def; cases "fst r"; simp)+

lemma orderIndex_upd [simp]:
  "orderIndex (set_mem h B) = orderIndex B"
  "orderIndex (set_ladder d L B) = orderIndex B"
  "orderIndex (set_level r l B) = orderIndex B"
  by (cases d; simp add: set_mem_def set_level_def; cases "fst r"; simp)+

lemma orderPool_upd [simp]:
  "orderPool (set_mem h B) = (orderPool B)\<lparr>mem := h\<rparr>"
  "orderPool (set_ladder d L B) = orderPool B"
  "orderPool (set_level r l B) = orderPool B"
  by (cases d; simp add: set_mem_def set_level_def; cases "fst r"; simp)+

lemma ladder_of_set_level:
  "ladder_of d (set_level r l B) =
     (if d = fst r then (ladder_of d B)\<lparr>levels := (levels (ladder_of d B))[snd r := l]\<rparr> else ladder_of d B)"
  by (simp add: set_level_def)

lemma levelCount_set_level [simp]: "levelCount (ladder_of d (set_level r l B)) = levelCount (ladder_of d B)"
  by (simp add: ladder_of_set_level)

lemma level_of_upd [simp]:
  "level_of r (set_mem h B) = level_of r B"
  "level_of r (B\<lparr>orderPool := P\<rparr>) = level_of r B"
  "level_of r (B\<lparr>orderIndex := ix\<rparr>) = level_of r B"
  by (simp_all add: level_of_def)

lemma level_of_set_level:
  assumes "snd r' < length (levels (ladder_of (fst r') B))"
  shows "level_of r (set_level r' l B) = (if r = r' then l else level_of r B)"
  using assms by (cases r; cases r') (auto simp: level_of_def ladder_of_set_level nth_list_update)

lemma pool_ok_mem:
  assumes "dom h = dom (mem P)"
  shows "pool_ok os (P\<lparr>mem := h\<rparr>) = pool_ok os P"
  using assms by (simp add: pool_ok_def free_list_ok_def live_slots_def)

lemma ladder_ok_level:
  assumes "ladder_ok L" and "i < levelCount L" and "levelPrice l = levelPrice (levels L ! i)"
  shows "ladder_ok (L\<lparr>levels := (levels L)[i := l]\<rparr>)"
proof -
  have "levelPrice ((levels L)[i := l] ! j) = levelPrice (levels L ! j)" for j
    using assms by (cases "j = i") (auto simp: nth_list_update ladder_ok_def ladder_shape_def)
  with assms(1) show ?thesis by (simp add: ladder_ok_def ladder_shape_def price_at_def)
qed

subsection \<open>Queues\<close>

definition upd_queue :: "level_ref \<Rightarrow> ptr list \<Rightarrow> queues \<Rightarrow> queues" where
  "upd_queue r ps Q = Q(fst r := (Q (fst r))(snd r := ps))"

lemma upd_queue_app: "upd_queue r ps Q d i = (if r = (d, i) then ps else Q d i)"
  by (cases r) (auto simp: upd_queue_def)

lemma levels_repD:
  assumes "levels_rep X h B Q" and "i < levelCount (ladder_of d B)"
  shows "level_rep h (d, i) (level_of (d, i) B) (Q d i)"
    and "p \<in> set (Q d i) \<Longrightarrow> \<exists>ord. h p = Some ord \<and> priceLevel ord = Some (d, i) \<and>
      price ord = levelPrice (level_of (d, i) B) \<and> (isBuy ord \<longleftrightarrow> d = Bids) \<and> (p \<notin> X \<longrightarrow> good_order d ord)"
proof -
  show rep: "level_rep h (d, i) (level_of (d, i) B) (Q d i)" using assms by (simp add: levels_rep_def)
  assume p: "p \<in> set (Q d i)"
  obtain ord where "h p = Some ord" "price ord = levelPrice (level_of (d, i) B)" "priceLevel ord = Some (d, i)"
    using level_rep_memD [OF rep p] .
  moreover have "\<exists>ord. h p = Some ord \<and> (isBuy ord \<longleftrightarrow> d = Bids) \<and> (p \<notin> X \<longrightarrow> good_order d ord)"
    using p assms unfolding levels_rep_def by blast
  ultimately show "\<exists>ord. h p = Some ord \<and> priceLevel ord = Some (d, i) \<and>
      price ord = levelPrice (level_of (d, i) B) \<and> (isBuy ord \<longleftrightarrow> d = Bids) \<and> (p \<notin> X \<longrightarrow> good_order d ord)"
    by simp
qed

lemma levels_rep_home:
  assumes "levels_rep X h B Q" and "h p = Some ord"
  obtains d i where "i < levelCount (ladder_of d B)" "p \<in> set (Q d i)" "priceLevel ord = Some (d, i)"
    "price ord = levelPrice (level_of (d, i) B)" "isBuy ord \<longleftrightarrow> d = Bids" "p \<notin> X \<Longrightarrow> good_order d ord"
proof -
  from assms obtain d i where di: "i < levelCount (ladder_of d B)" "p \<in> set (Q d i)"
    unfolding levels_rep_def by blast
  from levels_repD(2) [OF assms(1) di] assms(2) that di show thesis by auto
qed

lemma levels_rep_disjoint:
  assumes "levels_rep X h B Q" and "i < levelCount (ladder_of d B)" "j < levelCount (ladder_of c B)"
    and "p \<in> set (Q d i)" "p \<in> set (Q c j)"
  shows "d = c \<and> i = j"
  using levels_repD(2) [OF assms(1,2,4)] levels_repD(2) [OF assms(1,3,5)] by auto

lemma good_order_strip: "strip a = strip b \<Longrightarrow> good_order d a = good_order d b"
  unfolding good_order_def Order_isValid_def order_kind_defs by (simp add: strip_eqD [of a b])

lemma isBuy_strip: "strip a = strip b \<Longrightarrow> isBuy a = isBuy b"
  by (simp add: isBuy_def strip_eqD [of a b])

text \<open>
  One level changes: its new queue is given, the store is relinked inside the old and new
  members only, and the orders gained or lost are accounted for.
\<close>

lemma levels_rep_step:
  assumes rep: "levels_rep X h B Q" and i: "i < levelCount (ladder_of d B)" "i < length (levels (ladder_of d B))"
    and new: "level_rep h' (d, i) l' ps"
    and mem: "\<And>p. p \<in> set ps \<Longrightarrow> \<exists>ord. h' p = Some ord \<and> (isBuy ord \<longleftrightarrow> d = Bids) \<and> (p \<notin> Y \<longrightarrow> good_order d ord)"
    and frame: "\<And>c j p. j < levelCount (ladder_of c B) \<Longrightarrow> (c, j) \<noteq> (d, i) \<Longrightarrow> p \<in> set (Q c j) \<Longrightarrow> h' p = h p \<and> (p \<in> X \<longrightarrow> p \<in> Y)"
    and dom: "\<And>p. h' p \<noteq> None \<Longrightarrow> p \<in> set ps \<or> (h p \<noteq> None \<and> p \<notin> set (Q d i))"
  shows "levels_rep Y h' (set_level (d, i) l' B) (upd_queue (d, i) ps Q)"
  unfolding levels_rep_def
proof (rule conjI; intro allI impI)
  fix c j assume j: "j < levelCount (ladder_of c (set_level (d, i) l' B))"
  then have j': "j < levelCount (ladder_of c B)" by simp
  have lv: "level_of (c, j) (set_level (d, i) l' B) = (if (c, j) = (d, i) then l' else level_of (c, j) B)"
    by (rule level_of_set_level) (use i in simp)
  have q: "upd_queue (d, i) ps Q c j = (if (c, j) = (d, i) then ps else Q c j)" by (auto simp: upd_queue_app)
  show "level_rep h' (c, j) (level_of (c, j) (set_level (d, i) l' B)) (upd_queue (d, i) ps Q c j) \<and>
    (\<forall>p \<in> set (upd_queue (d, i) ps Q c j). \<exists>ord. h' p = Some ord \<and> (isBuy ord \<longleftrightarrow> c = Bids) \<and> (p \<notin> Y \<longrightarrow> good_order c ord))"
  proof (cases "(c, j) = (d, i)")
    case True
    with new mem show ?thesis unfolding lv q by auto
  next
    case False
    have "level_rep h' (c, j) (level_of (c, j) B) (Q c j)"
      by (rule level_rep_frame [OF levels_repD(1) [OF rep j']]) (use frame [OF j' False] in blast)
    moreover have "\<exists>ord. h' p = Some ord \<and> (isBuy ord \<longleftrightarrow> c = Bids) \<and> (p \<notin> Y \<longrightarrow> good_order c ord)" if "p \<in> set (Q c j)" for p
      using levels_repD(2) [OF rep j' that] frame [OF j' False that] by auto
    ultimately show ?thesis using False unfolding lv q by auto
  qed
next
  fix p assume "h' p \<noteq> None"
  from dom [OF this] show "\<exists>c j. j < levelCount (ladder_of c (set_level (d, i) l' B)) \<and> p \<in> set (upd_queue (d, i) ps Q c j)"
  proof
    assume "p \<in> set ps"
    with i show ?thesis by (intro exI [of _ d] exI [of _ i]) (simp add: upd_queue_app)
  next
    assume p: "h p \<noteq> None \<and> p \<notin> set (Q d i)"
    with rep obtain c j where "j < levelCount (ladder_of c B)" "p \<in> set (Q c j)" unfolding levels_rep_def by blast
    with p show ?thesis by (intro exI [of _ c] exI [of _ j]) (auto simp: upd_queue_app)
  qed
qed

lemma levels_rep_cong:
  assumes "\<And>d. levels (ladder_of d B') = levels (ladder_of d B)" and "\<And>d. levelCount (ladder_of d B') = levelCount (ladder_of d B)"
  shows "levels_rep X h B' Q = levels_rep X h B Q"
  using assms by (simp add: levels_rep_def level_of_def)

subsection \<open>Linking and unlinking in a level of the book\<close>

lemma ladders_okD:
  assumes "ladders_ok B Q"
  shows "ladder_ok (ladder_of d B)" "descending (ladder_of d B) \<longleftrightarrow> d = Bids"
    "i \<in> occ_set (ladder_of d B) \<longleftrightarrow> i < levelCount (ladder_of d B) \<and> Q d i \<noteq> []"
    "length (levels (ladder_of d B)) = levelCount (ladder_of d B)"
  using assms ladder_okD(7) by (auto simp: ladders_ok_def)

lemma level_price_at:
  assumes "ladders_ok B Q" and "i < levelCount (ladder_of d B)"
  shows "levelPrice (level_of (d, i) B) = price_at (ladder_of d B) i"
  using ladders_okD(1) [OF assms(1), of d] assms(2) by (simp add: ladder_ok_def ladder_shape_def level_of_def)

lemma relinked_good:
  assumes "relinked A h h'" and "\<exists>ord. h p = Some ord \<and> (isBuy ord \<longleftrightarrow> b) \<and> (c \<longrightarrow> good_order d ord)"
  shows "\<exists>ord. h' p = Some ord \<and> (isBuy ord \<longleftrightarrow> b) \<and> (c \<longrightarrow> good_order d ord)"
proof -
  from assms(2) obtain ord where ord: "h p = Some ord" "isBuy ord \<longleftrightarrow> b" "c \<longrightarrow> good_order d ord" by blast
  obtain ord' where "h' p = Some ord'" "strip ord' = strip ord" using relinked_Some [OF assms(1) ord(1)] .
  with ord good_order_strip isBuy_strip show ?thesis by metis
qed

lemma levels_unlink:
  assumes rep: "levels_rep X h B Q" and i: "i < levelCount (ladder_of d B)" "i < length (levels (ladder_of d B))"
    and p: "p \<in> set (Q d i)" "h p = Some ord" and X: "X \<subseteq> {p}"
  obtains l' h' where "PriceLevel_removeOrder (d, i) (Some p) (level_of (d, i) B, h) = Ret () (l', h')"
    "levels_rep {} (h'(p := None)) (set_level (d, i) l' B) (upd_queue (d, i) (filter (\<lambda>q. q \<noteq> p) (Q d i)) Q)"
    "levelPrice l' = levelPrice (level_of (d, i) B)" "PriceLevel_isEmpty l' \<longleftrightarrow> filter (\<lambda>q. q \<noteq> p) (Q d i) = []"
    "relinked (set (Q d i)) h h'" "h' p = Some (strip ord)"
proof -
  let ?ps = "filter (\<lambda>q. q \<noteq> p) (Q d i)"
  note lr = levels_repD(1) [OF rep i(1)]
  obtain l' h' where r: "PriceLevel_removeOrder (d, i) (Some p) (level_of (d, i) B, h) = Ret () (l', h')"
    "level_rep h' (d, i) l' ?ps" "levelPrice l' = levelPrice (level_of (d, i) B)"
    "relinked (set (Q d i)) h h'" "h' p = Some (strip ord)"
    by (rule PriceLevel_removeOrder_ok [OF lr p])
  have "level_rep (h'(p := None)) (d, i) l' ?ps" by (rule level_rep_frame [OF r(2)]) simp
  then have "levels_rep {} (h'(p := None)) (set_level (d, i) l' B) (upd_queue (d, i) ?ps Q)"
  proof (rule levels_rep_step [OF rep i])
    fix q assume q: "q \<in> set ?ps"
    then have "\<exists>ord. h' q = Some ord \<and> (isBuy ord \<longleftrightarrow> d = Bids) \<and> (q \<notin> X \<longrightarrow> good_order d ord)"
      by (intro relinked_good [OF r(4)]) (use levels_repD(2) [OF rep i(1), of q] in auto)
    with q X show "\<exists>ord. (h'(p := None)) q = Some ord \<and> (isBuy ord \<longleftrightarrow> d = Bids) \<and> (q \<notin> {} \<longrightarrow> good_order d ord)"
      by auto
  next
    fix c j q assume c: "j < levelCount (ladder_of c B)" "(c, j) \<noteq> (d, i)" "q \<in> set (Q c j)"
    then have q: "q \<notin> set (Q d i)" using levels_rep_disjoint [OF rep i(1), of j c q] by blast
    then have "q \<noteq> p" using p(1) by blast
    with relinked_frame [OF r(4) q] X show "(h'(p := None)) q = h q \<and> (q \<in> X \<longrightarrow> q \<in> {})" by auto
  next
    fix q assume "(h'(p := None)) q \<noteq> None"
    then have "q \<noteq> p" "h q \<noteq> None" using relinked_None [OF r(4), of q] by (auto split: if_splits)
    then show "q \<in> set ?ps \<or> (h q \<noteq> None \<and> q \<notin> set (Q d i))" by simp
  qed
  with that r PriceLevel_isEmpty_rep [OF r(2)] show thesis by blast
qed

lemma levels_link:
  assumes rep: "levels_rep {} h B Q" and i: "i < levelCount (ladder_of d B)" "i < length (levels (ladder_of d B))"
    and p: "h p = None" and ord: "good_order d ord" "priceLevel ord = None" "price ord = levelPrice (level_of (d, i) B)"
    and fits: "unat (remainingQuantity ord) + unat (totalQuantity (level_of (d, i) B)) < SIZE_RANGE"
  obtains l' h' where "PriceLevel_addOrder (d, i) (Some p) (level_of (d, i) B, h(p \<mapsto> ord)) = Ret () (l', h')"
    "levels_rep {} h' (set_level (d, i) l' B) (upd_queue (d, i) (Q d i @ [p]) Q)"
    "levelPrice l' = levelPrice (level_of (d, i) B)" "relinked (set (Q d i @ [p])) (h(p \<mapsto> ord)) h'"
    "unat (totalQuantity l') = unat (totalQuantity (level_of (d, i) B)) + unat (remainingQuantity ord)"
proof -
  let ?h = "h(p \<mapsto> ord)"
  have out: "p \<notin> set (Q c j)" if "j < levelCount (ladder_of c B)" for c j
    using levels_repD(2) [OF rep that, of p] p by auto
  have lr: "level_rep ?h (d, i) (level_of (d, i) B) (Q d i)"
    by (rule level_rep_frame [OF levels_repD(1) [OF rep i(1)]]) (use out [OF i(1)] in auto)
  have nz: "list_all (\<lambda>q. rem_of ?h q \<noteq> 0) (Q d i)"
    unfolding list_all_iff
  proof
    fix q assume q: "q \<in> set (Q d i)"
    then obtain o' where "h q = Some o'" "good_order d o'" using levels_repD(2) [OF rep i(1) q] by auto
    with q out [OF i(1)] show "rem_of ?h q \<noteq> 0" by (auto simp: rem_of_def good_order_def unat_gt_0)
  qed
  have nz0: "remainingQuantity ord \<noteq> 0" using ord(1) by (simp add: good_order_def)
  have hp: "?h p = Some ord" by simp
  obtain l' h' where r: "PriceLevel_addOrder (d, i) (Some p) (level_of (d, i) B, ?h) = Ret () (l', h')"
    "level_rep h' (d, i) l' (Q d i @ [p])" "levelPrice l' = levelPrice (level_of (d, i) B)"
    "unat (totalQuantity l') = unat (totalQuantity (level_of (d, i) B)) + unat (remainingQuantity ord)"
    "relinked (set (Q d i @ [p])) ?h h'"
    by (rule PriceLevel_addOrder_ok [OF lr hp ord(3,2) nz0 nz fits])
  have "levels_rep {} h' (set_level (d, i) l' B) (upd_queue (d, i) (Q d i @ [p]) Q)"
  proof (rule levels_rep_step [OF rep i r(2)])
    fix q assume q: "q \<in> set (Q d i @ [p])"
    show "\<exists>ord. h' q = Some ord \<and> (isBuy ord \<longleftrightarrow> d = Bids) \<and> (q \<notin> {} \<longrightarrow> good_order d ord)"
      by (rule relinked_good [OF r(5)])
        (use q ord(1) levels_repD(2) [OF rep i(1), of q] in \<open>auto simp: good_order_def\<close>)
  next
    fix c j q assume c: "j < levelCount (ladder_of c B)" "(c, j) \<noteq> (d, i)" "q \<in> set (Q c j)"
    then have "q \<notin> set (Q d i @ [p])" using levels_rep_disjoint [OF rep i(1), of j c q] out by auto
    with relinked_frame [OF r(5) this] show "h' q = h q \<and> (q \<in> {} \<longrightarrow> q \<in> {})" by auto
  next
    fix q assume "h' q \<noteq> None"
    then have "?h q \<noteq> None" using relinked_None [OF r(5), of q] by simp
    then show "q \<in> set (Q d i @ [p]) \<or> (h q \<noteq> None \<and> q \<notin> set (Q d i))" by (auto split: if_splits)
  qed
  with that r show thesis by blast
qed

subsection \<open>Occupancy follows the queues\<close>

text \<open>Only the occupancy of ladder \<open>d\<close> may differ.\<close>

definition same_but_marks :: "order_book \<Rightarrow> order_book \<Rightarrow> bool" where
  "same_but_marks B B' \<longleftrightarrow> orderPool B' = orderPool B \<and> orderIndex B' = orderIndex B \<and>
     (\<forall>d. levels (ladder_of d B') = levels (ladder_of d B) \<and> grid_eq (ladder_of d B) (ladder_of d B'))"

lemma same_but_marks_refl [simp]: "same_but_marks B B"
  by (simp add: same_but_marks_def)

lemma same_but_marksD:
  assumes "same_but_marks B B'"
  shows "book_mem B' = book_mem B" "level_of r B' = level_of r B"
    "levelCount (ladder_of d B') = levelCount (ladder_of d B)" "levels_rep X h B' Q = levels_rep X h B Q"
proof -
  from assms have "\<And>d. levels (ladder_of d B') = levels (ladder_of d B)"
    "\<And>d. levelCount (ladder_of d B') = levelCount (ladder_of d B)"
    by (simp_all add: same_but_marks_def grid_eq_def)
  then show "levelCount (ladder_of d B') = levelCount (ladder_of d B)" "level_of r B' = level_of r B"
    "levels_rep X h B' Q = levels_rep X h B Q"
    by (simp, simp add: level_of_def, intro levels_rep_cong)
  show "book_mem B' = book_mem B" using assms by (simp add: same_but_marks_def book_mem_def)
qed

lemma indexOf_level:
  assumes "ladders_ok B Q" and "i < levelCount (ladder_of d B)" and "pr = levelPrice (level_of (d, i) B)"
  shows "indexOf pr (ladder_of d B) = Inr i"
  using indexOf_price_at [OF ladder_okD(1) [OF ladders_okD(1) [OF assms(1)]] assms(2)] level_price_at [OF assms(1,2)] assms(3)
  by simp

lemma ladder_ok_set_level:
  assumes "ladders_ok B Q" and "i < levelCount (ladder_of d B)" and "levelPrice l = levelPrice (level_of (d, i) B)"
  shows "ladder_ok (ladder_of d (set_level (d, i) l B))" "occ_set (ladder_of d (set_level (d, i) l B)) = occ_set (ladder_of d B)"
    "indexOf pr (ladder_of d (set_level (d, i) l B)) = indexOf pr (ladder_of d B)"
  using ladder_ok_level [OF ladders_okD(1) [OF assms(1)] assms(2), of l] assms(3)
  by (simp_all add: ladder_of_set_level level_of_def indexOf_def Let_def)

text \<open>A ladder whose occupancy matches a changed queue at one index.\<close>

lemma ladders_okI:
  assumes ok: "ladders_ok B Q" and d: "ladder_ok (ladder_of d B')"
    and occ: "occ_set (ladder_of d B') = {j. j < levelCount (ladder_of d B) \<and> upd_queue (d, i) ps Q d j \<noteq> []}"
    and gr: "grid_eq (ladder_of d B) (ladder_of d B')" and rest: "\<And>c. c \<noteq> d \<Longrightarrow> ladder_of c B' = ladder_of c B"
  shows "ladders_ok B' (upd_queue (d, i) ps Q)"
  unfolding ladders_ok_def
proof
  fix c
  show "ladder_ok (ladder_of c B') \<and> (descending (ladder_of c B') \<longleftrightarrow> c = Bids) \<and>
    occ_set (ladder_of c B') = {j. j < levelCount (ladder_of c B') \<and> upd_queue (d, i) ps Q c j \<noteq> []}"
  proof (cases "c = d")
    case True
    with d occ gr ladders_okD(2) [OF ok, of d] show ?thesis by (simp add: grid_eq_def)
  next
    case False
    with rest ok show ?thesis by (simp add: ladders_ok_def upd_queue_app)
  qed
qed

lemma clear_if_empty:
  assumes ok: "ladders_ok B Q" and i: "i < levelCount (ladder_of d B)" "Q d i \<noteq> []"
    and l: "levelPrice l = levelPrice (level_of (d, i) B)" "PriceLevel_isEmpty l \<longleftrightarrow> ps = []"
    and pr: "pr = levelPrice (level_of (d, i) B)"
  defines "B1 \<equiv> set_level (d, i) l B"
  obtains B2 where
    "(if PriceLevel_isEmpty (level_of (d, i) B1) then on_ladder d (markEmpty pr) B1 else Ret () B1) = Ret () B2"
    "ladders_ok B2 (upd_queue (d, i) ps Q)" "same_but_marks B1 B2"
proof -
  note D = ladder_ok_set_level [OF ok i(1) l(1), folded B1_def]
  have len: "i < length (levels (ladder_of d B))" using i ladders_okD(4) [OF ok] by simp
  have lv: "level_of (d, i) B1 = l" using level_of_set_level [of "(d, i)" B "(d, i)" l] len by (simp add: B1_def)
  have occ: "occ_set (ladder_of d B) = {j. j < levelCount (ladder_of d B) \<and> Q d j \<noteq> []}" using ok by (simp add: ladders_ok_def)
  have gr: "grid_eq (ladder_of d B) (ladder_of d B1)" and rest: "\<And>c. c \<noteq> d \<Longrightarrow> ladder_of c B1 = ladder_of c B"
    by (simp_all add: B1_def ladder_of_set_level grid_eq_def)
  show thesis
  proof (cases "ps = []")
    case True
    have ix: "indexOf pr (ladder_of d B1) = Inr i" using D(3) indexOf_level [OF ok i(1) pr] by simp
    have mem: "i \<in> occ_set (ladder_of d B1)" using D(2) occ i by simp
    obtain L where L: "markEmpty pr (ladder_of d B1) = Ret () L" "ladder_ok L"
      "occ_set L = occ_set (ladder_of d B1) - {i}" "levels L = levels (ladder_of d B1)" "grid_eq (ladder_of d B1) L"
      using markEmpty_ok [OF D(1) ix mem] .
    show thesis
    proof (rule that)
      show "(if PriceLevel_isEmpty (level_of (d, i) B1) then on_ladder d (markEmpty pr) B1 else Ret () B1) = Ret () (set_ladder d L B1)"
        using True l(2) lv L(1) by (simp add: on_ladder_def)
      show "ladders_ok (set_ladder d L B1) (upd_queue (d, i) ps Q)"
        by (rule ladders_okI [OF ok])
          (use L D(2) occ True grid_eq_trans [OF gr L(5)] rest in \<open>auto simp: upd_queue_app split: if_splits\<close>)
      show "same_but_marks B1 (set_ladder d L B1)" using L(4,5) by (simp add: same_but_marks_def)
    qed
  next
    case False
    show thesis
    proof (rule that)
      show "(if PriceLevel_isEmpty (level_of (d, i) B1) then on_ladder d (markEmpty pr) B1 else Ret () B1) = Ret () B1"
        using False l(2) lv by simp
      show "ladders_ok B1 (upd_queue (d, i) ps Q)"
        by (rule ladders_okI [OF ok D(1) _ gr rest]) (use D(2) occ False i in \<open>auto simp: upd_queue_app\<close>)
    qed simp
  qed
qed

lemma mark_if_first:
  assumes ok: "ladders_ok B Q" and i: "i < levelCount (ladder_of d B)"
    and l: "levelPrice l = levelPrice (level_of (d, i) B)" and ps: "ps \<noteq> []" and w: "w \<longleftrightarrow> Q d i = []"
    and pr: "pr = levelPrice (level_of (d, i) B)"
  defines "B1 \<equiv> set_level (d, i) l B"
  obtains B2 where
    "(if w then on_ladder d (markOccupied pr) B1 else Ret () B1) = Ret () B2"
    "ladders_ok B2 (upd_queue (d, i) ps Q)" "same_but_marks B1 B2"
proof -
  note D = ladder_ok_set_level [OF ok i l, folded B1_def]
  have occ: "occ_set (ladder_of d B) = {j. j < levelCount (ladder_of d B) \<and> Q d j \<noteq> []}" using ok by (simp add: ladders_ok_def)
  have gr: "grid_eq (ladder_of d B) (ladder_of d B1)" and rest: "\<And>c. c \<noteq> d \<Longrightarrow> ladder_of c B1 = ladder_of c B"
    by (simp_all add: B1_def ladder_of_set_level grid_eq_def)
  show thesis
  proof (cases "Q d i = []")
    case True
    have ix: "indexOf pr (ladder_of d B1) = Inr i" using D(3) indexOf_level [OF ok i pr] by simp
    have lt: "i < levelCount (ladder_of d B1)" using i gr by (simp add: grid_eq_def)
    have out: "i \<notin> occ_set (ladder_of d B1)" using D(2) occ True by simp
    obtain L where L: "markOccupied pr (ladder_of d B1) = Ret () L" "ladder_ok L"
      "occ_set L = insert i (occ_set (ladder_of d B1))" "levels L = levels (ladder_of d B1)" "grid_eq (ladder_of d B1) L"
      using markOccupied_ok [OF D(1) ix lt out] .
    show thesis
    proof (rule that)
      show "(if w then on_ladder d (markOccupied pr) B1 else Ret () B1) = Ret () (set_ladder d L B1)"
        using True w L(1) by (simp add: on_ladder_def)
      show "ladders_ok (set_ladder d L B1) (upd_queue (d, i) ps Q)"
        by (rule ladders_okI [OF ok])
          (use L D(2) occ i ps grid_eq_trans [OF gr L(5)] rest in \<open>auto simp: upd_queue_app split: if_splits\<close>)
      show "same_but_marks B1 (set_ladder d L B1)" using L(4,5) by (simp add: same_but_marks_def)
    qed
  next
    case False
    show thesis
    proof (rule that)
      show "(if w then on_ladder d (markOccupied pr) B1 else Ret () B1) = Ret () B1" using False w by simp
      show "ladders_ok B1 (upd_queue (d, i) ps Q)"
        by (rule ladders_okI [OF ok D(1) _ gr rest]) (use D(2) occ False i ps in \<open>auto simp: upd_queue_app\<close>)
    qed simp
  qed
qed

subsection \<open>Removing an order\<close>

definition same_grids :: "order_book \<Rightarrow> order_book \<Rightarrow> bool" where
  "same_grids B B' \<longleftrightarrow> (\<forall>d. grid_eq (ladder_of d B) (ladder_of d B'))"

lemma same_grids_refl [simp]: "same_grids B B"
  by (simp add: same_grids_def)

lemma same_grids_trans: "same_grids A B \<Longrightarrow> same_grids B C \<Longrightarrow> same_grids A C"
  unfolding same_grids_def using grid_eq_trans by blast

lemma same_grids_count: "same_grids B B' \<Longrightarrow> levelCount (ladder_of d B') = levelCount (ladder_of d B)"
  by (simp add: same_grids_def grid_eq_def)

lemma book_repD:
  assumes "book_rep_ex X os H B Q"
  shows "pool_ok os (orderPool B)" "index_ok H (orderIndex B)" "ladders_ok B Q" "levels_rep X (book_mem B) B Q"
    "index_agrees (orderIndex B) (book_mem B)"
  using assms by (simp_all add: book_rep_ex_def)

lemma index_agreesD:
  assumes "index_agrees ix h"
  shows "h p = Some ord \<Longrightarrow> index_map ix (orderId ord) = Some p"
    "index_map ix k = Some p \<Longrightarrow> \<exists>ord. h p = Some ord \<and> orderId ord = k"
  using assms by (auto simp: index_agrees_def)

lemma index_agrees_unique:
  assumes "index_agrees ix h" and "h p = Some a" and "h q = Some b" and "orderId a = orderId b"
  shows "p = q"
  using assms index_agreesD(1) by (metis option.inject)

text \<open>The store changed as \<open>relinked\<close> allows, then one order is gone: the index must forget it.\<close>

lemma index_agrees_remove:
  assumes ag: "index_agrees ix h" and rel: "relinked A h h'" and p: "h p = Some ord"
    and m: "index_map ix' = (index_map ix)(orderId ord := None)"
  shows "index_agrees ix' (h'(p := None))"
  unfolding index_agrees_def
proof (intro allI iffI)
  fix k q assume "index_map ix' k = Some q"
  then have k: "k \<noteq> orderId ord" "index_map ix k = Some q" using m by (auto split: if_splits)
  then obtain b where b: "h q = Some b" "orderId b = k" using index_agreesD(2) [OF ag] by blast
  then have "q \<noteq> p" using k p by auto
  moreover obtain b' where b': "h' q = Some b'" "strip b' = strip b" using relinked_Some [OF rel b(1)] .
  moreover have "orderId b' = k" using strip_eqD(1) [OF b'(2)] b(2) by simp
  ultimately show "\<exists>ord. (h'(p := None)) q = Some ord \<and> orderId ord = k" by simp
next
  fix k q assume "\<exists>ord. (h'(p := None)) q = Some ord \<and> orderId ord = k"
  then obtain b' where b': "q \<noteq> p" "h' q = Some b'" "orderId b' = k" by (auto split: if_splits)
  then obtain b where b: "h q = Some b" "strip b' = strip b" using relinked_strip [OF rel, of q] by (metis map_option_eq_Some)
  then have id: "orderId b = k" using b'(3) strip_eqD(1) by metis
  then have "index_map ix k = Some q" using index_agreesD(1) [OF ag b(1)] by simp
  moreover have "k \<noteq> orderId ord" using index_agrees_unique [OF ag b(1) p] id b'(1) by auto
  ultimately show "index_map ix' k = Some q" using m by simp
qed

lemma relinked_id:
  assumes "relinked A h h'" "h p = Some ord" "h' p = Some ord'"
  shows "orderId ord' = orderId ord"
  using relinked_Some [OF assms(1,2)] assms(3) strip_eqD(1) by (metis option.inject)

definition dropped :: "ptr \<Rightarrow> order_book \<Rightarrow> order_book \<Rightarrow> bool" where
  "dropped p B B' \<longleftrightarrow>
     (\<forall>q. map_option strip (book_mem B' q) = (if q = p then None else map_option strip (book_mem B q)))"

text \<open>The first half of a removal: the order is out of its level, the level's mark is right.\<close>

lemma unlink_clear:
  assumes lad: "ladders_ok B Q" and lev: "levels_rep X (book_mem B) B Q" and X: "X \<subseteq> {p}"
    and i: "i < levelCount (ladder_of d B)" "p \<in> set (Q d i)" and p: "book_mem B p = Some ord"
  defines "ps \<equiv> filter (\<lambda>q. q \<noteq> p) (Q d i)"
  obtains B1 B2 h' where "on_level (d, i) (PriceLevel_removeOrder (d, i) (Some p)) B = Ret () B1"
    "(if PriceLevel_isEmpty (level_of (d, i) B1) then on_ladder d (markEmpty (price ord)) B1 else Ret () B1) = Ret () B2"
    "ladders_ok B2 (upd_queue (d, i) ps Q)" "levels_rep {} (h'(p := None)) B2 (upd_queue (d, i) ps Q)"
    "relinked (set (Q d i)) (book_mem B) h'" "h' p = Some (strip ord)" "book_mem B1 = h'" "book_mem B2 = h'"
    "orderIndex B2 = orderIndex B" "orderPool B2 = (orderPool B)\<lparr>mem := h'\<rparr>" "same_grids B B2"
proof -
  have len: "i < length (levels (ladder_of d B))" using i(1) ladders_okD(4) [OF lad] by simp
  have pr: "price ord = levelPrice (level_of (d, i) B)" using levels_repD(2) [OF lev i] p by auto
  obtain l' h' where un: "PriceLevel_removeOrder (d, i) (Some p) (level_of (d, i) B, book_mem B) = Ret () (l', h')"
    "levels_rep {} (h'(p := None)) (set_level (d, i) l' B) (upd_queue (d, i) ps Q)"
    "levelPrice l' = levelPrice (level_of (d, i) B)" "PriceLevel_isEmpty l' \<longleftrightarrow> ps = []"
    "relinked (set (Q d i)) (book_mem B) h'" "h' p = Some (strip ord)"
    using levels_unlink [OF lev i(1) len i(2) p X, folded ps_def] .
  let ?B1 = "set_level (d, i) l' (set_mem h' B)"
  have lad0: "ladders_ok (set_mem h' B) Q" using lad by (simp add: ladders_ok_def)
  have ne: "Q d i \<noteq> []" using i(2) by auto
  obtain B2 where B2: "(if PriceLevel_isEmpty (level_of (d, i) ?B1) then on_ladder d (markEmpty (price ord)) ?B1 else Ret () ?B1) = Ret () B2"
    "ladders_ok B2 (upd_queue (d, i) ps Q)" "same_but_marks ?B1 B2"
    by (rule clear_if_empty [OF lad0, where i = i and d = d and l = l' and ps = ps and pr = "price ord"])
      (use i(1) pr ne un(3,4) in simp_all)
  note S = same_but_marksD [OF B2(3)]
  have "on_level (d, i) (PriceLevel_removeOrder (d, i) (Some p)) B = Ret () ?B1"
    using un(1) len by (simp add: on_level_def)
  moreover have "levels_rep {} (h'(p := None)) B2 (upd_queue (d, i) ps Q)"
    using un(2) S(4) levels_rep_cong [of ?B1 "set_level (d, i) l' B"] by (simp add: ladder_of_set_level)
  moreover have "same_grids B B2"
    using B2(3) by (simp add: same_grids_def same_but_marks_def ladder_of_set_level grid_eq_def split: if_splits)
  ultimately show thesis
    using that [OF _ B2(1,2)] un(5,6) S(1) B2(3) by (simp add: same_but_marks_def)
qed

lemma release_after_unlink:
  assumes "pool_ok os P" and "relinked A (mem P) h'" and "h' p = Some ord"
  obtains P' where "OrderPool_release (Some p) (P\<lparr>mem := h'\<rparr>) = Ret () P'" "mem P' = h'(p := None)"
    "pool_ok os P'" "liveOrderCount P' = liveOrderCount P - 1"
proof -
  have "pool_ok os (P\<lparr>mem := h'\<rparr>)"
    using pool_ok_mem [of h' P os] relinked_dom [OF assms(2)] assms(1) by simp
  from OrderPool_release_ok [OF this, of p ord] assms(3) that show thesis by auto
qed

lemma OrderBook_removeOrder_ok:
  assumes rep: "book_rep_ex X os H B Q" and X: "X \<subseteq> {p}" and p: "book_mem B p = Some ord"
  obtains B' d i where "OrderBook_removeOrder H (Some p) B = Ret () B'"
    "i < levelCount (ladder_of d B)" "p \<in> set (Q d i)" "priceLevel ord = Some (d, i)"
    "book_rep os H B' (upd_queue (d, i) (filter (\<lambda>q. q \<noteq> p) (Q d i)) Q)" "dropped p B B'" "same_grids B B'"
    "liveOrderCount (orderPool B') = liveOrderCount (orderPool B) - 1"
proof -
  note D = book_repD [OF rep]
  obtain d i where home: "i < levelCount (ladder_of d B)" "p \<in> set (Q d i)" "priceLevel ord = Some (d, i)"
    "isBuy ord \<longleftrightarrow> d = Bids"
    using levels_rep_home [OF D(4) p] by metis
  let ?Q = "upd_queue (d, i) (filter (\<lambda>q. q \<noteq> p) (Q d i)) Q"
  obtain B1 B2 h' where un: "on_level (d, i) (PriceLevel_removeOrder (d, i) (Some p)) B = Ret () B1"
    "(if PriceLevel_isEmpty (level_of (d, i) B1) then on_ladder d (markEmpty (price ord)) B1 else Ret () B1) = Ret () B2"
    "ladders_ok B2 ?Q" "levels_rep {} (h'(p := None)) B2 ?Q"
    "relinked (set (Q d i)) (book_mem B) h'" "h' p = Some (strip ord)" "book_mem B1 = h'" "book_mem B2 = h'"
    "orderIndex B2 = orderIndex B" "orderPool B2 = (orderPool B)\<lparr>mem := h'\<rparr>" "same_grids B B2"
    using unlink_clear [OF D(3,4) X home(1,2) p] .
  have hit: "index_map (orderIndex B) (orderId ord) = Some p" using index_agreesD(1) [OF D(5) p] .
  obtain ix' where ix: "OrderIndex_removeOrder H h' (Some p) (orderIndex B) = Ret () ix'" "index_ok H ix'"
    "index_map ix' = (index_map (orderIndex B))(orderId ord := None)"
    using OrderIndex_removeOrder_ok [OF D(2), of h' p "strip ord"] un(6) hit by auto
  obtain P' where P': "OrderPool_release (Some p) ((orderPool B)\<lparr>mem := h'\<rparr>) = Ret () P'" "mem P' = h'(p := None)"
    "pool_ok os P'" "liveOrderCount P' = liveOrderCount (orderPool B) - 1"
    using release_after_unlink [OF D(1) un(5) [unfolded book_mem_def] un(6)] .
  define B' where "B' = B2\<lparr>orderIndex := ix', orderPool := P'\<rparr>"
  have side: "(if isBuy ord then Bids else Asks) = d" using home(4) by (cases d) auto
  have "OrderBook_removeOrder H (Some p) B =
      bind_outcome (if PriceLevel_isEmpty (level_of (d, i) B1) then on_ladder d (markEmpty (price ord)) B1 else Ret () B1)
        (\<lambda>_ B2. bind_outcome (on_index (OrderIndex_removeOrder H (book_mem B2) (Some p)) B2)
          (\<lambda>_. on_pool (OrderPool_release (Some p))))"
    using p findOrder_map [OF D(2)] hit home(3) side un(1) by (simp add: OrderBook_removeOrder_def cong: if_cong)
  then have run: "OrderBook_removeOrder H (Some p) B = Ret () B'"
    unfolding un(2) using un(8-10) ix(1) P'(1) by (simp add: on_index_def on_pool_def B'_def)
  have "levels_rep {} (h'(p := None)) B' ?Q" using un(4) levels_rep_cong [of B' B2] by (simp add: B'_def)
  moreover have "ladders_ok B' ?Q" using un(3) by (simp add: ladders_ok_def B'_def)
  ultimately have "book_rep os H B' ?Q"
    using ix(2) P'(2,3) index_agrees_remove [OF D(5) un(5) p ix(3)] by (simp add: book_rep_def book_rep_ex_def B'_def)
  moreover have "dropped p B B'" using P'(2) relinked_strip [OF un(5)] by (simp add: dropped_def B'_def)
  moreover have "same_grids B B'" using un(11) by (simp add: same_grids_def B'_def)
  ultimately show thesis using that [OF run home(1-3)] P'(4) by (simp add: B'_def)
qed

subsection \<open>Undoing an insertion\<close>

lemma unlink_and_rethrow_ok:
  assumes lad: "ladders_ok B Q" and lev: "levels_rep {} (book_mem B) B Q" and pool: "pool_ok os (orderPool B)"
    and i: "i < levelCount (ladder_of d B)" "p \<in> set (Q d i)" and p: "book_mem B p = Some ord"
  obtains B' h' where "(unlink_and_rethrow (d, i) p e B :: ('a, order_book) outcome) = Throw e B'"
    "ladders_ok B' (upd_queue (d, i) (filter (\<lambda>q. q \<noteq> p) (Q d i)) Q)" "pool_ok os (orderPool B')"
    "levels_rep {} (book_mem B') B' (upd_queue (d, i) (filter (\<lambda>q. q \<noteq> p) (Q d i)) Q)"
    "orderIndex B' = orderIndex B" "same_grids B B'" "relinked (set (Q d i)) (book_mem B) h'" "book_mem B' = h'(p := None)"
proof -
  let ?Q = "upd_queue (d, i) (filter (\<lambda>q. q \<noteq> p) (Q d i)) Q"
  obtain B1 B2 h' where un: "on_level (d, i) (PriceLevel_removeOrder (d, i) (Some p)) B = Ret () B1"
    "(if PriceLevel_isEmpty (level_of (d, i) B1) then on_ladder d (markEmpty (price ord)) B1 else Ret () B1) = Ret () B2"
    "ladders_ok B2 ?Q" "levels_rep {} (h'(p := None)) B2 ?Q"
    "relinked (set (Q d i)) (book_mem B) h'" "h' p = Some (strip ord)" "book_mem B1 = h'" "book_mem B2 = h'"
    "orderIndex B2 = orderIndex B" "orderPool B2 = (orderPool B)\<lparr>mem := h'\<rparr>" "same_grids B B2"
    using unlink_clear [OF lad lev empty_subsetI i p] .
  obtain P' where P': "OrderPool_release (Some p) ((orderPool B)\<lparr>mem := h'\<rparr>) = Ret () P'" "mem P' = h'(p := None)"
    "pool_ok os P'" "liveOrderCount P' = liveOrderCount (orderPool B) - 1"
    using release_after_unlink [OF pool un(5) [unfolded book_mem_def] un(6)] .
  let ?B' = "B2\<lparr>orderPool := P'\<rparr>"
  have "(unlink_and_rethrow (d, i) p e B :: ('a, order_book) outcome) =
      bind_outcome (if PriceLevel_isEmpty (level_of (d, i) B1) then on_ladder d (markEmpty (price ord)) B1 else Ret () B1)
        (\<lambda>_. release_and_rethrow p e)"
    using un(1,6,7) by (simp add: unlink_and_rethrow_def cong: if_cong)
  then have "(unlink_and_rethrow (d, i) p e B :: ('a, order_book) outcome) = Throw e ?B'"
    unfolding un(2) using un(10) P'(1) by (simp add: release_and_rethrow_def on_pool_def)
  moreover have "levels_rep {} (book_mem ?B') ?B' ?Q" using un(4) P'(2) levels_rep_cong [of ?B' B2] by simp
  moreover have "ladders_ok ?B' ?Q" using un(3) by (simp add: ladders_ok_def)
  moreover have "same_grids B ?B'" using un(11) by (simp add: same_grids_def)
  ultimately show thesis using that [of ?B' h'] un(5,9) P'(2,3) by simp
qed

subsection \<open>Adding an order\<close>

text \<open>The same orders at the same addresses, whatever their links.\<close>

definition same_orders :: "heap \<Rightarrow> heap \<Rightarrow> bool" where
  "same_orders h h' \<longleftrightarrow> (\<forall>q. map_option strip (h' q) = map_option strip (h q))"

lemma same_orders_refl [simp]: "same_orders h h"
  by (simp add: same_orders_def)

lemma same_orders_trans: "same_orders a b \<Longrightarrow> same_orders b c \<Longrightarrow> same_orders a c"
  by (simp add: same_orders_def)

lemma relinked_same: "relinked A h h' \<Longrightarrow> same_orders h h'"
  by (simp add: relinked_def same_orders_def)

lemma same_orders_Some:
  assumes "same_orders h h'" and "h p = Some ord"
  obtains ord' where "h' p = Some ord'" "strip ord' = strip ord"
  using assms unfolding same_orders_def by (metis map_option_eq_Some)

lemma same_orders_sym: "same_orders h h' \<Longrightarrow> same_orders h' h"
  by (simp add: same_orders_def)

lemma index_agrees_same_imp:
  assumes "same_orders h h'" and "index_agrees ix h" and "index_map ix' = index_map ix"
  shows "index_agrees ix' h'"
proof -
  have ids: "(\<exists>ord. h' p = Some ord \<and> orderId ord = k) \<longleftrightarrow> (\<exists>ord. h p = Some ord \<and> orderId ord = k)" for p k
    using same_orders_Some [OF assms(1), of p] same_orders_Some [OF same_orders_sym [OF assms(1)], of p] strip_eqD(1)
    by metis
  show ?thesis using assms(2,3) unfolding index_agrees_def ids by simp
qed

lemma index_agrees_add:
  assumes ag: "index_agrees ix h" and same: "same_orders (h(p \<mapsto> ord)) h'" and p: "h p = None"
    and m: "index_map ix' = (index_map ix)(orderId ord \<mapsto> p)" and new: "index_map ix (orderId ord) = None"
  shows "index_agrees ix' h'"
proof -
  have "index_map ix' k = Some q \<longleftrightarrow> (\<exists>o'. (h(p \<mapsto> ord)) q = Some o' \<and> orderId o' = k)" for k q
  proof (cases "q = p")
    case True
    have "index_map ix k \<noteq> Some p" using index_agreesD(2) [OF ag, of k p] p by auto
    with True m show ?thesis by auto
  next
    case False
    have "index_map ix k = Some q \<longleftrightarrow> (\<exists>o'. h q = Some o' \<and> orderId o' = k)" using ag by (simp add: index_agrees_def)
    moreover have "index_map ix (orderId ord) \<noteq> Some q" using new by simp
    ultimately show ?thesis using False m by auto
  qed
  then have "index_agrees ix' (h(p \<mapsto> ord))" unfolding index_agrees_def by blast
  from index_agrees_same_imp [OF same this refl] show ?thesis .
qed

lemma set_level_id:
  assumes "n < length (levels (ladder_of d B))"
  shows "set_level (d, n) (level_of (d, n) B) (set_mem (book_mem B) B) = B"
  by (cases d) (simp_all add: set_level_def level_of_def set_mem_def book_mem_def)

lemma book_rep_pool:
  assumes "book_rep os H B Q" and "pool_ok os P" and "mem P = book_mem B"
  shows "book_rep os H (B\<lparr>orderPool := P\<rparr>) Q"
  using assms levels_rep_cong [of "B\<lparr>orderPool := P\<rparr>" B]
  by (simp add: book_rep_def book_rep_ex_def ladders_ok_def)

lemma release_fresh:
  assumes rep: "book_rep os H B Q" and P: "pool_ok os P" "mem P = (book_mem B)(p \<mapsto> ord)" and p: "book_mem B p = None"
  obtains B' where "(release_and_rethrow p e (B\<lparr>orderPool := P\<rparr>) :: ('a, order_book) outcome) = Throw e B'"
    "book_rep os H B' Q" "same_orders (book_mem B) (book_mem B')" "same_grids B B'"
proof -
  obtain P' where P': "OrderPool_release (Some p) P = Ret () P'" "mem P' = (mem P)(p := None)" "pool_ok os P'"
    using OrderPool_release_ok [OF P(1), of p ord] P(2) by auto
  have m: "mem P' = book_mem B" using P'(2) P(2) p by auto
  have "(release_and_rethrow p e (B\<lparr>orderPool := P\<rparr>) :: ('a, order_book) outcome) = Throw e (B\<lparr>orderPool := P'\<rparr>)"
    using P'(1) by (simp add: release_and_rethrow_def on_pool_def)
  then show thesis
    by (rule that) (use book_rep_pool [OF rep P'(3) m] m in \<open>simp_all add: same_grids_def\<close>)
qed

text \<open>When an insertion goes through: the conditions the code checks, and memory for the order.\<close>

definition can_rest :: "u64 \<Rightarrow> u64 \<Rightarrow> u64 \<Rightarrow> u64 \<Rightarrow> u64 \<Rightarrow> order_side \<Rightarrow> order_type \<Rightarrow> u64 \<Rightarrow> order_book \<Rightarrow> bool" where
  "can_rest i pr oq rq t sd ty sq B \<longleftrightarrow>
     ty = LIMIT \<and> rq \<noteq> 0 \<and> Order_isValid (Order_full i pr oq rq t sd ty sq) \<and>
     (let d = (if sd = BUY then Bids else Asks) in
      case indexOf pr (ladder_of d B) of Inl _ \<Rightarrow> False
      | Inr n \<Rightarrow> unat rq + unat (totalQuantity (level_of (d, n) B)) < SIZE_RANGE) \<and>
     index_map (orderIndex B) i = None \<and> index_count (orderIndex B) + 1 < 2 ^ 53 \<and>
     firstPageWithFreeSlot (orderPool B) \<noteq> None"

lemma PriceLevel_addOrder_overflow:
  assumes "h p = Some ord" "price ord = levelPrice l" "priceLevel ord = None" "remainingQuantity ord \<noteq> 0"
    and "\<not> unat (remainingQuantity ord) + unat (totalQuantity l) < SIZE_RANGE"
  shows "PriceLevel_addOrder r (Some p) (l, h) = Throw (OverflowError ''Price level quantity overflow'') (l, h)"
proof -
  have "remainingQuantity ord > - 1 - totalQuantity l" unfolding addOrder_overflow using assms(5) by simp
  with assms(1-4) show ?thesis by (simp add: PriceLevel_addOrder_def isFullyFilled_def)
qed

lemma upd_queue_back:
  assumes "p \<notin> set (Q d n)"
  shows "upd_queue (d, n) (filter (\<lambda>q. q \<noteq> p) (upd_queue (d, n) (Q d n @ [p]) Q d n)) (upd_queue (d, n) (Q d n @ [p]) Q) = Q"
proof -
  have "filter (\<lambda>q. q \<noteq> p) (Q d n @ [p]) = Q d n" using assms by (simp add: filter_id_conv) (metis assms)
  then show ?thesis by (auto simp: upd_queue_def fun_eq_iff)
qed

text \<open>The rest of the try block once the order is in its level: marked and indexed.\<close>

abbreviation mark_and_index :: "hash_fun \<Rightarrow> ladder_id \<Rightarrow> bool \<Rightarrow> u64 \<Rightarrow> ptr \<Rightarrow> order_book \<Rightarrow> (unit, order_book) outcome" where
  "mark_and_index H d w pr p B \<equiv>
     bind_outcome (if w then on_ladder d (markOccupied pr) B else Ret () B)
       (\<lambda>_ B3. on_index (OrderIndex_addOrder H (book_mem B3) (Some p)) B3)"

text \<open>What holds when it succeeds, and what it leaves to the rollback when it throws.\<close>

definition inserted :: "os_env \<Rightarrow> hash_fun \<Rightarrow> order_book \<Rightarrow> queues \<Rightarrow> ptr \<Rightarrow> order \<Rightarrow> order_book \<Rightarrow> bool" where
  "inserted os H B Q p ord B4 \<longleftrightarrow> index_map (orderIndex B) (orderId ord) = None \<and>
     book_rep os H B4 Q \<and> same_orders ((book_mem B)(p \<mapsto> ord)) (book_mem B4) \<and> same_grids B B4"

definition half_inserted :: "os_env \<Rightarrow> hash_fun \<Rightarrow> order_book \<Rightarrow> queues \<Rightarrow> ptr \<Rightarrow> order \<Rightarrow> error \<Rightarrow> order_book \<Rightarrow> bool" where
  "half_inserted os H B Q p ord e B4 \<longleftrightarrow> defined_error e \<and>
     (index_map (orderIndex B) (orderId ord) \<noteq> None \<or> \<not> index_count (orderIndex B) + 1 < 2 ^ 53) \<and>
     pool_ok os (orderPool B4) \<and> ladders_ok B4 Q \<and> levels_rep {} (book_mem B4) B4 Q \<and>
     index_ok H (orderIndex B4) \<and> index_map (orderIndex B4) = index_map (orderIndex B) \<and>
     same_orders ((book_mem B)(p \<mapsto> ord)) (book_mem B4) \<and> same_grids B B4"

lemma link_and_index:
  assumes rep: "book_rep os H B Q" and P: "pool_ok os P" "mem P = (book_mem B)(p \<mapsto> ord)" and p: "book_mem B p = None"
    and n: "n < levelCount (ladder_of d B)" "price ord = levelPrice (level_of (d, n) B)"
    and ord: "good_order d ord" "priceLevel ord = None"
    and fits: "unat (remainingQuantity ord) + unat (totalQuantity (level_of (d, n) B)) < SIZE_RANGE"
  defines "B1 \<equiv> B\<lparr>orderPool := P\<rparr>"
  obtains B2 where "on_level (d, n) (PriceLevel_addOrder (d, n) (Some p)) B1 = Ret () B2"
    "case mark_and_index H d (PriceLevel_isEmpty (level_of (d, n) B1)) (price ord) p B2 of
       Ret _ B4 \<Rightarrow> inserted os H B (upd_queue (d, n) (Q d n @ [p]) Q) p ord B4
     | Throw e B4 \<Rightarrow> half_inserted os H B (upd_queue (d, n) (Q d n @ [p]) Q) p ord e B4"
proof -
  note D = book_repD [OF rep [unfolded book_rep_def]]
  let ?Q = "upd_queue (d, n) (Q d n @ [p]) Q"
  have len: "n < length (levels (ladder_of d B))" using n(1) ladders_okD(4) [OF D(3)] by simp
  obtain l' h' where ln: "PriceLevel_addOrder (d, n) (Some p) (level_of (d, n) B, (book_mem B)(p \<mapsto> ord)) = Ret () (l', h')"
    "levels_rep {} h' (set_level (d, n) l' B) ?Q" "levelPrice l' = levelPrice (level_of (d, n) B)"
    "relinked (set (Q d n @ [p])) ((book_mem B)(p \<mapsto> ord)) h'"
    "unat (totalQuantity l') = unat (totalQuantity (level_of (d, n) B)) + unat (remainingQuantity ord)"
    using levels_link [OF D(4) n(1) len p ord n(2) fits] .
  let ?B2 = "set_level (d, n) l' (set_mem h' B1)"
  have step: "on_level (d, n) (PriceLevel_addOrder (d, n) (Some p)) B1 = Ret () ?B2"
    using ln(1) len P(2) by (simp add: on_level_def B1_def)
  have lad: "ladders_ok (set_mem h' B1) Q" using D(3) by (simp add: ladders_ok_def B1_def)
  have we: "PriceLevel_isEmpty (level_of (d, n) B1) \<longleftrightarrow> Q d n = []"
    using PriceLevel_isEmpty_rep [OF levels_repD(1) [OF D(4) n(1)]] by (simp add: B1_def)
  obtain B3 where B3: "(if PriceLevel_isEmpty (level_of (d, n) B1) then on_ladder d (markOccupied (price ord)) ?B2 else Ret () ?B2) = Ret () B3"
    "ladders_ok B3 ?Q" "same_but_marks ?B2 B3"
    by (rule mark_if_first [OF lad, where i = n and d = d and l = l' and ps = "Q d n @ [p]" and pr = "price ord"
          and w = "PriceLevel_isEmpty (level_of (d, n) B1)"])
      (use n ln(3) we in \<open>simp_all add: B1_def\<close>)
  note S = same_but_marksD [OF B3(3)] and same = relinked_same [OF ln(4)]
  have m3: "book_mem B3 = h'" "orderIndex B3 = orderIndex B" "orderPool B3 = P\<lparr>mem := h'\<rparr>"
    using S(1) B3(3) by (simp_all add: same_but_marks_def B1_def)
  have lev: "levels_rep {} h' B3 ?Q"
    using ln(2) S(4) levels_rep_cong [of ?B2 "set_level (d, n) l' B"] by (simp add: ladder_of_set_level B1_def)
  have pool: "pool_ok os (P\<lparr>mem := h'\<rparr>)" using pool_ok_mem [of h' P os] relinked_dom [OF ln(4)] P by simp
  have gr: "same_grids B B3"
    using B3(3) by (simp add: same_grids_def same_but_marks_def ladder_of_set_level grid_eq_def B1_def split: if_splits)
  obtain o' where o': "h' p = Some o'" "strip o' = strip ord" using same_orders_Some [OF same, of p ord] by auto
  have id: "orderId o' = orderId ord" using strip_eqD(1) [OF o'(2)] .
  have upd: "levels_rep {} h' (B3\<lparr>orderIndex := ix\<rparr>) ?Q" "ladders_ok (B3\<lparr>orderIndex := ix\<rparr>) ?Q" "same_grids B (B3\<lparr>orderIndex := ix\<rparr>)" for ix
    using lev levels_rep_cong [of "B3\<lparr>orderIndex := ix\<rparr>" B3] B3(2) gr by (simp_all add: ladders_ok_def same_grids_def)
  show thesis
  proof (rule that [OF step])
    show "case mark_and_index H d (PriceLevel_isEmpty (level_of (d, n) B1)) (price ord) p ?B2 of
       Ret _ B4 \<Rightarrow> inserted os H B ?Q p ord B4 | Throw e B4 \<Rightarrow> half_inserted os H B ?Q p ord e B4"
      unfolding B3(1)
    proof (rule OrderIndex_addOrder_cases [of H "orderIndex B" h' p o', OF D(2) o'(1)], goal_cases)
      case (1 ix')
      have "index_agrees ix' h'"
        by (rule index_agrees_add [OF D(5) same p]) (use 1 id in simp_all)
      then have "book_rep os H (B3\<lparr>orderIndex := ix'\<rparr>) ?Q"
        using 1 upd [of ix'] m3 pool by (simp add: book_rep_def book_rep_ex_def)
      then show ?case using 1 m3 id same upd(3) [of ix'] by (simp add: on_index_def inserted_def)
    next
      case (2 ix')
      then show ?case using m3 id same upd [of ix'] pool by (simp add: on_index_def half_inserted_def)
    next
      case 3
      then show ?case using m3 id same upd [of "orderIndex B"] pool D(2)
        by (simp add: on_index_def half_inserted_def length_error_def)
    qed
  qed
qed

text \<open>
  The two results of an insertion: the order rests at the end of its level's queue, or the
  book holds what it held before (possibly with more storage) and the exception says why.
\<close>

definition add_refused :: "os_env \<Rightarrow> hash_fun \<Rightarrow> order_book \<Rightarrow> queues \<Rightarrow> error \<Rightarrow> order_book \<Rightarrow> bool" where
  "add_refused os H B Q e B' \<longleftrightarrow> defined_error e \<and> book_rep os H B' Q \<and>
     same_orders (book_mem B) (book_mem B') \<and> same_grids B B'"

lemma undo_insert:
  assumes rep: "book_rep os H B Q" and half: "half_inserted os H B (upd_queue (d, n) (Q d n @ [p]) Q) p ord e B4"
    and n: "n < levelCount (ladder_of d B)" and p: "book_mem B p = None"
  obtains B' where "(unlink_and_rethrow (d, n) p e B4 :: ('a, order_book) outcome) = Throw e B'" "add_refused os H B Q e B'"
proof -
  note D = book_repD [OF rep [unfolded book_rep_def]]
  let ?Q = "upd_queue (d, n) (Q d n @ [p]) Q"
  from half have h: "defined_error e" "pool_ok os (orderPool B4)" "ladders_ok B4 ?Q" "levels_rep {} (book_mem B4) B4 ?Q"
    "index_ok H (orderIndex B4)" "index_map (orderIndex B4) = index_map (orderIndex B)"
    "same_orders ((book_mem B)(p \<mapsto> ord)) (book_mem B4)" "same_grids B B4" by (simp_all add: half_inserted_def)
  have out: "p \<notin> set (Q d n)" using levels_repD(2) [OF D(4) n, of p] p by auto
  obtain o' where o': "book_mem B4 p = Some o'" using same_orders_Some [OF h(7), of p ord] by auto
  have n4: "n < levelCount (ladder_of d B4)" "p \<in> set (?Q d n)"
    using n same_grids_count [OF h(8)] by (simp_all add: upd_queue_app)
  obtain B' h' where u: "(unlink_and_rethrow (d, n) p e B4 :: ('a, order_book) outcome) = Throw e B'"
    "ladders_ok B' Q" "pool_ok os (orderPool B')" "levels_rep {} (book_mem B') B' Q"
    "orderIndex B' = orderIndex B4" "same_grids B4 B'" "relinked (set (?Q d n)) (book_mem B4) h'" "book_mem B' = h'(p := None)"
    using unlink_and_rethrow_ok [OF h(3,4,2) n4 o', where e = e] unfolding upd_queue_back [of p Q d n, OF out] .
  have same: "same_orders (book_mem B) (book_mem B')"
    unfolding same_orders_def
  proof
    fix q
    show "map_option strip (book_mem B' q) = map_option strip (book_mem B q)"
      using h(7) relinked_same [OF u(7)] u(8) p by (cases "q = p") (simp_all add: same_orders_def)
  qed
  have "index_agrees (orderIndex B') (book_mem B')"
    by (rule index_agrees_same_imp [OF same D(5)]) (simp add: u(5) h(6))
  then have "book_rep os H B' Q" using u(2-5) h(5) by (simp add: book_rep_def book_rep_ex_def)
  with u(1) h(1) same same_grids_trans [OF h(8) u(6)] show thesis
    by (intro that [of B']) (simp_all add: add_refused_def)
qed

lemma addOrder_guards:
  assumes "\<not> (ty = LIMIT \<and> Quantity_isValid oq \<and> Quantity_isValid rq \<and> rq \<le> oq)"
  obtains e where "addOrderWithQuantities os H i pr oq rq t sd ty sq B = Throw e B" "defined_error e"
    "\<not> can_rest i pr oq rq t sd ty sq B"
proof (cases "ty = LIMIT")
  case True
  then have "\<not> can_rest i pr oq rq t sd ty sq B"
    using assms by (auto simp: can_rest_def Order_isValid_def Let_def valid_defs not_le)
  moreover have "addOrderWithQuantities os H i pr oq rq t sd ty sq B =
      Throw (InvalidArgument ''Invalid original or remaining quantity'') B"
    using True assms by (auto simp: addOrderWithQuantities_def not_le)
  ultimately show thesis using that by simp
next
  case False
  then show thesis using that by (simp add: addOrderWithQuantities_def can_rest_def)
qed

lemma levelAt_book:
  assumes "ladders_ok B Q"
  shows "levelAt pr (ladder_of d B) = indexOf pr (ladder_of d B)"
  using levelAt_indexOf ladder_okD(1) [OF ladders_okD(1) [OF assms]] by blast

lemma indexOf_book:
  assumes "ladders_ok B Q" and "indexOf pr (ladder_of d B) = Inr n"
  shows "n < levelCount (ladder_of d B)" "levelPrice (level_of (d, n) B) = pr"
proof -
  note sh = ladder_okD(1) [OF ladders_okD(1) [OF assms(1), of d]]
  show "n < levelCount (ladder_of d B)" using indexOf_Inr(1) [OF sh assms(2)] .
  from level_price_at [OF assms(1) this] indexOf_Inr(2) [OF sh assms(2)] show "levelPrice (level_of (d, n) B) = pr" by simp
qed

lemma indexOf_error_defined: "indexOf pr L = Inl e \<Longrightarrow> defined_error e"
  using indexOf_cases [of pr L] by auto

text \<open>After the allocation: the try block and its two handlers.\<close>

lemma addOrder_try:
  assumes rep: "book_rep os H B Q" and P: "pool_ok os P" "mem P = (book_mem B)(p \<mapsto> ord)" and p: "book_mem B p = None"
    and ord: "ord = Order_full i pr oq rq t sd LIMIT sq" and rq: "rq \<noteq> 0"
    and alloc: "OrderPool_allocate os ord (orderPool B) = Ret p P"
    and g: "Quantity_isValid oq" "Quantity_isValid rq" "rq \<le> oq"
  defines "d \<equiv> (if sd = BUY then Bids else Asks)"
  obtains (added) B' n where "addOrderWithQuantities os H i pr oq rq t sd LIMIT sq B = Ret p B'"
      "Order_isValid ord" "indexOf pr (ladder_of d B) = Inr n"
      "inserted os H B (upd_queue (d, n) (Q d n @ [p]) Q) p ord B'"
    | (refused) e B' where "addOrderWithQuantities os H i pr oq rq t sd LIMIT sq B = Throw e B'"
      "add_refused os H B Q e B'" "\<not> can_rest i pr oq rq t sd LIMIT sq B"
proof -
  note D = book_repD [OF rep [unfolded book_rep_def]]
  let ?B1 = "B\<lparr>orderPool := P\<rparr>"
  let ?add = "addOrderWithQuantities os H i pr oq rq t sd LIMIT sq B"
  have side: "(if isBuy ord then Bids else Asks) = d" and hp: "book_mem ?B1 p = Some ord"
    using P(2) by (simp_all add: ord d_def isBuy_def)
  have start: "?add = (if \<not> Order_isValid ord
           then release_and_rethrow p (InvalidArgument ''Cannot add an invalid order'') ?B1
           else case indexOf pr (ladder_of d B) of
                Inl e \<Rightarrow> release_and_rethrow p e ?B1
              | Inr n \<Rightarrow>
                (case on_level (d, n) (PriceLevel_addOrder (d, n) (Some p)) ?B1 of
                   Throw e B2 \<Rightarrow> release_and_rethrow p e B2
                 | Ret _ B2 \<Rightarrow>
                   (case mark_and_index H d (PriceLevel_isEmpty (level_of (d, n) ?B1)) pr p B2 of
                      Throw e B4 \<Rightarrow> unlink_and_rethrow (d, n) p e B4
                    | Ret _ B4 \<Rightarrow> Ret p B4)))"
    using g(1,2) leD [OF g(3)] alloc hp side levelAt_book [OF D(3)] unfolding addOrderWithQuantities_def on_pool_def ord
    by (simp add: Let_def del: book_mem_upd level_of_upd cong: sum.case_cong outcome.case_cong if_cong)
  have undo: thesis if "?add = release_and_rethrow p e ?B1" "defined_error e" "\<not> can_rest i pr oq rq t sd LIMIT sq B" for e
    using release_fresh [OF rep P p, of e] refused that unfolding add_refused_def by metis
  show thesis
  proof (cases "Order_isValid ord")
    case False
    then show thesis using undo start ord by (simp add: can_rest_def)
  next
    case valid: True
    show thesis
    proof (cases "indexOf pr (ladder_of d B)")
      case (Inl e)
      then show thesis using undo [of e] start valid indexOf_error_defined [OF Inl] by (simp add: can_rest_def d_def Let_def)
    next
      case (Inr n)
      note n = indexOf_book [OF D(3) Inr]
      have len: "n < length (levels (ladder_of d B))" using n(1) ladders_okD(4) [OF D(3)] by simp
      have good: "good_order d ord" "priceLevel ord = None" "price ord = levelPrice (level_of (d, n) B)" "remainingQuantity ord = rq"
        using valid rq n(2) by (auto simp: good_order_def ord d_def isBuy_def isLimit_def)
      show thesis
      proof (cases "unat rq + unat (totalQuantity (level_of (d, n) B)) < SIZE_RANGE")
        case False
        have "PriceLevel_addOrder (d, n) (Some p) (level_of (d, n) ?B1, book_mem ?B1)
            = Throw (OverflowError ''Price level quantity overflow'') (level_of (d, n) ?B1, book_mem ?B1)"
          by (rule PriceLevel_addOrder_overflow [of "book_mem ?B1" p ord, OF hp]) (use good False rq in simp_all)
        then have "on_level (d, n) (PriceLevel_addOrder (d, n) (Some p)) ?B1 = Throw (OverflowError ''Price level quantity overflow'') ?B1"
          using len set_level_id [of n d ?B1] by (simp add: on_level_def del: book_mem_upd level_of_upd)
        then show thesis
          using undo [of "OverflowError ''Price level quantity overflow''"] start valid Inr False by (simp add: can_rest_def d_def Let_def)
      next
        case fits: True
        obtain B2 where B2: "on_level (d, n) (PriceLevel_addOrder (d, n) (Some p)) ?B1 = Ret () B2"
          "case mark_and_index H d (PriceLevel_isEmpty (level_of (d, n) ?B1)) (price ord) p B2 of
             Ret _ B4 \<Rightarrow> inserted os H B (upd_queue (d, n) (Q d n @ [p]) Q) p ord B4
           | Throw e B4 \<Rightarrow> half_inserted os H B (upd_queue (d, n) (Q d n @ [p]) Q) p ord e B4"
          by (rule link_and_index [OF rep P p n(1) good(3,1,2)]) (use fits good(4) in auto)
        have pr: "price ord = pr" using ord by simp
        note B2' = B2(2) [unfolded pr]
        show thesis
        proof (cases "mark_and_index H d (PriceLevel_isEmpty (level_of (d, n) ?B1)) pr p B2")
          case (Ret a B4)
          then show thesis using added [of B4 n] start valid Inr B2(1) B2' by (simp del: level_of_upd)
        next
          case (Throw e B4)
          then have half: "half_inserted os H B (upd_queue (d, n) (Q d n @ [p]) Q) p ord e B4" using B2' by (simp del: level_of_upd)
          obtain B' where B': "(unlink_and_rethrow (d, n) p e B4 :: (u64, order_book) outcome) = Throw e B'" "add_refused os H B Q e B'"
            using undo_insert [OF rep half n(1) p] .
          have "\<not> can_rest i pr oq rq t sd LIMIT sq B" using half ord by (auto simp: half_inserted_def can_rest_def)
          with B' show thesis using refused [of e B'] start valid Inr B2(1) Throw by (simp del: level_of_upd)
        qed
      qed
    qed
  qed
qed

lemma addOrder_cases:
  fixes i pr oq rq t sq :: u64 and sd :: order_side and ty :: order_type
  assumes rep: "book_rep os H B Q" and fresh: "os_fresh os"
  defines "d \<equiv> (if sd = BUY then Bids else Asks)" and "ord \<equiv> Order_full i pr oq rq t sd ty sq"
  obtains (added) p B' n where "addOrderWithQuantities os H i pr oq rq t sd ty sq B = Ret p B'" "book_mem B p = None"
      "ty = LIMIT" "rq \<noteq> 0" "Order_isValid ord" "indexOf pr (ladder_of d B) = Inr n"
      "inserted os H B (upd_queue (d, n) (Q d n @ [p]) Q) p ord B'"
    | (refused) e B' where "addOrderWithQuantities os H i pr oq rq t sd ty sq B = Throw e B'"
      "add_refused os H B Q e B'" "\<not> can_rest i pr oq rq t sd ty sq B"
proof (cases "ty = LIMIT \<and> Quantity_isValid oq \<and> Quantity_isValid rq \<and> rq \<le> oq")
  case False
  show thesis
    by (rule addOrder_guards [OF False, of os H i pr t sd sq B])
      (use refused rep in \<open>auto simp: add_refused_def\<close>)
next
  case g: True
  then have rq: "rq \<noteq> 0" and ty: "ty = LIMIT" by (simp_all add: valid_defs)
  note D = book_repD [OF rep [unfolded book_rep_def]]
  show thesis
  proof (cases rule: OrderPool_allocate_cases [OF D(1) fresh, of ord])
    case (1 p P)
    show thesis
    proof (rule addOrder_try [OF rep 1(5) _ _ _ rq, of p ord i pr oq t sd sq])
      show "mem P = (book_mem B)(p \<mapsto> ord)" "book_mem B p = None" "ord = Order_full i pr oq rq t sd LIMIT sq"
        "OrderPool_allocate os ord (orderPool B) = Ret p P" "Quantity_isValid oq" "Quantity_isValid rq" "rq \<le> oq"
        using 1 g by (simp_all add: ord_def book_mem_def)
    next
      fix B' n assume "addOrderWithQuantities os H i pr oq rq t sd LIMIT sq B = Ret p B'" "Order_isValid ord"
        "indexOf pr (ladder_of (if sd = BUY then Bids else Asks) B) = Inr n"
        "inserted os H B (upd_queue (if sd = BUY then Bids else Asks, n) (Q (if sd = BUY then Bids else Asks) n @ [p]) Q) p ord B'"
      then show thesis using added [of p B' n] ty rq 1(2) unfolding d_def book_mem_def by blast
    next
      fix e B' assume "addOrderWithQuantities os H i pr oq rq t sd LIMIT sq B = Throw e B'"
        "add_refused os H B Q e B'" "\<not> can_rest i pr oq rq t sd LIMIT sq B"
      then show thesis using refused [of e B'] ty by blast
    qed
  next
    case (2 e P)
    have "addOrderWithQuantities os H i pr oq rq t sd ty sq B = Throw e (B\<lparr>orderPool := P\<rparr>)"
      using g 2(1) leD [of rq oq] by (simp add: addOrderWithQuantities_def on_pool_def ord_def)
    moreover have "add_refused os H B Q e (B\<lparr>orderPool := P\<rparr>)"
      using book_rep_pool [OF rep 2(4)] 2(2,3) page_errors_defined
      by (simp add: add_refused_def book_mem_def same_grids_def)
    moreover have "\<not> can_rest i pr oq rq t sd ty sq B" using 2(6) by (simp add: can_rest_def)
    ultimately show thesis by (rule refused)
  qed
qed

subsection \<open>Changing a quantity in place\<close>

abbreviation with_remaining :: "u64 \<Rightarrow> order \<Rightarrow> order" where
  "with_remaining q ord \<equiv> ord\<lparr>remainingQuantity := q\<rparr>"

lemma good_order_remaining:
  assumes "good_order d ord" and "q \<le> remainingQuantity ord" and "q \<noteq> 0"
  shows "good_order d (with_remaining q ord)"
  using assms by (auto simp: good_order_def Order_isValid_def order_kind_defs Let_def)

lemma levels_rep_quantity:
  assumes rep: "levels_rep {} h B Q" and i: "i < levelCount (ladder_of d B)" "i < length (levels (ladder_of d B))"
    and p: "p \<in> set (Q d i)" "h p = Some ord" and q: "q \<le> remainingQuantity ord" "q \<noteq> 0 \<or> Y = {p}" "Y \<subseteq> {p}"
    and lv: "level_rep (h(p \<mapsto> with_remaining q ord)) (d, i) l' (Q d i)"
  shows "levels_rep Y (h(p \<mapsto> with_remaining q ord)) (set_level (d, i) l' B) Q"
proof -
  let ?h = "h(p \<mapsto> with_remaining q ord)"
  have good: "good_order d ord" "isBuy ord \<longleftrightarrow> d = Bids" using levels_repD(2) [OF rep i(1) p(1)] p(2) by auto
  have "levels_rep Y ?h (set_level (d, i) l' B) (upd_queue (d, i) (Q d i) Q)"
  proof (rule levels_rep_step [OF rep i lv])
    fix x assume "x \<in> set (Q d i)"
    from levels_repD(2) [OF rep i(1) this]
    show "\<exists>ord. ?h x = Some ord \<and> (isBuy ord \<longleftrightarrow> d = Bids) \<and> (x \<notin> Y \<longrightarrow> good_order d ord)"
      using good good_order_remaining [OF good(1) q(1)] q(2) by (cases "x = p") (auto simp: isBuy_def)
  next
    fix c j x assume "j < levelCount (ladder_of c B)" "(c, j) \<noteq> (d, i)" "x \<in> set (Q c j)"
    then have "x \<noteq> p" using levels_rep_disjoint [OF rep i(1), of j c x] p(1) by auto
    then show "?h x = h x \<and> (x \<in> {} \<longrightarrow> x \<in> Y)" by simp
  next
    fix x assume "?h x \<noteq> None"
    then show "x \<in> set (Q d i) \<or> (h x \<noteq> None \<and> x \<notin> set (Q d i))" using p by (auto split: if_splits)
  qed
  moreover have "upd_queue (d, i) (Q d i) Q = Q" by (auto simp: upd_queue_def fun_eq_iff)
  ultimately show ?thesis by simp
qed

lemma index_agrees_quantity:
  assumes "index_agrees ix h" and "h p = Some ord"
  shows "index_agrees ix (h(p \<mapsto> with_remaining q ord))"
  using assms unfolding index_agrees_def by (auto simp: fun_upd_apply)

lemma set_level_twice [simp]: "set_level r l' (set_level r l B) = set_level r l' B"
  by (cases r, cases "fst r") (simp_all add: set_level_def)

text \<open>An order and its level's aggregate shrink together; the order keeps its place.\<close>

lemma reduce_in_place:
  assumes rep: "book_rep os H B Q" and p: "book_mem B p = Some ord" and q: "q < remainingQuantity ord"
  obtains r where "priceLevel ord = Some r" "snd r < levelCount (ladder_of (fst r) B)" "p \<in> set (Q (fst r) (snd r))"
    "q \<le> totalQuantity (level_of r B)"
    "book_rep os H (set_level r ((level_of r B)\<lparr>totalQuantity := totalQuantity (level_of r B) - q\<rparr>)
       (set_mem ((book_mem B)(p \<mapsto> with_remaining (remainingQuantity ord - q) ord)) B)) Q"
proof -
  note D = book_repD [OF rep [unfolded book_rep_def]]
  obtain d i where home: "i < levelCount (ladder_of d B)" "p \<in> set (Q d i)" "priceLevel ord = Some (d, i)"
    using levels_rep_home [OF D(4) p] by metis
  note lr = levels_repD(1) [OF D(4) home(1)]
  have len: "i < length (levels (ladder_of d B))" using home(1) ladders_okD(4) [OF D(3)] by simp
  let ?l = "(level_of (d, i) B)\<lparr>totalQuantity := totalQuantity (level_of (d, i) B) - q\<rparr>"
  let ?h = "(book_mem B)(p \<mapsto> with_remaining (remainingQuantity ord - q) ord)"
  have le: "remainingQuantity ord - q \<le> remainingQuantity ord" "remainingQuantity ord - q \<noteq> 0"
    using q by (auto simp: word_le_nat_alt word_less_nat_alt unat_sub_u64 u64_le_iff)
  have lev: "levels_rep {} ?h (set_level (d, i) ?l B) Q"
    by (rule levels_rep_quantity [OF D(4) home(1) len home(2) p le(1)])
      (use le level_rep_reduce [OF lr home(2) p] q in auto)
  let ?B' = "set_level (d, i) ?l (set_mem ?h B)"
  have "levels_rep {} ?h ?B' Q" using lev levels_rep_cong [of ?B' "set_level (d, i) ?l B"] by (simp add: ladder_of_set_level)
  moreover have "ladders_ok ?B' Q"
    using D(3) ladder_ok_level [OF ladders_okD(1) [OF D(3)] home(1), of ?l]
    by (auto simp: ladders_ok_def ladder_of_set_level level_of_def)
  moreover have "pool_ok os (orderPool ?B')" using pool_ok_mem [of ?h "orderPool B" os] D(1) p by (auto simp: book_mem_def)
  ultimately have "book_rep os H ?B' Q"
    using D(2) index_agrees_quantity [OF D(5), of p ord] p by (simp add: book_rep_def book_rep_ex_def)
  moreover have "q \<le> totalQuantity (level_of (d, i) B)" using level_rep_member_le [OF lr home(2) p] q by simp
  ultimately show thesis using that [of "(d, i)"] home by simp
qed

text \<open>A full fill before the removal: the aggregate still counts the order.\<close>

lemma fill_in_place:
  assumes rep: "book_rep os H B Q" and p: "book_mem B p = Some ord"
  shows "book_rep_ex {p} os H (set_mem ((book_mem B)(p \<mapsto> with_remaining 0 ord)) B) Q"
proof -
  note D = book_repD [OF rep [unfolded book_rep_def]]
  obtain d i where home: "i < levelCount (ladder_of d B)" "p \<in> set (Q d i)"
    using levels_rep_home [OF D(4) p] by metis
  note lr = levels_repD(1) [OF D(4) home(1)]
  have len: "i < length (levels (ladder_of d B))" using home(1) ladders_okD(4) [OF D(3)] by simp
  let ?h = "(book_mem B)(p \<mapsto> with_remaining 0 ord)" and ?l = "level_of (d, i) B"
  have "levels_rep {p} ?h (set_level (d, i) ?l B) Q"
    by (rule levels_rep_quantity [OF D(4) home(1) len home(2) p]) (use level_rep_fill [OF lr home(2) p, of 0] in auto)
  moreover have "set_level (d, i) ?l B = B" using set_level_id [OF len] by (simp add: set_mem_def book_mem_def)
  ultimately have "levels_rep {p} ?h (set_mem ?h B) Q" using levels_rep_cong [of "set_mem ?h B" B] by simp
  moreover have "pool_ok os (orderPool (set_mem ?h B))" using pool_ok_mem [of ?h "orderPool B" os] D(1) p by (auto simp: book_mem_def)
  ultimately show ?thesis
    using D(2,3) index_agrees_quantity [OF D(5), of p ord] p by (simp add: book_rep_ex_def ladders_ok_def)
qed

subsection \<open>Cancelling and reducing\<close>

lemma book_find:
  assumes "book_rep_ex X os H B Q"
  shows "OrderIndex_findOrder H k (orderIndex B) = Inr (index_map (orderIndex B) k)"
  using findOrder_map [OF book_repD(2) [OF assms]] .

lemma cancelOrder_cases:
  assumes rep: "book_rep os H B Q"
  obtains (absent) "cancelOrder H k B = Ret False B" "\<And>p ord. book_mem B p = Some ord \<Longrightarrow> orderId ord \<noteq> k"
    | (cancelled) p ord B' d i where "cancelOrder H k B = Ret True B'" "book_mem B p = Some ord" "orderId ord = k"
      "i < levelCount (ladder_of d B)" "p \<in> set (Q d i)"
      "book_rep os H B' (upd_queue (d, i) (filter (\<lambda>q. q \<noteq> p) (Q d i)) Q)" "dropped p B B'" "same_grids B B'"
proof (cases "index_map (orderIndex B) k")
  case None
  note D = book_repD [OF rep [unfolded book_rep_def]]
  show thesis
    by (rule absent) (use None book_find [OF rep [unfolded book_rep_def]] index_agreesD(1) [OF D(5)] in \<open>auto simp: cancelOrder_def\<close>)
next
  case (Some p)
  note D = book_repD [OF rep [unfolded book_rep_def]]
  obtain ord where ord: "book_mem B p = Some ord" "orderId ord = k" using index_agreesD(2) [OF D(5) Some] by blast
  obtain B' d i where "OrderBook_removeOrder H (Some p) B = Ret () B'"
    "i < levelCount (ladder_of d B)" "p \<in> set (Q d i)"
    "book_rep os H B' (upd_queue (d, i) (filter (\<lambda>q. q \<noteq> p) (Q d i)) Q)" "dropped p B B'" "same_grids B B'"
    using OrderBook_removeOrder_ok [OF rep [unfolded book_rep_def] empty_subsetI ord(1)] by metis
  then show thesis
    using cancelled [of B' p ord i d] ord Some book_find [OF rep [unfolded book_rep_def]] by (simp add: cancelOrder_def)
qed

definition reduce_error :: error where
  "reduce_error = InvalidArgument ''Reduction requires a nonzero quantity no greater than the remaining quantity''"

text \<open>What a successful reduction leaves: the same queues, one quantity changed.\<close>

definition reduced_to :: "u64 \<Rightarrow> ptr \<Rightarrow> order_book \<Rightarrow> order_book \<Rightarrow> bool" where
  "reduced_to q p B B' \<longleftrightarrow> same_grids B B' \<and> book_mem B' = (book_mem B)(p := map_option (with_remaining q) (book_mem B p))"

lemma reduceOrder_cases:
  assumes rep: "book_rep os H B Q"
  obtains (absent) "reduceOrder H k newQ B = Ret False B" "\<And>p ord. book_mem B p = Some ord \<Longrightarrow> orderId ord \<noteq> k"
    | (refused) p ord where "reduceOrder H k newQ B = Throw reduce_error B" "book_mem B p = Some ord" "orderId ord = k"
      "newQ = 0 \<or> newQ > remainingQuantity ord"
    | (reduced) p ord B' where "reduceOrder H k newQ B = Ret True B'" "book_mem B p = Some ord" "orderId ord = k"
      "newQ \<noteq> 0" "newQ \<le> remainingQuantity ord" "book_rep os H B' Q" "reduced_to newQ p B B'"
proof (cases "index_map (orderIndex B) k")
  case None
  note D = book_repD [OF rep [unfolded book_rep_def]]
  show thesis
    by (rule absent) (use None book_find [OF rep [unfolded book_rep_def]] index_agreesD(1) [OF D(5)] in \<open>auto simp: reduceOrder_def\<close>)
next
  case (Some p)
  note D = book_repD [OF rep [unfolded book_rep_def]] and find = book_find [OF rep [unfolded book_rep_def], of k]
  obtain ord where ord: "book_mem B p = Some ord" "orderId ord = k" using index_agreesD(2) [OF D(5) Some] by blast
  consider "newQ = 0 \<or> newQ > remainingQuantity ord" | "newQ \<noteq> 0" "newQ = remainingQuantity ord" | "newQ \<noteq> 0" "newQ < remainingQuantity ord"
    using linorder_less_linear [of newQ "remainingQuantity ord"] by blast
  then show thesis
  proof cases
    case 1
    then show thesis using refused [of p ord] ord Some find by (auto simp: reduceOrder_def reduce_error_def)
  next
    case 2
    have "reduced_to newQ p B B" using 2 ord by (auto simp: reduced_to_def)
    with 2 show thesis using reduced [of B p ord] ord Some find rep by (simp add: reduceOrder_def)
  next
    case 3
    let ?q = "remainingQuantity ord - newQ"
    have bk: "remainingQuantity ord - ?q = newQ" by simp
    have q: "?q < remainingQuantity ord"
      using 3 by (simp add: u64_less_iff unat_sub_u64 u64_le_iff u64_eq_0_iff)
    obtain d i where home: "i < levelCount (ladder_of d B)" "p \<in> set (Q d i)" "good_order d ord"
      using levels_rep_home [OF D(4) ord(1)] by (metis empty_iff)
    have le: "newQ \<le> originalQuantity ord" using home(3) 3(2) by (auto simp: good_order_def Order_isValid_def Let_def)
    let ?B1 = "set_mem ((book_mem B)(p \<mapsto> with_remaining newQ ord)) B"
    obtain r where r: "priceLevel ord = Some r" "snd r < levelCount (ladder_of (fst r) B)"
      "?q \<le> totalQuantity (level_of r B)"
      "book_rep os H (set_level r ((level_of r B)\<lparr>totalQuantity := totalQuantity (level_of r B) - ?q\<rparr>) ?B1) Q"
      using reduce_in_place [OF rep ord(1) q] unfolding bk by blast
    let ?B2 = "set_level r ((level_of r B)\<lparr>totalQuantity := totalQuantity (level_of r B) - ?q\<rparr>) ?B1"
    have "on_order p (setRemainingQuantity newQ) B = Ret () ?B1"
      using ord 3 le leD [OF le] by (simp add: on_order_def setRemainingQuantity_def Quantity_isValid_def)
    moreover have "on_level r (level_only (reduceTotalQuantity ?q)) ?B1 = Ret () ?B2"
      using r(2,3) ladders_okD(4) [OF D(3)] leD [OF r(3)] by (simp add: on_level_def level_only_def reduceTotalQuantity_def set_mem_def book_mem_def)
    ultimately have "reduceOrder H k newQ B = Ret True ?B2"
      using ord Some find 3 less_not_sym [OF 3(2)] r(1) by (simp add: reduceOrder_def Let_def less_imp_neq)
    moreover have "reduced_to newQ p B ?B2"
      using ord by (auto simp: reduced_to_def same_grids_def ladder_of_set_level grid_eq_def)
    ultimately show thesis using reduced [of ?B2 p ord] ord 3 r(4) by simp
  qed
qed

end
