(* ===== verification/Book_Spec.thy ===== *)
theory Book_Spec
  imports Order_Book
begin

text \<open>
  The abstract book: each side is the list of its resting orders in priority order, best
  price first and oldest first within a price. The reference operations work on that list
  with the functions of the list library, without pointers, indices or storage; the
  refinement lemmas show that the operations of the concrete book compute them.
\<close>

section \<open>Reference operations\<close>

text \<open>Whether a price is at least as good as another on a side.\<close>

fun at_least :: "ladder_id \<Rightarrow> u64 \<Rightarrow> u64 \<Rightarrow> bool" where
  "at_least Bids a b \<longleftrightarrow> b \<le> a"
| "at_least Asks a b \<longleftrightarrow> a \<le> b"

fun better :: "ladder_id \<Rightarrow> u64 \<Rightarrow> u64 \<Rightarrow> bool" where
  "better Bids a b \<longleftrightarrow> b < a"
| "better Asks a b \<longleftrightarrow> a < b"

text \<open>A new order goes behind every order with a price at least as good as its own.\<close>

definition spec_insert :: "ladder_id \<Rightarrow> order \<Rightarrow> order list \<Rightarrow> order list" where
  "spec_insert d ord os =
     takeWhile (\<lambda>x. at_least d (price x) (price ord)) os @ [ord] @
     dropWhile (\<lambda>x. at_least d (price x) (price ord)) os"

definition spec_cancel :: "u64 \<Rightarrow> order list \<Rightarrow> order list" where
  "spec_cancel k os = filter (\<lambda>x. orderId x \<noteq> k) os"

definition spec_reduce :: "u64 \<Rightarrow> u64 \<Rightarrow> order list \<Rightarrow> order list" where
  "spec_reduce k q os = map (\<lambda>x. if orderId x = k then with_remaining q x else x) os"

text \<open>
  Matching an incoming quantity against the opposite side: orders are consumed from the
  front while they cross; the last one may be filled partly.
\<close>

fun spec_match :: "(u64 \<Rightarrow> bool) \<Rightarrow> u64 \<Rightarrow> u64 \<Rightarrow> order list \<Rightarrow> execution list \<times> u64 \<times> order list" where
  "spec_match crosses i q [] = ([], q, [])"
| "spec_match crosses i q (x # xs) =
     (if q = 0 \<or> \<not> crosses (price x) then ([], q, x # xs)
      else
        let v = min q (remainingQuantity x);
            e = \<lparr>incomingOrderId = i, restingOrderId = orderId x, executionPrice = price x, executionQuantity = v\<rparr>
        in if v = remainingQuantity x
           then (case spec_match crosses i (q - v) xs of (es, r, ys) \<Rightarrow> (e # es, r, ys))
           else ([e], 0, with_remaining (remainingQuantity x - v) x # xs))"

section \<open>Abstraction\<close>

text \<open>The resting orders of a side, read off the ladder and the links.\<close>

definition order_at :: "heap \<Rightarrow> ptr \<Rightarrow> order" where
  "order_at h p = strip (the (h p))"

definition resting :: "ladder_id \<Rightarrow> order_book \<Rightarrow> order list" where
  "resting d B =
     concat (map (\<lambda>i. map (order_at (book_mem B)) (level_ptrs (book_mem B) (level_of (d, i) B)))
       [0..<levelCount (ladder_of d B)])"

definition side_ptrs :: "ladder_id \<Rightarrow> order_book \<Rightarrow> queues \<Rightarrow> ptr list" where
  "side_ptrs d B Q = concat (map (Q d) [0..<levelCount (ladder_of d B)])"

text \<open>A well-formed book, whatever its queues.\<close>

definition book_ok :: "os_env \<Rightarrow> hash_fun \<Rightarrow> order_book \<Rightarrow> bool" where
  "book_ok os H B \<longleftrightarrow> (\<exists>Q. book_rep os H B Q)"

section \<open>Lemmas\<close>

subsection \<open>Reading a side\<close>

lemma resting_ptrs:
  assumes "book_rep os H B Q"
  shows "resting d B = map (order_at (book_mem B)) (side_ptrs d B Q)"
proof -
  note D = book_repD [OF assms [unfolded book_rep_def]]
  have "map (\<lambda>i. map (order_at (book_mem B)) (level_ptrs (book_mem B) (level_of (d, i) B))) [0..<levelCount (ladder_of d B)]
      = map (\<lambda>i. map (order_at (book_mem B)) (Q d i)) [0..<levelCount (ladder_of d B)]"
    using level_ptrs_rep [OF levels_repD(1) [OF D(4)]] by (intro map_cong) simp_all
  then show ?thesis unfolding resting_def side_ptrs_def map_concat by (simp only: map_map comp_def)
qed

lemma side_ptrs_mem:
  assumes "levels_rep X h B Q" and "p \<in> set (side_ptrs d B Q)"
  obtains i ord where "i < levelCount (ladder_of d B)" "p \<in> set (Q d i)" "h p = Some ord" "priceLevel ord = Some (d, i)"
    "price ord = levelPrice (level_of (d, i) B)" "p \<notin> X \<Longrightarrow> good_order d ord"
proof -
  from assms(2) obtain i where "i < levelCount (ladder_of d B)" "p \<in> set (Q d i)" by (auto simp: side_ptrs_def)
  from that [OF this] levels_repD(2) [OF assms(1) this] show thesis by auto
qed

lemma distinct_concat_upt:
  assumes "\<And>i. i < n \<Longrightarrow> distinct (f i)" and "\<And>i j p. i < n \<Longrightarrow> j < n \<Longrightarrow> p \<in> set (f i) \<Longrightarrow> p \<in> set (f j) \<Longrightarrow> i = j"
  shows "distinct (concat (map f [0..<n]))"
  using assms
proof (induction n)
  case (Suc n)
  have "distinct (concat (map f [0..<n]))" by (rule Suc.IH) (use Suc.prems in auto)
  moreover have "set (concat (map f [0..<n])) \<inter> set (f n) = {}"
  proof (rule ccontr)
    assume "set (concat (map f [0..<n])) \<inter> set (f n) \<noteq> {}"
    then obtain i p where "i < n" "p \<in> set (f i)" "p \<in> set (f n)" by auto
    with Suc.prems(2) [of i n p] show False by simp
  qed
  ultimately show ?case using Suc.prems(1) [of n] by simp
qed simp

lemma side_ptrs_distinct:
  assumes "levels_rep X h B Q"
  shows "distinct (side_ptrs d B Q)"
  unfolding side_ptrs_def
  by (rule distinct_concat_upt)
    (use level_rep_distinct [OF levels_repD(1) [OF assms]] levels_rep_disjoint [OF assms] in blast)+

lemma side_ptrs_length:
  assumes "book_rep os H B Q"
  shows "length (side_ptrs d B Q) \<le> liveOrderCount (orderPool B)"
proof -
  note D = book_repD [OF assms [unfolded book_rep_def]]
  have "set (side_ptrs d B Q) \<subseteq> dom (book_mem B)" using side_ptrs_mem [OF D(4)] by blast
  then have "card (set (side_ptrs d B Q)) \<le> card (dom (book_mem B))" by (intro card_mono) simp_all
  then show ?thesis
    using D(1) distinct_card [OF side_ptrs_distinct [OF D(4), of d]] by (simp add: pool_ok_def book_mem_def)
qed

lemma order_at_Some: "h p = Some ord \<Longrightarrow> order_at h p = strip ord"
  by (simp add: order_at_def)

lemma order_at_same: "same_orders h h' \<Longrightarrow> h p \<noteq> None \<Longrightarrow> order_at h' p = order_at h p"
  unfolding same_orders_def order_at_def by (metis map_option_eq_Some not_None_eq option.sel option.map_sel)

lemma side_ptrs_grids: "same_grids B B' \<Longrightarrow> side_ptrs d B' Q = side_ptrs d B Q"
  by (simp add: side_ptrs_def same_grids_count)

lemma side_ptrs_upd:
  assumes "i < levelCount (ladder_of d B)"
  obtains xs ys where "side_ptrs d B Q = xs @ Q d i @ ys"
    "\<And>ps. side_ptrs d B (upd_queue (d, i) ps Q) = xs @ ps @ ys"
    "xs = concat (map (Q d) [0..<i])" "ys = concat (map (Q d) [Suc i..<levelCount (ladder_of d B)])"
proof -
  let ?n = "levelCount (ladder_of d B)"
  have sp: "[0..<?n] = [0..<i] @ i # [Suc i..<?n]"
    using assms by (metis upt_conv_Cons upt_add_eq_append zero_le le_add_diff_inverse less_imp_le_nat)
  have e: "map (upd_queue (d, i) ps Q d) [0..<i] = map (Q d) [0..<i]"
    "map (upd_queue (d, i) ps Q d) [Suc i..<?n] = map (Q d) [Suc i..<?n]" for ps
    by (auto simp: upd_queue_app)
  have "side_ptrs d B (upd_queue (d, i) ps Q) = concat (map (Q d) [0..<i]) @ ps @ concat (map (Q d) [Suc i..<?n])" for ps
    unfolding side_ptrs_def sp map_append list.map concat_append concat.simps e by (simp add: upd_queue_app)
  moreover have "side_ptrs d B Q = concat (map (Q d) [0..<i]) @ Q d i @ concat (map (Q d) [Suc i..<?n])"
    unfolding side_ptrs_def sp by simp
  ultimately show thesis using that by blast
qed

lemma side_ptrs_other: "c \<noteq> d \<Longrightarrow> side_ptrs c B (upd_queue (d, i) ps Q) = side_ptrs c B Q"
  by (simp add: side_ptrs_def upd_queue_def)

subsection \<open>Priority order\<close>

lemma better_imp_at_least: "better d a b \<Longrightarrow> at_least d a b"
  by (cases d) auto

lemma at_least_not_better: "at_least d a b \<longleftrightarrow> \<not> better d b a"
  by (cases d) auto

lemma at_least_refl [simp]: "at_least d a a"
  by (cases d) auto

lemma at_least_trans: "at_least d a b \<Longrightarrow> at_least d b c \<Longrightarrow> at_least d a c"
  by (cases d) auto

lemma level_price_better:
  assumes "ladders_ok B Q" and "i < j" and "j < levelCount (ladder_of d B)"
  shows "better d (levelPrice (level_of (d, i) B)) (levelPrice (level_of (d, j) B))"
  using price_at_mono [OF ladder_okD(1) [OF ladders_okD(1) [OF assms(1), of d]] assms(2,3)]
    level_price_at [OF assms(1), of i d] level_price_at [OF assms(1,3)] ladders_okD(2) [OF assms(1), of d] assms(2,3)
  by (cases d) auto

lemma queue_price:
  assumes "levels_rep X (book_mem B) B Q" and "i < levelCount (ladder_of d B)" and "p \<in> set (Q d i)"
  shows "price (order_at (book_mem B) p) = levelPrice (level_of (d, i) B)"
  using levels_repD(2) [OF assms] by (auto simp: order_at_def)

text \<open>A side lists its orders from the best price to the worst.\<close>

lemma sorted_wrt_concat_upt:
  assumes "\<And>i x y. i < n \<Longrightarrow> x \<in> set (f i) \<Longrightarrow> y \<in> set (f i) \<Longrightarrow> R x y"
    and "\<And>i j x y. i < j \<Longrightarrow> j < n \<Longrightarrow> x \<in> set (f i) \<Longrightarrow> y \<in> set (f j) \<Longrightarrow> R x y"
  shows "sorted_wrt R (concat (map f [0..<n]))"
  using assms
proof (induction n)
  case (Suc n)
  have "sorted_wrt R (concat (map f [0..<n]))"
  proof (rule Suc.IH)
    show "R x y" if "i < n" "x \<in> set (f i)" "y \<in> set (f i)" for i x y
      using that Suc.prems(1) [of i x y] by simp
    show "R x y" if "i < j" "j < n" "x \<in> set (f i)" "y \<in> set (f j)" for i j x y
      using that Suc.prems(2) [of i j x y] by simp
  qed
  moreover have "sorted_wrt R (f n)"
    unfolding sorted_wrt_iff_nth_less using Suc.prems(1) [of n] nth_mem by (metis lessI less_trans)
  moreover have "\<forall>x \<in> set (concat (map f [0..<n])). \<forall>y \<in> set (f n). R x y"
    using Suc.prems(2) [of _ n] by auto
  ultimately show ?case by (simp add: sorted_wrt_append)
qed simp

lemma resting_sorted:
  assumes "book_rep os H B Q"
  shows "sorted_wrt (\<lambda>a b. at_least d (price a) (price b)) (resting d B)"
proof -
  note D = book_repD [OF assms [unfolded book_rep_def]]
  have "sorted_wrt (\<lambda>p q. at_least d (price (order_at (book_mem B) p)) (price (order_at (book_mem B) q))) (side_ptrs d B Q)"
    unfolding side_ptrs_def
  proof (rule sorted_wrt_concat_upt)
    show "at_least d (price (order_at (book_mem B) p)) (price (order_at (book_mem B) q))"
      if "i < levelCount (ladder_of d B)" "p \<in> set (Q d i)" "q \<in> set (Q d i)" for i p q
      using queue_price [OF D(4) that(1)] that(2,3) by simp
    show "at_least d (price (order_at (book_mem B) p)) (price (order_at (book_mem B) q))"
      if "i < j" "j < levelCount (ladder_of d B)" "p \<in> set (Q d i)" "q \<in> set (Q d j)" for i j p q
      using queue_price [OF D(4), of i d p] queue_price [OF D(4) that(2,4)] that
        better_imp_at_least [OF level_price_better [OF D(3) that(1,2)]] by simp
  qed
  then show ?thesis unfolding resting_ptrs [OF assms] sorted_wrt_map .
qed

subsection \<open>Refinement\<close>

lemma spec_insert_split:
  assumes "\<forall>x \<in> set as. at_least d (price x) (price ord)" and "\<forall>x \<in> set bs. \<not> at_least d (price x) (price ord)"
  shows "spec_insert d ord (as @ bs) = as @ ord # bs"
proof -
  have "takeWhile (\<lambda>x. at_least d (price x) (price ord)) bs = [] \<and> dropWhile (\<lambda>x. at_least d (price x) (price ord)) bs = bs"
    using assms(2) by (cases bs) auto
  with assms(1) show ?thesis by (simp add: spec_insert_def takeWhile_append2 dropWhile_append2)
qed

lemma resting_insert:
  assumes rep: "book_rep os H B Q" and ins: "inserted os H B (upd_queue (d, n) (Q d n @ [p]) Q) p ord B'"
    and p: "book_mem B p = None" and n: "n < levelCount (ladder_of d B)" "price ord = levelPrice (level_of (d, n) B)"
    and st: "strip ord = ord"
  shows "resting d B' = spec_insert d ord (resting d B)" and "c \<noteq> d \<Longrightarrow> resting c B' = resting c B"
proof -
  note D = book_repD [OF rep [unfolded book_rep_def]]
  let ?Q = "upd_queue (d, n) (Q d n @ [p]) Q"
  from ins have rep': "book_rep os H B' ?Q" and same: "same_orders ((book_mem B)(p \<mapsto> ord)) (book_mem B')" and gr: "same_grids B B'"
    by (simp_all add: inserted_def)
  have at_p: "order_at (book_mem B') p = ord" using order_at_same [OF same, of p] st by (simp add: order_at_def)
  have at: "order_at (book_mem B') q = order_at (book_mem B) q" if "q \<in> set (side_ptrs c B Q)" for q c
    using that
  proof (rule side_ptrs_mem [OF D(4)])
    fix i o' assume "book_mem B q = Some o'"
    with p order_at_same [OF same, of q] show ?thesis by (auto simp: order_at_def)
  qed
  have maps: "map (order_at (book_mem B')) ps = map (order_at (book_mem B)) ps" if "set ps \<subseteq> set (side_ptrs c B Q)" for ps c
    using at that by (intro map_cong) auto
  show "resting c B' = resting c B" if "c \<noteq> d"
    unfolding resting_ptrs [OF rep] resting_ptrs [OF rep'] side_ptrs_grids [OF gr] side_ptrs_other [OF that]
    by (rule maps [of _ c]) simp
  obtain xs ys where xy: "side_ptrs d B Q = xs @ Q d n @ ys" "\<And>ps. side_ptrs d B (upd_queue (d, n) ps Q) = xs @ ps @ ys"
    "xs = concat (map (Q d) [0..<n])" "ys = concat (map (Q d) [Suc n..<levelCount (ladder_of d B)])"
    by (rule side_ptrs_upd [OF n(1), of Q]) blast
  have pre: "at_least d (price (order_at (book_mem B) q)) (price ord)" if "q \<in> set (xs @ Q d n)" for q
  proof -
    from that consider i where "i < n" "q \<in> set (Q d i)" | "q \<in> set (Q d n)" unfolding xy(3) by auto
    then show ?thesis
    proof cases
      case 1
      then show ?thesis using queue_price [OF D(4), of i d q] n level_price_better [OF D(3) 1(1) n(1)] better_imp_at_least by simp
    next
      case 2
      then show ?thesis using queue_price [OF D(4) n(1) 2] n(2) by simp
    qed
  qed
  have post: "\<not> at_least d (price (order_at (book_mem B) q)) (price ord)" if "q \<in> set ys" for q
  proof -
    from that obtain j where "n < j" "j < levelCount (ladder_of d B)" "q \<in> set (Q d j)" unfolding xy(4) by (auto simp: Suc_le_eq)
    then show ?thesis using queue_price [OF D(4), of j d q] n(2) level_price_better [OF D(3), of n j d] at_least_not_better by simp
  qed
  have "resting d B' = map (order_at (book_mem B)) (xs @ Q d n) @ ord # map (order_at (book_mem B)) ys"
    unfolding resting_ptrs [OF rep'] side_ptrs_grids [OF gr] xy(2)
    using maps [of "xs @ Q d n" d] maps [of ys d] xy(1) at_p by auto
  also have "\<dots> = spec_insert d ord (map (order_at (book_mem B)) (xs @ Q d n) @ map (order_at (book_mem B)) ys)"
    by (rule spec_insert_split [symmetric]) (use pre post in auto)
  finally show "resting d B' = spec_insert d ord (resting d B)"
    unfolding resting_ptrs [OF rep] xy(1) by simp
qed

lemma filter_map_key:
  assumes "\<And>q. q \<in> set qs \<Longrightarrow> P (f q) \<longleftrightarrow> R q" and "\<And>q. q \<in> set qs \<Longrightarrow> R q \<Longrightarrow> g q = f q"
  shows "map g (filter R qs) = filter P (map f qs)"
  using assms by (induction qs) auto

lemma resting_remove:
  assumes rep: "book_rep_ex X os H B Q" and rep': "book_rep os H B' (upd_queue (d, i) (filter (\<lambda>q. q \<noteq> p) (Q d i)) Q)"
    and i: "i < levelCount (ladder_of d B)" "p \<in> set (Q d i)" and p: "book_mem B p = Some ord"
    and dr: "dropped p B B'" and gr: "same_grids B B'"
  shows "resting c B' = spec_cancel (orderId ord) (map (order_at (book_mem B)) (side_ptrs c B Q))"
proof -
  note D = book_repD [OF rep]
  let ?Q = "upd_queue (d, i) (filter (\<lambda>q. q \<noteq> p) (Q d i)) Q"
  have "side_ptrs c B ?Q = filter (\<lambda>q. q \<noteq> p) (side_ptrs c B Q)"
  proof (cases "c = d")
    case True
    obtain xs ys where xy: "side_ptrs d B Q = xs @ Q d i @ ys" "\<And>ps. side_ptrs d B (upd_queue (d, i) ps Q) = xs @ ps @ ys"
      using side_ptrs_upd [OF i(1)] by metis
    have "distinct (xs @ Q d i @ ys)" using side_ptrs_distinct [OF D(4), of d] xy(1) by simp
    then have "p \<notin> set xs" "p \<notin> set ys" using i(2) by auto
    then show ?thesis using True xy by (simp add: filter_id_conv) (metis (mono_tags, lifting) filter_True)
  next
    case False
    have "p \<notin> set (side_ptrs c B Q)"
      using levels_rep_disjoint [OF D(4) i(1) _ i(2), of _ c] False by (auto simp: side_ptrs_def)
    then show ?thesis using False side_ptrs_other by (metis (mono_tags, lifting) filter_True)
  qed
  then have "resting c B' = map (order_at (book_mem B')) (filter (\<lambda>q. q \<noteq> p) (side_ptrs c B Q))"
    using resting_ptrs [OF rep'] side_ptrs_grids [OF gr] by simp
  also have "\<dots> = spec_cancel (orderId ord) (map (order_at (book_mem B)) (side_ptrs c B Q))"
    unfolding spec_cancel_def
  proof (rule filter_map_key)
    fix q assume "q \<in> set (side_ptrs c B Q)"
    then obtain o' where o': "book_mem B q = Some o'" using side_ptrs_mem [OF D(4)] by metis
    show "orderId (order_at (book_mem B) q) \<noteq> orderId ord \<longleftrightarrow> q \<noteq> p"
      using index_agrees_unique [OF D(5) o' p] o' p by (auto simp: order_at_def)
    show "order_at (book_mem B') q = order_at (book_mem B) q" if "q \<noteq> p"
      using dr that o' unfolding dropped_def order_at_def
      by (metis map_option_eq_Some option.sel option.simps(9))
  qed
  finally show ?thesis .
qed

lemma strip_with_remaining: "strip (with_remaining q ord) = with_remaining q (strip ord)"
  by (simp add: strip_def)

lemma resting_reduce:
  assumes rep: "book_rep os H B Q" and rep': "book_rep os H B' Q" and p: "book_mem B p = Some ord"
    and rd: "reduced_to q p B B'"
  shows "resting c B' = spec_reduce (orderId ord) q (resting c B)"
proof -
  note D = book_repD [OF rep [unfolded book_rep_def]]
  from rd p have gr: "same_grids B B'" and m: "book_mem B' = (book_mem B)(p \<mapsto> with_remaining q ord)"
    by (simp_all add: reduced_to_def)
  have "order_at (book_mem B') x = (if orderId (order_at (book_mem B) x) = orderId ord
      then with_remaining q (order_at (book_mem B) x) else order_at (book_mem B) x)" if x: "x \<in> set (side_ptrs c B Q)" for x
  proof -
    obtain o' where o': "book_mem B x = Some o'" using side_ptrs_mem [OF D(4) x] by metis
    have "orderId o' = orderId ord \<longleftrightarrow> x = p" using index_agrees_unique [OF D(5) o' p] o' p by auto
    with o' p m show ?thesis by (simp add: order_at_def strip_with_remaining)
  qed
  then show ?thesis
    unfolding resting_ptrs [OF rep] resting_ptrs [OF rep'] side_ptrs_grids [OF gr] spec_reduce_def map_map comp_def
    by (intro map_cong) auto
qed

subsection \<open>The operations on well-formed books\<close>

lemma book_okE:
  assumes "book_ok os H B"
  obtains Q where "book_rep os H B Q"
  using assms by (auto simp: book_ok_def)

lemma book_rep_ok: "book_rep os H B Q \<Longrightarrow> book_ok os H B"
  by (auto simp: book_ok_def)

lemma resting_same:
  assumes "book_rep os H B Q" and "book_rep os H B' Q" and "same_orders (book_mem B) (book_mem B')" and "same_grids B B'"
  shows "resting d B' = resting d B"
proof -
  note D = book_repD [OF assms(1) [unfolded book_rep_def]]
  have "order_at (book_mem B') p = order_at (book_mem B) p" if p: "p \<in> set (side_ptrs d B Q)" for p
    using order_at_same [OF assms(3)] side_ptrs_mem [OF D(4) p] by (metis option.distinct(1))
  then show ?thesis
    unfolding resting_ptrs [OF assms(1)] resting_ptrs [OF assms(2)] side_ptrs_grids [OF assms(4)] by (intro map_cong) auto
qed

fun side_of :: "order_side \<Rightarrow> ladder_id" where
  "side_of BUY = Bids"
| "side_of _ = Asks"

lemma side_of_if: "side_of sd = (if sd = BUY then Bids else Asks)"
  by (cases sd) auto

lemma strip_Order_full [simp]: "strip (Order_full i pr oq rq t sd ty sq) = Order_full i pr oq rq t sd ty sq"
  by (simp add: strip_def Order_full_def)

lemma add_Ret:
  assumes "book_ok os H B" and "os_fresh os" and "addOrderWithQuantities os H i pr oq rq t sd ty sq B = Ret p B'"
  shows "book_ok os H B'" "ty = LIMIT" "rq \<noteq> 0" "same_grids B B'"
    "resting (side_of sd) B' = spec_insert (side_of sd) (Order_full i pr oq rq t sd ty sq) (resting (side_of sd) B)"
    "c \<noteq> side_of sd \<Longrightarrow> resting c B' = resting c B"
proof -
  obtain Q where rep: "book_rep os H B Q" using book_okE [OF assms(1)] .
  note D = book_repD [OF rep [unfolded book_rep_def]]
  let ?ord = "Order_full i pr oq rq t sd ty sq"
  from addOrder_cases [OF rep assms(2), of i pr oq rq t sd ty sq] assms(3)
  obtain n where a: "book_mem B p = None" "ty = LIMIT" "rq \<noteq> 0" "indexOf pr (ladder_of (side_of sd) B) = Inr n"
    "inserted os H B (upd_queue (side_of sd, n) (Q (side_of sd) n @ [p]) Q) p ?ord B'"
    unfolding side_of_if by (metis outcome.distinct(1) outcome.inject(1))
  note n = indexOf_book [OF D(3) a(4)]
  have pr: "price ?ord = levelPrice (level_of (side_of sd, n) B)" using n(2) by simp
  note r = resting_insert [OF rep a(5,1) n(1) pr strip_Order_full]
  show "ty = LIMIT" "rq \<noteq> 0" using a by simp_all
  show "book_ok os H B'" "same_grids B B'" using a(5) by (auto simp: inserted_def book_ok_def)
  show "resting (side_of sd) B' = spec_insert (side_of sd) ?ord (resting (side_of sd) B)" using r(1) .
  show "c \<noteq> side_of sd \<Longrightarrow> resting c B' = resting c B" using r(2) .
qed

lemma add_Throw:
  assumes "book_ok os H B" and "os_fresh os" and "addOrderWithQuantities os H i pr oq rq t sd ty sq B = Throw e B'"
  shows "book_ok os H B'" "defined_error e" "resting c B' = resting c B" "same_grids B B'" "\<not> can_rest i pr oq rq t sd ty sq B"
proof -
  obtain Q where rep: "book_rep os H B Q" using book_okE [OF assms(1)] .
  from addOrder_cases [OF rep assms(2), of i pr oq rq t sd ty sq] assms(3)
  have a: "add_refused os H B Q e B'" "\<not> can_rest i pr oq rq t sd ty sq B"
    by (metis outcome.distinct(1) outcome.inject(2))+
  then show "book_ok os H B'" "defined_error e" "same_grids B B'" "\<not> can_rest i pr oq rq t sd ty sq B"
    by (auto simp: add_refused_def book_ok_def)
  show "resting c B' = resting c B" using resting_same [OF rep] a(1) by (simp add: add_refused_def)
qed

lemma live_resting:
  assumes "book_rep os H B Q" and "book_mem B p = Some ord"
  obtains d where "strip ord \<in> set (resting d B)"
proof -
  note D = book_repD [OF assms(1) [unfolded book_rep_def]]
  obtain d i where "i < levelCount (ladder_of d B)" "p \<in> set (Q d i)" using levels_rep_home [OF D(4) assms(2)] by metis
  then have "p \<in> set (side_ptrs d B Q)" by (auto simp: side_ptrs_def)
  then have "order_at (book_mem B) p \<in> set (resting d B)" by (simp add: resting_ptrs [OF assms(1)])
  with assms(2) that show thesis by (simp add: order_at_def)
qed

lemma resting_live:
  assumes "book_rep os H B Q" and "x \<in> set (resting d B)"
  obtains p ord where "book_mem B p = Some ord" "x = strip ord" "good_order d ord"
proof -
  note D = book_repD [OF assms(1) [unfolded book_rep_def]]
  from assms(2) obtain p where p: "p \<in> set (side_ptrs d B Q)" "x = order_at (book_mem B) p"
    by (auto simp: resting_ptrs [OF assms(1)])
  with side_ptrs_mem [OF D(4) p(1)] that show thesis by (metis empty_iff order_at_Some)
qed

lemma resting_absent:
  assumes "book_rep os H B Q"
  shows "(\<forall>p ord. book_mem B p = Some ord \<longrightarrow> orderId ord \<noteq> k) \<longleftrightarrow> (\<forall>d. k \<notin> orderId ` set (resting d B))"
proof
  assume l: "\<forall>p ord. book_mem B p = Some ord \<longrightarrow> orderId ord \<noteq> k"
  show "\<forall>d. k \<notin> orderId ` set (resting d B)"
    using l resting_live [OF assms] by (metis imageE strip_sel(1))
next
  assume "\<forall>d. k \<notin> orderId ` set (resting d B)"
  then show "\<forall>p ord. book_mem B p = Some ord \<longrightarrow> orderId ord \<noteq> k"
    using live_resting [OF assms] by (metis image_eqI strip_sel(1))
qed

lemma cancel_refines:
  assumes "book_ok os H B"
  obtains b B' where "cancelOrder H k B = Ret b B'" "book_ok os H B'" "\<And>d. resting d B' = spec_cancel k (resting d B)"
    "b \<longleftrightarrow> (\<exists>d. k \<in> orderId ` set (resting d B))"
proof -
  obtain Q where rep: "book_rep os H B Q" using book_okE [OF assms] .
  note ex = rep [unfolded book_rep_def]
  show thesis
  proof (rule cancelOrder_cases [OF rep, of k])
    assume a: "cancelOrder H k B = Ret False B" and "\<And>p ord. book_mem B p = Some ord \<Longrightarrow> orderId ord \<noteq> k"
    then have n: "\<forall>d. k \<notin> orderId ` set (resting d B)" using resting_absent [OF rep] by blast
    then have "spec_cancel k (resting d B) = resting d B" for d by (auto simp: spec_cancel_def filter_id_conv)
    with a n assms that [of False B] show thesis by simp
  next
    fix p ord B' d i
    assume c: "cancelOrder H k B = Ret True B'" "book_mem B p = Some ord" "orderId ord = k"
      "i < levelCount (ladder_of d B)" "p \<in> set (Q d i)"
      "book_rep os H B' (upd_queue (d, i) (filter (\<lambda>q. q \<noteq> p) (Q d i)) Q)" "dropped p B B'" "same_grids B B'"
    have "resting c B' = spec_cancel k (resting c B)" for c
      using resting_remove [OF ex c(6,4,5,2,7,8)] c(3) resting_ptrs [OF rep] by simp
    moreover have "\<exists>d. k \<in> orderId ` set (resting d B)"
      using live_resting [OF rep c(2)] c(3) by (metis image_eqI strip_sel(1))
    ultimately show thesis using that [of True B'] c(1) book_rep_ok [OF c(6)] by blast
  qed
qed

lemma ids_unique:
  assumes "book_rep os H B Q" and "x \<in> set (resting c B)" and "y \<in> set (resting d B)" and "orderId x = orderId y"
  shows "x = y"
proof -
  note D = book_repD [OF assms(1) [unfolded book_rep_def]]
  obtain p a where a: "book_mem B p = Some a" "x = strip a" using resting_live [OF assms(1,2)] by metis
  obtain q b where b: "book_mem B q = Some b" "y = strip b" using resting_live [OF assms(1,3)] by metis
  have "orderId a = orderId b" using a(2) b(2) assms(4) by (simp only: strip_sel)
  from index_agrees_unique [OF D(5) a(1) b(1) this] show ?thesis using a b by simp
qed

lemma reduce_refines:
  assumes "book_ok os H B"
  obtains (absent) "reduceOrder H k q B = Ret False B" "\<And>d. k \<notin> orderId ` set (resting d B)"
    | (refused) d x where "reduceOrder H k q B = Throw reduce_error B" "x \<in> set (resting d B)" "orderId x = k"
      "q = 0 \<or> q > remainingQuantity x"
    | (reduced) d x B' where "reduceOrder H k q B = Ret True B'" "x \<in> set (resting d B)" "orderId x = k"
      "q \<noteq> 0" "q \<le> remainingQuantity x" "book_ok os H B'" "\<And>c. resting c B' = spec_reduce k q (resting c B)"
proof -
  obtain Q where rep: "book_rep os H B Q" using book_okE [OF assms] .
  show thesis
  proof (rule reduceOrder_cases [OF rep, of k q])
    assume "reduceOrder H k q B = Ret False B" "\<And>p ord. book_mem B p = Some ord \<Longrightarrow> orderId ord \<noteq> k"
    then show thesis using absent resting_absent [OF rep] by blast
  next
    fix p ord assume r: "reduceOrder H k q B = Throw reduce_error B" "book_mem B p = Some ord" "orderId ord = k"
      "q = 0 \<or> remainingQuantity ord < q"
    obtain d where "strip ord \<in> set (resting d B)" using live_resting [OF rep r(2)] .
    with r refused [of "strip ord" d] show thesis by simp
  next
    fix p ord B' assume r: "reduceOrder H k q B = Ret True B'" "book_mem B p = Some ord" "orderId ord = k"
      "q \<noteq> 0" "q \<le> remainingQuantity ord" "book_rep os H B' Q" "reduced_to q p B B'"
    obtain d where d: "strip ord \<in> set (resting d B)" using live_resting [OF rep r(2)] .
    have "resting c B' = spec_reduce k q (resting c B)" for c
      using resting_reduce [OF rep r(6,2,7)] r(3) by simp
    with r d reduced [of B' "strip ord" d] show thesis by (simp add: book_rep_ok)
  qed
qed

subsection \<open>A new book\<close>

lemma book_rep_new:
  assumes "OrderBook_new mn tick lc = Inr B" and "lc < SIZE_RANGE"
  shows "book_rep os H B (\<lambda>_ _. [])"
proof -
  from assms(1) obtain b a where b: "PriceLadder_new mn tick lc True = Inr b" and a: "PriceLadder_new mn tick lc False = Inr a"
    and B: "B = \<lparr>orderPool = OrderPool_new, orderIndex = OrderIndex_new, bids = b, asks = a\<rparr>"
    by (auto simp: OrderBook_new_def split: sum.splits)
  note nb = PriceLadder_new_ok [OF b assms(2)] and na = PriceLadder_new_ok [OF a assms(2)]
  have "ladder_ok (ladder_of d B) \<and> (descending (ladder_of d B) \<longleftrightarrow> d = Bids) \<and> occ_set (ladder_of d B) = {}" for d
    using nb na by (cases d) (simp_all add: B)
  moreover have "level_rep Map.empty (d, i) (level_of (d, i) B) []" if "i < levelCount (ladder_of d B)" for d i
    using that nb(4,7) na(4,7) level_rep_new by (cases d) (simp_all add: B level_of_def)
  ultimately show ?thesis
    by (simp add: book_rep_def book_rep_ex_def ladders_ok_def levels_rep_def index_agrees_def B book_mem_def)
qed

lemma resting_new:
  assumes "OrderBook_new mn tick lc = Inr B" and "lc < SIZE_RANGE"
  shows "resting d B = []"
  using resting_ptrs [OF book_rep_new [OF assms], of d] by (simp add: side_ptrs_def)

subsection \<open>Reserved capacity\<close>

lemma reserve_book:
  assumes ok: "book_ok os H B" and fresh: "os_fresh os" and run: "reserveOrderCapacity os H n B = Ret () B'" and n: "n < 2 ^ 53"
  shows "book_ok os H B'" "resting d B' = resting d B" "bids B' = bids B" "asks B' = asks B"
    "index_map (orderIndex B') = index_map (orderIndex B)" "index_count (orderIndex B') = index_count (orderIndex B)"
    "book_mem B' = book_mem B" "liveOrderCount (orderPool B') < n \<Longrightarrow> firstPageWithFreeSlot (orderPool B') \<noteq> None"
proof -
  obtain Q where rep: "book_rep os H B Q" using book_okE [OF ok] .
  note D = book_repD [OF rep [unfolded book_rep_def]]
  obtain ix where ix: "OrderIndex_reserve H n (orderIndex B) = Ret () ix" "index_ok H ix" "index_map ix = index_map (orderIndex B)"
    "index_count ix = index_count (orderIndex B)"
    using OrderIndex_reserve_ok [OF D(2) n] by metis
  from run ix(1) obtain P where P: "OrderPool_reserve os n (orderPool B) = Ret () P" "B' = B\<lparr>orderPool := P, orderIndex := ix\<rparr>"
    by (auto simp: reserveOrderCapacity_def on_pool_def on_index_def split: outcome.splits)
  have "n + 818 < SIZE_RANGE" using n by (simp add: SIZE_RANGE_def)
  note r = reserve_room [OF P(1) D(1) fresh this]
  have mem: "book_mem B' = book_mem B" using P(2) r(2) by (simp add: book_mem_def)
  have lad: "ladder_of c B' = ladder_of c B" for c using P(2) by (cases c) simp_all
  then have lvl: "level_of c B' = level_of c B" for c by (simp add: level_of_def)
  have "book_rep os H B' Q"
    using D(3,4,5) r(1) ix(2,3) mem lad lvl P(2) by (simp add: book_rep_def book_rep_ex_def ladders_ok_def levels_rep_def index_agrees_def)
  then show "book_ok os H B'" by (rule book_rep_ok)
  show "resting d B' = resting d B" by (simp add: resting_def mem lad lvl)
  show "bids B' = bids B" "asks B' = asks B" "index_map (orderIndex B') = index_map (orderIndex B)"
    "index_count (orderIndex B') = index_count (orderIndex B)" using P(2) ix(3,4) by simp_all
  show "book_mem B' = book_mem B" by (rule mem)
  show "firstPageWithFreeSlot (orderPool B') \<noteq> None" if "liveOrderCount (orderPool B') < n"
    using no_free_slot [of os P] r(1,3) that P(2) by auto
qed

subsection \<open>A concrete book\<close>

text \<open>Prices 100 to 107, room for ten orders, and one resting sell order of 10 at 101.\<close>

definition demo_empty :: order_book where
  "demo_empty = projr (OrderBook_new 100 1 8)"

definition demo_book :: order_book where
  "demo_book = state_of (reserveOrderCapacity one_page_os (\<lambda>k. k) 10 demo_empty)"

definition demo_order :: order where
  "demo_order = Order_new 1 101 10 1 SELL LIMIT 1"

definition demo_ask :: order_book where
  "demo_ask = state_of (OrderBook_addOrder one_page_os (\<lambda>k. k) 1 101 10 1 SELL LIMIT 1 demo_book)"

lemma demo_empty_ok:
  "book_ok os H demo_empty" "resting d demo_empty = []" "orderPool demo_empty = OrderPool_new" "orderIndex demo_empty = OrderIndex_new"
  "indexOf 101 (asks demo_empty) = Inr 1" "totalQuantity (level_of (Asks, 1) demo_empty) = 0"
  "indexOf 200 (bids demo_empty) = Inl (OutOfRange ''Price is outside the configured ladder range'')"
proof -
  have B: "OrderBook_new 100 1 8 = Inr demo_empty" by (simp add: demo_empty_def OrderBook_new_def PriceLadder_new_def)
  have lc: "(8 :: nat) < SIZE_RANGE" by (simp add: SIZE_RANGE_def)
  show "book_ok os H demo_empty" by (rule book_rep_ok [OF book_rep_new [OF B lc]])
  show "resting d demo_empty = []" by (rule resting_new [OF B lc])
  obtain b a where ba: "PriceLadder_new 100 1 8 True = Inr b" "PriceLadder_new 100 1 8 False = Inr a"
    by (simp add: PriceLadder_new_def)
  then have E: "demo_empty = \<lparr>orderPool = OrderPool_new, orderIndex = OrderIndex_new, bids = b, asks = a\<rparr>"
    by (simp add: demo_empty_def OrderBook_new_def)
  show "orderPool demo_empty = OrderPool_new" "orderIndex demo_empty = OrderIndex_new" unfolding E by simp_all
  have "asks demo_empty = projr (PriceLadder_new 100 1 8 False)" unfolding E ba by simp
  then show "indexOf 101 (asks demo_empty) = Inr 1" "totalQuantity (level_of (Asks, 1) demo_empty) = 0"
    by (simp_all add: PriceLadder_new_def indexOf_def level_of_def PriceLevel_new_def)
  have "bids demo_empty = projr (PriceLadder_new 100 1 8 True)" unfolding E ba by simp
  then show "indexOf 200 (bids demo_empty) = Inl (OutOfRange ''Price is outside the configured ladder range'')"
    by (simp add: PriceLadder_new_def indexOf_def)
qed

lemma demo_reserve: "reserveOrderCapacity one_page_os (\<lambda>k. k) 10 demo_empty = Ret () demo_book"
proof -
  have "is_ret (OrderPool_reserve one_page_os 10 OrderPool_new)"
    by (simp add: OrderPool_reserve_def createPage_def Page_new_def one_page_os_def OrderPool_new_def is_ret_def
        addToFreePageList_def write_page_def write_pool_def Let_def align_up_def SIZE_RANGE_def)
  then obtain P1 where "OrderPool_reserve one_page_os 10 OrderPool_new = Ret () P1" by (auto simp: is_ret_def split: outcome.splits)
  moreover have "(10 :: nat) < 2 ^ 53" by simp
  then obtain ix where "OrderIndex_reserve (\<lambda>k. k) 10 OrderIndex_new = Ret () ix" using OrderIndex_reserve_ok [OF index_ok_new(1)] by metis
  ultimately have "\<exists>B'. reserveOrderCapacity one_page_os (\<lambda>k. k) 10 demo_empty = Ret () B'"
    by (simp add: reserveOrderCapacity_def on_pool_def on_index_def demo_empty_ok)
  then show ?thesis by (auto simp: demo_book_def)
qed

lemma demo_valid: "Order_isValid (Order_full 1 101 10 10 1 SELL LIMIT 1)"
  by (simp add: Order_isValid_def valid_defs Order_full_def isBuy_def isSell_def isLimit_def isMarket_def)

lemma demo_book_ok:
  "book_ok one_page_os (\<lambda>k. k) demo_book" "resting d demo_book = []" "can_rest 1 101 10 10 1 SELL LIMIT 1 demo_book"
  "indexOf 200 (bids demo_book) = Inl (OutOfRange ''Price is outside the configured ladder range'')"
proof -
  have n: "(10 :: nat) < 2 ^ 53" by simp
  note r = reserve_book [OF demo_empty_ok(1) one_page_os_fresh demo_reserve n]
  show ok': "book_ok one_page_os (\<lambda>k. k) demo_book" and "resting d demo_book = []" using r(1,2) demo_empty_ok(2) by simp_all
  show "indexOf 200 (bids demo_book) = Inl (OutOfRange ''Price is outside the configured ladder range'')" using r(3) demo_empty_ok(7) by simp
  have "book_mem demo_book = Map.empty" using r(7) demo_empty_ok(3) by (simp add: book_mem_def OrderPool_new_def)
  then have "liveOrderCount (orderPool demo_book) = 0"
    using ok' book_repD(1) by (auto simp: book_ok_def book_rep_def pool_ok_def book_mem_def)
  then have page: "firstPageWithFreeSlot (orderPool demo_book) \<noteq> None" using r(8) by simp
  have "indexOf 101 (asks demo_book) = Inr 1" "totalQuantity (level_of (Asks, 1) demo_book) = 0"
    using demo_empty_ok(5,6) r(4) by (simp_all add: level_of_def)
  moreover have "index_map (orderIndex demo_book) 1 = None" "index_count (orderIndex demo_book) = 0"
    using r(5,6) demo_empty_ok(4) by (simp, simp add: OrderIndex_new_def)
  ultimately show "can_rest 1 101 10 10 1 SELL LIMIT 1 demo_book"
    using page demo_valid by (simp add: can_rest_def Let_def SIZE_RANGE_def)
qed

lemma demo_ask_ok:
  "book_ok one_page_os (\<lambda>k. k) demo_ask" "resting Asks demo_ask = [demo_order]" "resting Bids demo_ask = []"
  "indexOf 200 (bids demo_ask) = Inl (OutOfRange ''Price is outside the configured ladder range'')"
proof -
  let ?add = "addOrderWithQuantities one_page_os (\<lambda>k. k) 1 101 10 10 1 SELL LIMIT 1 demo_book"
  have "\<exists>p B. ?add = Ret p B"
    using add_Throw(5) [OF demo_book_ok(1) one_page_os_fresh] demo_book_ok(3) by (cases ?add) auto
  then obtain p where add: "?add = Ret p demo_ask" by (auto simp: demo_ask_def OrderBook_addOrder_def)
  note a = add_Ret [OF demo_book_ok(1) one_page_os_fresh add]
  show "book_ok one_page_os (\<lambda>k. k) demo_ask" by (rule a(1))
  show "resting Asks demo_ask = [demo_order]" using a(5) demo_book_ok(2) by (simp add: spec_insert_def demo_order_def Order_new_def)
  show "resting Bids demo_ask = []" using a(6) [of Bids] demo_book_ok(2) by simp
  have "grid_eq (ladder_of Bids demo_book) (ladder_of Bids demo_ask)" using a(4) by (simp only: same_grids_def)
  from grid_eq_index [OF this, of 200]
  show "indexOf 200 (bids demo_ask) = Inl (OutOfRange ''Price is outside the configured ladder range'')"
    using demo_book_ok(4) by simp
qed

section \<open>The book as a service\<close>

text \<open>
  What a client of the book relies on: a call that returns changes the visible state as the
  reference operation says, a call that throws leaves the visible state alone, and no call
  is undefined. The client lemma runs any sequence of calls, going on after exceptions.
\<close>

fun spec_calls :: "('c \<Rightarrow> 'v \<Rightarrow> 'v) \<Rightarrow> 'c list \<Rightarrow> bool list \<Rightarrow> 'v \<Rightarrow> 'v" where
  "spec_calls spec (c # cs) (b # bs) v = spec_calls spec cs bs (if b then spec c v else v)"
| "spec_calls spec _ _ v = v"

locale refined_service =
  fixes ok :: "'s \<Rightarrow> bool" and view :: "'s \<Rightarrow> 'v" and step :: "'c \<Rightarrow> 's \<Rightarrow> ('r, 's) outcome"
    and spec :: "'c \<Rightarrow> 'v \<Rightarrow> 'v"
  assumes step_Ret: "ok s \<Longrightarrow> step c s = Ret r s' \<Longrightarrow> ok s' \<and> view s' = spec c (view s)"
    and step_Throw: "ok s \<Longrightarrow> step c s = Throw e s' \<Longrightarrow> ok s' \<and> view s' = view s \<and> defined_error e"
begin

lemma run_refines:
  "ok s \<Longrightarrow> run_calls step cs s = (rs, s') \<Longrightarrow>
     ok s' \<and> view s' = spec_calls spec cs (map is_ret rs) (view s) \<and> list_all defined rs"
proof (induction cs arbitrary: s rs s')
  case Nil
  then show ?case by simp
next
  case (Cons c cs)
  obtain ts where ts: "run_calls step cs (state_of (step c s)) = (ts, s')" "rs = step c s # ts"
    using Cons.prems(2) by (auto simp: Let_def split: prod.splits)
  show ?case
  proof (cases "step c s")
    case (Ret r s1)
    with step_Ret [OF Cons.prems(1) Ret] Cons.IH [of s1 ts s'] ts show ?thesis by simp
  next
    case (Throw e s1)
    with step_Throw [OF Cons.prems(1) Throw] Cons.IH [of s1 ts s'] ts show ?thesis by simp
  qed
qed

end

datatype book_call =
    CallAdd u64 u64 u64 u64 order_side order_type u64
  | CallCancel u64
  | CallReduce u64 u64

fun book_step :: "os_env \<Rightarrow> hash_fun \<Rightarrow> book_call \<Rightarrow> order_book \<Rightarrow> (bool, order_book) outcome" where
  "book_step os H (CallAdd i pr q t sd ty sq) B =
     bind_outcome (OrderBook_addOrder os H i pr q t sd ty sq B) (\<lambda>_ B'. Ret True B')"
| "book_step os H (CallCancel k) B = cancelOrder H k B"
| "book_step os H (CallReduce k q) B = reduceOrder H k q B"

fun spec_step :: "book_call \<Rightarrow> (ladder_id \<Rightarrow> order list) \<Rightarrow> ladder_id \<Rightarrow> order list" where
  "spec_step (CallAdd i pr q t sd ty sq) v d =
     (if d = side_of sd then spec_insert d (Order_new i pr q t sd ty sq) (v d) else v d)"
| "spec_step (CallCancel k) v d = spec_cancel k (v d)"
| "spec_step (CallReduce k q) v d = spec_reduce k q (v d)"

lemma spec_reduce_absent: "k \<notin> orderId ` set xs \<Longrightarrow> spec_reduce k q xs = xs"
  by (induction xs) (auto simp: spec_reduce_def)

interpretation bk: refined_service "\<lambda>B. os_fresh os \<and> book_ok os H B" "\<lambda>B d. resting d B" "book_step os H" spec_step for os H
proof unfold_locales
  fix B c r B' assume ok: "os_fresh os \<and> book_ok os H B" and st: "book_step os H c B = Ret r B'"
  show "(os_fresh os \<and> book_ok os H B') \<and> (\<lambda>d. resting d B') = spec_step c (\<lambda>d. resting d B)"
  proof (cases c)
    case (CallAdd i pr q t sd ty sq)
    with st obtain p where "addOrderWithQuantities os H i pr q q t sd ty sq B = Ret p B'"
      by (auto simp: OrderBook_addOrder_def bind_outcome_Ret_iff)
    from add_Ret [OF _ _ this] ok CallAdd show ?thesis by (auto simp: fun_eq_iff Order_new_def)
  next
    case (CallCancel k)
    with ok st show ?thesis using cancel_refines [of os H B k] by (auto simp: fun_eq_iff)
  next
    case (CallReduce k q)
    from ok have "book_ok os H B" by simp
    then show ?thesis
      by (rule reduce_refines [of os H B k q]) (use ok st CallReduce spec_reduce_absent in \<open>auto simp: fun_eq_iff\<close>)
  qed
next
  fix B c e B' assume ok: "os_fresh os \<and> book_ok os H B" and st: "book_step os H c B = Throw e B'"
  show "(os_fresh os \<and> book_ok os H B') \<and> (\<lambda>d. resting d B') = (\<lambda>d. resting d B) \<and> defined_error e"
  proof (cases c)
    case (CallAdd i pr q t sd ty sq)
    with st have "addOrderWithQuantities os H i pr q q t sd ty sq B = Throw e B'"
      by (cases "addOrderWithQuantities os H i pr q q t sd ty sq B") (simp_all add: OrderBook_addOrder_def)
    from add_Throw [OF _ _ this] ok show ?thesis by (auto simp: fun_eq_iff)
  next
    case (CallCancel k)
    with ok st show ?thesis using cancel_refines [of os H B k] by (metis book_step.simps(2) outcome.distinct(1))
  next
    case (CallReduce k q)
    from ok have "book_ok os H B" by simp
    then show ?thesis
      by (rule reduce_refines [of os H B k q]) (use ok st CallReduce in \<open>auto simp: reduce_error_def\<close>)
  qed
qed

section \<open>Properties\<close>

text \<open>
  C7. The book implements the reference book: from a well-formed book, any sequence of
  insertions, cancellations and reductions, going on after exceptions, leaves each side
  exactly as the reference operations of the calls that returned leave it (calls that threw
  changed nothing visible), the book stays well formed, and no call reads a dead order, goes
  out of range or runs forever. The operating system and the hash function are arbitrary.
\<close>
theorem book_calls_refine:
  assumes "os_fresh os" and "book_ok os H B" and "run_calls (book_step os H) cs B = (rs, B')"
  shows "book_ok os H B' \<and> (\<forall>d. resting d B' = spec_calls spec_step cs (map is_ret rs) (\<lambda>d. resting d B) d) \<and>
    list_all defined rs"
  using bk.run_refines [OF _ assms(3)] assms(1,2) by (auto simp: fun_eq_iff)

text \<open>
  C8. An insertion is all or nothing: it either puts the order behind every order with an
  equal or better price on its side and leaves the other side alone, or it throws, and then
  both sides are unchanged and one of the conditions of an insertion (a resting limit order
  with valid fields, a price on the ladder, a level total that fits 64 bits, a free
  identifier, room for the order) does not hold.
\<close>
theorem book_add_transactional:
  assumes "os_fresh os" and "book_ok os H B"
  shows "case addOrderWithQuantities os H i pr oq rq t sd ty sq B of
      Ret p B' \<Rightarrow> book_ok os H B' \<and>
        resting (side_of sd) B' = spec_insert (side_of sd) (Order_full i pr oq rq t sd ty sq) (resting (side_of sd) B) \<and>
        (\<forall>c. c \<noteq> side_of sd \<longrightarrow> resting c B' = resting c B)
    | Throw e B' \<Rightarrow> book_ok os H B' \<and> (\<forall>c. resting c B' = resting c B) \<and> defined_error e \<and>
        \<not> can_rest i pr oq rq t sd ty sq B"
proof (cases "addOrderWithQuantities os H i pr oq rq t sd ty sq B")
  case (Ret p B')
  note a = add_Ret [OF assms(2,1) Ret]
  show ?thesis unfolding Ret using a(1,5,6) by simp
next
  case (Throw e B')
  note a = add_Throw [OF assms(2,1) Throw]
  show ?thesis unfolding Throw using a(1,2,3,5) by simp
qed

text \<open>
  C18. Cancelling always returns: it reports whether the identifier was resting and leaves
  each side without exactly that order, everything else in place.
\<close>
theorem book_cancel_correct:
  assumes "book_ok os H B"
  shows "\<exists>B'. cancelOrder H k B = Ret (\<exists>d. k \<in> orderId ` set (resting d B)) B' \<and> book_ok os H B' \<and>
    (\<forall>d. resting d B' = filter (\<lambda>x. orderId x \<noteq> k) (resting d B))"
proof (rule cancel_refines [OF assms, of k])
  fix b B' assume c: "cancelOrder H k B = Ret b B'" "book_ok os H B'" "\<And>d. resting d B' = spec_cancel k (resting d B)"
    "b \<longleftrightarrow> (\<exists>d. k \<in> orderId ` set (resting d B))"
  show ?thesis
    by (intro exI [of _ B'] conjI) (use c in \<open>simp_all add: spec_cancel_def\<close>)
qed

text \<open>
  C19. Reducing keeps priority: on every branch the positions of all orders are unchanged, a
  successful reduction changes the remaining quantity of that one order only, and a
  reduction to zero or to more than remains throws and leaves the book as it was.
\<close>
theorem book_reduce_correct:
  assumes "book_ok os H B"
  shows "case reduceOrder H k q B of
      Ret b B' \<Rightarrow> book_ok os H B' \<and> (b \<longleftrightarrow> (\<exists>d. k \<in> orderId ` set (resting d B))) \<and>
        (\<forall>d. resting d B' = map (\<lambda>x. if orderId x = k then x\<lparr>remainingQuantity := q\<rparr> else x) (resting d B))
    | Throw e B' \<Rightarrow> B' = B \<and> e = reduce_error \<and>
        (\<exists>d. \<exists>x \<in> set (resting d B). orderId x = k \<and> (q = 0 \<or> q > remainingQuantity x))"
proof (rule reduce_refines [OF assms, of k q])
  assume r: "reduceOrder H k q B = Ret False B" and n: "\<And>d. k \<notin> orderId ` set (resting d B)"
  have "map (\<lambda>x. if orderId x = k then x\<lparr>remainingQuantity := q\<rparr> else x) (resting d B) = resting d B" for d
    using spec_reduce_absent [OF n, of q d] unfolding spec_reduce_def .
  with n assms show ?thesis unfolding r by simp
next
  fix d x assume "reduceOrder H k q B = Throw reduce_error B" "x \<in> set (resting d B)" "orderId x = k"
    "q = 0 \<or> remainingQuantity x < q"
  then show ?thesis by auto
next
  fix d x B' assume r: "reduceOrder H k q B = Ret True B'" "x \<in> set (resting d B)" "orderId x = k"
    "book_ok os H B'" "\<And>c. resting c B' = spec_reduce k q (resting c B)"
  have "\<exists>d. k \<in> orderId ` set (resting d B)" using r(2,3) by blast
  with r(4,5) show ?thesis unfolding r(1) spec_reduce_def by simp
qed

text \<open>
  Reserved capacity: once \<open>reserveOrderCapacity(n)\<close> has returned, the sides are as before,
  and while fewer than \<open>n\<close> orders are alive a valid limit order with a free identifier, a
  price on the ladder and a level total that fits is accepted, whatever the operating
  system would answer to a request for memory.
\<close>
theorem book_reserved_capacity:
  assumes "book_ok os H B" and "os_fresh os" and "reserveOrderCapacity os H n B = Ret () B'" and "n < 2 ^ 53"
    and "liveOrderCount (orderPool B) < n" and "Order_isValid (Order_full i pr q q t sd LIMIT sq)"
    and "indexOf pr (ladder_of (side_of sd) B) = Inr k"
    and "unat q + unat (totalQuantity (level_of (side_of sd, k) B)) < SIZE_RANGE"
    and "\<forall>d. i \<notin> orderId ` set (resting d B)" and "index_count (orderIndex B) + 1 < 2 ^ 53"
  shows "(\<forall>d. resting d B' = resting d B) \<and>
    (\<exists>p B''. OrderBook_addOrder os H i pr q t sd LIMIT sq B' = Ret p B'' \<and>
       resting (side_of sd) B'' = spec_insert (side_of sd) (Order_new i pr q t sd LIMIT sq) (resting (side_of sd) B))"
proof -
  note r = reserve_book [OF assms(1-4)]
  obtain Q where rep: "book_rep os H B Q" using book_okE [OF assms(1)] .
  note D = book_repD [OF rep [unfolded book_rep_def]]
  obtain Q' where rep': "book_rep os H B' Q'" using book_okE [OF r(1)] .
  have "liveOrderCount (orderPool B') = liveOrderCount (orderPool B)"
    using D(1) book_repD(1) [OF rep' [unfolded book_rep_def]] r(7) by (simp add: pool_ok_def book_mem_def)
  then have page: "firstPageWithFreeSlot (orderPool B') \<noteq> None" using r(8) assms(5) by simp
  have "\<forall>p ord. book_mem B p = Some ord \<longrightarrow> orderId ord \<noteq> i" using resting_absent [OF rep] assms(9) by blast
  then have free: "index_map (orderIndex B) i = None" using index_agreesD(2) [OF D(5), of i] by (metis not_None_eq)
  have lad: "ladder_of d B' = ladder_of d B" for d using r(3,4) by (cases d) simp_all
  have "q \<noteq> 0" using assms(6) by (auto simp: Order_isValid_def Let_def valid_defs)
  with assms(6,7,8,10) free page lad r(5,6) have can: "can_rest i pr q q t sd LIMIT sq B'"
    by (simp add: can_rest_def side_of_if level_of_def split: if_splits)
  let ?add = "addOrderWithQuantities os H i pr q q t sd LIMIT sq B'"
  obtain p B'' where add: "?add = Ret p B''"
    using add_Throw(5) [OF r(1) assms(2)] can by (cases ?add) auto
  from add_Ret(5) [OF r(1) assms(2) add] add r(2) show ?thesis by (auto simp: OrderBook_addOrder_def Order_new_def)
qed

section \<open>Witnesses\<close>

theorem book_calls_refine_witness:
  "\<exists>rs B'. run_calls (book_step one_page_os (\<lambda>k. k)) [CallReduce 1 4, CallCancel 9, CallCancel 1] demo_ask = (rs, B') \<and>
     book_ok one_page_os (\<lambda>k. k) B' \<and> list_all defined rs \<and>
     resting Asks B' = spec_calls spec_step [CallReduce 1 4, CallCancel 9, CallCancel 1] (map is_ret rs) (\<lambda>d. resting d demo_ask) Asks"
proof -
  obtain rs B' where r: "run_calls (book_step one_page_os (\<lambda>k. k)) [CallReduce 1 4, CallCancel 9, CallCancel 1] demo_ask = (rs, B')"
    by (metis prod.exhaust)
  from book_calls_refine [OF one_page_os_fresh demo_ask_ok(1) r] r show ?thesis by blast
qed

theorem book_add_transactional_witness:
  "\<exists>p. addOrderWithQuantities one_page_os (\<lambda>k. k) 1 101 10 10 1 SELL LIMIT 1 demo_book = Ret p demo_ask \<and>
     resting Asks demo_ask = [demo_order] \<and> resting Bids demo_ask = []"
  using book_add_transactional [OF one_page_os_fresh demo_book_ok(1), where i = 1 and pr = 101 and oq = 10 and rq = 10
      and t = 1 and sd = SELL and ty = LIMIT and sq = 1] demo_book_ok(2,3)
  by (cases "addOrderWithQuantities one_page_os (\<lambda>k. k) 1 101 10 10 1 SELL LIMIT 1 demo_book")
    (auto simp: demo_ask_def OrderBook_addOrder_def demo_order_def spec_insert_def Order_new_def)

theorem book_cancel_correct_witness:
  "\<exists>B'. cancelOrder (\<lambda>k. k) 1 demo_ask = Ret True B' \<and> resting Asks B' = []"
proof -
  have "\<exists>d. 1 \<in> orderId ` set (resting d demo_ask)"
    using demo_ask_ok(2) by (intro exI [of _ Asks]) (simp add: demo_order_def Order_new_def Order_full_def)
  with book_cancel_correct [OF demo_ask_ok(1), of 1] show ?thesis
    using demo_ask_ok(2) by (auto simp: demo_order_def Order_new_def Order_full_def)
qed

theorem book_reduce_correct_witness:
  "\<exists>B'. reduceOrder (\<lambda>k. k) 1 4 demo_ask = Ret True B' \<and> resting Asks B' = [demo_order\<lparr>remainingQuantity := 4\<rparr>]"
proof -
  have id: "orderId demo_order = 1" "remainingQuantity demo_order = 10" by (simp_all add: demo_order_def Order_new_def Order_full_def)
  have all: "\<forall>d. set (resting d demo_ask) \<subseteq> {demo_order}"
  proof
    fix d show "set (resting d demo_ask) \<subseteq> {demo_order}" using demo_ask_ok(2,3) by (cases d) simp_all
  qed
  have "\<exists>d. 1 \<in> orderId ` set (resting d demo_ask)" using demo_ask_ok(2) id by (intro exI [of _ Asks]) simp
  with book_reduce_correct [OF demo_ask_ok(1), of 1 4] all id demo_ask_ok(2) show ?thesis
    by (cases "reduceOrder (\<lambda>k. k) 1 4 demo_ask") fastforce+
qed


theorem book_reserved_capacity_witness:
  "\<exists>p B''. OrderBook_addOrder one_page_os (\<lambda>k. k) 1 101 10 1 SELL LIMIT 1 demo_book = Ret p B'' \<and> resting Asks B'' = [demo_order]"
proof -
  have "liveOrderCount (orderPool demo_empty) < 10" "index_count (orderIndex demo_empty) + 1 < 2 ^ 53"
    by (simp_all add: demo_empty_ok OrderPool_new_def OrderIndex_new_def)
  moreover have "unat (10 :: u64) + unat (totalQuantity (level_of (Asks, 1) demo_empty)) < SIZE_RANGE"
    unfolding demo_empty_ok(6) by (simp add: SIZE_RANGE_def)
  ultimately show ?thesis
    using book_reserved_capacity [OF demo_empty_ok(1) one_page_os_fresh demo_reserve, where i = 1 and pr = 101 and q = 10
        and t = 1 and sd = SELL and sq = 1 and k = 1] demo_valid demo_empty_ok(2,5)
    by (auto simp: spec_insert_def demo_order_def)
qed

end
