(* ===== verification/Matching_Engine.thy ===== *)
theory Matching_Engine
  imports Book_Spec
begin

text \<open>
  \<open>MatchingEngine\<close> (\<open>matching_engine.hpp\<close>, \<open>matching_engine.cpp\<close>): event dispatch and the
  price/time matching loop on top of the book. The caller's execution buffer is part of the
  state of the overloads that take one; the by-value overloads own a local buffer, which an
  exception destroys. The loop is given one round more than there are live orders, plus one
  to leave it; the lemmas show that this is always enough and that the loop computes the
  reference matching of the abstract book.
\<close>

section \<open>Model\<close>

text \<open>The sequence counter is a static member of the generator; the engine shares it.\<close>

record engine =
  book :: order_book
  currentSequence :: u64

definition MatchingEngine_new :: "order_book \<Rightarrow> u64 \<Rightarrow> engine" where
  "MatchingEngine_new B c = \<lparr>book = B, currentSequence = c\<rparr>"

type_synonym engine_buffer = "engine \<times> execution list"

definition on_book :: "(order_book \<Rightarrow> ('a, order_book) outcome) \<Rightarrow> engine_buffer \<Rightarrow> ('a, engine_buffer) outcome" where
  "on_book f s =
     (case f (book (fst s)) of
        Ret a B \<Rightarrow> Ret a ((fst s)\<lparr>book := B\<rparr>, snd s)
      | Throw e B \<Rightarrow> Throw e ((fst s)\<lparr>book := B\<rparr>, snd s))"

definition next_sequence :: "engine_buffer \<Rightarrow> (u64, engine_buffer) outcome" where
  "next_sequence s =
     (case SequenceNumberGenerator_generate (currentSequence (fst s)) of
        Ret n c \<Rightarrow> Ret n ((fst s)\<lparr>currentSequence := c\<rparr>, snd s)
      | Throw e c \<Rightarrow> Throw e ((fst s)\<lparr>currentSequence := c\<rparr>, snd s))"

definition emplace_back :: "execution \<Rightarrow> engine_buffer \<Rightarrow> engine_buffer" where
  "emplace_back x s = (fst s, snd s @ [x])"

text \<open>One round of the loop per unit of fuel; the value is the quantity left over.\<close>

fun match_loop ::
  "hash_fun \<Rightarrow> nat \<Rightarrow> u64 \<Rightarrow> u64 \<Rightarrow> order_side \<Rightarrow> order_type \<Rightarrow> u64 \<Rightarrow> engine_buffer
    \<Rightarrow> (u64, engine_buffer) outcome" where
  "match_loop H 0 i pr sd ty remaining s = Throw (Diverges ''matching loop'') s"
| "match_loop H (Suc n) i pr sd ty remaining s =
     (if \<not> remaining > 0 then Ret remaining s
      else let B = book (fst s) in
     (case (if sd = BUY then getBestAsk B else getBestBid B) of
        None \<Rightarrow> Ret remaining s
      | Some r \<Rightarrow>
        if snd r \<ge> length (levels (ladder_of (fst r) B))
        then Throw (UndefinedBehaviour ''price level is not valid'') s
        else let bestPrice = levelPrice (level_of r B) in
          if ty = LIMIT \<and> sd = BUY \<and> pr < bestPrice then Ret remaining s
          else if ty = LIMIT \<and> sd = SELL \<and> pr > bestPrice then Ret remaining s
          else (case headOrder (level_of r B) of
             None \<Rightarrow> Throw (LogicError ''Non-empty price level has no head order'') s
           | Some p \<Rightarrow>
          (case book_mem B p of
             None \<Rightarrow> Throw (UndefinedBehaviour ''read of an order that is not alive'') s
           | Some ord \<Rightarrow>
             let executionValue = min remaining (remainingQuantity ord);
                 x = \<lparr>incomingOrderId = i, restingOrderId = orderId ord, executionPrice = price ord,
                      executionQuantity = executionValue\<rparr>
             in
             bind_outcome (on_book (on_order p (reduceRemainingQuantity executionValue)) (emplace_back x s)) (\<lambda>_ s1.
             bind_outcome
               (case book_mem (book (fst s1)) p of
                  None \<Rightarrow> Throw (UndefinedBehaviour ''read of an order that is not alive'') s1
                | Some ord1 \<Rightarrow>
                  if isFullyFilled ord1 then on_book (OrderBook_removeOrder H (Some p)) s1
                  else on_book (on_level r (level_only (reduceTotalQuantity executionValue))) s1) (\<lambda>_ s2.
             match_loop H n i pr sd ty (remaining - executionValue) s2))))))"

definition matchOrder ::
  "os_env \<Rightarrow> hash_fun \<Rightarrow> u64 \<Rightarrow> u64 \<Rightarrow> u64 \<Rightarrow> u64 \<Rightarrow> order_side \<Rightarrow> order_type \<Rightarrow> engine_buffer
    \<Rightarrow> (unit, engine_buffer) outcome" where
  "matchOrder os H i pr q t sd ty s =
     (if \<not> OrderId_isValid i \<or> \<not> Quantity_isValid q \<or> \<not> Timestamp_isValid t
      then Throw (InvalidArgument ''Invalid incoming order value'') s
      else if sd \<noteq> BUY \<and> sd \<noteq> SELL
      then Throw (InvalidArgument ''Invalid incoming order side'') s
      else if ty \<noteq> LIMIT \<and> ty \<noteq> MARKET
      then Throw (InvalidArgument ''Invalid incoming order type'') s
      else if ty = LIMIT \<and> \<not> Price_isValid pr
      then Throw (InvalidArgument ''Limit order requires a valid price'') s
      else if ty = MARKET \<and> Price_isValid pr
      then Throw (InvalidArgument ''Market order must not specify a price'') s
      else (case OrderBook_findOrder H i (book (fst s)) of
          Inl e \<Rightarrow> Throw e s
        | Inr (Some _) \<Rightarrow> Throw (LogicError ''Order with the same OrderId already exists'') s
        | Inr None \<Rightarrow>
          bind_outcome (next_sequence s) (\<lambda>sequenceNumber s1.
          bind_outcome
            (match_loop H (liveOrderCount (orderPool (book (fst s1))) + 2) i pr sd ty q s1) (\<lambda>remaining s2.
          if remaining > 0 \<and> ty = LIMIT
          then bind_outcome
            (on_book (addRestingRemainder os H i pr q remaining t sd LIMIT sequenceNumber) s2) (\<lambda>_ s3. Ret () s3)
          else Ret () s2))))"

text \<open>The overloads with a caller buffer clear it first and return its size.\<close>

definition processOrder_into ::
  "os_env \<Rightarrow> hash_fun \<Rightarrow> u64 \<Rightarrow> u64 \<Rightarrow> u64 \<Rightarrow> u64 \<Rightarrow> order_side \<Rightarrow> order_type \<Rightarrow> engine_buffer
    \<Rightarrow> (nat, engine_buffer) outcome" where
  "processOrder_into os H i pr q t sd ty s =
     bind_outcome (matchOrder os H i pr q t sd ty (fst s, [])) (\<lambda>_ s1. Ret (length (snd s1)) s1)"

definition processEvent_into :: "os_env \<Rightarrow> hash_fun \<Rightarrow> order_event \<Rightarrow> engine_buffer \<Rightarrow> (nat, engine_buffer) outcome" where
  "processEvent_into os H ev s =
     (let s0 = (fst s, []) in
      case getEventType ev of
        NEW \<Rightarrow>
          (case getNewOrder ev of
             Inl e \<Rightarrow> Throw e s0
           | Inr n \<Rightarrow>
             bind_outcome (matchOrder os H (newOrderId n) (newPrice n) (newQuantity n) (newTimestamp n) (newSide n) (newType n) s0)
               (\<lambda>_ s1. Ret (length (snd s1)) s1))
      | CANCEL \<Rightarrow>
          (case getCancelOrder ev of
             Inl e \<Rightarrow> Throw e s0
           | Inr c \<Rightarrow>
             if \<not> OrderId_isValid (cancelOrderId c) then Throw (InvalidArgument ''Invalid cancel order ID'') s0
             else bind_outcome (on_book (cancelOrder H (cancelOrderId c)) s0) (\<lambda>_ s1. Ret 0 s1))
      | REDUCE \<Rightarrow>
          (case getReduceOrder ev of
             Inl e \<Rightarrow> Throw e s0
           | Inr r \<Rightarrow>
             if \<not> OrderId_isValid (reduceOrderId r) then Throw (InvalidArgument ''Invalid reduce order ID'') s0
             else bind_outcome (on_book (reduceOrder H (reduceOrderId r) (reduceQuantity r)) s0) (\<lambda>_ s1. Ret 0 s1)))"

text \<open>The by-value overloads: a local buffer, returned on success and lost otherwise.\<close>

definition by_value :: "(engine_buffer \<Rightarrow> (nat, engine_buffer) outcome) \<Rightarrow> engine \<Rightarrow> (execution list, engine) outcome" where
  "by_value f E =
     (case f (E, []) of
        Ret _ s \<Rightarrow> Ret (snd s) (fst s)
      | Throw e s \<Rightarrow> Throw e (fst s))"

definition processEvent :: "os_env \<Rightarrow> hash_fun \<Rightarrow> order_event \<Rightarrow> engine \<Rightarrow> (execution list, engine) outcome" where
  "processEvent os H ev = by_value (processEvent_into os H ev)"

definition processOrder_event :: "os_env \<Rightarrow> hash_fun \<Rightarrow> order_event \<Rightarrow> engine \<Rightarrow> (execution list, engine) outcome" where
  "processOrder_event os H ev = processEvent os H ev"

definition processOrder ::
  "os_env \<Rightarrow> hash_fun \<Rightarrow> u64 \<Rightarrow> u64 \<Rightarrow> u64 \<Rightarrow> u64 \<Rightarrow> order_side \<Rightarrow> order_type \<Rightarrow> engine
    \<Rightarrow> (execution list, engine) outcome" where
  "processOrder os H i pr q t sd ty = by_value (processOrder_into os H i pr q t sd ty)"

text \<open>Which resting prices an incoming order may trade at.\<close>

fun crosses :: "order_side \<Rightarrow> order_type \<Rightarrow> u64 \<Rightarrow> u64 \<Rightarrow> bool" where
  "crosses BUY LIMIT pr bp \<longleftrightarrow> bp \<le> pr"
| "crosses SELL LIMIT pr bp \<longleftrightarrow> pr \<le> bp"
| "crosses _ _ pr bp \<longleftrightarrow> True"

fun opposite :: "order_side \<Rightarrow> ladder_id" where
  "opposite BUY = Asks"
| "opposite _ = Bids"

section \<open>Lemmas\<close>

subsection \<open>The head of the opposite side\<close>

lemma getBest_opposite: "(if sd = BUY then getBestAsk B else getBestBid B) = map_option (Pair (opposite sd)) (best (ladder_of (opposite sd) B))"
  by (cases sd) (simp_all add: getBestAsk_def getBestBid_def)

lemma concat_map_Nil: "(\<And>i. i \<in> set is \<Longrightarrow> f i = []) \<Longrightarrow> concat (map f is) = []"
  by (induction "is") auto

lemma best_head:
  assumes rep: "book_rep os H B Q"
  shows "best (ladder_of d B) = None \<Longrightarrow> side_ptrs d B Q = []"
    and "best (ladder_of d B) = Some n \<Longrightarrow> n < levelCount (ladder_of d B) \<and>
      (\<exists>p ps. Q d n = p # ps \<and> headOrder (level_of (d, n) B) = Some p \<and> (\<exists>qs. side_ptrs d B Q = p # qs))"
proof -
  note D = book_repD [OF rep [unfolded book_rep_def]]
  note best = best_iff [OF ladders_okD(1) [OF D(3), of d]] and occ = ladders_okD(3) [OF D(3), of _ d]
  show "side_ptrs d B Q = []" if "best (ladder_of d B) = None"
  proof -
    have "occ_set (ladder_of d B) = {}" using that best by (simp split: if_splits)
    with occ show ?thesis unfolding side_ptrs_def by (intro concat_map_Nil) auto
  qed
  show "n < levelCount (ladder_of d B) \<and>
      (\<exists>p ps. Q d n = p # ps \<and> headOrder (level_of (d, n) B) = Some p \<and> (\<exists>qs. side_ptrs d B Q = p # qs))"
    if "best (ladder_of d B) = Some n"
  proof -
    have ne: "occ_set (ladder_of d B) \<noteq> {}" and n: "n = Min (occ_set (ladder_of d B))" using that best by (simp_all split: if_splits)
    have "n \<in> occ_set (ladder_of d B)" unfolding n by (rule Min_in [OF bits_of_finite ne])
    then have lt: "n < levelCount (ladder_of d B)" and nz: "Q d n \<noteq> []" using occ by auto
    have low: "Q d i = []" if "i < n" for i
    proof -
      have "i \<notin> occ_set (ladder_of d B)" using that n Min_le [OF bits_of_finite] leD by blast
      with occ [of i] that lt show ?thesis by simp
    qed
    obtain p ps where q: "Q d n = p # ps" using nz by (cases "Q d n") auto
    have hd: "headOrder (level_of (d, n) B) = Some p"
      using level_rep_tail(2) [OF levels_repD(1) [OF D(4) lt]] q by simp
    obtain xs ys where "side_ptrs d B Q = xs @ Q d n @ ys" "xs = concat (map (Q d) [0..<n])"
      using side_ptrs_upd [OF lt, of Q] by metis
    moreover have "concat (map (Q d) [0..<n]) = []" using low by (intro concat_map_Nil) auto
    ultimately have "side_ptrs d B Q = p # ps @ ys" using q by simp
    with lt q hd show ?thesis by blast
  qed
qed

text \<open>The head of a side in full: its address, its level and what follows it.\<close>

lemma head_order:
  assumes rep: "book_rep os H B Q" and bs: "best (ladder_of d B) = Some n"
  obtains p ord qs where "n < levelCount (ladder_of d B)" "n < length (levels (ladder_of d B))"
    "headOrder (level_of (d, n) B) = Some p" "book_mem B p = Some ord" "priceLevel ord = Some (d, n)"
    "price ord = levelPrice (level_of (d, n) B)" "good_order d ord" "side_ptrs d B Q = p # qs"
proof -
  note D = book_repD [OF rep [unfolded book_rep_def]]
  from best_head(2) [OF rep bs] obtain p ps qs where
    h: "n < levelCount (ladder_of d B)" "Q d n = p # ps" "headOrder (level_of (d, n) B) = Some p" "side_ptrs d B Q = p # qs" by blast
  have "p \<in> set (Q d n)" using h(2) by simp
  from levels_repD(2) [OF D(4) h(1) this] obtain ord where "book_mem B p = Some ord" "priceLevel ord = Some (d, n)"
    "price ord = levelPrice (level_of (d, n) B)" "good_order d ord" by auto
  with h that ladders_okD(4) [OF D(3)] show thesis by auto
qed

lemma resting_Cons:
  assumes rep: "book_rep os H B Q" and s: "side_ptrs d B Q = p # qs" and p: "book_mem B p = Some ord"
  shows "resting d B = strip ord # map (order_at (book_mem B)) qs"
  using resting_ptrs [OF rep, of d] s p by (simp add: order_at_def)

lemma head_id_unique:
  assumes rep: "book_rep os H B Q" and s: "side_ptrs d B Q = p # qs" and p: "book_mem B p = Some ord"
  shows "q \<in> set qs \<Longrightarrow> orderId (order_at (book_mem B) q) \<noteq> orderId ord"
    and "c \<noteq> d \<Longrightarrow> q \<in> set (side_ptrs c B Q) \<Longrightarrow> orderId (order_at (book_mem B) q) \<noteq> orderId ord \<and> q \<noteq> p"
    and "q \<in> set qs \<Longrightarrow> q \<noteq> p"
proof -
  note D = book_repD [OF rep [unfolded book_rep_def]]
  have uniq: "q = p" if q: "q \<in> set (side_ptrs c B Q)" and e: "orderId (order_at (book_mem B) q) = orderId ord" for q c
  proof -
    obtain o' where o': "book_mem B q = Some o'" using side_ptrs_mem [OF D(4) q] by metis
    with e have "orderId o' = orderId ord" by (simp add: order_at_def)
    from index_agrees_unique [OF D(5) o' p this] show ?thesis .
  qed
  have dist: "p \<notin> set qs" using side_ptrs_distinct [OF D(4), of d] s by simp
  show "q \<in> set qs \<Longrightarrow> orderId (order_at (book_mem B) q) \<noteq> orderId ord" using uniq [of q d] s dist by auto
  show "q \<in> set qs \<Longrightarrow> q \<noteq> p" using dist by auto
  have "q \<noteq> p" if cd: "c \<noteq> d" and q: "q \<in> set (side_ptrs c B Q)" for q c
  proof
    assume "q = p"
    obtain i where i: "i < levelCount (ladder_of c B)" "p \<in> set (Q c i)" using q \<open>q = p\<close> side_ptrs_mem [OF D(4)] by metis
    have "p \<in> set (side_ptrs d B Q)" using s by simp
    then obtain j where "j < levelCount (ladder_of d B)" "p \<in> set (Q d j)" using side_ptrs_mem [OF D(4)] by metis
    with levels_rep_disjoint [OF D(4) i(1) _ i(2)] cd show False by blast
  qed
  then show "c \<noteq> d \<Longrightarrow> q \<in> set (side_ptrs c B Q) \<Longrightarrow> orderId (order_at (book_mem B) q) \<noteq> orderId ord \<and> q \<noteq> p"
    using uniq by blast
qed

text \<open>Filling the head completely removes it and nothing else.\<close>

lemma fill_head:
  assumes rep: "book_rep os H B Q" and s: "side_ptrs d B Q = p # qs" and p: "book_mem B p = Some ord"
  obtains B' Q' where
    "OrderBook_removeOrder H (Some p) (set_mem ((book_mem B)(p \<mapsto> with_remaining 0 ord)) B) = Ret () B'"
    "book_rep os H B' Q'" "resting d B' = map (order_at (book_mem B)) qs" "\<And>c. c \<noteq> d \<Longrightarrow> resting c B' = resting c B"
    "same_grids B B'"
proof -
  let ?h = "(book_mem B)(p \<mapsto> with_remaining 0 ord)" and ?o = "with_remaining 0 ord"
  let ?B = "set_mem ?h B"
  have ex: "book_rep_ex {p} os H ?B Q" by (rule fill_in_place [OF rep p])
  have hp: "book_mem ?B p = Some ?o" by simp
  obtain B' e i where r: "OrderBook_removeOrder H (Some p) ?B = Ret () B'" "i < levelCount (ladder_of e ?B)" "p \<in> set (Q e i)"
    "book_rep os H B' (upd_queue (e, i) (filter (\<lambda>q. q \<noteq> p) (Q e i)) Q)" "dropped p ?B B'" "same_grids ?B B'"
    using OrderBook_removeOrder_ok [OF ex subset_refl hp] by metis
  have gr: "same_grids B B'" using r(6) by (simp add: same_grids_def)
  have sp: "side_ptrs c ?B Q = side_ptrs c B Q" for c by (simp add: side_ptrs_def)
  note uq = head_id_unique [OF rep s p]
  have at: "order_at ?h q = order_at (book_mem B) q" if "q \<noteq> p" for q using that by (simp add: order_at_def)
  have res: "resting c B' = spec_cancel (orderId ord) (map (order_at ?h) (side_ptrs c B Q))" for c
    using resting_remove [OF ex r(4,2,3) hp r(5,6), of c] sp [of c] by simp
  have "resting d B' = map (order_at (book_mem B)) qs"
  proof -
    have "orderId (order_at ?h p) = orderId ord" by (simp add: order_at_def)
    then have "resting d B' = filter (\<lambda>x. orderId x \<noteq> orderId ord) (map (order_at ?h) qs)" using res [of d] s by (simp add: spec_cancel_def)
    also have "map (order_at ?h) qs = map (order_at (book_mem B)) qs" using at uq(3) by (intro map_cong) auto
    also have "filter (\<lambda>x. orderId x \<noteq> orderId ord) (map (order_at (book_mem B)) qs) = map (order_at (book_mem B)) qs"
      using uq(1) by (intro filter_True) auto
    finally show ?thesis .
  qed
  moreover have "resting c B' = resting c B" if "c \<noteq> d" for c
  proof -
    have "map (order_at ?h) (side_ptrs c B Q) = map (order_at (book_mem B)) (side_ptrs c B Q)"
      using at uq(2) [OF that] by (intro map_cong) auto
    from res [of c, unfolded this spec_cancel_def]
    have "resting c B' = filter (\<lambda>x. orderId x \<noteq> orderId ord) (map (order_at (book_mem B)) (side_ptrs c B Q))" .
    also have "\<dots> = map (order_at (book_mem B)) (side_ptrs c B Q)" using uq(2) [OF that] by (intro filter_True) auto
    finally show ?thesis using resting_ptrs [OF rep] by simp
  qed
  ultimately show thesis using that [OF r(1,4)] gr by blast
qed

text \<open>Filling it partly changes its quantity and its level's total.\<close>

lemma partial_fill_head:
  assumes rep: "book_rep os H B Q" and s: "side_ptrs d B Q = p # qs" and p: "book_mem B p = Some ord"
    and lvl: "priceLevel ord = Some (d, n)" "n < length (levels (ladder_of d B))" and v: "v < remainingQuantity ord"
  obtains B' where
    "on_level (d, n) (level_only (reduceTotalQuantity v)) (set_mem ((book_mem B)(p \<mapsto> with_remaining (remainingQuantity ord - v) ord)) B) = Ret () B'"
    "book_rep os H B' Q"
    "resting d B' = with_remaining (remainingQuantity ord - v) (strip ord) # map (order_at (book_mem B)) qs"
    "\<And>c. c \<noteq> d \<Longrightarrow> resting c B' = resting c B" "same_grids B B'"
proof -
  let ?q = "remainingQuantity ord - v"
  let ?B1 = "set_mem ((book_mem B)(p \<mapsto> with_remaining ?q ord)) B"
  obtain r where "priceLevel ord = Some r" "v \<le> totalQuantity (level_of r B)"
    "book_rep os H (set_level r ((level_of r B)\<lparr>totalQuantity := totalQuantity (level_of r B) - v\<rparr>) ?B1) Q"
    using reduce_in_place [OF rep p v] by metis
  then have r: "v \<le> totalQuantity (level_of (d, n) B)"
    "book_rep os H (set_level (d, n) ((level_of (d, n) B)\<lparr>totalQuantity := totalQuantity (level_of (d, n) B) - v\<rparr>) ?B1) Q"
    using lvl(1) by simp_all
  let ?B2 = "set_level (d, n) ((level_of (d, n) B)\<lparr>totalQuantity := totalQuantity (level_of (d, n) B) - v\<rparr>) ?B1"
  have run: "on_level (d, n) (level_only (reduceTotalQuantity v)) ?B1 = Ret () ?B2"
    using r(1) leD [OF r(1)] lvl(2) by (simp add: on_level_def level_only_def reduceTotalQuantity_def set_mem_def book_mem_def)
  have sg: "same_grids B ?B2" by (auto simp: same_grids_def ladder_of_set_level grid_eq_def)
  have rd: "reduced_to ?q p B ?B2" using p sg by (simp add: reduced_to_def)
  note uq = head_id_unique [OF rep s p] and red = resting_reduce [OF rep r(2) p rd]
  have keep: "spec_reduce (orderId ord) ?q xs = xs" if "\<And>x. x \<in> set xs \<Longrightarrow> orderId x \<noteq> orderId ord" for xs
    by (rule spec_reduce_absent) (metis imageE that)
  have "resting d ?B2 = with_remaining ?q (strip ord) # spec_reduce (orderId ord) ?q (map (order_at (book_mem B)) qs)"
    unfolding red resting_Cons [OF rep s p] by (simp add: spec_reduce_def)
  also have "spec_reduce (orderId ord) ?q (map (order_at (book_mem B)) qs) = map (order_at (book_mem B)) qs"
    by (rule keep) (use uq(1) in auto)
  finally have d: "resting d ?B2 = with_remaining ?q (strip ord) # map (order_at (book_mem B)) qs" .
  have "resting c ?B2 = resting c B" if "c \<noteq> d" for c
    unfolding red resting_ptrs [OF rep] by (rule keep) (use uq(2) [OF that] in auto)
  from that [OF run r(2) d this sg] show thesis .
qed

subsection \<open>One round\<close>

lemma crosses_iff: "crosses sd ty pr bp \<longleftrightarrow> \<not> (ty = LIMIT \<and> sd = BUY \<and> pr < bp) \<and> \<not> (ty = LIMIT \<and> sd = SELL \<and> pr > bp)"
  by (cases sd; cases ty) auto

lemma match_round_stop:
  assumes "q = 0 \<or> best (ladder_of (opposite sd) (book E)) = None"
  shows "match_loop H (Suc m) i pr sd ty q (E, out) = Ret q (E, out)"
  using assms by (auto simp: getBest_opposite)

text \<open>The order a round works on: the oldest at the best price of the opposite side.\<close>

definition round_head :: "order_side \<Rightarrow> order_book \<Rightarrow> nat \<Rightarrow> ptr \<Rightarrow> order \<Rightarrow> bool" where
  "round_head sd B n p ord \<longleftrightarrow>
     best (ladder_of (opposite sd) B) = Some n \<and> n < length (levels (ladder_of (opposite sd) B)) \<and>
     headOrder (level_of (opposite sd, n) B) = Some p \<and> book_mem B p = Some ord \<and>
     price ord = levelPrice (level_of (opposite sd, n) B)"

lemma match_round_no_cross:
  assumes "round_head sd (book E) n p ord" and "\<not> crosses sd ty pr (price ord)"
  shows "match_loop H (Suc m) i pr sd ty q (E, out) = Ret q (E, out)"
  using assms unfolding round_head_def crosses_iff by (auto simp: getBest_opposite)

lemma match_round_full:
  assumes "round_head sd (book E) n p ord" and "crosses sd ty pr (price ord)" and "q > 0" and "remainingQuantity ord \<le> q"
    and "OrderBook_removeOrder H (Some p) (set_mem ((book_mem (book E))(p \<mapsto> with_remaining 0 ord)) (book E)) = Ret () B'"
  shows "match_loop H (Suc m) i pr sd ty q (E, out) =
    match_loop H m i pr sd ty (q - remainingQuantity ord) (E\<lparr>book := B'\<rparr>, out @ [\<lparr>incomingOrderId = i, restingOrderId = orderId ord,
      executionPrice = price ord, executionQuantity = remainingQuantity ord\<rparr>])"
  using assms unfolding round_head_def crosses_iff
  by (simp add: getBest_opposite Let_def on_book_def on_order_def emplace_back_def reduceRemainingQuantity_def
      isFullyFilled_def min_absorb2 del: match_loop.simps(1)) auto

lemma match_round_partial:
  assumes "round_head sd (book E) n p ord" and "crosses sd ty pr (price ord)" and "q > 0" and "q < remainingQuantity ord"
    and "on_level (opposite sd, n) (level_only (reduceTotalQuantity q))
      (set_mem ((book_mem (book E))(p \<mapsto> with_remaining (remainingQuantity ord - q) ord)) (book E)) = Ret () B'"
  shows "match_loop H (Suc m) i pr sd ty q (E, out) =
    match_loop H m i pr sd ty 0 (E\<lparr>book := B'\<rparr>, out @ [\<lparr>incomingOrderId = i, restingOrderId = orderId ord,
      executionPrice = price ord, executionQuantity = q\<rparr>])"
proof -
  have "min q (remainingQuantity ord) = q" "remainingQuantity ord - q \<noteq> 0" "\<not> remainingQuantity ord < q"
    using assms(4) by auto
  with assms show ?thesis unfolding round_head_def crosses_iff
  by (simp add: getBest_opposite Let_def on_book_def on_order_def emplace_back_def reduceRemainingQuantity_def
      isFullyFilled_def del: match_loop.simps(1)) auto
qed

subsection \<open>The loop\<close>

definition book_step_ok :: "os_env \<Rightarrow> hash_fun \<Rightarrow> ladder_id \<Rightarrow> order list \<Rightarrow> engine \<Rightarrow> engine \<Rightarrow> bool" where
  "book_step_ok os H d ys E E' \<longleftrightarrow>
     book_ok os H (book E') \<and> resting d (book E') = ys \<and> (\<forall>c. c \<noteq> d \<longrightarrow> resting c (book E') = resting c (book E)) \<and>
     same_grids (book E) (book E') \<and> currentSequence E' = currentSequence E"

lemma book_step_ok_trans:
  "book_step_ok os H d xs E E1 \<Longrightarrow> book_step_ok os H d ys E1 E2 \<Longrightarrow> book_step_ok os H d ys E E2"
  unfolding book_step_ok_def using same_grids_trans by metis

lemma match_loop_spec:
  assumes "book_ok os H (book E)" and "length (resting (opposite sd) (book E)) < n"
    and "spec_match (crosses sd ty pr) i q (resting (opposite sd) (book E)) = (es, r, ys)"
  shows "\<exists>E'. match_loop H n i pr sd ty q (E, out) = Ret r (E', out @ es) \<and> book_step_ok os H (opposite sd) ys E E'"
  using assms
proof (induction n arbitrary: E q es r ys out)
  case (Suc n)
  let ?d = "opposite sd" and ?B = "book E"
  obtain Q where rep: "book_rep os H ?B Q" using book_okE [OF Suc.prems(1)] .
  have self: "book_step_ok os H ?d (resting ?d ?B) E E"
    using Suc.prems(1) by (simp add: book_step_ok_def same_grids_def grid_eq_def)
  show ?case
  proof (cases "best (ladder_of ?d ?B)")
    case None
    then have "resting ?d ?B = []" using best_head(1) [OF rep] resting_ptrs [OF rep] by simp
    with Suc.prems(3) self None match_round_stop [of q sd E] show ?thesis by auto
  next
    case (Some k)
    obtain p ord qs where h: "k < levelCount (ladder_of ?d ?B)" "k < length (levels (ladder_of ?d ?B))"
      "headOrder (level_of (?d, k) ?B) = Some p" "book_mem ?B p = Some ord" "priceLevel ord = Some (?d, k)"
      "price ord = levelPrice (level_of (?d, k) ?B)" "good_order ?d ord" "side_ptrs ?d ?B Q = p # qs"
      by (rule head_order [OF rep Some])
    let ?xs = "map (order_at (book_mem ?B)) qs"
    have xs: "resting ?d ?B = strip ord # ?xs" by (rule resting_Cons [OF rep h(8,4)])
    have rh: "round_head sd ?B k p ord" using Some h by (simp add: round_head_def)
    note sp = Suc.prems(3) [unfolded xs]
    consider (stop) "q = 0" | (no_cross) "q \<noteq> 0" "\<not> crosses sd ty pr (price ord)"
      | (full) "q \<noteq> 0" "crosses sd ty pr (price ord)" "remainingQuantity ord \<le> q"
      | (part) "q \<noteq> 0" "crosses sd ty pr (price ord)" "q < remainingQuantity ord" by force
    then show ?thesis
    proof cases
      case stop
      with sp self xs match_round_stop [of q sd E] show ?thesis by auto
    next
      case no_cross
      with sp self xs match_round_no_cross [OF rh] show ?thesis by auto
    next
      case full
      obtain B' Q' where B': "OrderBook_removeOrder H (Some p) (set_mem ((book_mem ?B)(p \<mapsto> with_remaining 0 ord)) ?B) = Ret () B'"
        "book_rep os H B' Q'" "resting ?d B' = ?xs" "\<And>c. c \<noteq> ?d \<Longrightarrow> resting c B' = resting c ?B" "same_grids ?B B'"
        by (rule fill_head [OF rep h(8,4)]) blast
      let ?E = "E\<lparr>book := B'\<rparr>"
      let ?x = "\<lparr>incomingOrderId = i, restingOrderId = orderId ord, executionPrice = price ord, executionQuantity = remainingQuantity ord\<rparr>"
      have ok: "book_step_ok os H ?d ?xs E ?E" using B' book_rep_ok [OF B'(2)] by (simp add: book_step_ok_def)
      obtain es' where s': "spec_match (crosses sd ty pr) i (q - remainingQuantity ord) ?xs = (es', r, ys)" "es = ?x # es'"
        using sp full by (auto simp: min_absorb2 Let_def split: prod.splits)
      have "\<exists>E'. match_loop H n i pr sd ty (q - remainingQuantity ord) (?E, out @ [?x]) = Ret r (E', (out @ [?x]) @ es') \<and>
          book_step_ok os H ?d ys ?E E'"
        by (rule Suc.IH) (use ok Suc.prems(2) xs s'(1) B'(3) in \<open>auto simp: book_step_ok_def\<close>)
      with match_round_full [OF rh full(2) _ full(3) B'(1)] full(1) s'(2) book_step_ok_trans [OF ok] show ?thesis
        by (auto simp: word_neq_0_conv)
    next
      case part
      obtain B' where B': "on_level (?d, k) (level_only (reduceTotalQuantity q))
          (set_mem ((book_mem ?B)(p \<mapsto> with_remaining (remainingQuantity ord - q) ord)) ?B) = Ret () B'"
        "book_rep os H B' Q" "resting ?d B' = with_remaining (remainingQuantity ord - q) (strip ord) # ?xs"
        "\<And>c. c \<noteq> ?d \<Longrightarrow> resting c B' = resting c ?B" "same_grids ?B B'"
        by (rule partial_fill_head [OF rep h(8,4,5,2) part(3)]) blast
      let ?E = "E\<lparr>book := B'\<rparr>"
      have ok: "book_step_ok os H ?d (resting ?d B') E ?E" using B' book_rep_ok [OF B'(2)] by (simp add: book_step_ok_def)
      obtain m where m: "n = Suc m" using Suc.prems(2) xs by (cases n) auto
      have "q \<noteq> remainingQuantity ord" using part(3) by simp
      with sp part have "r = 0" "ys = resting ?d B'"
        "es = [\<lparr>incomingOrderId = i, restingOrderId = orderId ord, executionPrice = price ord, executionQuantity = q\<rparr>]"
        by (auto simp: min_absorb1 Let_def B'(3))
      with match_round_partial [OF rh part(2) _ part(3) B'(1)] part(1) match_round_stop [of 0 sd ?E] ok m show ?thesis
        by (auto simp: word_neq_0_conv)
    qed
  qed
qed simp

end
