(* ===== verification/Engine_Spec.thy ===== *)
theory Engine_Spec
  imports Matching_Engine "HOL-Library.Sublist"
begin

text \<open>
  The reference engine: a step relation on the visible state (the resting orders of both
  sides in priority order and the last sequence number), its invariant, and the simulation
  that carries both over to \<open>MatchingEngine\<close>. The matching itself is \<open>spec_match\<close> of the
  abstract book; the step relation adds what an event refuses, what rests and what happens
  when the remainder cannot rest.
\<close>

section \<open>The reference engine\<close>

text \<open>
  The visible state of an engine: the resting orders of each side in priority order, and
  the last sequence number handed out.
\<close>

type_synonym sides = "ladder_id \<Rightarrow> order list"

definition view :: "engine \<Rightarrow> sides \<times> u64" where
  "view E = (\<lambda>d. resting d (book E), currentSequence E)"

definition in_use :: "u64 \<Rightarrow> sides \<Rightarrow> bool" where
  "in_use k v \<longleftrightarrow> k \<in> orderId ` set (v Bids) \<or> k \<in> orderId ` set (v Asks)"

definition incoming_ok :: "new_order \<Rightarrow> bool" where
  "incoming_ok n \<longleftrightarrow>
     OrderId_isValid (newOrderId n) \<and> Quantity_isValid (newQuantity n) \<and> Timestamp_isValid (newTimestamp n) \<and>
     (newSide n = BUY \<or> newSide n = SELL) \<and>
     (newType n = LIMIT \<and> Price_isValid (newPrice n) \<or> newType n = MARKET \<and> \<not> Price_isValid (newPrice n))"

text \<open>The events an engine turns down without touching anything.\<close>

fun refuses :: "order_event \<Rightarrow> sides \<times> u64 \<Rightarrow> bool" where
  "refuses (NewEvent n) (v, c) \<longleftrightarrow> \<not> incoming_ok n \<or> in_use (newOrderId n) v \<or> c = - 1"
| "refuses (CancelEvent k) (v, c) \<longleftrightarrow> \<not> OrderId_isValid (cancelOrderId k)"
| "refuses (ReduceEvent r) (v, c) \<longleftrightarrow> \<not> OrderId_isValid (reduceOrderId r) \<or>
     (\<exists>d. \<exists>x \<in> set (v d). orderId x = reduceOrderId r \<and> (reduceQuantity r = 0 \<or> reduceQuantity r > remainingQuantity x))"

definition matched :: "new_order \<Rightarrow> sides \<Rightarrow> execution list \<times> u64 \<times> order list" where
  "matched n v =
     spec_match (crosses (newSide n) (newType n) (newPrice n)) (newOrderId n) (newQuantity n) (v (opposite (newSide n)))"

definition remainder :: "new_order \<Rightarrow> u64 \<Rightarrow> u64 \<Rightarrow> order" where
  "remainder n r sq =
     Order_full (newOrderId n) (newPrice n) (newQuantity n) r (newTimestamp n) (newSide n) LIMIT sq"

definition rest :: "new_order \<Rightarrow> u64 \<Rightarrow> u64 \<Rightarrow> sides \<Rightarrow> sides" where
  "rest n r sq v =
     (if r \<noteq> 0 \<and> newType n = LIMIT
      then v(side_of (newSide n) := spec_insert (side_of (newSide n)) (remainder n r sq) (v (side_of (newSide n))))
      else v)"

text \<open>What an event does, with the executions it reports; a failure may report some too.\<close>

datatype reply = Accepted "execution list" | Failed error "execution list"

inductive engine_step :: "order_event \<Rightarrow> sides \<times> u64 \<Rightarrow> reply \<Rightarrow> sides \<times> u64 \<Rightarrow> bool" where
  refused: "refuses ev s \<Longrightarrow> defined_error e \<Longrightarrow> engine_step ev s (Failed e []) s"
| filled: "\<not> refuses (NewEvent n) (v, c) \<Longrightarrow> matched n v = (es, r, ys) \<Longrightarrow>
    engine_step (NewEvent n) (v, c) (Accepted es) (rest n r (c + 1) (v(opposite (newSide n) := ys)), c + 1)"
| stranded: "\<not> refuses (NewEvent n) (v, c) \<Longrightarrow> matched n v = (es, r, ys) \<Longrightarrow> r \<noteq> 0 \<Longrightarrow> newType n = LIMIT \<Longrightarrow>
    defined_error e \<Longrightarrow>
    engine_step (NewEvent n) (v, c) (Failed e es) (v(opposite (newSide n) := ys), c + 1)"
| cancelled: "\<not> refuses (CancelEvent k) (v, c) \<Longrightarrow>
    engine_step (CancelEvent k) (v, c) (Accepted []) (\<lambda>d. spec_cancel (cancelOrderId k) (v d), c)"
| reduced: "\<not> refuses (ReduceEvent r) (v, c) \<Longrightarrow>
    engine_step (ReduceEvent r) (v, c) (Accepted []) (\<lambda>d. spec_reduce (reduceOrderId r) (reduceQuantity r) (v d), c)"

inductive_cases engine_step_NewE: "engine_step (NewEvent n) s r t"
inductive_cases engine_step_CancelE: "engine_step (CancelEvent k) s r t"
inductive_cases engine_step_ReduceE: "engine_step (ReduceEvent x) s r t"

section \<open>Simulation\<close>

lemma opposite_side: "newSide n = BUY \<or> newSide n = SELL \<Longrightarrow> side_of (newSide n) \<noteq> opposite (newSide n)"
  by auto

lemma find_in_use:
  assumes "book_ok os H (book E)"
  obtains r where "OrderBook_findOrder H k (book E) = Inr r" "r \<noteq> None \<longleftrightarrow> in_use k (fst (view E))"
proof -
  obtain Q where rep: "book_rep os H (book E) Q" using book_okE [OF assms] .
  note D = book_repD [OF rep [unfolded book_rep_def]]
  have "index_map (orderIndex (book E)) k \<noteq> None \<longleftrightarrow> (\<exists>p ord. book_mem (book E) p = Some ord \<and> orderId ord = k)"
    using index_agreesD [OF D(5)] by (metis not_None_eq)
  also have "\<dots> \<longleftrightarrow> (\<exists>d. k \<in> orderId ` set (resting d (book E)))" using resting_absent [OF rep, of k] by blast
  also have "\<dots> \<longleftrightarrow> in_use k (fst (view E))" unfolding in_use_def view_def by (metis fst_conv ladder_id.exhaust)
  finally show thesis using that book_find [OF rep [unfolded book_rep_def], of k] by (simp add: OrderBook_findOrder_def)
qed

lemma resting_length:
  assumes "book_ok os H B"
  shows "length (resting d B) \<le> liveOrderCount (orderPool B)"
  using book_okE [OF assms] resting_ptrs side_ptrs_length by (metis length_map)

abbreviation match_new :: "os_env \<Rightarrow> hash_fun \<Rightarrow> new_order \<Rightarrow> engine_buffer \<Rightarrow> (unit, engine_buffer) outcome" where
  "match_new os H n \<equiv> matchOrder os H (newOrderId n) (newPrice n) (newQuantity n) (newTimestamp n) (newSide n) (newType n)"

text \<open>The guards, in one statement: what they let through is what the reference engine accepts.\<close>

lemma matchOrder_refused:
  assumes "book_ok os H (book E)" and "refuses (NewEvent n) (view E)"
  obtains e where "match_new os H n (E, out) = Throw e (E, out)" "defined_error e"
proof -
  obtain r where r: "OrderBook_findOrder H (newOrderId n) (book E) = Inr r" "r \<noteq> None \<longleftrightarrow> in_use (newOrderId n) (fst (view E))"
    using find_in_use [OF assms(1)] .
  have ref: "\<not> incoming_ok n \<or> in_use (newOrderId n) (fst (view E)) \<or> currentSequence E = - 1"
    using assms(2) by (simp add: view_def)
  have "\<exists>e. match_new os H n (E, out) = Throw e (E, out) \<and> defined_error e"
  proof (cases "incoming_ok n")
    case False
    then show ?thesis unfolding matchOrder_def incoming_ok_def by auto
  next
    case True
    with ref r have "r \<noteq> None \<or> r = None \<and> currentSequence E = - 1" by auto
    with True r(1) show ?thesis unfolding matchOrder_def incoming_ok_def
      by (auto simp: next_sequence_def SequenceNumberGenerator_generate_def)
  qed
  then show thesis using that by blast
qed

lemma matchOrder_accepted:
  assumes "book_ok os H (book E)" and "\<not> refuses (NewEvent n) (view E)" and "matched n (fst (view E)) = (es, r, ys)"
  obtains E' where "match_new os H n (E, out) =
      (if r > 0 \<and> newType n = LIMIT
       then bind_outcome (on_book (addRestingRemainder os H (newOrderId n) (newPrice n) (newQuantity n) r (newTimestamp n)
          (newSide n) LIMIT (currentSequence E + 1)) (E', out @ es)) (\<lambda>_ s3. Ret () s3)
       else Ret () (E', out @ es))"
    "book_ok os H (book E')" "view E' = ((fst (view E))(opposite (newSide n) := ys), currentSequence E + 1)"
    "same_grids (book E) (book E')"
    "match_loop H (liveOrderCount (orderPool (book E)) + 2) (newOrderId n) (newPrice n) (newSide n) (newType n) (newQuantity n)
      (E\<lparr>currentSequence := currentSequence E + 1\<rparr>, out) = Ret r (E', out @ es)"
proof -
  let ?E = "E\<lparr>currentSequence := currentSequence E + 1\<rparr>"
  obtain f where f: "OrderBook_findOrder H (newOrderId n) (book E) = Inr f" "f \<noteq> None \<longleftrightarrow> in_use (newOrderId n) (fst (view E))"
    using find_in_use [OF assms(1)] .
  from assms(2) have g: "incoming_ok n" "f = None" "currentSequence E \<noteq> - 1" using f(2) by (auto simp: view_def)
  have sq: "next_sequence (E, out) = Ret (currentSequence E + 1) (?E, out)"
    using g(3) by (simp add: next_sequence_def SequenceNumberGenerator_generate_def)
  have "\<exists>E'. match_loop H (liveOrderCount (orderPool (book ?E)) + 2) (newOrderId n) (newPrice n) (newSide n) (newType n)
      (newQuantity n) (?E, out) = Ret r (E', out @ es) \<and> book_step_ok os H (opposite (newSide n)) ys ?E E'"
    by (rule match_loop_spec) (use assms resting_length [OF assms(1), of "opposite (newSide n)"] in
        \<open>simp_all add: matched_def view_def less_Suc_eq_le le_SucI\<close>)
  then obtain E' where E': "match_loop H (liveOrderCount (orderPool (book ?E)) + 2) (newOrderId n) (newPrice n) (newSide n) (newType n)
      (newQuantity n) (?E, out) = Ret r (E', out @ es)" "book_step_ok os H (opposite (newSide n)) ys ?E E'" by blast
  have "match_new os H n (E, out) =
      (if r > 0 \<and> newType n = LIMIT
       then bind_outcome (on_book (addRestingRemainder os H (newOrderId n) (newPrice n) (newQuantity n) r (newTimestamp n)
          (newSide n) LIMIT (currentSequence E + 1)) (E', out @ es)) (\<lambda>_ s3. Ret () s3)
       else Ret () (E', out @ es))"
    using g(1) f(1) g(2) sq E'(1) unfolding matchOrder_def incoming_ok_def by (auto simp del: match_loop.simps)
  moreover have "view E' = ((fst (view E))(opposite (newSide n) := ys), currentSequence E + 1)"
    using E'(2) by (auto simp: view_def book_step_ok_def fun_eq_iff)
  ultimately show thesis using that E' by (simp add: book_step_ok_def del: match_loop.simps)
qed

definition reply_of :: "(nat, engine_buffer) outcome \<Rightarrow> reply" where
  "reply_of R = (case R of Ret _ s \<Rightarrow> Accepted (snd s) | Throw e s \<Rightarrow> Failed e (snd s))"

definition next_engine :: "(nat, engine_buffer) outcome \<Rightarrow> engine" where
  "next_engine R = fst (state_of R)"

lemma match_new_step:
  assumes fresh: "os_fresh os" and ok: "book_ok os H (book E)" and R: "match_new os H n (E, []) = R"
  shows "book_ok os H (book (fst (state_of R)))"
    and "engine_step (NewEvent n) (view E) (case R of Ret _ s \<Rightarrow> Accepted (snd s) | Throw e s \<Rightarrow> Failed e (snd s)) (view (fst (state_of R)))"
proof -
  let ?c = "currentSequence E"
  obtain v where vE: "view E = (v, ?c)" by (simp add: view_def)
  then have v: "fst (view E) = v" by simp
  let ?goal = "book_ok os H (book (fst (state_of R))) \<and>
    engine_step (NewEvent n) (view E) (case R of Ret _ s \<Rightarrow> Accepted (snd s) | Throw e s \<Rightarrow> Failed e (snd s)) (view (fst (state_of R)))"
  have ?goal
  proof (cases "refuses (NewEvent n) (view E)")
    case True
    obtain e where "match_new os H n (E, []) = Throw e (E, [])" "defined_error e" using matchOrder_refused [OF ok True] .
    with ok R engine_step.refused [OF True, of e] show ?thesis by auto
  next
    case False
    obtain es r ys where m: "matched n v = (es, r, ys)" by (cases "matched n v") auto
    obtain E' where E': "match_new os H n (E, []) =
        (if r > 0 \<and> newType n = LIMIT
         then bind_outcome (on_book (addRestingRemainder os H (newOrderId n) (newPrice n) (newQuantity n) r (newTimestamp n)
            (newSide n) LIMIT (?c + 1)) (E', [] @ es)) (\<lambda>_ s3. Ret () s3)
         else Ret () (E', [] @ es))"
      "book_ok os H (book E')" "view E' = (v(opposite (newSide n) := ys), ?c + 1)"
      by (rule matchOrder_accepted [OF ok False, unfolded v, OF m, where out = "[]"]) blast
    note filled = engine_step.filled [OF False [unfolded vE] m, folded vE]
    show ?thesis
    proof (cases "r > 0 \<and> newType n = LIMIT")
      case False
      with E' R have "R = Ret () (E', es)" by auto
      with E'(2,3) filled False show ?thesis by (auto simp: rest_def word_neq_0_conv)
    next
      case True
      let ?add = "addOrderWithQuantities os H (newOrderId n) (newPrice n) (newQuantity n) r (newTimestamp n) (newSide n) LIMIT (?c + 1) (book E')"
      show ?thesis
      proof (cases ?add)
        case (Ret p B)
        note a = add_Ret [OF E'(2) fresh Ret]
        have "R = Ret () (E'\<lparr>book := B\<rparr>, es)" using E'(1) R True Ret by (simp add: addRestingRemainder_def on_book_def)
        moreover have "view (E'\<lparr>book := B\<rparr>) = (rest n r (?c + 1) (v(opposite (newSide n) := ys)), ?c + 1)"
          using a(5,6) E'(3) True vE by (auto simp: view_def rest_def remainder_def fun_eq_iff)
        ultimately show ?thesis using a(1) filled by simp
      next
        case (Throw e B)
        note a = add_Throw [OF E'(2) fresh Throw]
        have "R = Throw e (E'\<lparr>book := B\<rparr>, es)" using E'(1) R True Throw by (simp add: addRestingRemainder_def on_book_def)
        moreover have "view (E'\<lparr>book := B\<rparr>) = (v(opposite (newSide n) := ys), ?c + 1)"
          using a(3) E'(3) vE by (simp add: view_def fun_eq_iff)
        moreover have "engine_step (NewEvent n) (view E) (Failed e es) (v(opposite (newSide n) := ys), ?c + 1)"
          using engine_step.stranded [OF False [unfolded vE] m _ _ a(2), folded vE] True by (auto simp: word_neq_0_conv)
        ultimately show ?thesis using a(1) by simp
      qed
    qed
  qed
  then show "book_ok os H (book (fst (state_of R)))"
    and "engine_step (NewEvent n) (view E) (case R of Ret _ s \<Rightarrow> Accepted (snd s) | Throw e s \<Rightarrow> Failed e (snd s)) (view (fst (state_of R)))"
    by simp_all
qed

lemma cancel_step:
  assumes ok: "book_ok os H (book E)" and R: "processEvent_into os H (CancelEvent k) (E, out) = R"
  shows "book_ok os H (book (next_engine R)) \<and> engine_step (CancelEvent k) (view E) (reply_of R) (view (next_engine R))"
proof (cases "OrderId_isValid (cancelOrderId k)")
  case False
  then have "R = Throw (InvalidArgument ''Invalid cancel order ID'') (E, [])" using R by (simp add: processEvent_into_def)
  with False ok show ?thesis by (auto simp: next_engine_def reply_of_def view_def intro: engine_step.refused)
next
  case True
  obtain b B' where c: "cancelOrder H (cancelOrderId k) (book E) = Ret b B'" "book_ok os H B'"
    "\<And>d. resting d B' = spec_cancel (cancelOrderId k) (resting d (book E))"
    by (rule cancel_refines [OF ok]) blast
  have "R = Ret 0 (E\<lparr>book := B'\<rparr>, [])" using R True c(1) by (simp add: processEvent_into_def on_book_def)
  with c(2,3) True engine_step.cancelled [of k "fst (view E)" "snd (view E)"] show ?thesis
    by (simp add: next_engine_def reply_of_def view_def)
qed

lemma reduce_step:
  assumes ok: "book_ok os H (book E)" and R: "processEvent_into os H (ReduceEvent x) (E, out) = R"
  shows "book_ok os H (book (next_engine R)) \<and> engine_step (ReduceEvent x) (view E) (reply_of R) (view (next_engine R))"
proof (cases "OrderId_isValid (reduceOrderId x)")
  case False
  then have "R = Throw (InvalidArgument ''Invalid reduce order ID'') (E, [])" using R by (simp add: processEvent_into_def)
  with False ok show ?thesis by (auto simp: next_engine_def reply_of_def view_def intro: engine_step.refused)
next
  case True
  let ?k = "reduceOrderId x" and ?q = "reduceQuantity x"
  obtain Q where rep: "book_rep os H (book E) Q" using book_okE [OF ok] .
  have run: "R = (case reduceOrder H ?k ?q (book E) of Ret b B' \<Rightarrow> Ret 0 (E\<lparr>book := B'\<rparr>, []) | Throw e B' \<Rightarrow> Throw e (E\<lparr>book := B'\<rparr>, []))"
    using R True by (cases "reduceOrder H ?k ?q (book E)") (simp_all add: processEvent_into_def on_book_def)
  show ?thesis
  proof (rule reduce_refines [OF ok, of ?k ?q])
    assume r: "reduceOrder H ?k ?q (book E) = Ret False (book E)" and n: "\<And>d. ?k \<notin> orderId ` set (resting d (book E))"
    have "\<not> refuses (ReduceEvent x) (view E)" unfolding view_def refuses.simps using True n by (metis image_eqI)
    moreover have "(\<lambda>d. spec_reduce ?k ?q (fst (view E) d)) = fst (view E)" using spec_reduce_absent [OF n] by (simp add: view_def)
    ultimately show ?thesis using run r ok engine_step.reduced [of x "fst (view E)" "snd (view E)"]
      by (simp add: next_engine_def reply_of_def view_def)
  next
    fix d y assume r: "reduceOrder H ?k ?q (book E) = Throw reduce_error (book E)" "y \<in> set (resting d (book E))"
      "orderId y = ?k" "?q = 0 \<or> remainingQuantity y < ?q"
    then have "refuses (ReduceEvent x) (view E)" by (auto simp: view_def)
    with run r ok engine_step.refused [of "ReduceEvent x" "view E" reduce_error] show ?thesis
      by (simp add: next_engine_def reply_of_def reduce_error_def)
  next
    fix d y B' assume r: "reduceOrder H ?k ?q (book E) = Ret True B'" "y \<in> set (resting d (book E))" "orderId y = ?k"
      "?q \<noteq> 0" "?q \<le> remainingQuantity y" "book_ok os H B'" "\<And>c. resting c B' = spec_reduce ?k ?q (resting c (book E))"
    have "z = y" if "z \<in> set (resting c (book E))" "orderId z = ?k" for c z
      using ids_unique [OF rep that(1) r(2)] that(2) r(3) by simp
    then have "\<not> refuses (ReduceEvent x) (view E)" using True r(4,5) by (auto simp: view_def)
    with run r engine_step.reduced [of x "fst (view E)" "snd (view E)"] show ?thesis
      by (simp add: next_engine_def reply_of_def view_def)
  qed
qed

lemma processEvent_step:
  assumes "os_fresh os" and "book_ok os H (book E)"
  shows "book_ok os H (book (next_engine (processEvent_into os H ev (E, out))))"
    and "engine_step ev (view E) (reply_of (processEvent_into os H ev (E, out))) (view (next_engine (processEvent_into os H ev (E, out))))"
proof -
  have "book_ok os H (book (next_engine (processEvent_into os H ev (E, out)))) \<and>
    engine_step ev (view E) (reply_of (processEvent_into os H ev (E, out))) (view (next_engine (processEvent_into os H ev (E, out))))"
  proof (cases ev)
    case (NewEvent n)
    show ?thesis
    proof (cases "match_new os H n (E, [])")
      case (Ret u s)
      with match_new_step [OF assms Ret] NewEvent show ?thesis by (simp add: processEvent_into_def reply_of_def next_engine_def)
    next
      case (Throw e s)
      with match_new_step [OF assms Throw] NewEvent show ?thesis by (simp add: processEvent_into_def reply_of_def next_engine_def)
    qed
  next
    case (CancelEvent k)
    with cancel_step [OF assms(2)] show ?thesis by blast
  next
    case (ReduceEvent x)
    with reduce_step [OF assms(2)] show ?thesis by blast
  qed
  then show "book_ok os H (book (next_engine (processEvent_into os H ev (E, out))))"
    and "engine_step ev (view E) (reply_of (processEvent_into os H ev (E, out))) (view (next_engine (processEvent_into os H ev (E, out))))"
    by simp_all
qed

section \<open>Facts about the reference matching\<close>

lemma spec_match_Cons:
  assumes "q \<noteq> 0" and "P (price x)"
  shows "remainingQuantity x \<le> q \<Longrightarrow> spec_match P i q (x # xs) =
      (case spec_match P i (q - remainingQuantity x) xs of (es, r, ys) \<Rightarrow>
        (\<lparr>incomingOrderId = i, restingOrderId = orderId x, executionPrice = price x, executionQuantity = remainingQuantity x\<rparr> # es, r, ys))"
    and "q < remainingQuantity x \<Longrightarrow> spec_match P i q (x # xs) =
      ([\<lparr>incomingOrderId = i, restingOrderId = orderId x, executionPrice = price x, executionQuantity = q\<rparr>], 0,
       with_remaining (remainingQuantity x - q) x # xs)"
proof -
  show "remainingQuantity x \<le> q \<Longrightarrow> spec_match P i q (x # xs) =
      (case spec_match P i (q - remainingQuantity x) xs of (es, r, ys) \<Rightarrow>
        (\<lparr>incomingOrderId = i, restingOrderId = orderId x, executionPrice = price x, executionQuantity = remainingQuantity x\<rparr> # es, r, ys))"
    using assms by (simp add: min_absorb2 Let_def split: prod.split)
  assume lt: "q < remainingQuantity x"
  then have "min q (remainingQuantity x) = q" "q \<noteq> remainingQuantity x" by auto
  with assms show "spec_match P i q (x # xs) =
      ([\<lparr>incomingOrderId = i, restingOrderId = orderId x, executionPrice = price x, executionQuantity = q\<rparr>], 0,
       with_remaining (remainingQuantity x - q) x # xs)" by (simp add: Let_def)
qed

text \<open>Induction over the consumed orders, with the four ways a round can go.\<close>

lemma spec_match_induct [consumes 1, case_names stop full part]:
  assumes "spec_match P i q xs = (es, r, ys)"
    and stop: "\<And>q xs. q = 0 \<or> xs = [] \<or> \<not> P (price (hd xs)) \<Longrightarrow> R q xs [] q xs"
    and full: "\<And>q x xs es r ys. q \<noteq> 0 \<Longrightarrow> P (price x) \<Longrightarrow> remainingQuantity x \<le> q \<Longrightarrow>
      R (q - remainingQuantity x) xs es r ys \<Longrightarrow>
      R q (x # xs) (\<lparr>incomingOrderId = i, restingOrderId = orderId x, executionPrice = price x, executionQuantity = remainingQuantity x\<rparr> # es) r ys"
    and part: "\<And>q x xs. q \<noteq> 0 \<Longrightarrow> P (price x) \<Longrightarrow> q < remainingQuantity x \<Longrightarrow>
      R q (x # xs) [\<lparr>incomingOrderId = i, restingOrderId = orderId x, executionPrice = price x, executionQuantity = q\<rparr>] 0
        (with_remaining (remainingQuantity x - q) x # xs)"
  shows "R q xs es r ys"
  using assms(1)
proof (induction xs arbitrary: q es r ys)
  case Nil
  then show ?case using stop [of q "[]"] by simp
next
  case (Cons x xs)
  consider "q = 0 \<or> \<not> P (price x)" | "q \<noteq> 0" "P (price x)" "remainingQuantity x \<le> q"
    | "q \<noteq> 0" "P (price x)" "q < remainingQuantity x" by force
  then show ?case
  proof cases
    case 1
    then show ?thesis using Cons.prems stop [of q "x # xs"] by auto
  next
    case 2
    with Cons.prems spec_match_Cons(1) [of q P x, OF 2] full [OF 2] Cons.IH show ?thesis by (auto split: prod.splits)
  next
    case 3
    with Cons.prems spec_match_Cons(2) [of q P x, OF 3] part [OF 3] show ?thesis by auto
  qed
qed

definition total :: "order list \<Rightarrow> nat" where
  "total xs = (\<Sum>x \<leftarrow> xs. unat (remainingQuantity x))"

definition traded :: "execution list \<Rightarrow> nat" where
  "traded es = (\<Sum>e \<leftarrow> es. unat (executionQuantity e))"

lemma spec_match_conserves:
  assumes "spec_match P i q xs = (es, r, ys)"
  shows "traded es + unat r = unat q \<and> traded es + total ys = total xs"
  using assms
  by (induction rule: spec_match_induct) (auto simp: traded_def total_def unat_sub_u64 word_le_nat_alt word_less_nat_alt)

lemma spec_match_priority:
  assumes "spec_match P i q xs = (es, r, ys)"
  shows "length es \<le> length xs \<and> map restingOrderId es = map orderId (take (length es) xs) \<and>
    map executionPrice es = map price (take (length es) xs) \<and>
    list_all (\<lambda>e. incomingOrderId e = i \<and> P (executionPrice e)) es"
  using assms by (induction rule: spec_match_induct) auto

lemma spec_match_positive:
  assumes "spec_match P i q xs = (es, r, ys)" and "\<forall>x \<in> set xs. remainingQuantity x \<noteq> 0"
  shows "list_all (\<lambda>e. executionQuantity e \<noteq> 0) es"
  using assms by (induction rule: spec_match_induct) auto

lemma spec_match_leftover:
  assumes "spec_match P i q xs = (es, r, ys)" and "r \<noteq> 0"
  shows "ys = [] \<or> \<not> P (price (hd ys))"
  using assms by (induction rule: spec_match_induct) auto

text \<open>What a match, a cancellation or a reduction does to a side: orders go, others shrink.\<close>

definition shrunk :: "order \<Rightarrow> order \<Rightarrow> bool" where
  "shrunk y x \<longleftrightarrow> (\<exists>q. q \<noteq> 0 \<and> q \<le> remainingQuantity x \<and> y = with_remaining q x)"

abbreviation thinned :: "order list \<Rightarrow> order list \<Rightarrow> bool" where
  "thinned \<equiv> list_emb shrunk"

lemma shrunk_refl: "remainingQuantity x \<noteq> 0 \<Longrightarrow> shrunk x x"
  by (auto simp: shrunk_def intro!: exI [of _ "remainingQuantity x"])

lemma thinned_refl: "\<forall>x \<in> set xs. remainingQuantity x \<noteq> 0 \<Longrightarrow> thinned xs xs"
  by (rule list_emb_refl) (use shrunk_refl in blast)

lemma shrunk_sel:
  "shrunk y x \<Longrightarrow> orderId y = orderId x \<and> price y = price x \<and> sequenceNumber y = sequenceNumber x \<and>
     originalQuantity y = originalQuantity x \<and> remainingQuantity y \<noteq> 0 \<and> remainingQuantity y \<le> remainingQuantity x"
  by (auto simp: shrunk_def)

lemma spec_match_thinned:
  assumes "spec_match P i q xs = (es, r, ys)" and "\<forall>x \<in> set xs. remainingQuantity x \<noteq> 0"
  shows "thinned ys xs"
  using assms
proof (induction rule: spec_match_induct)
  case (part q x xs)
  have "unat (remainingQuantity x - q) = unat (remainingQuantity x) - unat q" using part(3) by (simp add: unat_sub_u64)
  then have "remainingQuantity x - q \<noteq> 0 \<and> remainingQuantity x - q \<le> remainingQuantity x"
    using part(3) by (auto simp: word_le_nat_alt word_less_nat_alt)
  then have "shrunk (with_remaining (remainingQuantity x - q) x) x" unfolding shrunk_def by blast
  then show ?case using thinned_refl [of xs] part(4) by auto
qed (auto intro: thinned_refl)

lemma spec_cancel_thinned:
  assumes "\<forall>x \<in> set xs. remainingQuantity x \<noteq> 0"
  shows "thinned (spec_cancel k xs) xs"
  using assms by (induction xs) (auto simp: spec_cancel_def intro: shrunk_refl)

lemma spec_reduce_thinned:
  assumes "\<forall>x \<in> set xs. remainingQuantity x \<noteq> 0" and "\<forall>x \<in> set xs. orderId x = k \<longrightarrow> q \<noteq> 0 \<and> q \<le> remainingQuantity x"
  shows "thinned (spec_reduce k q xs) xs"
  using assms
proof (induction xs)
  case (Cons x xs)
  then have "shrunk (if orderId x = k then with_remaining q x else x) x" by (auto simp: shrunk_def intro: shrunk_refl)
  with Cons show ?case by (auto simp: spec_reduce_def)
qed (simp add: spec_reduce_def)

section \<open>Invariant of the reference engine\<close>

text \<open>
  Priority: a better price, or the same price and an earlier sequence number. The
  invariant: each side is in strict priority order, identifiers are unique across the two
  sides, quantities are positive and within the original, no sequence number is ahead of
  the counter, and the book is not crossed.
\<close>

definition has_priority :: "ladder_id \<Rightarrow> order \<Rightarrow> order \<Rightarrow> bool" where
  "has_priority d a b \<longleftrightarrow> better d (price a) (price b) \<or> price a = price b \<and> sequenceNumber a < sequenceNumber b"

definition sound_order :: "u64 \<Rightarrow> order \<Rightarrow> bool" where
  "sound_order c x \<longleftrightarrow> sequenceNumber x \<le> c \<and> remainingQuantity x \<noteq> 0 \<and> remainingQuantity x \<le> originalQuantity x"

definition spec_inv :: "sides \<times> u64 \<Rightarrow> bool" where
  "spec_inv s \<longleftrightarrow>
     (case s of (v, c) \<Rightarrow>
       (\<forall>d. sorted_wrt (has_priority d) (v d)) \<and> (\<forall>d. \<forall>x \<in> set (v d). sound_order c x) \<and>
       distinct (map orderId (v Bids @ v Asks)) \<and> (\<forall>b \<in> set (v Bids). \<forall>a \<in> set (v Asks). price b < price a))"

lemma spec_invD:
  assumes "spec_inv (v, c)"
  shows "sorted_wrt (has_priority d) (v d)" "x \<in> set (v d) \<Longrightarrow> sound_order c x" "distinct (map orderId (v Bids @ v Asks))"
    "b \<in> set (v Bids) \<Longrightarrow> a \<in> set (v Asks) \<Longrightarrow> price b < price a" "\<forall>x \<in> set (v d). remainingQuantity x \<noteq> 0"
  using assms unfolding spec_inv_def by (auto simp: sound_order_def)

lemma word_less_inc: "(c :: u64) \<noteq> - 1 \<Longrightarrow> c < c + 1"
  by (simp add: word_less_nat_alt unat_Suc_u64)

lemma has_priority_at_least: "has_priority d a b \<Longrightarrow> at_least d (price a) (price b)"
  by (auto simp: has_priority_def better_imp_at_least)

lemma thinned_set: "thinned ys xs \<Longrightarrow> y \<in> set ys \<Longrightarrow> \<exists>x \<in> set xs. shrunk y x"
  by (meson list_emb_set)

lemma thinned_sorted:
  assumes "thinned ys xs" and "sorted_wrt (has_priority d) xs"
  shows "sorted_wrt (has_priority d) ys"
  using assms
proof (induction rule: list_emb.induct)
  case (list_emb_Cons2 y x ys xs)
  have "has_priority d y y'" if y': "y' \<in> set ys" for y'
  proof -
    obtain x' where "x' \<in> set xs" "shrunk y' x'" using thinned_set [OF list_emb_Cons2(2) y'] by blast
    with list_emb_Cons2(1,4) shrunk_sel [of y x] shrunk_sel [of y' x'] show ?thesis by (auto simp: has_priority_def)
  qed
  with list_emb_Cons2 show ?case by simp
qed auto

lemma thinned_distinct:
  assumes "thinned ys xs" and "distinct (map orderId xs)"
  shows "distinct (map orderId ys)"
  using assms
proof (induction rule: list_emb.induct)
  case (list_emb_Cons2 y x ys xs)
  have "orderId y \<noteq> orderId y'" if y': "y' \<in> set ys" for y'
  proof -
    obtain x' where "x' \<in> set xs" "shrunk y' x'" using thinned_set [OF list_emb_Cons2(2) y'] by blast
    with list_emb_Cons2(1,4) shrunk_sel [of y x] shrunk_sel [of y' x'] show ?thesis by auto
  qed
  with list_emb_Cons2 show ?case by auto
qed auto

lemma sound_order_shrunk: "sound_order c x \<Longrightarrow> shrunk y x \<Longrightarrow> c \<le> c' \<Longrightarrow> sound_order c' y"
  using shrunk_sel [of y x] by (auto simp: sound_order_def)

lemma spec_inv_thinned:
  assumes "spec_inv (v, c)" and "\<And>d. thinned (v' d) (v d)" and "c \<le> c'"
  shows "spec_inv (v', c')"
proof -
  note D = spec_invD [OF assms(1)]
  have "sorted_wrt (has_priority d) (v' d)" for d using thinned_sorted [OF assms(2) D(1)] .
  moreover have "sound_order c' y" if "y \<in> set (v' d)" for d y
    using thinned_set [OF assms(2) that] D(2) sound_order_shrunk assms(3) by metis
  moreover have "distinct (map orderId (v' Bids @ v' Asks))"
    using thinned_distinct [OF list_emb_append_mono [OF assms(2) assms(2)] D(3)] .
  moreover have "price b < price a" if b: "b \<in> set (v' Bids)" and a: "a \<in> set (v' Asks)" for a b
  proof -
    obtain b' a' where "b' \<in> set (v Bids)" "shrunk b b'" "a' \<in> set (v Asks)" "shrunk a a'"
      using thinned_set [OF assms(2) b] thinned_set [OF assms(2) a] by blast
    with D(4) [of b' a'] shrunk_sel [of b b'] shrunk_sel [of a a'] show ?thesis by simp
  qed
  ultimately show ?thesis unfolding spec_inv_def by blast
qed

lemma spec_insert_set [simp]: "set (spec_insert d x xs) = insert x (set xs)"
  unfolding spec_insert_def using takeWhile_dropWhile_id [of "\<lambda>y. at_least d (price y) (price x)" xs]
  by (metis (no_types, lifting) Un_insert_right append_Cons append_Nil list.simps(15) set_append)

lemma spec_insert_mset: "mset (spec_insert d x xs) = add_mset x (mset xs)"
  unfolding spec_insert_def using takeWhile_dropWhile_id [of "\<lambda>y. at_least d (price y) (price x)" xs]
  by (metis (no_types, lifting) append_Cons append_Nil mset.simps(2) mset_append union_mset_add_mset_right)

lemma spec_insert_priority:
  assumes "sorted_wrt (has_priority d) xs" and "\<forall>y \<in> set xs. sequenceNumber y < sequenceNumber x"
  shows "sorted_wrt (has_priority d) (spec_insert d x xs)"
proof -
  let ?P = "\<lambda>y. at_least d (price y) (price x)"
  let ?t = "takeWhile ?P xs" and ?u = "dropWhile ?P xs"
  have td: "sorted_wrt (has_priority d) (?t @ ?u)" using assms(1) by simp
  have t: "has_priority d y x" if "y \<in> set ?t" for y
    using set_takeWhileD [OF that] assms(2) by (cases d) (auto simp: has_priority_def)
  have u: "has_priority d x y" if "y \<in> set ?u" for y
  proof -
    have "?u \<noteq> []"
    proof
      assume "?u = []"
      from that [unfolded this] show False by simp
    qed
    then obtain z zs where z: "?u = z # zs" by (meson neq_Nil_conv)
    have nz: "\<not> ?P z" using hd_dropWhile [OF \<open>?u \<noteq> []\<close>] unfolding z by simp
    have "y = z \<or> has_priority d z y" using z that td by (auto simp: sorted_wrt_append)
    then have "\<not> ?P y" using nz at_least_trans [OF has_priority_at_least, of d z y "price x"] by auto
    then show ?thesis by (simp add: has_priority_def at_least_not_better)
  qed
  moreover have "sorted_wrt (has_priority d) ?t" "sorted_wrt (has_priority d) ?u" "\<forall>a \<in> set ?t. \<forall>b \<in> set ?u. has_priority d a b"
    using td unfolding sorted_wrt_append by blast+
  ultimately show ?thesis unfolding spec_insert_def sorted_wrt_append using t by simp
qed

lemma spec_match_uncrossed:
  assumes "spec_match (crosses sd LIMIT pr) i q xs = (es, r, ys)" and "r \<noteq> 0" and "sorted_wrt (has_priority (opposite sd)) ys"
    and "sd = BUY \<or> sd = SELL" and "y \<in> set ys"
  shows "\<not> crosses sd LIMIT pr (price y)"
proof -
  obtain z zs where z: "ys = z # zs" "\<not> crosses sd LIMIT pr (price z)" using spec_match_leftover [OF assms(1,2)] assms(5) by (cases ys) auto
  then have "at_least (opposite sd) (price z) (price y)" using assms(3,5) has_priority_at_least by auto
  with z(2) assms(4) show ?thesis by auto
qed

lemma filled_inv:
  assumes inv: "spec_inv (v, c)" and ref: "\<not> refuses (NewEvent n) (v, c)" and m: "matched n v = (es, r, ys)"
  shows "spec_inv (v(opposite (newSide n) := ys), c + 1)"
    and "spec_inv (rest n r (c + 1) (v(opposite (newSide n) := ys)), c + 1)"
proof -
  let ?d = "opposite (newSide n)" and ?o = "side_of (newSide n)"
  let ?v = "v(?d := ys)"
  note D = spec_invD [OF inv]
  from ref have ok: "incoming_ok n" "\<not> in_use (newOrderId n) v" "c \<noteq> - 1" by auto
  then have sd: "newSide n = BUY \<or> newSide n = SELL" and neq: "?o \<noteq> ?d" using opposite_side by (auto simp: incoming_ok_def)
  have cc: "c < c + 1" using ok(3) by (rule word_less_inc)
  have th: "thinned ys (v ?d)" using spec_match_thinned [OF m [unfolded matched_def]] D(5) by blast
  have "thinned (?v d) (v d)" for d using th thinned_refl [OF D(5)] by simp
  from spec_inv_thinned [OF inv this less_imp_le [OF cc]] show inv': "spec_inv (?v, c + 1)" .
  note D' = spec_invD [OF inv']
  show "spec_inv (rest n r (c + 1) ?v, c + 1)"
  proof (cases "r \<noteq> 0 \<and> newType n = LIMIT")
    case False
    then show ?thesis using inv' by (auto simp: rest_def)
  next
    case True
    let ?x = "remainder n r (c + 1)"
    let ?w = "?v(?o := spec_insert ?o ?x (v ?o))"
    have w: "rest n r (c + 1) ?v = ?w" using True neq by (simp add: rest_def)
    have x: "orderId ?x = newOrderId n" "price ?x = newPrice n" "sequenceNumber ?x = c + 1" "remainingQuantity ?x = r"
      "originalQuantity ?x = newQuantity n" by (simp_all add: remainder_def)
    have le: "r \<le> newQuantity n" using spec_match_conserves [OF m [unfolded matched_def]] by (simp add: word_le_nat_alt)
    have "sorted_wrt (has_priority d) (?w d)" for d
    proof (cases "d = ?o")
      case True
      have "\<forall>y \<in> set (v ?o). sequenceNumber y < sequenceNumber ?x"
        using D(2) cc x(3) by (auto simp: sound_order_def intro: le_less_trans)
      with spec_insert_priority [OF D(1)] True show ?thesis by simp
    next
      case False
      with D'(1) show ?thesis by (metis fun_upd_other)
    qed
    moreover have "sound_order (c + 1) y" if y: "y \<in> set (?w d)" for d y
    proof -
      have "y = ?x \<or> y \<in> set (?v d)" using y neq by (auto split: if_splits)
      moreover have "sound_order (c + 1) ?x" using x le True by (simp add: sound_order_def)
      ultimately show ?thesis using D'(2) by blast
    qed
    moreover have "distinct (map orderId (?w Bids @ ?w Asks))"
    proof -
      have "mset (map orderId (?w Bids @ ?w Asks)) = mset (newOrderId n # map orderId (?v Bids @ ?v Asks))"
        using neq x(1) by (cases ?o; cases ?d) (simp_all add: spec_insert_mset)
      moreover have "newOrderId n \<notin> set (map orderId (?v Bids @ ?v Asks))"
      proof -
        have "newOrderId n \<notin> orderId ` set ys"
          using ok(2) thinned_set [OF th] shrunk_sel by (cases ?d) (fastforce simp: in_use_def)+
        with ok(2) show ?thesis by (cases ?d) (auto simp: in_use_def)
      qed
      ultimately show ?thesis using D'(3) mset_eq_imp_distinct_iff by (metis distinct.simps(2))
    qed
    moreover have "price b < price a" if "b \<in> set (?w Bids)" "a \<in> set (?w Asks)" for a b
    proof -
      have ys: "sorted_wrt (has_priority ?d) ys" using D'(1) [of ?d] by simp
      have "\<not> crosses (newSide n) LIMIT (newPrice n) (price y)" if "y \<in> set ys" for y
        using spec_match_uncrossed [OF _ _ ys sd that] m True unfolding matched_def by simp
      with sd that D'(4) x(2) show ?thesis by (auto simp: not_le)
    qed
    ultimately show ?thesis unfolding w spec_inv_def by blast
  qed
qed

lemma engine_step_inv: "engine_step ev s r t \<Longrightarrow> spec_inv s \<Longrightarrow> spec_inv t"
proof (induction rule: engine_step.induct)
  case (refused ev s e)
  then show ?case by simp
next
  case (filled n v c es r ys)
  then show ?case using filled_inv(2) by blast
next
  case (stranded n v c es r ys e)
  then show ?case using filled_inv(1) by blast
next
  case (cancelled k v c)
  show ?case
    by (rule spec_inv_thinned [OF cancelled(2)]) (use spec_cancel_thinned spec_invD(5) [OF cancelled(2)] in auto)
next
  case (reduced r v c)
  show ?case
  proof (rule spec_inv_thinned [OF reduced(2)])
    fix d
    have "\<forall>x \<in> set (v d). orderId x = reduceOrderId r \<longrightarrow> reduceQuantity r \<noteq> 0 \<and> reduceQuantity r \<le> remainingQuantity x"
      using reduced(1) by (auto simp: not_less)
    then show "thinned (spec_reduce (reduceOrderId r) (reduceQuantity r) (v d)) (v d)"
      using spec_reduce_thinned spec_invD(5) [OF reduced(2)] by blast
  qed simp
qed

section \<open>Runs of events\<close>

text \<open>
  A component that simulates a reference machine step by step simulates it along every
  run, and an invariant of the reference machine holds wherever the component gets to.
\<close>

fun run :: "('c \<Rightarrow> 's \<Rightarrow> 'r \<times> 's) \<Rightarrow> 'c list \<Rightarrow> 's \<Rightarrow> 'r list \<times> 's" where
  "run exec [] s = ([], s)"
| "run exec (c # cs) s = (case exec c s of (r, s1) \<Rightarrow> case run exec cs s1 of (rs, s2) \<Rightarrow> (r # rs, s2))"

inductive path :: "('c \<Rightarrow> 'v \<Rightarrow> 'r \<Rightarrow> 'v \<Rightarrow> bool) \<Rightarrow> 'c list \<Rightarrow> 'v \<Rightarrow> 'r list \<Rightarrow> 'v \<Rightarrow> bool" for astep where
  path_Nil: "path astep [] v [] v"
| path_Cons: "astep c v r v1 \<Longrightarrow> path astep cs v1 rs v2 \<Longrightarrow> path astep (c # cs) v (r # rs) v2"

inductive_simps path_Nil_iff [simp]: "path astep [] v rs w"

lemma path_invariant:
  assumes "path astep cs v rs w" and "\<And>c v r w. I v \<Longrightarrow> astep c v r w \<Longrightarrow> I w" and "I v"
  shows "I w"
  using assms by (induction rule: path.induct) auto

locale simulation =
  fixes ok :: "'s \<Rightarrow> bool" and abs :: "'s \<Rightarrow> 'v" and exec :: "'c \<Rightarrow> 's \<Rightarrow> 'r \<times> 's"
    and astep :: "'c \<Rightarrow> 'v \<Rightarrow> 'r \<Rightarrow> 'v \<Rightarrow> bool" and inv :: "'v \<Rightarrow> bool"
  assumes simulated: "ok s \<Longrightarrow> exec c s = (r, s') \<Longrightarrow> ok s' \<and> astep c (abs s) r (abs s')"
    and inv_step: "inv v \<Longrightarrow> astep c v r w \<Longrightarrow> inv w"
begin

lemma run_path: "ok s \<Longrightarrow> run exec cs s = (rs, s') \<Longrightarrow> ok s' \<and> path astep cs (abs s) rs (abs s')"
proof (induction cs arbitrary: s rs)
  case Nil
  then show ?case by simp
next
  case (Cons c cs)
  obtain r s1 ts where x: "exec c s = (r, s1)" "run exec cs s1 = (ts, s')" "rs = r # ts"
    using Cons.prems(2) by (auto split: prod.splits)
  with simulated [OF Cons.prems(1) x(1)] Cons.IH [of s1 ts] show ?case by (auto intro: path.path_Cons)
qed

lemma run_inv: "ok s \<Longrightarrow> inv (abs s) \<Longrightarrow> run exec cs s = (rs, s') \<Longrightarrow> inv (abs s')"
  using run_path path_invariant [where I = inv] inv_step by blast

end

definition engine_exec :: "os_env \<Rightarrow> hash_fun \<Rightarrow> order_event \<Rightarrow> engine \<Rightarrow> reply \<times> engine" where
  "engine_exec os H ev E = (let R = processEvent_into os H ev (E, []) in (reply_of R, next_engine R))"

text \<open>An engine on a new book; the sequence counter is the process-wide one, at \<open>c\<close>.\<close>

definition fresh_engine :: "u64 \<Rightarrow> u64 \<Rightarrow> nat \<Rightarrow> u64 \<Rightarrow> error + engine" where
  "fresh_engine mn tick lc c =
     (case OrderBook_new mn tick lc of Inl e \<Rightarrow> Inl e | Inr B \<Rightarrow> Inr (MatchingEngine_new B c))"

interpretation eng: simulation "\<lambda>E. os_fresh os \<and> book_ok os H (book E)" view "engine_exec os H" engine_step spec_inv for os H
proof unfold_locales
  fix E ev r E' assume "os_fresh os \<and> book_ok os H (book E)" "engine_exec os H ev E = (r, E')"
  then show "(os_fresh os \<and> book_ok os H (book E')) \<and> engine_step ev (view E) r (view E')"
    using processEvent_step [of os H E ev "[]"] by (auto simp: engine_exec_def Let_def)
next
  fix v ev r w assume "spec_inv v" "engine_step ev v r w"
  then show "spec_inv w" by (rule engine_step_inv [rotated])
qed

lemma engine_new_ok:
  assumes "fresh_engine mn tick lc c = Inr E" and "lc < SIZE_RANGE"
  shows "book_ok os H (book E)" "view E = (\<lambda>_. [], c)" "spec_inv (view E)"
proof -
  from assms(1) obtain B where B: "OrderBook_new mn tick lc = Inr B" "E = \<lparr>book = B, currentSequence = c\<rparr>"
    by (auto simp: fresh_engine_def MatchingEngine_new_def split: sum.splits)
  show "book_ok os H (book E)" using book_rep_ok [OF book_rep_new [OF B(1) assms(2)]] B(2) by simp
  show v: "view E = (\<lambda>_. [], c)" using resting_new [OF B(1) assms(2)] B(2) by (simp add: view_def)
  show "spec_inv (view E)" unfolding v by (simp add: spec_inv_def)
qed

text \<open>What a successful new order did, in one place: the facts the properties draw on.\<close>

lemma new_event_cases:
  assumes "os_fresh os" and "book_ok os H (book E)" and "processEvent_into os H (NewEvent n) (E, buf) = R"
  obtains (refused) e where "R = Throw e (E, [])" "refuses (NewEvent n) (view E)" "defined_error e"
  | (filled) es r ys E' where "R = Ret (length es) (E', es)" "\<not> refuses (NewEvent n) (view E)"
      "matched n (fst (view E)) = (es, r, ys)" "book_ok os H (book E')"
      "view E' = (rest n r (currentSequence E + 1) ((fst (view E))(opposite (newSide n) := ys)), currentSequence E + 1)"
  | (stranded) es r ys E' e where "R = Throw e (E', es)" "\<not> refuses (NewEvent n) (view E)"
      "matched n (fst (view E)) = (es, r, ys)" "book_ok os H (book E')" "r \<noteq> 0" "newType n = LIMIT" "defined_error e"
      "view E' = ((fst (view E))(opposite (newSide n) := ys), currentSequence E + 1)"
proof (cases "refuses (NewEvent n) (view E)")
  case True
  obtain e where "match_new os H n (E, []) = Throw e (E, [])" "defined_error e" using matchOrder_refused [OF assms(2) True] .
  with assms(3) refused True show thesis by (auto simp: processEvent_into_def)
next
  case False
  have vE: "view E = (fst (view E), currentSequence E)" by (simp add: view_def)
  have nr: "incoming_ok n" "\<not> in_use (newOrderId n) (fst (view E))" "currentSequence E \<noteq> - 1"
    using False by (simp_all add: view_def)
  from processEvent_step [OF assms(1,2), of "NewEvent n" buf]
  have s: "book_ok os H (book (next_engine R))" "engine_step (NewEvent n) (view E) (reply_of R) (view (next_engine R))"
    unfolding assms(3) by simp_all
  have R: "R = (case match_new os H n (E, []) of Ret _ s \<Rightarrow> Ret (length (snd s)) s | Throw e s \<Rightarrow> Throw e s)"
    using assms(3) by (cases "match_new os H n (E, [])") (simp_all add: processEvent_into_def)
  show thesis
  proof (cases "match_new os H n (E, [])")
    case (Ret u t)
    obtain E' es where "t = (E', es)" by (cases t)
    with R Ret s False filled show thesis
      by (subst (asm) vE) (auto simp: reply_of_def next_engine_def elim!: engine_step_NewE)
  next
    case (Throw e t)
    obtain E' es where "t = (E', es)" by (cases t)
    with R Throw s False nr stranded show thesis
      by (subst (asm) vE) (auto simp: reply_of_def next_engine_def elim!: engine_step_NewE)
  qed
qed

section \<open>Properties\<close>

lemma resting_positive:
  assumes "book_ok os H B" and "x \<in> set (resting d B)"
  shows "remainingQuantity x \<noteq> 0"
proof -
  obtain Q where rep: "book_rep os H B Q" using book_okE [OF assms(1)] .
  obtain p ord where "x = strip ord" "good_order d ord" using resting_live [OF rep assms(2)] by metis
  then show ?thesis by (simp add: good_order_def)
qed

lemma new_event_traded:
  assumes "matched n v = (es, r, ys)"
  shows "traded es + unat r = unat (newQuantity n)" "traded es + total ys = total (v (opposite (newSide n)))"
  using spec_match_conserves [OF assms [unfolded matched_def]] by simp_all

lemma total_spec_insert: "total (spec_insert d x xs) = unat (remainingQuantity x) + total xs"
proof -
  have "total xs = (\<Sum>x \<in># mset xs. unat (remainingQuantity x))" for xs :: "order list"
    by (simp add: total_def sum_mset_sum_list [symmetric])
  then show ?thesis by (simp add: spec_insert_mset)
qed

text \<open>
  C1. The engine implements the reference engine: from any well-formed book, along every
  sequence of events, whatever they are and going on after exceptions, each reply and each
  new state (both sides with their orders in priority order, and the sequence counter) is
  one the reference engine gives, and the book stays well formed.
\<close>
theorem engine_refines_reference:
  assumes "os_fresh os" and "book_ok os H (book E)" and "run (engine_exec os H) evs E = (rs, E')"
  shows "book_ok os H (book E') \<and> path engine_step evs (view E) rs (view E')"
  using eng.run_path [of os H E evs rs E'] assms by blast

text \<open>
  C2. Market integrity: from an engine on a new book, after any sequence of events, the
  best bid is below the best ask, each side is in strict price/time priority (a better
  price first, then the earlier sequence number), no two resting orders share an
  identifier, and every resting order has a positive quantity within its original one.
\<close>
theorem engine_market_integrity:
  assumes "os_fresh os" and "fresh_engine mn tick lc c = Inr E" and "lc < SIZE_RANGE"
    and "run (engine_exec os H) evs E = (rs, E')"
  shows "(\<forall>b \<in> set (resting Bids (book E')). \<forall>a \<in> set (resting Asks (book E')). price b < price a) \<and>
    (\<forall>d. sorted_wrt (\<lambda>x y. better d (price x) (price y) \<or> price x = price y \<and> sequenceNumber x < sequenceNumber y)
      (resting d (book E'))) \<and>
    distinct (map orderId (resting Bids (book E') @ resting Asks (book E'))) \<and>
    (\<forall>d. \<forall>x \<in> set (resting d (book E')). 0 < remainingQuantity x \<and> remainingQuantity x \<le> originalQuantity x)"
proof -
  note new = engine_new_ok [OF assms(2,3)]
  have "spec_inv (view E')" using eng.run_inv [OF _ new(3) assms(4)] assms(1) new(1) by blast
  then show ?thesis
    unfolding spec_inv_def view_def has_priority_def [abs_def] sound_order_def by (auto simp: word_neq_0_conv)
qed

text \<open>
  C3. Quantity is conserved: for a new order that is accepted, what its executions trade is
  what the opposite side loses; a limit order's own side gains exactly the rest of its
  quantity, a market order's own side gains nothing; and the number returned is the number
  of executions in the buffer.
\<close>
theorem engine_conserves_quantity:
  assumes "os_fresh os" and "book_ok os H (book E)" and "processEvent_into os H (NewEvent n) (E, buf) = Ret k (E', out)"
  shows "k = length out \<and> traded out \<le> unat (newQuantity n) \<and>
    total (resting (opposite (newSide n)) (book E')) + traded out = total (resting (opposite (newSide n)) (book E)) \<and>
    total (resting (side_of (newSide n)) (book E')) = total (resting (side_of (newSide n)) (book E)) +
      (if newType n = LIMIT then unat (newQuantity n) - traded out else 0)"
proof -
  have res: "resting d (book F) = fst (view F) d" for d F by (simp add: view_def)
  show ?thesis
  proof (rule new_event_cases [OF assms])
    fix es r ys E1
    assume a: "Ret k (E', out) = Ret (length es) (E1, es)" "\<not> refuses (NewEvent n) (view E)" "matched n (fst (view E)) = (es, r, ys)"
      "view E1 = (rest n r (currentSequence E + 1) ((fst (view E))(opposite (newSide n) := ys)), currentSequence E + 1)"
    have "newSide n = BUY \<or> newSide n = SELL" using a(2) by (auto simp: view_def incoming_ok_def)
    then have neq: "side_of (newSide n) \<noteq> opposite (newSide n)" by (rule opposite_side)
    note t = new_event_traded [OF a(3)]
    from a(1,4) neq t show ?thesis unfolding res
      by (auto simp: rest_def total_spec_insert remainder_def)
  qed (simp_all)
qed

text \<open>
  C4. Price/time priority: the executions of a new order, accepted or not, take the resting
  orders of the opposite side from the front without skipping any, at the resting order's
  price, which the incoming limit allows; and matching stops only when the incoming
  quantity is used up, the side is empty or the next price does not cross.
\<close>
theorem engine_price_time_priority:
  assumes "os_fresh os" and "book_ok os H (book E)" and "\<not> refuses (NewEvent n) (view E)"
  shows "case state_of (processEvent_into os H (NewEvent n) (E, buf)) of (E', out) \<Rightarrow>
    let before = resting (opposite (newSide n)) (book E); after = resting (opposite (newSide n)) (book E') in
    length out \<le> length before \<and> map restingOrderId out = map orderId (take (length out) before) \<and>
    map executionPrice out = map price (take (length out) before) \<and>
    (\<forall>e \<in> set out. incomingOrderId e = newOrderId n \<and> crosses (newSide n) (newType n) (newPrice n) (executionPrice e) \<and>
      executionQuantity e \<noteq> 0) \<and>
    (traded out = unat (newQuantity n) \<or> after = [] \<or> \<not> crosses (newSide n) (newType n) (newPrice n) (price (hd after)))"
proof -
  let ?d = "opposite (newSide n)"
  obtain es r ys E' where e: "state_of (processEvent_into os H (NewEvent n) (E, buf)) = (E', es)" "matched n (fst (view E)) = (es, r, ys)"
    "fst (view E') ?d = ys"
  proof (rule new_event_cases [OF assms(1,2) refl, of n buf])
    fix es r ys E' assume f: "processEvent_into os H (NewEvent n) (E, buf) = Ret (length es) (E', es)"
      "matched n (fst (view E)) = (es, r, ys)"
      "view E' = (rest n r (currentSequence E + 1) ((fst (view E))(?d := ys)), currentSequence E + 1)"
    have "newSide n = BUY \<or> newSide n = SELL" using assms(3) by (auto simp: view_def incoming_ok_def)
    from opposite_side [OF this] f show thesis using that [of E' es r ys] by (auto simp: rest_def)
  next
    fix es r ys E' e assume "processEvent_into os H (NewEvent n) (E, buf) = Throw e (E', es)"
      "matched n (fst (view E)) = (es, r, ys)" "view E' = ((fst (view E))(?d := ys), currentSequence E + 1)"
    then show thesis using that [of E' es r ys] by simp
  qed (use assms(3) in simp)
  note m = e(2) [unfolded matched_def]
  have "\<forall>x \<in> set (fst (view E) ?d). remainingQuantity x \<noteq> 0"
    using resting_positive [OF assms(2)] by (simp add: view_def)
  note pos = spec_match_positive [OF m this]
  have "traded es = unat (newQuantity n) \<or> ys = [] \<or> \<not> crosses (newSide n) (newType n) (newPrice n) (price (hd ys))"
    using spec_match_leftover [OF m] new_event_traded(1) [OF e(2)] by (cases "r = 0") auto
  with e(1,3) pos spec_match_priority [OF m] show ?thesis
    by (simp add: view_def Let_def list_all_iff)
qed

text \<open>
  C5. Nothing undefined happens: processing any event on a well-formed book returns or
  throws one of the exceptions of the code; no dead order is read, no array is left, and
  the matching loop always ends.
\<close>
theorem engine_always_defined:
  assumes "os_fresh os" and "book_ok os H (book E)"
  shows "defined (processEvent_into os H ev (E, buf))"
proof -
  let ?R = "processEvent_into os H ev (E, buf)"
  have "engine_step ev (view E) (reply_of ?R) (view (next_engine ?R))" by (rule processEvent_step [OF assms])
  then show ?thesis by (cases ?R) (auto simp: reply_of_def elim: engine_step.cases)
qed

text \<open>
  C6. A refused event has no effect at all: an invalid field, an identifier in use, an
  exhausted sequence counter or a reduction to zero or to more than remains is answered
  with an exception, the book and the counter are unchanged, and the buffer is empty.
\<close>
theorem engine_refusals_change_nothing:
  assumes "os_fresh os" and "book_ok os H (book E)" and "refuses ev (view E)"
  shows "\<exists>e. processEvent_into os H ev (E, buf) = Throw e (E, []) \<and> defined_error e"
proof (cases ev)
  case (NewEvent n)
  obtain e where "match_new os H n (E, []) = Throw e (E, [])" "defined_error e"
    using matchOrder_refused [OF assms(2)] assms(3) NewEvent by blast
  with NewEvent show ?thesis by (simp add: processEvent_into_def)
next
  case (CancelEvent k)
  with assms(3) show ?thesis by (auto simp: view_def processEvent_into_def)
next
  case (ReduceEvent x)
  show ?thesis
  proof (cases "OrderId_isValid (reduceOrderId x)")
    case False
    with ReduceEvent show ?thesis by (simp add: processEvent_into_def)
  next
    case True
    let ?k = "reduceOrderId x" and ?q = "reduceQuantity x"
    obtain Q where rep: "book_rep os H (book E) Q" using book_okE [OF assms(2)] .
    obtain d y where y: "y \<in> set (resting d (book E))" "orderId y = ?k" "?q = 0 \<or> ?q > remainingQuantity y"
      using assms(3) True ReduceEvent by (auto simp: view_def)
    show ?thesis
    proof (rule reduce_refines [OF assms(2), of ?k ?q])
      assume "\<And>d. ?k \<notin> orderId ` set (resting d (book E))"
      then have "?k \<notin> orderId ` set (resting d (book E))" .
      with y(1,2) show ?thesis by (metis image_eqI)
    next
      assume "reduceOrder H ?k ?q (book E) = Throw reduce_error (book E)"
      with ReduceEvent True show ?thesis by (simp add: processEvent_into_def on_book_def reduce_error_def)
    next
      fix c z assume "z \<in> set (resting c (book E))" "orderId z = ?k" "?q \<noteq> 0" "?q \<le> remainingQuantity z"
      with ids_unique [OF rep y(1), of z c] y(2,3) show ?thesis by auto
    qed
  qed
qed

text \<open>
  The convenience overloads compute what the buffer overloads compute; when the buffer
  overload throws, they lose the executions already made.
\<close>
lemma engine_by_value_agrees:
  "processEvent os H ev E =
     (case processEvent_into os H ev (E, buf) of Ret k s \<Rightarrow> Ret (snd s) (fst s) | Throw e s \<Rightarrow> Throw e (fst s)) \<and>
   processEvent os H (NewEvent n) E =
     processOrder os H (newOrderId n) (newPrice n) (newQuantity n) (newTimestamp n) (newSide n) (newType n) E \<and>
   processOrder_event os H ev E = processEvent os H ev E"
  by (simp add: processEvent_def processOrder_def by_value_def processEvent_into_def processOrder_into_def processOrder_event_def)

text \<open>
  C33. A remainder that cannot rest is lost after the trades are made: when a limit order
  crosses, is not filled completely and its own price is not on the ladder, the call throws
  although its executions have changed the opposite side and a sequence number is used up;
  the overload that returns a vector reports none of the executions.
\<close>
theorem engine_off_ladder_remainder:
  assumes "os_fresh os" and "book_ok os H (book E)" and "\<not> refuses (NewEvent n) (view E)" and "newType n = LIMIT"
    and "indexOf (newPrice n) (ladder_of (side_of (newSide n)) (book E)) = Inl e0"
    and "matched n (\<lambda>d. resting d (book E)) = (es, r, ys)" and "r \<noteq> 0"
  shows "\<exists>e E'. processEvent_into os H (NewEvent n) (E, buf) = Throw e (E', es) \<and>
    processEvent os H (NewEvent n) E = Throw e E' \<and>
    resting (opposite (newSide n)) (book E') = ys \<and>
    resting (side_of (newSide n)) (book E') = resting (side_of (newSide n)) (book E) \<and>
    currentSequence E' = currentSequence E + 1"
proof -
  have sd: "side_of (newSide n) \<noteq> opposite (newSide n)"
    using assms(3) opposite_side by (auto simp: view_def incoming_ok_def)
  have m: "matched n (fst (view E)) = (es, r, ys)" using assms(6) by (simp add: view_def)
  obtain E1 where E1: "match_new os H n (E, []) =
      (if r > 0 \<and> newType n = LIMIT
       then bind_outcome (on_book (addRestingRemainder os H (newOrderId n) (newPrice n) (newQuantity n) r (newTimestamp n)
          (newSide n) LIMIT (currentSequence E + 1)) (E1, [] @ es)) (\<lambda>_ s3. Ret () s3)
       else Ret () (E1, [] @ es))"
    "book_ok os H (book E1)" "view E1 = ((fst (view E))(opposite (newSide n) := ys), currentSequence E + 1)"
    "same_grids (book E) (book E1)"
    by (rule matchOrder_accepted [OF assms(2,3) m, where out = "[]"]) blast
  let ?add = "addOrderWithQuantities os H (newOrderId n) (newPrice n) (newQuantity n) r (newTimestamp n) (newSide n) LIMIT
    (currentSequence E + 1) (book E1)"
  have "grid_eq (ladder_of (side_of (newSide n)) (book E)) (ladder_of (side_of (newSide n)) (book E1))"
    using E1(4) by (simp only: same_grids_def)
  from grid_eq_index [OF this] have off: "indexOf (newPrice n) (ladder_of (side_of (newSide n)) (book E1)) = Inl e0"
    using assms(5) by simp
  obtain Q where rep: "book_rep os H (book E1) Q" using book_okE [OF E1(2)] .
  obtain e B where add: "?add = Throw e B"
    by (rule addOrder_cases [OF rep assms(1), of "newOrderId n" "newPrice n" "newQuantity n" r "newTimestamp n" "newSide n" LIMIT
          "currentSequence E + 1"]) (use off in \<open>auto simp: side_of_if split: if_splits\<close>)
  note a = add_Throw [OF E1(2) assms(1) add]
  let ?E = "E1\<lparr>book := B\<rparr>"
  have run: "processEvent_into os H (NewEvent n) (E, b) = Throw e (?E, es)" for b
    using E1(1) add assms(4,7) by (simp add: processEvent_into_def addRestingRemainder_def on_book_def word_neq_0_conv)
  have "resting d B = ((fst (view E))(opposite (newSide n) := ys)) d" for d
    using a(3) arg_cong [OF E1(3), of "\<lambda>v. fst v d"] by (simp add: view_def)
  moreover have "currentSequence E1 = currentSequence E + 1" using E1(3) by (simp add: view_def)
  ultimately show ?thesis
    using run sd by (intro exI [of _ e] exI [of _ ?E]) (simp add: processEvent_def by_value_def view_def)
qed

section \<open>Witnesses\<close>

text \<open>An engine on the concrete book, and an order that takes part of the resting one.\<close>

definition demo_engine :: engine where
  "demo_engine = MatchingEngine_new demo_ask 1"

definition demo_buy :: "u64 \<Rightarrow> u64 \<Rightarrow> u64 \<Rightarrow> new_order" where
  "demo_buy i pr q = \<lparr>newOrderId = i, newPrice = pr, newQuantity = q, newTimestamp = 2, newSide = BUY, newType = LIMIT\<rparr>"

lemma demo_engine_ok:
  "book_ok one_page_os (\<lambda>k. k) (book demo_engine)"
  "view demo_engine = (\<lambda>d. if d = Asks then [demo_order] else [], 1)" "currentSequence demo_engine = 1"
proof -
  show "book_ok one_page_os (\<lambda>k. k) (book demo_engine)" "currentSequence demo_engine = 1"
    using demo_ask_ok by (simp_all add: demo_engine_def MatchingEngine_new_def)
  have "resting d demo_ask = (if d = Asks then [demo_order] else [])" for d using demo_ask_ok by (cases d) simp_all
  then show "view demo_engine = (\<lambda>d. if d = Asks then [demo_order] else [], 1)"
    by (simp add: view_def demo_engine_def MatchingEngine_new_def fun_eq_iff)
qed

lemma demo_order_sel: "orderId demo_order = 1" "price demo_order = 101" "remainingQuantity demo_order = 10"
  by (simp_all add: demo_order_def Order_new_def)

lemma demo_buy_ok: "i \<noteq> 0 \<Longrightarrow> i \<noteq> 1 \<Longrightarrow> pr \<noteq> 0 \<Longrightarrow> q \<noteq> 0 \<Longrightarrow> \<not> refuses (NewEvent (demo_buy i pr q)) (view demo_engine)"
  by (simp add: demo_engine_ok(2) demo_buy_def incoming_ok_def valid_defs in_use_def demo_order_sel)

theorem engine_refines_reference_witness:
  "\<exists>rs E'. run (engine_exec one_page_os (\<lambda>k. k)) [NewEvent (demo_buy 2 101 4), CancelEvent \<lparr>cancelOrderId = 1\<rparr>] demo_engine = (rs, E') \<and>
     path engine_step [NewEvent (demo_buy 2 101 4), CancelEvent \<lparr>cancelOrderId = 1\<rparr>] (view demo_engine) rs (view E')"
proof -
  obtain rs E' where r: "run (engine_exec one_page_os (\<lambda>k. k)) [NewEvent (demo_buy 2 101 4), CancelEvent \<lparr>cancelOrderId = 1\<rparr>] demo_engine = (rs, E')"
    by (metis prod.exhaust)
  from engine_refines_reference [OF one_page_os_fresh demo_engine_ok(1) r] r show ?thesis by blast
qed

theorem engine_market_integrity_witness:
  "\<exists>E rs E'. fresh_engine 100 1 8 0 = Inr E \<and>
     run (engine_exec one_page_os (\<lambda>k. k)) [NewEvent (demo_buy 2 101 4), NewEvent (demo_buy 3 102 4)] E = (rs, E') \<and>
     distinct (map orderId (resting Bids (book E') @ resting Asks (book E')))"
proof -
  have "\<exists>E. fresh_engine 100 1 8 0 = Inr E" by (simp add: fresh_engine_def OrderBook_new_def PriceLadder_new_def)
  then obtain E where E: "fresh_engine 100 1 8 0 = Inr E" by blast
  obtain rs E' where r: "run (engine_exec one_page_os (\<lambda>k. k)) [NewEvent (demo_buy 2 101 4), NewEvent (demo_buy 3 102 4)] E = (rs, E')"
    by (metis prod.exhaust)
  have "(8 :: nat) < SIZE_RANGE" by (simp add: SIZE_RANGE_def)
  from engine_market_integrity [OF one_page_os_fresh E this r] E r show ?thesis by blast
qed

lemma demo_matched:
  "matched (demo_buy 2 101 4) (fst (view demo_engine)) =
     ([\<lparr>incomingOrderId = 2, restingOrderId = 1, executionPrice = 101, executionQuantity = 4\<rparr>], 0, [with_remaining 6 demo_order])"
  by (simp add: matched_def demo_engine_ok(2) demo_buy_def demo_order_sel)

theorem engine_conserves_quantity_witness:
  "\<exists>E' out. processEvent_into one_page_os (\<lambda>k. k) (NewEvent (demo_buy 2 101 4)) (demo_engine, []) = Ret 1 (E', out) \<and>
     total (resting Asks (book E')) + traded out = 10 \<and> traded out = 4"
proof (rule new_event_cases [OF one_page_os_fresh demo_engine_ok(1) refl, of "demo_buy 2 101 4" "[]"])
  fix es r ys E'
  assume f: "processEvent_into one_page_os (\<lambda>k. k) (NewEvent (demo_buy 2 101 4)) (demo_engine, []) = Ret (length es) (E', es)"
    "matched (demo_buy 2 101 4) (fst (view demo_engine)) = (es, r, ys)"
  have es: "es = [\<lparr>incomingOrderId = 2, restingOrderId = 1, executionPrice = 101, executionQuantity = 4\<rparr>]"
    using f(2) demo_matched by simp
  have "resting Asks (book demo_engine) = [demo_order]" using demo_engine_ok(2) by (simp add: view_def fun_eq_iff)
  with engine_conserves_quantity [OF one_page_os_fresh demo_engine_ok(1) f(1)] f(1) es show ?thesis
    by (simp add: demo_buy_def total_def traded_def demo_order_sel)
qed (use demo_buy_ok [of 2 101 4] demo_matched in auto)

theorem engine_price_time_priority_witness:
  "case state_of (processEvent_into one_page_os (\<lambda>k. k) (NewEvent (demo_buy 2 101 4)) (demo_engine, [])) of (E', out) \<Rightarrow>
     map restingOrderId out = map orderId (take (length out) (resting Asks (book demo_engine))) \<and>
     (traded out = 4 \<or> resting Asks (book E') = [] \<or> \<not> crosses BUY LIMIT 101 (price (hd (resting Asks (book E')))))"
  using engine_price_time_priority [OF one_page_os_fresh demo_engine_ok(1) demo_buy_ok [of 2 101 4], of "[]"]
  by (simp add: demo_buy_def Let_def split: prod.splits)

theorem engine_always_defined_witness:
  "defined (processEvent_into one_page_os (\<lambda>k. k) (NewEvent (demo_buy 2 101 4)) (demo_engine, []))"
  by (rule engine_always_defined [OF one_page_os_fresh demo_engine_ok(1)])

theorem engine_refusals_change_nothing_witness:
  "\<exists>e. processEvent_into one_page_os (\<lambda>k. k) (NewEvent (demo_buy 1 101 4)) (demo_engine, []) = Throw e (demo_engine, [])"
proof -
  have "refuses (NewEvent (demo_buy 1 101 4)) (view demo_engine)"
    by (simp add: demo_engine_ok(2) demo_buy_def in_use_def demo_order_sel)
  from engine_refusals_change_nothing [OF one_page_os_fresh demo_engine_ok(1) this] show ?thesis by blast
qed

theorem engine_off_ladder_remainder_witness:
  "\<exists>e E'. processEvent one_page_os (\<lambda>k. k) (NewEvent (demo_buy 2 200 25)) demo_engine = Throw e E' \<and>
     resting Asks (book E') = [] \<and> currentSequence E' = 2"
proof -
  have v: "(\<lambda>d. resting d (book demo_engine)) = (\<lambda>d. if d = Asks then [demo_order] else [])"
    using demo_engine_ok(2) by (simp add: view_def)
  have m: "matched (demo_buy 2 200 25) (\<lambda>d. resting d (book demo_engine)) =
      ([\<lparr>incomingOrderId = 2, restingOrderId = 1, executionPrice = 101, executionQuantity = 10\<rparr>], 15, [])"
    unfolding v by (simp add: matched_def demo_buy_def demo_order_sel)
  have "indexOf 200 (ladder_of Bids (book demo_engine)) = Inl (OutOfRange ''Price is outside the configured ladder range'')"
    using demo_ask_ok(4) by (simp add: demo_engine_def MatchingEngine_new_def)
  with engine_off_ladder_remainder [OF one_page_os_fresh demo_engine_ok(1) demo_buy_ok [of 2 200 25] _ _ m, of _ "[]"] demo_engine_ok(3)
  show ?thesis by (auto simp: demo_buy_def)
qed

end
