(* ===== verification/Itch_Decoder.thy ===== *)
theory Itch_Decoder
  imports Text_Format "HOL-Library.Monad_Syntax"
begin

text \<open>
  The ITCH 5.0 decoder (\<open>tools/itch/itch_to_csv.cpp\<close>): big-endian reads, the text of each
  column, and the framing loop that turns a session file into CSV. Output to the file is
  the text written so far plus the buffer. A read outside a message is undefined in C++
  and \<open>None\<close> here.
\<close>

section \<open>Reading the wire format\<close>

text \<open>
  A read past the end of a \<open>std::span\<close> is undefined; such a read is \<open>None\<close> here.
\<close>

definition byte_at :: "u8 list \<Rightarrow> nat \<Rightarrow> u8 option" where
  "byte_at bytes offset = (if offset < length bytes then Some (bytes ! offset) else None)"

definition rd16 :: "u8 list \<Rightarrow> nat \<Rightarrow> u16 option" where
  "rd16 bytes offset = do {
     a \<leftarrow> byte_at bytes offset;
     b \<leftarrow> byte_at bytes (offset + 1);
     Some (push_bit 8 (ucast a) OR ucast b)
   }"

definition rd32 :: "u8 list \<Rightarrow> nat \<Rightarrow> u32 option" where
  "rd32 bytes offset = do {
     a \<leftarrow> byte_at bytes offset;
     b \<leftarrow> byte_at bytes (offset + 1);
     c \<leftarrow> byte_at bytes (offset + 2);
     d \<leftarrow> byte_at bytes (offset + 3);
     Some (push_bit 24 (ucast a) OR push_bit 16 (ucast b) OR push_bit 8 (ucast c) OR ucast d)
   }"

text \<open>The loop of the two wider readers.\<close>

fun rd_loop :: "nat \<Rightarrow> u8 list \<Rightarrow> nat \<Rightarrow> u64 \<Rightarrow> u64 option" where
  "rd_loop 0 bytes offset v = Some v"
| "rd_loop (Suc n) bytes offset v = do {
     b \<leftarrow> byte_at bytes offset;
     rd_loop n bytes (offset + 1) (push_bit 8 v OR ucast b)
   }"

definition rd48 :: "u8 list \<Rightarrow> nat \<Rightarrow> u64 option" where
  "rd48 bytes offset = rd_loop 6 bytes offset 0"

definition rd64 :: "u8 list \<Rightarrow> nat \<Rightarrow> u64 option" where
  "rd64 bytes offset = rd_loop 8 bytes offset 0"

definition byte_char :: "u8 \<Rightarrow> char" where
  "byte_char b = char_of (unat b)"

text \<open>The text up to the last character that is not a space.\<close>

definition trim_right :: "string \<Rightarrow> string" where
  "trim_right s = rev (dropWhile (\<lambda>c. c = CHR '' '') (rev s))"

definition chars_at :: "u8 list \<Rightarrow> nat \<Rightarrow> nat \<Rightarrow> string option" where
  "chars_at bytes offset n =
     (if offset + n \<le> length bytes then Some (map byte_char (take n (drop offset bytes))) else None)"

definition symbolAt :: "u8 list \<Rightarrow> nat \<Rightarrow> string option" where
  "symbolAt bytes offset = map_option trim_right (chars_at bytes offset 8)"

section \<open>Writing the text format\<close>

definition messageName :: "char \<Rightarrow> string" where
  "messageName t =
     (if t = CHR ''A'' then ''ADD_ORDER''
      else if t = CHR ''F'' then ''ADD_ORDER_MPID''
      else if t = CHR ''E'' then ''EXECUTED''
      else if t = CHR ''C'' then ''EXECUTED_WITH_PRICE''
      else if t = CHR ''X'' then ''CANCEL_PARTIAL''
      else if t = CHR ''D'' then ''DELETE''
      else if t = CHR ''U'' then ''REPLACE''
      else if t = CHR ''P'' then ''TRADE_NON_CROSS''
      else if t = CHR ''Q'' then ''TRADE_CROSS''
      else if t = CHR ''B'' then ''TRADE_BROKEN''
      else if t = CHR ''S'' then ''SYSTEM_EVENT''
      else if t = CHR ''H'' then ''TRADING_ACTION''
      else ''OTHER'')"

definition appendUInt :: "string \<Rightarrow> u64 \<Rightarrow> string" where
  "appendUInt out v = out @ to_chars (unat v)"

definition appendPrice :: "string \<Rightarrow> u32 \<Rightarrow> string" where
  "appendPrice out raw =
     (let frac = raw mod 10000 in
      appendUInt out (ucast (raw div 10000)) @ ''.'' @
      [digit_char (unat (frac div 1000 mod 10)), digit_char (unat (frac div 100 mod 10)),
       digit_char (unat (frac div 10 mod 10)), digit_char (unat (frac mod 10))])"

fun padded :: "nat \<Rightarrow> u64 \<Rightarrow> string" where
  "padded 0 v = []"
| "padded (Suc width) v = padded width (v div 10) @ [digit_char (unat (v mod 10))]"

definition appendPadded :: "string \<Rightarrow> u64 \<Rightarrow> nat \<Rightarrow> string" where
  "appendPadded out v width = out @ padded width v"

definition appendClock :: "string \<Rightarrow> u64 \<Rightarrow> string" where
  "appendClock out nanosSinceMidnight =
     (let nanos = nanosSinceMidnight mod 1000000000; seconds = nanosSinceMidnight div 1000000000 in
      appendPadded (appendPadded (appendPadded (appendPadded out (seconds div 3600) 2 @ '':'')
        (seconds div 60 mod 60) 2 @ '':'') (seconds mod 60) 2 @ ''.'') nanos 9)"

section \<open>One row\<close>

text \<open>The columns, in the order the code appends them.\<close>

definition symbol_field :: "(u16 \<rightharpoonup> string) \<Rightarrow> char \<Rightarrow> u16 \<Rightarrow> u8 list \<Rightarrow> string option" where
  "symbol_field locateToSymbol t locate m =
     (if t = CHR ''A'' \<or> t = CHR ''F'' \<or> t = CHR ''P'' then symbolAt m 24
      else if t = CHR ''Q'' then symbolAt m 19
      else if t = CHR ''H'' then symbolAt m 11
      else if t \<noteq> CHR ''S'' then Some (case locateToSymbol locate of Some s \<Rightarrow> s | None \<Rightarrow> [])
      else Some [])"

definition uint_field :: "u64 option \<Rightarrow> string option" where
  "uint_field r = map_option (appendUInt []) r"

definition order_ref_field :: "char \<Rightarrow> u8 list \<Rightarrow> string option" where
  "order_ref_field t m = (if t \<in> set ''AFECXDUP'' then uint_field (rd64 m 11) else Some [])"

definition char_field :: "u8 option \<Rightarrow> string option" where
  "char_field r = map_option (\<lambda>b. [byte_char b]) r"

definition side_field :: "char \<Rightarrow> u8 list \<Rightarrow> string option" where
  "side_field t m = (if t \<in> set ''AFP'' then char_field (byte_at m 19) else Some [])"

definition shares_field :: "char \<Rightarrow> u8 list \<Rightarrow> string option" where
  "shares_field t m =
     (if t \<in> set ''AFP'' then uint_field (map_option ucast (rd32 m 20))
      else if t \<in> set ''ECX'' then uint_field (map_option ucast (rd32 m 19))
      else if t = CHR ''U'' then uint_field (map_option ucast (rd32 m 27))
      else if t = CHR ''Q'' then uint_field (rd64 m 11)
      else Some [])"

definition price_field :: "char \<Rightarrow> u8 list \<Rightarrow> string option" where
  "price_field t m =
     (if t \<in> set ''AFP'' then map_option (appendPrice []) (rd32 m 32)
      else if t = CHR ''C'' then map_option (appendPrice []) (rd32 m 32)
      else if t = CHR ''U'' then map_option (appendPrice []) (rd32 m 31)
      else if t = CHR ''Q'' then map_option (appendPrice []) (rd32 m 27)
      else Some [])"

definition new_order_ref_field :: "char \<Rightarrow> u8 list \<Rightarrow> string option" where
  "new_order_ref_field t m = (if t = CHR ''U'' then uint_field (rd64 m 19) else Some [])"

definition match_number_field :: "char \<Rightarrow> u8 list \<Rightarrow> string option" where
  "match_number_field t m =
     (if t = CHR ''E'' \<or> t = CHR ''C'' then uint_field (rd64 m 23)
      else if t = CHR ''P'' then uint_field (rd64 m 36)
      else if t = CHR ''Q'' then uint_field (rd64 m 31)
      else if t = CHR ''B'' then uint_field (rd64 m 11)
      else Some [])"

definition printable_field :: "char \<Rightarrow> u8 list \<Rightarrow> string option" where
  "printable_field t m = (if t = CHR ''C'' then char_field (byte_at m 31) else Some [])"

definition attribution_field :: "char \<Rightarrow> u8 list \<Rightarrow> string option" where
  "attribution_field t m =
     (if t = CHR ''F'' then map_option trim_right (chars_at m 36 4)
      else if t = CHR ''S'' then char_field (byte_at m 11)
      else if t = CHR ''H'' then char_field (byte_at m 19)
      else Some [])"

definition itch_fields ::
  "u64 \<Rightarrow> (u16 \<rightharpoonup> string) \<Rightarrow> u64 \<Rightarrow> char \<Rightarrow> u16 \<Rightarrow> u8 list \<Rightarrow> string list option" where
  "itch_fields epochBase locateToSymbol row t locate m = do {
     nanos \<leftarrow> rd48 m 5;
     symbol \<leftarrow> symbol_field locateToSymbol t locate m;
     ref \<leftarrow> order_ref_field t m;
     sd \<leftarrow> side_field t m;
     shares \<leftarrow> shares_field t m;
     pr \<leftarrow> price_field t m;
     newRef \<leftarrow> new_order_ref_field t m;
     match \<leftarrow> match_number_field t m;
     printable \<leftarrow> printable_field t m;
     attribution \<leftarrow> attribution_field t m;
     Some [appendUInt [] row, appendUInt [] nanos, (if epochBase \<noteq> 0 then appendUInt [] (epochBase + nanos) else []),
       appendClock [] nanos, [t], messageName t, symbol, ref, sd, shares, pr, newRef, match, printable, attribution]
   }"

definition append_row :: "string \<Rightarrow> string list \<Rightarrow> string" where
  "append_row buffer fields = buffer @ join_fields fields @ [CHR 0x0A]"

section \<open>The conversion loop\<close>

record itch_options =
  symbols :: "string list"
  limit :: u64
  system :: bool

record itch_state =
  keepLocate :: "bool list"
  locateToSymbol :: "u16 \<rightharpoonup> string"
  written :: string
  buffer :: string
  messages :: u64
  rows :: u64

definition itch_header :: string where
  "itch_header = ''seq,ts_ns,epoch_ns,clock_et,msg,name,symbol,order_ref,side,'' @
     ''shares,price,new_order_ref,match_number,printable,attribution'' @ [CHR 0x0A]"

definition itch_start :: itch_state where
  "itch_start = \<lparr>keepLocate = [], locateToSymbol = Map.empty, written = [], buffer = itch_header, messages = 0, rows = 0\<rparr>"

definition note_directory :: "itch_options \<Rightarrow> u16 \<Rightarrow> string \<Rightarrow> itch_state \<Rightarrow> itch_state" where
  "note_directory opts locate symbol st =
     (let known = (case locateToSymbol st locate of
            Some _ \<Rightarrow> locateToSymbol st
          | None \<Rightarrow> (locateToSymbol st)(locate \<mapsto> symbol));
          n = unat locate;
          keep = (if length (keepLocate st) \<le> n then keepLocate st @ replicate (n + 1 - length (keepLocate st)) False else keepLocate st)
      in st\<lparr>locateToSymbol := known,
            keepLocate := (if symbols opts \<noteq> [] then keep[n := symbol \<in> set (symbols opts)] else keepLocate st)\<rparr>)"

definition flush_buffer :: "itch_state \<Rightarrow> itch_state" where
  "flush_buffer st =
     (if length (buffer st) \<ge> 2 ^ 21 then st\<lparr>written := written st @ buffer st, buffer := []\<rparr> else st)"

text \<open>One message of the loop body; the flag says that the row limit was reached.\<close>

definition itch_message :: "itch_options \<Rightarrow> u64 \<Rightarrow> u8 list \<Rightarrow> itch_state \<Rightarrow> (bool \<times> itch_state) option" where
  "itch_message opts epochBase m st = do {
     b \<leftarrow> byte_at m 0;
     locate \<leftarrow> rd16 m 1;
     let t = byte_char b;
     if t = CHR ''R'' then do {
       symbol \<leftarrow> symbolAt m 11;
       Some (False, note_directory opts locate symbol st)
     }
     else if (t = CHR ''S'' \<or> t = CHR ''H'') \<and> \<not> system opts then Some (False, st)
     else if symbols opts \<noteq> [] \<and> t \<noteq> CHR ''S'' \<and>
        (unat locate \<ge> length (keepLocate st) \<or> \<not> keepLocate st ! unat locate) then Some (False, st)
     else if messageName t = ''OTHER'' then Some (False, st)
     else do {
       fields \<leftarrow> itch_fields epochBase (locateToSymbol st) (rows st + 1) t locate m;
       let st1 = flush_buffer (st\<lparr>rows := rows st + 1, buffer := append_row (buffer st) fields\<rparr>);
       Some (limit opts \<noteq> 0 \<and> rows st1 \<ge> limit opts, st1)
     }
   }"

text \<open>The framing loop: the result is the final state and whether the input ends inside a message.\<close>

function itch_loop :: "itch_options \<Rightarrow> u64 \<Rightarrow> u8 list \<Rightarrow> nat \<Rightarrow> itch_state \<Rightarrow> (itch_state \<times> bool) option" where
  "itch_loop opts epochBase input offset st =
     (if offset + 2 \<le> length input
      then do {
        len \<leftarrow> rd16 input offset;
        if len = 0 \<or> offset + 2 + unat len > length input
        then Some (st, offset + 2 + unat len > length input \<and> len \<noteq> 0)
        else do {
          r \<leftarrow> itch_message opts epochBase (take (unat len) (drop (offset + 2) input)) (st\<lparr>messages := messages st + 1\<rparr>);
          if fst r then Some (snd r, False) else itch_loop opts epochBase input (offset + 2 + unat len) (snd r)
        }
      }
      else Some (st, False))"
  by pat_completeness auto
termination by (relation "measure (\<lambda>(opts, epochBase, input, offset, st). length input - offset)") auto

declare itch_loop.simps [simp del]

definition itch_to_csv :: "itch_options \<Rightarrow> u64 \<Rightarrow> u8 list \<Rightarrow> (string \<times> bool) option" where
  "itch_to_csv opts epochBase input =
     map_option (\<lambda>(st, truncated). (written st @ buffer st, truncated)) (itch_loop opts epochBase input 0 itch_start)"

section \<open>Lemmas\<close>

subsection \<open>Big-endian numbers\<close>

lemma shift_or_byte: "push_bit 8 v OR ucast (b :: u8) = (v :: 'a::len word) * 256 + ucast b"
proof -
  have "push_bit 8 v + ucast b = push_bit 8 v OR (ucast b :: 'a word)"
    by (rule disjunctive_add) (auto simp: bit_simps dest: bit_imp_le_length)
  then show ?thesis by (simp add: push_bit_eq_mult mult.commute)
qed

definition be_value :: "u8 list \<Rightarrow> nat" where
  "be_value bs = foldl (\<lambda>v b. v * 256 + unat b) 0 bs"

fun be_bytes :: "nat \<Rightarrow> nat \<Rightarrow> u8 list" where
  "be_bytes 0 k = []"
| "be_bytes (Suc n) k = be_bytes n (k div 256) @ [word_of_nat k]"

lemma length_be_bytes [simp]: "length (be_bytes n k) = n"
  by (induction n arbitrary: k) auto

lemma be_value_snoc: "be_value (bs @ [b]) = be_value bs * 256 + unat b"
  by (simp add: be_value_def)

lemma be_value_bytes: "be_value (be_bytes n k) = k mod 256 ^ n"
proof (induction n arbitrary: k)
  case (Suc n)
  have "unat (word_of_nat k :: u8) = k mod 256" by (simp add: unat_of_nat)
  then have "be_value (be_bytes (Suc n) k) = (k div 256) mod 256 ^ n * 256 + k mod 256"
    by (simp add: be_value_snoc Suc)
  also have "\<dots> = k mod 256 ^ Suc n" by (simp add: mod_mult2_eq)
  finally show ?case .
qed (simp add: be_value_def)

lemma be_value_less: "be_value bs < 256 ^ length bs"
proof (induction bs rule: rev_induct)
  case (snoc b bs)
  have "unat b < 256" using unsigned_less [of b] by simp
  moreover have "be_value bs + 1 \<le> 256 ^ length bs" using snoc by simp
  then have "(be_value bs + 1) * 256 \<le> 256 ^ length bs * 256" by (rule mult_le_mono1)
  ultimately show ?case by (simp add: be_value_snoc)
qed (simp add: be_value_def)

lemma fold_be_value: "foldl (\<lambda>v b. v * 256 + ucast b) (a :: 'a::len word) bs = a * 256 ^ length bs + word_of_nat (be_value bs)"
proof (induction bs rule: rev_induct)
  case (snoc b bs)
  have "foldl (\<lambda>v b. v * 256 + ucast b) a (bs @ [b]) = (a * 256 ^ length bs + word_of_nat (be_value bs)) * 256 + word_of_nat (unat b)"
    by (simp add: snoc)
  also have "\<dots> = a * 256 ^ length (bs @ [b]) + word_of_nat (be_value (bs @ [b]))" by (simp add: be_value_snoc algebra_simps)
  finally show ?case .
qed (simp add: be_value_def)

lemma rd_loop_fold:
  "rd_loop n bytes offset v =
     (if offset + n \<le> length bytes then Some (foldl (\<lambda>v b. v * 256 + ucast b) v (take n (drop offset bytes)))
      else if n = 0 then Some v else None)"
proof (induction n arbitrary: offset v)
  case (Suc n)
  show ?case
  proof (cases "offset < length bytes")
    case True
    then have "drop offset bytes = bytes ! offset # drop (Suc offset) bytes" by (simp add: Cons_nth_drop_Suc)
    with True Suc show ?thesis by (auto simp: byte_at_def shift_or_byte)
  qed (simp add: byte_at_def)
qed simp

lemma rd64_value: "offset + 8 \<le> length bytes \<Longrightarrow> rd64 bytes offset = Some (word_of_nat (be_value (take 8 (drop offset bytes))))"
  by (simp add: rd64_def rd_loop_fold fold_be_value)

lemma rd48_value: "offset + 6 \<le> length bytes \<Longrightarrow> rd48 bytes offset = Some (word_of_nat (be_value (take 6 (drop offset bytes))))"
  by (simp add: rd48_def rd_loop_fold fold_be_value)

lemma rd16_value:
  assumes "offset + 2 \<le> length bytes"
  shows "rd16 bytes offset = Some (word_of_nat (be_value (take 2 (drop offset bytes))))"
proof -
  have "take 2 (drop offset bytes) = [bytes ! offset, bytes ! (offset + 1)]"
    using assms by (auto simp: numeral_2_eq_2 take_Suc_conv_app_nth)
  moreover have "foldl (\<lambda>v b. v * 256 + ucast b) (0 :: u16) [bytes ! offset, bytes ! (offset + 1)] =
      push_bit 8 (ucast (bytes ! offset)) OR ucast (bytes ! (offset + 1))" by (simp add: shift_or_byte)
  ultimately show ?thesis using assms fold_be_value [of "0 :: u16" "take 2 (drop offset bytes)"]
    by (simp add: rd16_def byte_at_def)
qed

lemma rd32_value:
  assumes "offset + 4 \<le> length bytes"
  shows "rd32 bytes offset = Some (word_of_nat (be_value (take 4 (drop offset bytes))))"
proof -
  let ?b = "\<lambda>i. bytes ! (offset + i)"
  have t: "take 4 (drop offset bytes) = [?b 0, ?b 1, ?b 2, ?b 3]"
    using assms by (auto simp: eval_nat_numeral take_Suc_conv_app_nth)
  have "push_bit 24 (ucast (?b 0)) OR push_bit 16 (ucast (?b 1)) OR push_bit 8 (ucast (?b 2)) OR (ucast (?b 3) :: u32) =
      push_bit 8 (push_bit 8 (push_bit 8 (ucast (?b 0)) OR ucast (?b 1)) OR ucast (?b 2)) OR ucast (?b 3)"
    by (simp add: push_bit_or ac_simps)
  also have "\<dots> = foldl (\<lambda>v b. v * 256 + ucast b) 0 [?b 0, ?b 1, ?b 2, ?b 3]" by (simp add: shift_or_byte)
  also have "\<dots> = word_of_nat (be_value [?b 0, ?b 1, ?b 2, ?b 3])" by (simp only: fold_be_value) simp
  finally show ?thesis using assms t by (simp add: rd32_def byte_at_def)
qed

lemma rd_None:
  "length bytes < offset + 2 \<Longrightarrow> rd16 bytes offset = None" "length bytes < offset + 8 \<Longrightarrow> rd64 bytes offset = None"
  by (auto simp: rd16_def byte_at_def rd64_def rd_loop_fold)

subsection \<open>Decimal text\<close>

lemma parse_padded: "parseU64 (padded w v) = word_of_nat (unat v mod 10 ^ w)"
proof (induction w arbitrary: v)
  case (Suc w)
  have d: "unat (v mod 10) < 10" by (simp add: unat_mod)
  have "parseU64 (padded (Suc w) v) = word_of_nat (unat v div 10 mod 10 ^ w) * 10 + word_of_nat (unat v mod 10)"
    using digit_char_value [OF d] by (simp add: parseU64_snoc Suc unat_div unat_mod)
  also have "\<dots> = word_of_nat (unat v div 10 mod 10 ^ w * 10 + unat v mod 10)" by (simp only: of_nat_add of_nat_mult of_nat_numeral)
  also have "unat v div 10 mod 10 ^ w * 10 + unat v mod 10 = unat v mod 10 ^ Suc w" by (simp add: mod_mult2_eq)
  finally show ?case .
qed (simp add: parseU64_def)

lemma length_padded [simp]: "length (padded w v) = w"
  by (induction w arbitrary: v) auto

lemma padded_chars: "c \<in> set (padded w v) \<Longrightarrow> \<exists>d < 10. c = digit_char d"
proof (induction w arbitrary: v)
  case (Suc w)
  have "unat (v mod 10) < 10" by (simp add: unat_mod)
  with Suc show ?case by auto
qed simp

lemma unat_ucast_u32: "unat (ucast (w :: u32) :: u64) = unat w"
proof -
  have "unat w < 2 ^ 32" using unsigned_less [of w] by simp
  then have "unat w < 2 ^ 64" by simp
  then show ?thesis by (simp add: unsigned_ucast_eq take_bit_nat_eq_self)
qed

lemma padded_4:
  "padded 4 v = [digit_char (unat v div 1000 mod 10), digit_char (unat v div 100 mod 10), digit_char (unat v div 10 mod 10),
     digit_char (unat v mod 10)]"
proof -
  have four: "(4 :: nat) = Suc (Suc (Suc (Suc 0)))" by simp
  show ?thesis unfolding four by (simp add: unat_div unat_mod div_mult2_eq [symmetric])
qed

lemma price_chars:
  "appendPrice [] raw = to_chars (unat (raw div 10000)) @ CHR ''.'' # padded 4 (ucast (raw mod 10000))"
proof -
  have u: "unat (raw mod 10000 div k mod 10) = unat (raw mod 10000) div unat k mod 10" for k :: u32
    by (simp only: unat_div unat_mod) simp
  have "unat (raw mod 10000 mod 10) = unat (raw mod 10000) mod 10" by (simp only: unat_mod) simp
  moreover have "unat (ucast (raw mod 10000) :: u64) = unat (raw mod 10000)" "unat (ucast (raw div 10000) :: u64) = unat (raw div 10000)"
    by (rule unat_ucast_u32)+
  ultimately show ?thesis using u [of 1000] u [of 100] u [of 10]
    unfolding appendPrice_def appendUInt_def Let_def padded_4 by simp
qed

subsection \<open>Framing\<close>

definition frame :: "u8 list \<Rightarrow> u8 list" where
  "frame m = be_bytes 2 (length m) @ m"

definition framable :: "u8 list \<Rightarrow> bool" where
  "framable m \<longleftrightarrow> 0 < length m \<and> length m < 65536"

text \<open>The loop body over a list of messages, without offsets.\<close>

fun itch_messages :: "itch_options \<Rightarrow> u64 \<Rightarrow> u8 list list \<Rightarrow> itch_state \<Rightarrow> (itch_state \<times> bool) option" where
  "itch_messages opts epochBase [] st = Some (st, False)"
| "itch_messages opts epochBase (m # ms) st = do {
     r \<leftarrow> itch_message opts epochBase m (st\<lparr>messages := messages st + 1\<rparr>);
     if fst r then Some (snd r, False) else itch_messages opts epochBase ms (snd r)
   }"

lemma rd16_frame:
  assumes "framable m"
  shows "rd16 (pre @ frame m @ rest) (length pre) = Some (word_of_nat (length m))" "unat (word_of_nat (length m) :: u16) = length m"
proof -
  have "take 2 (drop (length pre) (pre @ frame m @ rest)) = be_bytes 2 (length m)" by (simp add: frame_def)
  then show "rd16 (pre @ frame m @ rest) (length pre) = Some (word_of_nat (length m))"
    using assms by (subst rd16_value) (simp_all add: be_value_bytes framable_def frame_def)
  show "unat (word_of_nat (length m) :: u16) = length m" using assms by (simp add: unat_of_nat framable_def)
qed

lemma itch_loop_frames:
  assumes "\<forall>m \<in> set ms. framable m"
  shows "itch_loop opts epochBase (pre @ concat (map frame ms)) (length pre) st = itch_messages opts epochBase ms st"
  using assms
proof (induction ms arbitrary: pre st)
  case Nil
  then show ?case by (simp add: itch_loop.simps)
next
  case (Cons m ms)
  let ?rest = "concat (map frame ms)"
  let ?input = "pre @ frame m @ ?rest"
  have fm: "framable m" using Cons.prems by simp
  note r = rd16_frame [OF fm]
  have len: "length (frame m) = 2 + length m" by (simp add: frame_def)
  have body: "take (length m) (drop (length pre + 2) ?input) = m" by (simp add: frame_def)
  have ne: "(word_of_nat (length m) :: u16) \<noteq> 0" using r(2) fm by (auto simp: framable_def)
  have next_offset: "length pre + 2 + length m = length (pre @ frame m)" using len by simp
  have IH: "itch_loop opts epochBase ?input (length pre + 2 + length m) st' = itch_messages opts epochBase ms st'" for st'
    unfolding next_offset using Cons.IH [of "pre @ frame m" st'] Cons.prems by simp
  have run: "itch_loop opts epochBase ?input (length pre) st =
      do { r \<leftarrow> itch_message opts epochBase m (st\<lparr>messages := messages st + 1\<rparr>);
           if fst r then Some (snd r, False) else itch_loop opts epochBase ?input (length pre + 2 + length m) (snd r) }"
    by (subst itch_loop.simps) (use r ne len body in \<open>simp add: add.assoc cong: if_cong\<close>)
  show ?case using run unfolding IH by simp
qed

subsection \<open>Message sizes\<close>

text \<open>The sizes of the messages in the ITCH 5.0 specification; other types need the header.\<close>

definition itch_size :: "char \<Rightarrow> nat" where
  "itch_size t =
     (if t = CHR ''R'' then 39 else if t = CHR ''A'' then 36 else if t = CHR ''F'' then 40
      else if t = CHR ''E'' then 31 else if t = CHR ''C'' then 36 else if t = CHR ''X'' then 23
      else if t = CHR ''D'' then 19 else if t = CHR ''U'' then 35 else if t = CHR ''P'' then 44
      else if t = CHR ''Q'' then 40 else if t = CHR ''B'' then 19 else if t = CHR ''S'' then 12
      else if t = CHR ''H'' then 25 else 11)"

definition well_sized :: "u8 list \<Rightarrow> bool" where
  "well_sized m \<longleftrightarrow> m \<noteq> [] \<and> itch_size (byte_char (hd m)) \<le> length m"

lemma read_ok:
  "i < length m \<Longrightarrow> \<exists>b. byte_at m i = Some b" "i + 2 \<le> length m \<Longrightarrow> \<exists>w. rd16 m i = Some w"
  "i + 4 \<le> length m \<Longrightarrow> \<exists>w. rd32 m i = Some w" "i + 6 \<le> length m \<Longrightarrow> \<exists>w. rd48 m i = Some w"
  "i + 8 \<le> length m \<Longrightarrow> \<exists>w. rd64 m i = Some w" "i + n \<le> length m \<Longrightarrow> \<exists>s. chars_at m i n = Some s"
  by (auto simp: byte_at_def rd16_value rd32_value rd48_value rd64_value chars_at_def)

lemma fields_ok:
  assumes "itch_size t \<le> length m"
  shows "\<exists>s. symbol_field f t l m = Some s" "\<exists>s. order_ref_field t m = Some s" "\<exists>s. side_field t m = Some s"
    "\<exists>s. shares_field t m = Some s" "\<exists>s. price_field t m = Some s" "\<exists>s. new_order_ref_field t m = Some s"
    "\<exists>s. match_number_field t m = Some s" "\<exists>s. printable_field t m = Some s" "\<exists>s. attribution_field t m = Some s"
proof -
  note s = assms [unfolded itch_size_def]
  show "\<exists>s. symbol_field f t l m = Some s"
    using s read_ok(6) [of 24 8 m] read_ok(6) [of 19 8 m] read_ok(6) [of 11 8 m]
    by (auto simp: symbol_field_def symbolAt_def split: if_splits)
  show "\<exists>s. order_ref_field t m = Some s" using s read_ok(5) [of 11 m] by (auto simp: order_ref_field_def uint_field_def split: if_splits)
  show "\<exists>s. side_field t m = Some s" using s read_ok(1) [of 19 m] by (auto simp: side_field_def char_field_def split: if_splits)
  show "\<exists>s. shares_field t m = Some s"
    using s read_ok(3) [of 20 m] read_ok(3) [of 19 m] read_ok(3) [of 27 m] read_ok(5) [of 11 m]
    by (auto simp: shares_field_def uint_field_def split: if_splits)
  show "\<exists>s. price_field t m = Some s"
    using s read_ok(3) [of 32 m] read_ok(3) [of 31 m] read_ok(3) [of 27 m] by (auto simp: price_field_def split: if_splits)
  show "\<exists>s. new_order_ref_field t m = Some s" using s read_ok(5) [of 19 m] by (auto simp: new_order_ref_field_def uint_field_def split: if_splits)
  show "\<exists>s. match_number_field t m = Some s"
    using s read_ok(5) [of 23 m] read_ok(5) [of 36 m] read_ok(5) [of 31 m] read_ok(5) [of 11 m]
    by (auto simp: match_number_field_def uint_field_def split: if_splits)
  show "\<exists>s. printable_field t m = Some s" using s read_ok(1) [of 31 m] by (auto simp: printable_field_def char_field_def split: if_splits)
  show "\<exists>s. attribution_field t m = Some s"
    using s read_ok(6) [of 36 4 m] read_ok(1) [of 11 m] read_ok(1) [of 19 m]
    by (auto simp: attribution_field_def char_field_def split: if_splits)
qed

lemma itch_size_header: "11 \<le> itch_size t"
  by (simp add: itch_size_def)

lemma itch_fields_ok:
  assumes "itch_size t \<le> length m"
  shows "\<exists>fs. itch_fields epochBase f row t locate m = Some fs"
proof -
  have "5 + 6 \<le> length m" using itch_size_header [of t] assms by simp
  from read_ok(4) [OF this] fields_ok(1) [OF assms, of f locate] fields_ok(2-9) [OF assms] show ?thesis
    unfolding itch_fields_def by auto
qed

lemma itch_message_ok:
  assumes "well_sized m"
  shows "\<exists>r. itch_message opts epochBase m st = Some r"
proof -
  from assms have m: "m \<noteq> []" "itch_size (byte_char (hd m)) \<le> length m" by (simp_all add: well_sized_def)
  have "3 \<le> length m" using itch_size_header [of "byte_char (hd m)"] m(2) by simp
  obtain b where b: "byte_at m 0 = Some b" "b = hd m" using m(1) by (cases m) (auto simp: byte_at_def)
  obtain locate where l: "rd16 m (Suc 0) = Some locate" using read_ok(2) [of 1 m] \<open>3 \<le> length m\<close> by auto
  obtain fs where fs: "itch_fields epochBase (locateToSymbol st) (rows st + 1) (byte_char b) locate m = Some fs"
    using itch_fields_ok [OF m(2)] b(2) by blast
  have "itch_message opts epochBase m st \<noteq> None"
  proof (cases "byte_char b = CHR ''R''")
    case True
    then obtain s where "symbolAt m 11 = Some s" using m(2) b(2) read_ok(6) [of 11 8 m] by (auto simp: itch_size_def symbolAt_def)
    with True show ?thesis by (simp add: itch_message_def b(1) l)
  next
    case False
    have "itch_message opts epochBase m st = Some x \<or> itch_message opts epochBase m st = Some y"
      if "x = (False, st)" "y = (let st1 = flush_buffer (st\<lparr>rows := rows st + 1, buffer := append_row (buffer st) fs\<rparr>)
        in (limit opts \<noteq> 0 \<and> rows st1 \<ge> limit opts, st1))" for x y
      using False unfolding itch_message_def b(1) l One_nat_def that by (simp only: bind.bind_lunit fs Let_def if_False) simp
    from this [OF refl refl] show ?thesis by (elim disjE) simp_all
  qed
  then show ?thesis by simp
qed

lemma itch_messages_ok:
  assumes "\<forall>m \<in> set ms. well_sized m"
  shows "\<exists>st'. itch_messages opts epochBase ms st = Some (st', False)"
  using assms
proof (induction ms arbitrary: st)
  case (Cons m ms)
  obtain r where "itch_message opts epochBase m (st\<lparr>messages := messages st + 1\<rparr>) = Some r"
    using itch_message_ok Cons.prems by fastforce
  with Cons show ?case by auto
qed simp

section \<open>Properties\<close>

text \<open>
  Big-endian fields are read back exactly: whatever surrounds it, a field of 2, 4, 6 or 8
  bytes written most significant byte first yields the number it encodes.
\<close>
theorem itch_big_endian_roundtrip:
  "(k < 2 ^ 16 \<longrightarrow> map_option unat (rd16 (pre @ be_bytes 2 k @ post) (length pre)) = Some k) \<and>
   (k < 2 ^ 32 \<longrightarrow> map_option unat (rd32 (pre @ be_bytes 4 k @ post) (length pre)) = Some k) \<and>
   (k < 2 ^ 48 \<longrightarrow> map_option unat (rd48 (pre @ be_bytes 6 k @ post) (length pre)) = Some k) \<and>
   (k < 2 ^ 64 \<longrightarrow> map_option unat (rd64 (pre @ be_bytes 8 k @ post) (length pre)) = Some k)"
  by (simp add: rd16_value rd32_value rd48_value rd64_value be_value_bytes unat_of_nat)

theorem itch_big_endian_roundtrip_witness:
  "map_option unat (rd48 ([7] @ be_bytes 6 34200000000000 @ []) (length [7 :: u8])) = Some 34200000000000"
  using itch_big_endian_roundtrip [of 34200000000000 "[7]" "[]"] by simp

text \<open>
  A file of complete messages is decoded message by message: for any messages of at
  least their specified size the loop visits each of them once and in order, no read leaves
  its message, and the input is not reported as truncated.
\<close>
theorem itch_decodes_every_message:
  assumes "\<forall>m \<in> set ms. well_sized m \<and> length m < 65536"
  shows "\<exists>st. itch_loop opts epochBase (concat (map frame ms)) 0 itch_start = Some (st, False) \<and>
    itch_messages opts epochBase ms itch_start = Some (st, False)"
proof -
  have "\<forall>m \<in> set ms. framable m" using assms by (auto simp: framable_def well_sized_def)
  from itch_loop_frames [OF this, of opts epochBase "[]" itch_start]
  have "itch_loop opts epochBase (concat (map frame ms)) 0 itch_start = itch_messages opts epochBase ms itch_start" by simp
  with itch_messages_ok [of ms opts epochBase itch_start] assms show ?thesis by auto
qed

text \<open>
  C37. Message sizes are not checked: a frame that announces a single byte is accepted and
  its locate code is read past the end of the message.
\<close>
theorem itch_short_message_overread:
  "itch_to_csv opts epochBase (frame [b]) = None"
proof -
  have "rd16 [b] 1 = None" by (simp add: rd16_def byte_at_def)
  then have "itch_message opts epochBase [b] st = None" for st by (simp add: itch_message_def byte_at_def)
  then show ?thesis using itch_loop_frames [of "[[b]]" opts epochBase "[]" itch_start]
    by (simp add: itch_to_csv_def framable_def)
qed

text \<open>
  Clock times are exact: the text written for a 48-bit nanosecond timestamp consists of
  two digits each of hours, minutes and seconds and nine of nanoseconds, and those numbers
  add up to the timestamp; the hours always fit.
\<close>
theorem itch_clock_exact:
  assumes "rd48 m i = Some ns"
  shows "\<exists>h mi s n. appendClock out ns = out @ h @ '':'' @ mi @ '':'' @ s @ ''.'' @ n \<and>
    length h = 2 \<and> length mi = 2 \<and> length s = 2 \<and> length n = 9 \<and>
    unat (parseU64 mi) < 60 \<and> unat (parseU64 s) < 60 \<and> unat (parseU64 n) < 10 ^ 9 \<and>
    ((unat (parseU64 h) * 60 + unat (parseU64 mi)) * 60 + unat (parseU64 s)) * 10 ^ 9 + unat (parseU64 n) = unat ns"
proof -
  let ?t = "unat ns"
  have "i + 6 \<le> length m" using assms by (cases "i + 6 \<le> length m") (auto simp: rd48_def rd_loop_fold)
  then have "?t = be_value (take 6 (drop i m)) mod 2 ^ 64" using assms rd48_value by (auto simp: unat_of_nat)
  then have t: "?t < 2 ^ 48" using be_value_less [of "take 6 (drop i m)"] \<open>i + 6 \<le> length m\<close> by simp
  let ?s = "?t div 10 ^ 9"
  have s: "?s < 360000" using t by simp
  have u: "unat (ns div 1000000000) = ?s" "unat (ns mod 1000000000) = ?t mod 10 ^ 9" by (simp_all add: unat_div unat_mod)
  let ?h = "padded 2 (ns div 1000000000 div 3600)" and ?mi = "padded 2 (ns div 1000000000 div 60 mod 60)"
    and ?sc = "padded 2 (ns div 1000000000 mod 60)" and ?n = "padded 9 (ns mod 1000000000)"
  have "unat (parseU64 ?h) = ?s div 3600 mod 100 mod 2 ^ 64" by (simp add: parse_padded unat_div u unat_of_nat)
  then have h: "unat (parseU64 ?h) = ?s div 3600" using s by simp
  have mi: "unat (parseU64 ?mi) = ?s div 60 mod 60" by (simp add: parse_padded unat_div unat_mod u unat_of_nat)
  have sc: "unat (parseU64 ?sc) = ?s mod 60" by (simp add: parse_padded unat_mod u unat_of_nat)
  have n: "unat (parseU64 ?n) = ?t mod 10 ^ 9" by (simp add: parse_padded u unat_of_nat)
  have "(?s div 3600 * 60 + ?s div 60 mod 60) * 60 + ?s mod 60 = ?s"
    by (simp add: div_mult2_eq [of _ 60 60, simplified])
  then have "((unat (parseU64 ?h) * 60 + unat (parseU64 ?mi)) * 60 + unat (parseU64 ?sc)) * 10 ^ 9 + unat (parseU64 ?n) = ?t"
    unfolding h mi sc n by simp
  moreover have "appendClock out ns = out @ ?h @ '':'' @ ?mi @ '':'' @ ?sc @ ''.'' @ ?n"
    by (simp add: appendClock_def appendPadded_def Let_def)
  moreover have "unat (parseU64 ?mi) < 60" "unat (parseU64 ?sc) < 60" "unat (parseU64 ?n) < 10 ^ 9" unfolding mi sc n by simp_all
  ultimately show ?thesis by (metis length_padded)
qed

text \<open>A system event of the smallest size.\<close>

definition demo_message :: "u8 list" where
  "demo_message = [83, 0, 0, 0, 0, 0, 0, 0, 0, 0, 5, 79]"

lemma demo_message_ok: "well_sized demo_message \<and> length demo_message < 65536"
  by (simp add: demo_message_def well_sized_def byte_char_def itch_size_def char_of_def)

theorem itch_decodes_every_message_witness:
  "\<exists>st. itch_loop \<lparr>symbols = [], limit = 0, system = True\<rparr> 0 (concat (map frame [demo_message, demo_message])) 0 itch_start = Some (st, False)"
  using itch_decodes_every_message [of "[demo_message, demo_message]"] demo_message_ok by fastforce

theorem itch_clock_exact_witness:
  "\<exists>h mi s n. appendClock [] 5 = [] @ h @ '':'' @ mi @ '':'' @ s @ ''.'' @ n \<and> length n = 9 \<and>
    ((unat (parseU64 h) * 60 + unat (parseU64 mi)) * 60 + unat (parseU64 s)) * 10 ^ 9 + unat (parseU64 n) = 5"
proof -
  have "rd48 [0, 0, 0, 0, 0, 5] 0 = Some 5" by (simp add: rd48_value be_value_def)
  from itch_clock_exact [OF this, of "[]"] show ?thesis by auto
qed

end
