(* ===== verification/Latency_Stats.thy ===== *)
theory Latency_Stats
  imports Leka_Prelude "HOL-Library.Multiset"
begin

text \<open>
  The latency figures of the tools: the samples per label of \<open>LatencyLog\<close> (the same class in
  \<open>itch_replay.cpp\<close>, \<open>benchmark_interchange.cpp\<close> and \<open>threaded_replay_benchmark.cpp\<close>) and the bounded
  window \<open>RollingLatency\<close> of \<open>snapshot_recorder.cpp\<close>. The lemmas place the reported values among
  the samples.
\<close>

section \<open>Model\<close>

text \<open>
  The rank of a percentile among \<open>n + 1\<close> sorted samples is \<open>p * n\<close> in double precision,
  truncated; it is a parameter, with the percentile in thousandths. What the code relies on:
  the product of a count with a fraction of at most one does not exceed the count, and it
  does not decrease when the fraction grows.
\<close>

type_synonym rank_fun = "nat \<Rightarrow> nat \<Rightarrow> nat"

definition rank_ok :: "rank_fun \<Rightarrow> bool" where
  "rank_ok rank \<longleftrightarrow> (\<forall>n. rank 500 n \<le> rank 900 n \<and> rank 900 n \<le> rank 990 n \<and> rank 990 n \<le> rank 999 n \<and> rank 999 n \<le> n)"

definition pct :: "rank_fun \<Rightarrow> u64 list \<Rightarrow> nat \<Rightarrow> u64" where
  "pct rank ordered p = ordered ! rank p (length ordered - 1)"

subsection \<open>Samples per label\<close>

type_synonym latency_log = "string \<Rightarrow> u64 list"

definition LatencyLog_record :: "string \<Rightarrow> u64 \<Rightarrow> latency_log \<Rightarrow> latency_log" where
  "LatencyLog_record label nanos samples = samples(label := samples label @ [nanos])"

record latency_row =
  row_n :: nat
  row_p50 :: u64
  row_p90 :: u64
  row_p99 :: u64
  row_p999 :: u64
  row_max :: u64

definition LatencyLog_report :: "rank_fun \<Rightarrow> u64 list \<Rightarrow> latency_row option" where
  "LatencyLog_report rank values =
     (if values = [] then None
      else let ordered = sort values in
        Some \<lparr>row_n = length ordered, row_p50 = pct rank ordered 500, row_p90 = pct rank ordered 900, row_p99 = pct rank ordered 990,
              row_p999 = pct rank ordered 999, row_max = last ordered\<rparr>)"

subsection \<open>The rolling window\<close>

definition Window :: nat where
  "Window = 1024"

definition RollingLatency_add :: "u64 \<Rightarrow> u64 list \<Rightarrow> u64 list" where
  "RollingLatency_add nanos samples = (if length samples = Window then tl samples else samples) @ [nanos]"

definition RollingLatency_percentiles :: "rank_fun \<Rightarrow> u64 list \<Rightarrow> u64 list" where
  "RollingLatency_percentiles rank samples =
     (if samples = [] then [0, 0, 0]
      else let ordered = sort samples in [pct rank ordered 500, pct rank ordered 990, pct rank ordered 999])"

section \<open>Lemmas\<close>

lemma rank_less: "rank_ok rank \<Longrightarrow> (xs :: u64 list) \<noteq> [] \<Longrightarrow> p \<in> {500, 900, 990, 999} \<Longrightarrow> rank p (length xs - 1) < length xs"
proof -
  assume ok: "rank_ok rank" and "xs \<noteq> []" and p: "p \<in> {500, 900, 990, 999}"
  have "rank p (length xs - 1) \<le> length xs - 1"
    using p ok [unfolded rank_ok_def, rule_format, of "length xs - 1"] by auto
  with \<open>xs \<noteq> []\<close> show ?thesis by (cases xs) auto
qed

lemma sort_nonempty: "xs \<noteq> [] \<Longrightarrow> sort xs \<noteq> []"
  by (metis length_0_conv length_sort)

lemma pct_member: "rank_ok rank \<Longrightarrow> xs \<noteq> [] \<Longrightarrow> p \<in> {500, 900, 990, 999} \<Longrightarrow> pct rank (sort xs) p \<in> set xs"
  using rank_less [of rank "sort xs" p] nth_mem [of "rank p (length xs - 1)" "sort xs"] by (simp add: pct_def sort_nonempty)

lemma pct_mono:
  assumes "rank_ok rank" and "xs \<noteq> []" and "p \<in> {500, 900, 990, 999}" "q \<in> {500, 900, 990, 999}" "p \<le> q"
  shows "pct rank (sort xs) p \<le> pct rank (sort xs) q"
proof -
  have "rank p (length xs - 1) \<le> rank q (length xs - 1)"
    using assms(3-5) assms(1) [unfolded rank_ok_def, rule_format, of "length xs - 1"] by auto
  with rank_less [OF assms(1) sort_nonempty [OF assms(2)] assms(4)] show ?thesis
    unfolding pct_def by (intro sorted_nth_mono) simp_all
qed

lemma pct_count:
  assumes "rank_ok rank" and "xs \<noteq> []" and "p \<in> {500, 900, 990, 999}"
  shows "rank p (length xs - 1) < length (filter (\<lambda>x. x \<le> pct rank (sort xs) p) xs)"
proof -
  let ?ys = "sort xs" and ?r = "rank p (length xs - 1)"
  have r: "?r < length ?ys" using rank_less [OF assms(1) sort_nonempty [OF assms(2)] assms(3)] by simp
  have "filter (\<lambda>x. x \<le> pct rank ?ys p) (take (Suc ?r) ?ys) = take (Suc ?r) ?ys"
  proof (rule filter_True, rule ballI)
    fix x assume "x \<in> set (take (Suc ?r) ?ys)"
    then obtain i where "i < Suc ?r" "x = ?ys ! i" using r by (auto simp: in_set_conv_nth)
    then show "x \<le> pct rank ?ys p" using r sorted_nth_mono [of ?ys i ?r] by (simp add: pct_def)
  qed
  then have "Suc ?r \<le> length (filter (\<lambda>x. x \<le> pct rank ?ys p) (take (Suc ?r) ?ys @ drop (Suc ?r) ?ys))"
    unfolding filter_append length_append using r by simp
  moreover have "length (filter (\<lambda>x. x \<le> pct rank ?ys p) ?ys) = length (filter (\<lambda>x. x \<le> pct rank ?ys p) xs)"
    by (metis mset_filter mset_sort size_mset)
  ultimately show ?thesis by simp
qed

lemma Window_pos: "Suc 0 - Window = 0"
  by (simp add: Window_def)

lemma rolling_window: "fold RollingLatency_add xs [] = drop (length xs - Window) xs"
proof (induction xs rule: rev_induct)
  case (snoc x xs)
  have "length (drop (length xs - Window) xs) = Window \<longleftrightarrow> Window \<le> length xs" by (auto simp: Window_def)
  moreover have "Suc (length xs) - Window = Suc (length xs - Window)" if "Window \<le> length xs" using that by (rule Suc_diff_le)
  ultimately show ?case using snoc by (cases "Window \<le> length xs") (simp_all add: RollingLatency_add_def drop_Suc tl_drop Window_pos)
qed simp

section \<open>What is reported\<close>

text \<open>
  Reported latencies are percentiles of the last samples: the window holds exactly the
  last 1024 samples; the reported values are samples of the window, in ascending order, and
  more than the computed rank of them are not above the value; the full report adds the
  90th percentile and a maximum that no sample exceeds.
\<close>
lemma latency_percentiles:
  assumes "rank_ok rank" and "xs \<noteq> []"
  shows "let w = fold RollingLatency_add xs [] in
    w = drop (length xs - 1024) xs \<and>
    (\<exists>a b c. RollingLatency_percentiles rank w = [a, b, c] \<and> {a, b, c} \<subseteq> set w \<and> a \<le> b \<and> b \<le> c \<and>
       rank 500 (length w - 1) < length (filter (\<lambda>x. x \<le> a) w) \<and> rank 990 (length w - 1) < length (filter (\<lambda>x. x \<le> b) w) \<and>
       rank 999 (length w - 1) < length (filter (\<lambda>x. x \<le> c) w)) \<and>
    (\<exists>r. LatencyLog_report rank xs = Some r \<and> row_n r = length xs \<and> row_p50 r \<le> row_p90 r \<and> row_p90 r \<le> row_p99 r \<and>
       row_p99 r \<le> row_p999 r \<and> row_p999 r \<le> row_max r \<and> row_max r = Max (set xs))"
proof -
  define w where "w = drop (length xs - Window) xs"
  have w: "w \<noteq> []" using assms(2) by (cases xs) (auto simp: w_def Window_def)
  have "RollingLatency_percentiles rank w = [pct rank (sort w) 500, pct rank (sort w) 990, pct rank (sort w) 999]"
    using w by (simp add: RollingLatency_percentiles_def Let_def)
  then have p: "\<exists>a b c. RollingLatency_percentiles rank w = [a, b, c] \<and> {a, b, c} \<subseteq> set w \<and> a \<le> b \<and> b \<le> c \<and>
       rank 500 (length w - 1) < length (filter (\<lambda>x. x \<le> a) w) \<and> rank 990 (length w - 1) < length (filter (\<lambda>x. x \<le> b) w) \<and>
       rank 999 (length w - 1) < length (filter (\<lambda>x. x \<le> c) w)"
    using pct_member [OF assms(1) w] pct_mono [OF assms(1) w] pct_count [OF assms(1) w] by auto
  have mx: "last (sort xs) = Max (set xs)" 
  proof (rule Max_eqI [symmetric])
    show "last (sort xs) \<in> set xs" using assms(2) last_in_set [of "sort xs"] by (simp add: sort_nonempty)
    fix y assume "y \<in> set xs"
    then obtain i where i: "i < length (sort xs)" "y = sort xs ! i" by (metis in_set_conv_nth set_sort)
    then have "y \<le> sort xs ! (length (sort xs) - 1)" using sorted_nth_mono [of "sort xs" i "length (sort xs) - 1"] by simp
    then show "y \<le> last (sort xs)" using i(1) by (metis last_conv_nth length_0_conv less_nat_zero_code)
  qed simp
  then have "pct rank (sort xs) 999 \<le> last (sort xs)" using pct_member [OF assms(1) assms(2)] by simp
  then have "\<exists>r. LatencyLog_report rank xs = Some r \<and> row_n r = length xs \<and> row_p50 r \<le> row_p90 r \<and> row_p90 r \<le> row_p99 r \<and>
       row_p99 r \<le> row_p999 r \<and> row_p999 r \<le> row_max r \<and> row_max r = Max (set xs)"
    using assms(2) mx pct_mono [OF assms(1) assms(2)] by (simp add: LatencyLog_report_def Let_def)
  with p show ?thesis unfolding rolling_window Let_def w_def by (simp add: Window_def)
qed

section \<open>An exact rank\<close>

text \<open>The rank without rounding, a tenth of a per cent at a time.\<close>

definition exact_rank :: rank_fun where
  "exact_rank p n = p * n div 1000"

lemma exact_rank_ok: "rank_ok exact_rank"
proof -
  have "p * n div 1000 \<le> q * n div 1000" if "p \<le> q" for p q n :: nat using that by (intro div_le_mono mult_right_mono) simp_all
  from this [of 500 900] this [of 900 990] this [of 990 999] this [of 999 1000] show ?thesis
    unfolding rank_ok_def exact_rank_def by simp
qed

lemma latency_percentiles_example:
  "\<exists>r. LatencyLog_report exact_rank [30, 10, 20] = Some r \<and> row_p50 r \<le> row_max r \<and> row_max r = 30"
proof -
  from latency_percentiles [OF exact_rank_ok, of "[30, 10, 20]"] obtain r where r: "LatencyLog_report exact_rank [30, 10, 20] = Some r"
    "row_p50 r \<le> row_p90 r" "row_p90 r \<le> row_p99 r" "row_p99 r \<le> row_p999 r" "row_p999 r \<le> row_max r" "row_max r = Max {30, 10, 20}"
    by (auto simp: Let_def)
  moreover have "Max {30, 10, 20 :: u64} = 30" by simp
  ultimately show ?thesis by (metis order_trans)
qed

end
