(* ===== verification/Itch_Replay.thy ===== *)
theory Itch_Replay
  imports Engine_Spec Itch_Decoder Latency_Stats
begin

text \<open>
  \<open>itch_replay\<close> (\<open>tools/itch/itch_replay.cpp\<close>): the first pass over the rows of a converted
  session (price range, execution groups), the ladder sized for it, and the second pass that
  turns rows and reconstructed aggressors into engine events. The rows are the ones
  \<open>Text_Format\<close> splits. Parameters: the product of the span with the headroom percentage,
  which the code computes in double precision (\<open>scaled\<close>), the order in which the hash map
  of execution groups is walked (\<open>keys\<close>), and the time the calls take (\<open>clock l k\<close> for sample
  \<open>k\<close> under label \<open>l\<close>). The printed report is not modelled. The lemmas show that the second
  pass keeps the engine sound, that the text format loses nothing of what the replay reads,
  that the ladder covers the quoted prices and
  what the execution groups contain.
\<close>

section \<open>Model\<close>

definition parsePriceRaw :: "string \<Rightarrow> u64 option" where
  "parsePriceRaw s =
     (if s = [] then None
      else case find_char (CHR ''.'') s 0 of
        None \<Rightarrow> None
      | Some dot \<Rightarrow> Some (parseU64 (take dot s) * 10000 + parseU64 (drop (dot + 1) s)))"

text \<open>The callers ignore the flag and start from a price of zero.\<close>

definition price_or_zero :: "string \<Rightarrow> u64" where
  "price_or_zero s = (case parsePriceRaw s of Some p \<Rightarrow> p | None \<Rightarrow> 0)"

text \<open>Columns of a row.\<close>

abbreviation (input) TsNs :: nat where "TsNs \<equiv> 1"
abbreviation (input) EpochNs :: nat where "EpochNs \<equiv> 2"
abbreviation (input) Msg :: nat where "Msg \<equiv> 4"
abbreviation (input) OrderRef :: nat where "OrderRef \<equiv> 7"
abbreviation (input) Side :: nat where "Side \<equiv> 8"
abbreviation (input) Shares :: nat where "Shares \<equiv> 9"
abbreviation (input) PriceCol :: nat where "PriceCol \<equiv> 10"
abbreviation (input) NewOrderRef :: nat where "NewOrderRef \<equiv> 11"

subsection \<open>First pass\<close>

record aggregate =
  restingSide :: char
  agg_quantity :: u64
  priceExtreme :: u64

record pass1 =
  refSide :: "u64 \<rightharpoonup> char"
  refPrice :: "u64 \<rightharpoonup> u64"
  aggregates :: "u64 \<rightharpoonup> aggregate"
  minPriceRaw :: u64
  maxPriceRaw :: u64
  rowCount :: u64

definition pass1_start :: pass1 where
  "pass1_start = \<lparr>refSide = Map.empty, refPrice = Map.empty, aggregates = Map.empty, minPriceRaw = - 1, maxPriceRaw = 0, rowCount = 0\<rparr>"

definition noteRange :: "u64 \<Rightarrow> pass1 \<Rightarrow> pass1" where
  "noteRange p st =
     (if p = 0 then st else st\<lparr>minPriceRaw := min (minPriceRaw st) p, maxPriceRaw := max (maxPriceRaw st) p\<rparr>)"

text \<open>One execution joins the group of its timestamp and resting side.\<close>

definition join_group :: "char \<Rightarrow> u64 \<Rightarrow> u64 \<Rightarrow> aggregate option \<Rightarrow> aggregate" where
  "join_group side qty pr g =
     (case g of
        None \<Rightarrow> \<lparr>restingSide = side, agg_quantity = qty, priceExtreme = pr\<rparr>
      | Some a \<Rightarrow> a\<lparr>priceExtreme := (if side = CHR ''S'' then max (priceExtreme a) pr else min (priceExtreme a) pr),
                  agg_quantity := agg_quantity a + qty\<rparr>)"

definition group_key :: "u64 \<Rightarrow> char \<Rightarrow> u64" where
  "group_key ts side = ts * 2 + (if side = CHR ''S'' then 1 else 0)"

definition pass1_row :: "string list \<Rightarrow> pass1 \<Rightarrow> pass1" where
  "pass1_row f st0 =
     (let st = st0\<lparr>rowCount := rowCount st0 + 1\<rparr> in
      if length (f ! Msg) \<noteq> 1 then st
      else let msg = f ! Msg ! 0; ref = parseU64 (f ! OrderRef) in
        if msg = CHR ''A'' \<or> msg = CHR ''F'' then
          let pr = price_or_zero (f ! PriceCol) in
          noteRange pr (st\<lparr>refSide := (refSide st)(ref \<mapsto> (if f ! Side = [] then CHR ''B'' else f ! Side ! 0)),
                          refPrice := (refPrice st)(ref \<mapsto> pr)\<rparr>)
        else if msg = CHR ''U'' then
          let newRef = parseU64 (f ! NewOrderRef); pr = price_or_zero (f ! PriceCol);
              side = (case refSide st ref of Some s \<Rightarrow> s | None \<Rightarrow> CHR ''B'') in
          noteRange pr (st\<lparr>refSide := ((refSide st)(ref := None))(newRef \<mapsto> side),
                          refPrice := ((refPrice st)(ref := None))(newRef \<mapsto> pr)\<rparr>)
        else if msg = CHR ''D'' then
          st\<lparr>refSide := (refSide st)(ref := None), refPrice := (refPrice st)(ref := None)\<rparr>
        else if msg = CHR ''E'' \<or> msg = CHR ''C'' then
          (case refSide st ref of
             None \<Rightarrow> st
           | Some side \<Rightarrow>
             let qty = parseU64 (f ! Shares);
                 pr = (if msg = CHR ''C'' then price_or_zero (f ! PriceCol)
                       else case refPrice st ref of Some p \<Rightarrow> p | None \<Rightarrow> 0);
                 key = group_key (parseU64 (f ! TsNs)) side;
                 a = join_group side qty pr (aggregates st key) in
             noteRange (priceExtreme a) (st\<lparr>aggregates := (aggregates st)(key \<mapsto> a)\<rparr>))
        else st)"

definition data_rows :: "string \<Rightarrow> string list list" where
  "data_rows input = map (splitRow 15) (tl (forEachLine input))"

definition first_pass :: "string list list \<Rightarrow> pass1" where
  "first_pass fs = fold pass1_row fs pass1_start"

record aggressor =
  aggr_side :: order_side
  aggr_quantity :: u64
  aggr_price :: u64

text \<open>The hash map is walked in an unspecified order: \<open>keys\<close> lists its keys.\<close>

definition aggressor_of :: "aggregate \<Rightarrow> aggressor" where
  "aggressor_of a = \<lparr>aggr_side = (if restingSide a = CHR ''S'' then BUY else SELL), aggr_quantity = agg_quantity a,
     aggr_price = priceExtreme a\<rparr>"

definition aggressorsByTs :: "u64 list \<Rightarrow> pass1 \<Rightarrow> u64 \<Rightarrow> aggressor list" where
  "aggressorsByTs keys st ts =
     map (\<lambda>k. aggressor_of (the (aggregates st k))) (filter (\<lambda>k. aggregates st k \<noteq> None \<and> k div 2 = ts) keys)"

text \<open>
  The ladder: \<open>scaled\<close> stands for the product of the span with the headroom percentage,
  computed in double precision and truncated.
\<close>

record ladder_config =
  ladderMin :: u64
  ladderTick :: u64
  ladderLevels :: nat

definition size_ladder :: "(u64 \<Rightarrow> u64) \<Rightarrow> u64 \<Rightarrow> pass1 \<Rightarrow> ladder_config option" where
  "size_ladder scaled tick st =
     (if tick = 0 then None
      else let span = maxPriceRaw st - minPriceRaw st;
               headroom = scaled span + tick;
               mn = (if minPriceRaw st > headroom then minPriceRaw st - headroom else tick);
               mx = maxPriceRaw st + headroom
           in Some \<lparr>ladderMin = mn, ladderTick = tick, ladderLevels = (unat ((mx - mn) div tick) + 1) mod SIZE_RANGE\<rparr>)"

subsection \<open>Second pass\<close>

record replay =
  replay_engine :: engine
  executionBuffer :: "execution list"
  replay_latency :: latency_log
  pending :: "u64 \<Rightarrow> aggressor list"
  syntheticIdCounter :: u64
  eventCounts :: "string \<Rightarrow> u64"
  reduceDesync :: u64
  replaceDesync :: u64

definition bump :: "string \<Rightarrow> replay \<Rightarrow> replay" where
  "bump label st = st\<lparr>eventCounts := (eventCounts st)(label := eventCounts st label + 1)\<rparr>"

text \<open>A call that returned: its time is recorded and its label counted.\<close>

type_synonym label_clock = "string \<Rightarrow> nat \<Rightarrow> u64"

definition timed :: "label_clock \<Rightarrow> string \<Rightarrow> replay \<Rightarrow> replay" where
  "timed clock label st =
     st\<lparr>replay_latency := LatencyLog_record label (clock label (length (replay_latency st label))) (replay_latency st)\<rparr>"

definition SyntheticIdBase :: u64 where
  "SyntheticIdBase = 2 ^ 62"

text \<open>
  An event handed to the engine, with the caller's buffer or by value, and counted under its
  label.
\<close>

definition dispatch_into :: "os_env \<Rightarrow> hash_fun \<Rightarrow> label_clock \<Rightarrow> string \<Rightarrow> order_event \<Rightarrow> replay \<Rightarrow> (unit, replay) outcome" where
  "dispatch_into os H clock label ev st =
     (case processEvent_into os H ev (replay_engine st, executionBuffer st) of
        Ret _ s \<Rightarrow> Ret () (bump label (timed clock label (st\<lparr>replay_engine := fst s, executionBuffer := snd s\<rparr>)))
      | Throw e s \<Rightarrow> Throw e (st\<lparr>replay_engine := fst s, executionBuffer := snd s\<rparr>))"

definition dispatch :: "os_env \<Rightarrow> hash_fun \<Rightarrow> label_clock \<Rightarrow> string \<Rightarrow> order_event \<Rightarrow> replay \<Rightarrow> (unit, replay) outcome" where
  "dispatch os H clock label ev st =
     (case processEvent os H ev (replay_engine st) of
        Ret _ E \<Rightarrow> Ret () (bump label (timed clock label (st\<lparr>replay_engine := E\<rparr>)))
      | Throw e E \<Rightarrow> Throw e (st\<lparr>replay_engine := E\<rparr>))"

text \<open>Only exceptions reach a catch block; undefined behaviour and a hang are not caught.\<close>

definition catching :: "string \<Rightarrow> (unit, replay) outcome \<Rightarrow> (unit, replay) outcome" where
  "catching label r =
     (case r of
        Ret u st \<Rightarrow> Ret u st
      | Throw e st \<Rightarrow> if defined_error e then Ret () (bump label st) else Throw e st)"

definition inject :: "os_env \<Rightarrow> hash_fun \<Rightarrow> label_clock \<Rightarrow> u64 \<Rightarrow> aggressor \<Rightarrow> replay \<Rightarrow> (unit, replay) outcome" where
  "inject os H clock stamp a st =
     (let i = SyntheticIdBase + syntheticIdCounter st in
      catching ''AGGR_FAILED'' (dispatch_into os H clock ''AGGR''
        (NewEvent \<lparr>newOrderId = i, newPrice = aggr_price a, newQuantity = aggr_quantity a, newTimestamp = stamp,
                   newSide = aggr_side a, newType = LIMIT\<rparr>)
        (st\<lparr>syntheticIdCounter := syntheticIdCounter st + 1\<rparr>)))"

text \<open>The live order behind the pointer that \<open>findOrder\<close> returns.\<close>

definition find_live :: "hash_fun \<Rightarrow> u64 \<Rightarrow> replay \<Rightarrow> error + order option" where
  "find_live H ref st =
     (case OrderBook_findOrder H ref (book (replay_engine st)) of
        Inl e \<Rightarrow> Inl e
      | Inr None \<Rightarrow> Inr None
      | Inr (Some p) \<Rightarrow>
        (case book_mem (book (replay_engine st)) p of
           None \<Rightarrow> Inl (UndefinedBehaviour ''read of an order that is not alive'')
         | Some ord \<Rightarrow> Inr (Some ord)))"

text \<open>The new order of an add row.\<close>

definition add_event :: "string list \<Rightarrow> u64 \<Rightarrow> order_event" where
  "add_event f stamp =
     NewEvent \<lparr>newOrderId = parseU64 (f ! OrderRef), newPrice = price_or_zero (f ! PriceCol),
       newQuantity = parseU64 (f ! Shares), newTimestamp = stamp,
       newSide = (if f ! Side \<noteq> [] \<and> f ! Side ! 0 = CHR ''B'' then BUY else SELL), newType = LIMIT\<rparr>"

definition replay_action :: "os_env \<Rightarrow> hash_fun \<Rightarrow> label_clock \<Rightarrow> string list \<Rightarrow> u64 \<Rightarrow> replay \<Rightarrow> (unit, replay) outcome" where
  "replay_action os H clock f stamp st =
     (let msg = f ! Msg ! 0; ref = parseU64 (f ! OrderRef) in
      if msg = CHR ''A'' \<or> msg = CHR ''F'' then dispatch_into os H clock ''NEW'' (add_event f stamp) st
      else if msg = CHR ''D'' then dispatch os H clock ''CANCEL'' (CancelEvent \<lparr>cancelOrderId = ref\<rparr>) st
      else if msg = CHR ''X'' then
        (case find_live H ref st of
           Inl e \<Rightarrow> Throw e st
         | Inr None \<Rightarrow> Ret () st
         | Inr (Some ord) \<Rightarrow>
           let remaining = remainingQuantity ord; cancelled = parseU64 (f ! Shares) in
           if cancelled < remaining
           then dispatch os H clock ''REDUCE'' (ReduceEvent \<lparr>reduceOrderId = ref, reduceQuantity = remaining - cancelled\<rparr>) st
           else dispatch os H clock ''CANCEL'' (CancelEvent \<lparr>cancelOrderId = ref\<rparr>) (st\<lparr>reduceDesync := reduceDesync st + 1\<rparr>))
      else if msg = CHR ''U'' then
        (case find_live H ref st of
           Inl e \<Rightarrow> Throw e st
         | Inr None \<Rightarrow> Ret () (st\<lparr>replaceDesync := replaceDesync st + 1\<rparr>)
         | Inr (Some ord) \<Rightarrow>
           bind_outcome (dispatch os H clock ''CANCEL'' (CancelEvent \<lparr>cancelOrderId = ref\<rparr>) st) (\<lambda>_ st1.
           dispatch_into os H clock ''NEW''
             (NewEvent \<lparr>newOrderId = parseU64 (f ! NewOrderRef), newPrice = price_or_zero (f ! PriceCol),
                        newQuantity = parseU64 (f ! Shares), newTimestamp = stamp,
                        newSide = orderSide ord, newType = LIMIT\<rparr>) st1))
      else Ret () st)"

definition replay_row :: "os_env \<Rightarrow> hash_fun \<Rightarrow> label_clock \<Rightarrow> string list \<Rightarrow> replay \<Rightarrow> (unit, replay) outcome" where
  "replay_row os H clock f st =
     (if length (f ! Msg) \<noteq> 1 then Ret () st
      else let ts = parseU64 (f ! TsNs); epochNs = parseU64 (f ! EpochNs);
               stamp = (if epochNs \<noteq> 0 then epochNs else ts) in
        bind_outcome (run_all (inject os H clock stamp) (pending st ts) st) (\<lambda>_ st1.
        catching (''ERROR:'' @ [f ! Msg ! 0])
          (replay_action os H clock f stamp (st1\<lparr>pending := (pending st1)(ts := [])\<rparr>))))"

definition second_pass :: "os_env \<Rightarrow> hash_fun \<Rightarrow> label_clock \<Rightarrow> string list list \<Rightarrow> replay \<Rightarrow> (unit, replay) outcome" where
  "second_pass os H clock fs = run_all (replay_row os H clock) fs"

text \<open>
  The engine on a book sized for the first pass, then the whole run: exit code 1 without
  prices, an uncaught exception, or the final state.
\<close>

definition replay_engine_for ::
  "os_env \<Rightarrow> hash_fun \<Rightarrow> (u64 \<Rightarrow> u64) \<Rightarrow> u64 \<Rightarrow> u64 \<Rightarrow> pass1 \<Rightarrow> error + engine" where
  "replay_engine_for os H scaled tick c p =
     (case size_ladder scaled tick p of
        None \<Rightarrow> Inl (UndefinedBehaviour ''division by zero'')
      | Some cfg \<Rightarrow>
        (case OrderBook_new (ladderMin cfg) (ladderTick cfg) (ladderLevels cfg) of
           Inl e \<Rightarrow> Inl e
         | Inr B \<Rightarrow>
           (case reserveOrderCapacity os H ((unat (rowCount p) + card (dom (aggregates p))) mod SIZE_RANGE) B of
              Throw e B1 \<Rightarrow> Inl e
            | Ret u B1 \<Rightarrow> Inr (MatchingEngine_new B1 c))))"

definition replay_start :: "u64 list \<Rightarrow> pass1 \<Rightarrow> engine \<Rightarrow> replay" where
  "replay_start keys p E =
     \<lparr>replay_engine = E, executionBuffer = [], replay_latency = (\<lambda>_. []), pending = aggressorsByTs keys p, syntheticIdCounter = 0,
      eventCounts = (\<lambda>_. 0), reduceDesync = 0, replaceDesync = 0\<rparr>"

datatype replay_result = Exit nat | Uncaught error | Completed replay

definition itch_replay ::
  "os_env \<Rightarrow> hash_fun \<Rightarrow> label_clock \<Rightarrow> (u64 \<Rightarrow> u64) \<Rightarrow> u64 \<Rightarrow> u64 list \<Rightarrow> u64 \<Rightarrow> string \<Rightarrow> replay_result" where
  "itch_replay os H clock scaled tick keys c input =
     (let fs = data_rows input; p = first_pass fs in
      if minPriceRaw p = - 1 then Exit 1
      else case replay_engine_for os H scaled tick c p of
        Inl e \<Rightarrow> Uncaught e
      | Inr E \<Rightarrow>
        (case second_pass os H clock fs (replay_start keys p E) of
           Ret u st \<Rightarrow> Completed st
         | Throw e st \<Rightarrow> Uncaught e))"

section \<open>Lemmas\<close>

subsection \<open>The replay never leaves the defined states\<close>

definition replay_labels :: "string set" where
  "replay_labels = {''AGGR'', ''NEW'', ''CANCEL'', ''REDUCE''}"

definition replay_ok :: "os_env \<Rightarrow> hash_fun \<Rightarrow> replay \<Rightarrow> bool" where
  "replay_ok os H st \<longleftrightarrow> os_fresh os \<and> book_ok os H (book (replay_engine st)) \<and> spec_inv (view (replay_engine st)) \<and>
     (\<forall>l \<in> replay_labels. eventCounts st l = word_of_nat (length (replay_latency st l)))"

lemma replay_ok_bump: "label \<notin> replay_labels \<Longrightarrow> replay_ok os H st \<Longrightarrow> replay_ok os H (bump label st)"
  by (auto simp: replay_ok_def bump_def)

text \<open>An outcome whose state is sound and whose error, if any, a catch block can see.\<close>

definition sound_outcome :: "os_env \<Rightarrow> hash_fun \<Rightarrow> (unit, replay) outcome \<Rightarrow> bool" where
  "sound_outcome os H r \<longleftrightarrow> defined r \<and> replay_ok os H (state_of r)"

lemma sound_outcome_simps [simp]:
  "sound_outcome os H (Ret u st) \<longleftrightarrow> replay_ok os H st"
  "sound_outcome os H (Throw e st) \<longleftrightarrow> defined_error e \<and> replay_ok os H st"
  by (simp_all add: sound_outcome_def)

lemma engine_event_sound:
  assumes "os_fresh os" and "book_ok os H (book E)" and "spec_inv (view E)"
  shows "book_ok os H (book (next_engine (processEvent_into os H ev (E, out))))"
    and "spec_inv (view (next_engine (processEvent_into os H ev (E, out))))"
    and "defined (processEvent_into os H ev (E, out))"
proof -
  let ?R = "processEvent_into os H ev (E, out)"
  show "book_ok os H (book (next_engine ?R))" by (rule processEvent_step [OF assms(1,2)])
  have s: "engine_step ev (view E) (reply_of ?R) (view (next_engine ?R))" by (rule processEvent_step [OF assms(1,2)])
  then show "spec_inv (view (next_engine ?R))" by (rule engine_step_inv [OF _ assms(3)])
  from s show "defined ?R" by (cases ?R) (auto simp: reply_of_def elim: engine_step.cases)
qed

lemma dispatch_into_sound: "replay_ok os H st \<Longrightarrow> sound_outcome os H (dispatch_into os H clock label ev st)"
  using engine_event_sound [of os H "replay_engine st" ev "executionBuffer st"]
  by (auto simp: replay_ok_def dispatch_into_def next_engine_def bump_def timed_def LatencyLog_record_def split: outcome.splits)

lemma dispatch_sound: "replay_ok os H st \<Longrightarrow> sound_outcome os H (dispatch os H clock label ev st)"
  using engine_event_sound [of os H "replay_engine st" ev "[]"]
  by (auto simp: replay_ok_def dispatch_def processEvent_def by_value_def next_engine_def bump_def timed_def LatencyLog_record_def split: outcome.splits)

lemma catching_sound: "label \<notin> replay_labels \<Longrightarrow> sound_outcome os H r \<Longrightarrow> \<exists>st. catching label r = Ret () st \<and> replay_ok os H st"
  by (cases r) (auto simp: catching_def replay_ok_bump)

lemma error_labels: "''AGGR_FAILED'' \<notin> replay_labels" "''ERROR:'' @ s \<notin> replay_labels"
  by (simp_all add: replay_labels_def)

lemma find_live_sound:
  assumes "replay_ok os H st"
  obtains r where "find_live H ref st = Inr r"
proof -
  let ?B = "book (replay_engine st)"
  have ok: "book_ok os H ?B" using assms by (simp add: replay_ok_def)
  then obtain Q where rep: "book_rep os H ?B Q" by (rule book_okE)
  note D = book_repD [OF rep [unfolded book_rep_def]]
  have f: "OrderBook_findOrder H ref ?B = Inr (index_map (orderIndex ?B) ref)"
    using book_find [OF rep [unfolded book_rep_def], of ref] by (simp add: OrderBook_findOrder_def)
  show thesis
  proof (cases "index_map (orderIndex ?B) ref")
    case None
    with f that show ?thesis by (simp add: find_live_def)
  next
    case (Some p)
    then obtain ord where "book_mem ?B p = Some ord" using index_agreesD(2) [OF D(5), of ref] by auto
    with f Some that show ?thesis by (simp add: find_live_def)
  qed
qed

lemma bind_sound:
  assumes "sound_outcome os H r" and "\<And>u st. replay_ok os H st \<Longrightarrow> sound_outcome os H (f u st)"
  shows "sound_outcome os H (bind_outcome r f)"
  using assms by (cases r) auto

lemma replay_action_sound:
  assumes "replay_ok os H st"
  shows "sound_outcome os H (replay_action os H clock f stamp st)"
proof -
  obtain r where r: "find_live H (parseU64 (f ! OrderRef)) st = Inr r" using find_live_sound [OF assms] .
  have c: "replay_ok os H (st\<lparr>reduceDesync := k\<rparr>)" "replay_ok os H (st\<lparr>replaceDesync := k\<rparr>)" for k
    using assms by (simp_all add: replay_ok_def)
  show ?thesis using assms
    by (cases r) (simp_all add: replay_action_def r Let_def dispatch_sound dispatch_into_sound c bind_sound)
qed

lemma inject_sound: "replay_ok os H st \<Longrightarrow> \<exists>st'. inject os H clock stamp a st = Ret () st' \<and> replay_ok os H st'"
  unfolding inject_def Let_def by (intro catching_sound dispatch_into_sound error_labels) (simp add: replay_ok_def)

lemma run_all_sound:
  assumes "\<And>p s. I s \<Longrightarrow> \<exists>s'. f p s = Ret () s' \<and> I s'" and "I s"
  shows "\<exists>s'. run_all f ps s = Ret () s' \<and> I s'"
  using assms(2)
proof (induction ps arbitrary: s)
  case (Cons p ps)
  obtain s1 where "f p s = Ret () s1" "I s1" using assms(1) Cons.prems by blast
  with Cons.IH show ?case by simp
qed simp

lemma replay_row_sound:
  assumes "replay_ok os H st"
  shows "\<exists>st'. replay_row os H clock f st = Ret () st' \<and> replay_ok os H st'"
proof -
  define ts where "ts = parseU64 (f ! TsNs)"
  define stamp where "stamp = (if parseU64 (f ! EpochNs) \<noteq> 0 then parseU64 (f ! EpochNs) else ts)"
  obtain st1 where st1: "run_all (inject os H clock stamp) (pending st ts) st = Ret () st1" "replay_ok os H st1"
    using run_all_sound [where f = "inject os H clock stamp" and I = "replay_ok os H", OF inject_sound assms] by blast
  have "replay_ok os H (st1\<lparr>pending := (pending st1)(ts := [])\<rparr>)" using st1(2) by (simp add: replay_ok_def)
  from catching_sound [OF error_labels(2) replay_action_sound [OF this]] obtain st2 where
    st2: "catching (''ERROR:'' @ [f ! Msg ! 0]) (replay_action os H clock f stamp (st1\<lparr>pending := (pending st1)(ts := [])\<rparr>)) = Ret () st2"
    "replay_ok os H st2" by blast
  have "replay_row os H clock f st = (if length (f ! Msg) \<noteq> 1 then Ret () st else Ret () st2)"
    unfolding replay_row_def Let_def ts_def [symmetric] stamp_def [symmetric] st1(1) bind_outcome.simps st2(1) ..
  with assms st2(2) show ?thesis by simp
qed

lemma second_pass_sound: "replay_ok os H st \<Longrightarrow> \<exists>st'. second_pass os H clock fs st = Ret () st' \<and> replay_ok os H st'"
  unfolding second_pass_def by (rule run_all_sound [OF replay_row_sound])

lemma replay_engine_ok:
  assumes "replay_engine_for os H scaled tick c p = Inr E" and "os_fresh os"
    and "unat (rowCount p) + card (dom (aggregates p)) < 2 ^ 53"
  shows "replay_ok os H (replay_start keys p E)"
proof -
  let ?n = "unat (rowCount p) + card (dom (aggregates p))"
  have n: "?n mod SIZE_RANGE = ?n" using assms(3) by (simp add: SIZE_RANGE_def)
  obtain cfg B B1 where x: "size_ladder scaled tick p = Some cfg"
    "OrderBook_new (ladderMin cfg) (ladderTick cfg) (ladderLevels cfg) = Inr B"
    "reserveOrderCapacity os H ?n B = Ret () B1" "E = MatchingEngine_new B1 c"
    using assms(1) by (auto simp: replay_engine_for_def n split: option.splits sum.splits outcome.splits)
  have lc: "ladderLevels cfg < SIZE_RANGE" using x(1) by (auto simp: size_ladder_def Let_def SIZE_RANGE_def split: if_splits)
  note b = book_rep_ok [OF book_rep_new [OF x(2) lc]] 
  note r = reserve_book [OF b assms(2) x(3) assms(3)]
  have "view E = (\<lambda>_. [], c)" using r(2) resting_new [OF x(2) lc] x(4) by (simp add: view_def MatchingEngine_new_def)
  then show ?thesis using r(1) assms(2) x(4) by (simp add: replay_ok_def replay_start_def MatchingEngine_new_def spec_inv_def)
qed

subsection \<open>Prices and rows survive the text format\<close>

lemma find_from_at: "c \<notin> set xs \<Longrightarrow> find_from c (xs @ c # ys) k = Some (k + length xs)"
  by (induction xs arbitrary: k) auto

lemma price_roundtrip: "parsePriceRaw (appendPrice [] raw) = Some (ucast raw)"
proof -
  let ?hi = "to_chars (unat (raw div 10000))" and ?lo = "padded 4 (ucast (raw mod 10000))"
  have dot: "find_char (CHR ''.'') (?hi @ CHR ''.'' # ?lo) 0 = Some (length ?hi)"
    using find_from_at [of "CHR ''.''" ?hi ?lo 0] to_chars_no_sep(2) by (simp add: find_char_def)
  have small: "unat raw mod 10000 mod 10 ^ 4 = unat raw mod 10000" by simp
  have "parsePriceRaw (?hi @ CHR ''.'' # ?lo) = Some (parseU64 ?hi * 10000 + parseU64 ?lo)"
    by (simp add: parsePriceRaw_def dot)
  also have "parseU64 ?hi = word_of_nat (unat raw div 10000)" by (simp add: parse_to_chars unat_div)
  also have "parseU64 ?lo = word_of_nat (unat raw mod 10000)"
    unfolding parse_padded unat_ucast_u32 unat_mod by simp
  also have "word_of_nat (unat raw div 10000) * 10000 + word_of_nat (unat raw mod 10000) = (word_of_nat (unat raw) :: u64)"
  proof -
    have "word_of_nat (unat raw div 10000) * 10000 + word_of_nat (unat raw mod 10000) =
        (word_of_nat (unat raw div 10000 * 10000 + unat raw mod 10000) :: u64)"
      by (simp only: of_nat_add of_nat_mult of_nat_numeral)
    then show ?thesis by (simp only: div_mult_mod_eq)
  qed
  also have "word_of_nat (unat raw) = (ucast raw :: u64)" by simp
  finally show ?thesis by (simp add: price_chars)
qed

lemma parse_uint: "parseU64 (appendUInt [] v) = v"
  by (simp add: appendUInt_def parse_to_chars)

lemma digits_no_comma: "CHR '','' \<notin> set (padded w v)" "CHR '','' \<notin> set (appendUInt [] v)" "CHR '','' \<notin> set (appendPrice [] raw)"
  "CHR '','' \<notin> set (appendClock [] v)" "CHR '','' \<notin> set (messageName t)"
proof -
  show p: "CHR '','' \<notin> set (padded w v)" for w v using padded_chars digit_char_neq(1) by metis
  show "CHR '','' \<notin> set (appendUInt [] v)" by (simp add: appendUInt_def to_chars_no_sep)
  show "CHR '','' \<notin> set (appendPrice [] raw)" by (simp add: price_chars to_chars_no_sep p)
  show "CHR '','' \<notin> set (appendClock [] v)" by (simp add: appendClock_def appendPadded_def p Let_def)
  show "CHR '','' \<notin> set (messageName t)" by (simp add: messageName_def)
qed

lemma numeric_fields_no_comma:
  "order_ref_field t m = Some s \<Longrightarrow> CHR '','' \<notin> set s" "shares_field t m = Some s \<Longrightarrow> CHR '','' \<notin> set s"
  "price_field t m = Some s \<Longrightarrow> CHR '','' \<notin> set s" "new_order_ref_field t m = Some s \<Longrightarrow> CHR '','' \<notin> set s"
  "match_number_field t m = Some s \<Longrightarrow> CHR '','' \<notin> set s"
  by (auto simp: order_ref_field_def shares_field_def price_field_def new_order_ref_field_def match_number_field_def uint_field_def
      digits_no_comma split: if_splits)

text \<open>The columns of a decoded row, one by one.\<close>

lemma itch_fieldsE:
  assumes "itch_fields epochBase L row t locate m = Some fs"
  obtains nanos symbol ref sd shares pr newRef match printable attribution where
    "rd48 m 5 = Some nanos" "symbol_field L t locate m = Some symbol" "order_ref_field t m = Some ref" "side_field t m = Some sd"
    "shares_field t m = Some shares" "price_field t m = Some pr" "new_order_ref_field t m = Some newRef"
    "match_number_field t m = Some match" "printable_field t m = Some printable" "attribution_field t m = Some attribution"
    "fs = [appendUInt [] row, appendUInt [] nanos, (if epochBase \<noteq> 0 then appendUInt [] (epochBase + nanos) else []),
       appendClock [] nanos, [t], messageName t, symbol, ref, sd, shares, pr, newRef, match, printable, attribution]"
  using assms unfolding itch_fields_def bind_eq_Some_conv by blast

lemma split_row_fields:
  assumes "itch_fields epochBase L row t locate m = Some fs"
    and "\<forall>i \<in> {4, 6, 8, 13, 14}. CHR '','' \<notin> set (fs ! i)"
  shows "splitRow 15 (join_fields fs) = fs"
proof (rule itch_fieldsE [OF assms(1)])
  fix nanos symbol ref sd shares pr newRef match printable attribution
  assume o: "order_ref_field t m = Some ref" "shares_field t m = Some shares" "price_field t m = Some pr"
    "new_order_ref_field t m = Some newRef" "match_number_field t m = Some match"
    and fs: "fs = [appendUInt [] row, appendUInt [] nanos, (if epochBase \<noteq> 0 then appendUInt [] (epochBase + nanos) else []),
       appendClock [] nanos, [t], messageName t, symbol, ref, sd, shares, pr, newRef, match, printable, attribution]"
  have "CHR '','' \<noteq> t" "CHR '','' \<notin> set symbol" "CHR '','' \<notin> set sd" "CHR '','' \<notin> set printable" "CHR '','' \<notin> set attribution"
    using assms(2) by (simp_all add: fs)
  then have "\<forall>f \<in> set fs. CHR '','' \<notin> set f"
    using numeric_fields_no_comma(1) [OF o(1)] numeric_fields_no_comma(2) [OF o(2)] numeric_fields_no_comma(3) [OF o(3)]
      numeric_fields_no_comma(4) [OF o(4)] numeric_fields_no_comma(5) [OF o(5)]
    by (simp add: fs digits_no_comma)
  then show ?thesis by (intro splitRow_join) (simp_all add: fs)
qed

lemma uint_field_parse: "uint_field r = Some s \<Longrightarrow> Some (parseU64 s) = r"
  by (auto simp: uint_field_def parse_uint)

lemma price_field_parse: "map_option (appendPrice []) r = Some s \<Longrightarrow> Some (price_or_zero s) = map_option ucast r"
  by (auto simp: price_or_zero_def price_roundtrip)

subsection \<open>The ladder covers the prices of the file\<close>

definition in_range :: "u64 \<Rightarrow> pass1 \<Rightarrow> bool" where
  "in_range p st \<longleftrightarrow> minPriceRaw st \<le> p \<and> p \<le> maxPriceRaw st"

text \<open>The rows that quote a limit price.\<close>

definition quotes :: "string list \<Rightarrow> bool" where
  "quotes f \<longleftrightarrow> f ! Msg \<in> {''A'', ''F'', ''U''}"

lemma noteRange_in_range: "p \<noteq> 0 \<Longrightarrow> in_range p (noteRange p st)" "in_range p st \<Longrightarrow> in_range p (noteRange q st)"
  by (auto simp: in_range_def noteRange_def min_def max_def)

lemma pass1_row_keeps: "in_range p st \<Longrightarrow> in_range p (pass1_row f st)"
  unfolding pass1_row_def Let_def
  by (auto intro!: noteRange_in_range(2) split: option.splits) (simp_all add: in_range_def)

lemma one_char: "s = [c] \<longleftrightarrow> length s = 1 \<and> s ! 0 = c"
  by (cases s) auto

lemma pass1_row_covers:
  assumes "quotes f" and "price_or_zero (f ! PriceCol) \<noteq> 0"
  shows "in_range (price_or_zero (f ! PriceCol)) (pass1_row f st)"
  using assms unfolding quotes_def by (auto simp: pass1_row_def Let_def intro!: noteRange_in_range(1))

lemma first_pass_covers:
  assumes "f \<in> set fs" and "quotes f" and "price_or_zero (f ! PriceCol) \<noteq> 0"
  shows "in_range (price_or_zero (f ! PriceCol)) (first_pass fs)"
proof -
  obtain as bs where fs: "fs = as @ f # bs" using assms(1) by (meson split_list)
  have keep: "in_range p (fold pass1_row bs st)" if "in_range p st" for p st
    using that by (induction bs arbitrary: st) (simp_all add: pass1_row_keeps)
  show ?thesis unfolding first_pass_def fs by (simp add: keep pass1_row_covers [OF assms(2,3)])
qed

lemma size_ladder_unit:
  assumes "in_range p st" and "p \<noteq> 0"
    and "unat (maxPriceRaw st) + unat (scaled (maxPriceRaw st - minPriceRaw st)) + 1 < SIZE_RANGE"
  obtains cfg B where "size_ladder scaled 1 st = Some cfg" "OrderBook_new (ladderMin cfg) (ladderTick cfg) (ladderLevels cfg) = Inr B"
    "\<exists>k. indexOf p (ladder_of d B) = Inr k"
proof -
  define hr where "hr = scaled (maxPriceRaw st - minPriceRaw st) + 1"
  define mn where "mn = (if minPriceRaw st > hr then minPriceRaw st - hr else 1)"
  define mx where "mx = maxPriceRaw st + hr"
  have hr: "unat hr = unat (scaled (maxPriceRaw st - minPriceRaw st)) + 1"
    unfolding hr_def using assms(3) by (subst unat_add_u64) (simp_all add: SIZE_RANGE_def)
  have mx: "unat mx = unat (maxPriceRaw st) + unat hr"
    unfolding mx_def using assms(3) hr by (subst unat_add_u64) (simp_all add: SIZE_RANGE_def)
  have r: "unat (minPriceRaw st) \<le> unat p" "unat p \<le> unat (maxPriceRaw st)" "unat p > 0"
    using assms(1,2) by (simp_all add: in_range_def u64_le_iff u64_eq_0_iff)
  have mn: "unat mn > 0" "unat mn \<le> unat p"
    using r by (auto simp: mn_def u64_less_iff unat_sub_u64 u64_le_iff)
  have le: "mn \<le> mx" "mn \<noteq> 0" "mn \<le> p" "p \<le> mx" using mn mx r by (auto simp: u64_le_iff u64_eq_0_iff)
  have lt: "unat (mx - mn) + 1 < SIZE_RANGE"
    using mn(1) unat_less_range [of mx] unat_sub_u64 [OF le(1)] le(1) [unfolded u64_le_iff] by linarith
  let ?cfg = "\<lparr>ladderMin = mn, ladderTick = 1, ladderLevels = unat (mx - mn) + 1\<rparr>"
  have s: "size_ladder scaled 1 st = Some ?cfg"
    unfolding size_ladder_def Let_def hr_def [symmetric] unfolding mn_def [symmetric] mx_def [symmetric] using lt by simp
  have "unat (- 1 - mn) = SIZE_RANGE - 1 - unat mn" using unat_sub_u64 [of mn "- 1"] by simp
  then have top: "\<not> mx - mn > - 1 - mn"
    using unat_less_range [of mx] unat_sub_u64 [OF le(1)] unfolding u64_less_iff by linarith
  have lad: "\<exists>L. PriceLadder_new mn 1 (unat (mx - mn) + 1) desc = Inr L \<and> (\<exists>k. indexOf p L = Inr k)" for desc
    using le top by (simp add: PriceLadder_new_def indexOf_def Let_def not_less)
  obtain b a where ba: "PriceLadder_new mn 1 (unat (mx - mn) + 1) True = Inr b" "\<exists>k. indexOf p b = Inr k"
    "PriceLadder_new mn 1 (unat (mx - mn) + 1) False = Inr a" "\<exists>k. indexOf p a = Inr k"
    using lad by meson
  show thesis by (rule that [OF s]) (use ba in \<open>cases d; simp add: OrderBook_new_def\<close>)+
qed

lemma ladder_covers_file:
  assumes "\<exists>f \<in> set fs. quotes f \<and> price_or_zero (f ! PriceCol) \<noteq> 0"
    and "unat (maxPriceRaw (first_pass fs)) + unat (scaled (maxPriceRaw (first_pass fs) - minPriceRaw (first_pass fs))) + 1 < SIZE_RANGE"
  obtains cfg B where "size_ladder scaled 1 (first_pass fs) = Some cfg"
    "OrderBook_new (ladderMin cfg) (ladderTick cfg) (ladderLevels cfg) = Inr B"
    "\<And>f d. f \<in> set fs \<Longrightarrow> quotes f \<Longrightarrow> price_or_zero (f ! PriceCol) \<noteq> 0 \<Longrightarrow> \<exists>k. indexOf (price_or_zero (f ! PriceCol)) (ladder_of d B) = Inr k"
proof -
  obtain f0 where f0: "f0 \<in> set fs" "quotes f0" "price_or_zero (f0 ! PriceCol) \<noteq> 0" using assms(1) by blast
  obtain cfg B where cB: "size_ladder scaled 1 (first_pass fs) = Some cfg"
    "OrderBook_new (ladderMin cfg) (ladderTick cfg) (ladderLevels cfg) = Inr B"
    by (rule size_ladder_unit [where scaled = scaled, OF first_pass_covers [OF f0] f0(3) assms(2)])
  have "\<exists>k. indexOf (price_or_zero (f ! PriceCol)) (ladder_of d B) = Inr k"
    if "f \<in> set fs" "quotes f" "price_or_zero (f ! PriceCol) \<noteq> 0" for f d
    by (rule size_ladder_unit [where scaled = scaled, OF first_pass_covers [OF that] that(3) assms(2), where d = d]) (use cB in auto)
  with that [OF cB] show thesis by blast
qed

subsection \<open>Execution groups\<close>

text \<open>
  What a row contributes: the group of its timestamp and resting side, the shares and the
  price. The state supplies the side and the price of the resting order.
\<close>

record fill =
  fill_ts :: u64
  fill_side :: char
  fill_shares :: u64
  fill_price :: u64

definition row_fill :: "string list \<Rightarrow> pass1 \<Rightarrow> fill list" where
  "row_fill f st =
     (if f ! Msg = ''E'' \<or> f ! Msg = ''C''
      then (case refSide st (parseU64 (f ! OrderRef)) of
          None \<Rightarrow> []
        | Some side \<Rightarrow>
          [\<lparr>fill_ts = parseU64 (f ! TsNs), fill_side = side, fill_shares = parseU64 (f ! Shares),
            fill_price = (if f ! Msg = ''C'' then price_or_zero (f ! PriceCol)
              else case refPrice st (parseU64 (f ! OrderRef)) of Some p \<Rightarrow> p | None \<Rightarrow> 0)\<rparr>])
      else [])"

fun fills :: "string list list \<Rightarrow> pass1 \<Rightarrow> fill list" where
  "fills [] st = []"
| "fills (f # fs) st = row_fill f st @ fills fs (pass1_row f st)"

definition fill_key :: "fill \<Rightarrow> u64" where
  "fill_key x = group_key (fill_ts x) (fill_side x)"

definition join_fill :: "aggregate option \<Rightarrow> fill \<Rightarrow> aggregate option" where
  "join_fill g x = Some (join_group (fill_side x) (fill_shares x) (fill_price x) g)"

lemma noteRange_aggregates [simp]: "aggregates (noteRange p st) = aggregates st"
  by (simp add: noteRange_def)

lemma row_fill_simps:
  "f ! Msg \<noteq> ''E'' \<Longrightarrow> f ! Msg \<noteq> ''C'' \<Longrightarrow> row_fill f st = []"
  "refSide st (parseU64 (f ! OrderRef)) = None \<Longrightarrow> row_fill f st = []"
  by (simp_all add: row_fill_def)

lemma pass1_row_aggregates:
  "aggregates (pass1_row f st) k = foldl join_fill (aggregates st k) (filter (\<lambda>x. fill_key x = k) (row_fill f st))"
proof (cases "f ! Msg = ''E'' \<or> f ! Msg = ''C''")
  case True
  show ?thesis
  proof (cases "refSide st (parseU64 (f ! OrderRef))")
    case None
    with True show ?thesis by (elim disjE) (simp_all add: pass1_row_def Let_def row_fill_simps(2))
  next
    case (Some side)
    with True show ?thesis
      by (elim disjE; simp add: pass1_row_def Let_def; simp add: row_fill_def fill_key_def; simp add: join_fill_def)
  qed
next
  case False
  then have "row_fill f st = []" by (simp add: row_fill_simps)
  moreover have "f ! Msg ! 0 \<noteq> CHR ''E''" "f ! Msg ! 0 \<noteq> CHR ''C''" if "length (f ! Msg) = 1"
    using False that one_char [of "f ! Msg"] by auto
  ultimately show ?thesis by (auto simp: pass1_row_def Let_def)
qed

lemma fold_aggregates:
  "aggregates (fold pass1_row fs st) k = foldl join_fill (aggregates st k) (filter (\<lambda>x. fill_key x = k) (fills fs st))"
  by (induction fs arbitrary: st) (simp_all add: pass1_row_aggregates)

lemma group_key_parity: "odd (group_key ts side) \<longleftrightarrow> side = CHR ''S''"
  by (simp add: group_key_def)

lemma fills_ts: "x \<in> set (fills fs st) \<Longrightarrow> \<exists>f \<in> set fs. fill_ts x = parseU64 (f ! TsNs)"
proof (induction fs arbitrary: st)
  case (Cons f fs)
  show ?case
  proof (cases "x \<in> set (row_fill f st)")
    case True
    then have m: "f ! Msg = ''E'' \<or> f ! Msg = ''C''" using row_fill_simps(1) by fastforce
    obtain side where s: "refSide st (parseU64 (f ! OrderRef)) = Some side" using True row_fill_simps(2) by fastforce
    have "fill_ts x = parseU64 (f ! TsNs)" using True m s by (elim disjE) (simp_all add: row_fill_def)
    then show ?thesis by simp
  next
    case False
    with Cons.prems Cons.IH show ?thesis by auto
  qed
qed simp

lemma join_fill_ne: "join_fill g x \<noteq> None"
  by (simp add: join_fill_def)

lemma join_fills:
  assumes "\<forall>x \<in> set xs. fill_side x = CHR ''S'' \<longleftrightarrow> s" and "xs \<noteq> [] \<or> g \<noteq> None"
  shows "\<exists>a. foldl join_fill g xs = Some a \<and>
    agg_quantity a = (case g of None \<Rightarrow> 0 | Some b \<Rightarrow> agg_quantity b) + sum_list (map fill_shares xs) \<and>
    (let ps = (case g of None \<Rightarrow> {} | Some b \<Rightarrow> {priceExtreme b}) \<union> fill_price ` set xs
     in priceExtreme a = (if s then Max ps else Min ps)) \<and>
    restingSide a = (case g of None \<Rightarrow> fill_side (hd xs) | Some b \<Rightarrow> restingSide b)"
  using assms
proof (induction xs arbitrary: g)
  case Nil
  then show ?case by (cases g) auto
next
  case (Cons x xs)
  let ?g = "join_fill g x"
  have all: "\<forall>x \<in> set xs. fill_side x = CHR ''S'' \<longleftrightarrow> s" using Cons.prems(1) by simp
  obtain a where a: "foldl join_fill ?g xs = Some a"
    "agg_quantity a = (case ?g of None \<Rightarrow> 0 | Some b \<Rightarrow> agg_quantity b) + sum_list (map fill_shares xs)"
    "priceExtreme a = (if s then Max ((case ?g of None \<Rightarrow> {} | Some b \<Rightarrow> {priceExtreme b}) \<union> fill_price ` set xs)
       else Min ((case ?g of None \<Rightarrow> {} | Some b \<Rightarrow> {priceExtreme b}) \<union> fill_price ` set xs))"
    "restingSide a = (case ?g of None \<Rightarrow> fill_side (hd xs) | Some b \<Rightarrow> restingSide b)"
    using Cons.IH [OF all disjI2 [OF join_fill_ne [of g x]]] unfolding Let_def by blast
  have s: "fill_side x = CHR ''S'' \<longleftrightarrow> s" using Cons.prems(1) by simp
  have mm: "Max (insert (max u v) A) = Max (insert u (insert v A))" "Min (insert (min u v) A) = Min (insert u (insert v A))"
    if "finite A" for u v :: u64 and A
    using that by (cases "A = {}"; simp add: max.assoc min.assoc del: Max_insert Min_insert; simp add: max.assoc min.assoc)+
  obtain b where b: "?g = Some b" using join_fill_ne by blast
  have bs: "agg_quantity b = (case g of None \<Rightarrow> 0 | Some b \<Rightarrow> agg_quantity b) + fill_shares x"
    "restingSide b = (case g of None \<Rightarrow> fill_side x | Some b \<Rightarrow> restingSide b)"
    "priceExtreme b = (case g of None \<Rightarrow> fill_price x | Some b \<Rightarrow> if s then max (priceExtreme b) (fill_price x) else min (priceExtreme b) (fill_price x))"
    using b s by (auto simp: join_fill_def join_group_def split: option.splits)
  have "priceExtreme a = (if s then Max ps else Min ps)"
    if "ps = (case g of None \<Rightarrow> {} | Some b \<Rightarrow> {priceExtreme b}) \<union> fill_price ` set (x # xs)" for ps
    using a(3) [unfolded b option.case] that bs(3) by (cases g) (auto simp: mm insert_commute)
  then show ?case
    using a(1) a(2,4) [unfolded b option.case] bs(1,2) by (auto simp: Let_def add.assoc split: option.splits)
qed

lemma groups_exact:
  fixes k fs
  defines "xs \<equiv> filter (\<lambda>x. fill_key x = k) (fills fs pass1_start)"
  shows "aggregates (first_pass fs) k = None \<longleftrightarrow> xs = []"
    and "aggregates (first_pass fs) k = Some a \<Longrightarrow> agg_quantity a = sum_list (map fill_shares xs) \<and> restingSide a = fill_side (hd xs) \<and>
      priceExtreme a = (if restingSide a = CHR ''S'' then Max (fill_price ` set xs) else Min (fill_price ` set xs)) \<and>
      (\<forall>x \<in> set xs. fill_side x = CHR ''S'' \<longleftrightarrow> restingSide a = CHR ''S'')"
proof -
  have f: "aggregates (first_pass fs) k = foldl join_fill None xs"
    by (simp add: first_pass_def fold_aggregates xs_def pass1_start_def)
  have s: "\<forall>x \<in> set xs. fill_side x = CHR ''S'' \<longleftrightarrow> odd k"
  proof
    fix x assume "x \<in> set xs"
    then have "x \<in> set (fills fs pass1_start)" "fill_key x = k" by (simp_all add: xs_def)
    then have "k = group_key (fill_ts x) (fill_side x)" by (simp add: fill_key_def)
    then show "fill_side x = CHR ''S'' \<longleftrightarrow> odd k" by (simp only: group_key_parity)
  qed
  note j = join_fills [OF s, of None]
  show n: "aggregates (first_pass fs) k = None \<longleftrightarrow> xs = []" using j f by (cases "xs = []") auto
  show "agg_quantity a = sum_list (map fill_shares xs) \<and> restingSide a = fill_side (hd xs) \<and>
      priceExtreme a = (if restingSide a = CHR ''S'' then Max (fill_price ` set xs) else Min (fill_price ` set xs)) \<and>
      (\<forall>x \<in> set xs. fill_side x = CHR ''S'' \<longleftrightarrow> restingSide a = CHR ''S'')" if "aggregates (first_pass fs) k = Some a"
  proof -
    have "xs \<noteq> []" using n that by auto
    moreover from this have "fill_side (hd xs) = CHR ''S'' \<longleftrightarrow> odd k" using s by simp
    ultimately show ?thesis using j f that s by (auto simp: Let_def)
  qed
qed

text \<open>
  The executions against one side at a timestamp. Twice a timestamp plus the side names the
  group without a clash as long as doubling the timestamp does not wrap.
\<close>

definition executions_at :: "string list list \<Rightarrow> u64 \<Rightarrow> bool \<Rightarrow> fill list" where
  "executions_at fs ts sell = filter (\<lambda>x. fill_ts x = ts \<and> (fill_side x = CHR ''S'') = sell) (fills fs pass1_start)"

definition side_key :: "u64 \<Rightarrow> bool \<Rightarrow> u64" where
  "side_key ts sell = ts * 2 + (if sell then 1 else 0)"

lemma group_key_side: "group_key ts side = side_key ts (side = CHR ''S'')"
  by (simp add: group_key_def side_key_def)

lemma unat_side_key: "unat ts < 2 ^ 63 \<Longrightarrow> unat (side_key ts sell) = 2 * unat ts + (if sell then 1 else 0)"
  by (simp add: side_key_def unat_word_ariths)

lemma side_key_eq:
  assumes "unat a < 2 ^ 63" and "unat b < 2 ^ 63"
  shows "side_key a s = side_key b t \<longleftrightarrow> a = b \<and> s = t"
proof
  assume "side_key a s = side_key b t"
  then have "unat (side_key a s) = unat (side_key b t)" by simp
  then have "2 * unat a + (if s then 1 else 0) = 2 * unat b + (if t then 1 else 0)"
    unfolding unat_side_key [OF assms(1)] unat_side_key [OF assms(2)] .
  then have "unat a = unat b \<and> s = t" by (auto split: if_splits; presburger)
  then show "a = b \<and> s = t" by (simp add: word_unat_eq_iff)
qed simp

lemma side_key_half:
  assumes "unat ts < 2 ^ 63"
  shows "k div 2 = ts \<longleftrightarrow> (\<exists>sell. k = side_key ts sell)"
proof -
  have "k div 2 = ts \<longleftrightarrow> unat k div 2 = unat ts" by (simp add: word_unat_eq_iff unat_div)
  also have "\<dots> \<longleftrightarrow> unat k = 2 * unat ts + 1 \<or> unat k = 2 * unat ts" by presburger
  also have "\<dots> \<longleftrightarrow> (\<exists>sell. unat k = 2 * unat ts + (if sell then 1 else 0))" by (simp add: ex_bool_eq)
  finally show ?thesis by (simp add: word_unat_eq_iff unat_side_key [OF assms])
qed

lemma replay_completes:
  assumes "os_fresh os" and "minPriceRaw (first_pass (data_rows input)) \<noteq> - 1"
    and "replay_engine_for os H scaled tick c (first_pass (data_rows input)) = Inr E"
    and "unat (rowCount (first_pass (data_rows input))) + card (dom (aggregates (first_pass (data_rows input)))) < 2 ^ 53"
  shows "\<exists>st. itch_replay os H clock scaled tick keys c input = Completed st \<and> book_ok os H (book (replay_engine st)) \<and>
    spec_inv (view (replay_engine st)) \<and>
    (\<forall>l \<in> {''AGGR'', ''NEW'', ''CANCEL'', ''REDUCE''}. eventCounts st l = word_of_nat (length (replay_latency st l)))"
proof -
  let ?p = "first_pass (data_rows input)"
  obtain st where "second_pass os H clock (data_rows input) (replay_start keys ?p E) = Ret () st" "replay_ok os H st"
    using second_pass_sound [OF replay_engine_ok [OF assms(3,1,4)]] by blast
  with assms(2,3) show ?thesis by (auto simp: itch_replay_def Let_def replay_ok_def replay_labels_def)
qed

section \<open>Properties\<close>


text \<open>
  C17. What the converter writes is what the replay reads: for every message the converter
  decodes, splitting the written row gives back its columns when the text columns hold no
  comma, and the replay reads the timestamp, the order reference, the shares, the price (to
  the last of its four decimals) and the new reference the message carries.
\<close>
theorem itch_csv_roundtrip:
  assumes "itch_fields epochBase L row t locate m = Some fs"
    and "\<forall>i \<in> {4, 6, 8, 13, 14}. CHR '','' \<notin> set (fs ! i)"
  shows "splitRow 15 (join_fields fs) = fs \<and> fs ! Msg = [t] \<and> Some (parseU64 (fs ! TsNs)) = rd48 m 5 \<and>
    (t \<in> set ''AFECXDUP'' \<longrightarrow> Some (parseU64 (fs ! OrderRef)) = rd64 m 11) \<and>
    (t \<in> set ''AF'' \<longrightarrow> Some (fs ! Side) = map_option (\<lambda>b. [byte_char b]) (byte_at m 19) \<and>
       Some (parseU64 (fs ! Shares)) = map_option ucast (rd32 m 20) \<and>
       Some (price_or_zero (fs ! PriceCol)) = map_option ucast (rd32 m 32)) \<and>
    (t \<in> set ''ECX'' \<longrightarrow> Some (parseU64 (fs ! Shares)) = map_option ucast (rd32 m 19)) \<and>
    (t = CHR ''C'' \<longrightarrow> Some (price_or_zero (fs ! PriceCol)) = map_option ucast (rd32 m 32)) \<and>
    (t = CHR ''U'' \<longrightarrow> Some (parseU64 (fs ! NewOrderRef)) = rd64 m 19 \<and>
       Some (parseU64 (fs ! Shares)) = map_option ucast (rd32 m 27) \<and>
       Some (price_or_zero (fs ! PriceCol)) = map_option ucast (rd32 m 31))"
proof (rule itch_fieldsE [OF assms(1)])
  fix nanos symbol ref sd shares pr newRef match printable attribution
  assume n: "rd48 m 5 = Some nanos" and ref: "order_ref_field t m = Some ref" and sd: "side_field t m = Some sd"
    and sh: "shares_field t m = Some shares" and pr: "price_field t m = Some pr" and nr: "new_order_ref_field t m = Some newRef"
    and fs: "fs = [appendUInt [] row, appendUInt [] nanos, (if epochBase \<noteq> 0 then appendUInt [] (epochBase + nanos) else []),
       appendClock [] nanos, [t], messageName t, symbol, ref, sd, shares, pr, newRef, match, printable, attribution]"
  have cols: "fs ! Msg = [t]" "fs ! TsNs = appendUInt [] nanos" "fs ! OrderRef = ref" "fs ! Side = sd" "fs ! Shares = shares"
    "fs ! PriceCol = pr" "fs ! NewOrderRef = newRef" by (simp_all add: fs)
  have r: "Some (parseU64 ref) = rd64 m 11" if "t \<in> set ''AFECXDUP''"
    using ref that by (intro uint_field_parse) (simp add: order_ref_field_def split: if_splits)
  have af: "Some sd = map_option (\<lambda>b. [byte_char b]) (byte_at m 19)" "Some (parseU64 shares) = map_option ucast (rd32 m 20)"
    "Some (price_or_zero pr) = map_option ucast (rd32 m 32)" if "t \<in> set ''AF''"
    using sd that sh pr by (auto simp: side_field_def char_field_def shares_field_def price_field_def
        intro!: uint_field_parse price_field_parse)
  have ecx: "Some (parseU64 shares) = map_option ucast (rd32 m 19)" if "t \<in> set ''ECX''"
    using sh that by (auto simp: shares_field_def intro!: uint_field_parse)
  have c: "Some (price_or_zero pr) = map_option ucast (rd32 m 32)" if "t = CHR ''C''"
    using pr that by (auto simp: price_field_def intro!: price_field_parse)
  have u: "Some (parseU64 newRef) = rd64 m 19" "Some (parseU64 shares) = map_option ucast (rd32 m 27)"
    "Some (price_or_zero pr) = map_option ucast (rd32 m 31)" if "t = CHR ''U''"
    using nr sh pr that by (auto simp: new_order_ref_field_def shares_field_def price_field_def
        intro!: uint_field_parse price_field_parse)
  show ?thesis unfolding cols parse_uint n
    using split_row_fields [OF assms] r af ecx c u by blast
qed

text \<open>
  C26. The ladder fits the file: with the default tick of one raw unit, and away from the top
  of the 64-bit range, a book is built and every nonzero price of an add or replace row has
  a level on both sides, for any headroom.
\<close>
theorem replay_ladder_covers:
  assumes "\<exists>f \<in> set fs. quotes f \<and> price_or_zero (f ! PriceCol) \<noteq> 0"
    and "unat (maxPriceRaw (first_pass fs)) + unat (scaled (maxPriceRaw (first_pass fs) - minPriceRaw (first_pass fs))) + 1 < SIZE_RANGE"
  shows "\<exists>cfg B. size_ladder scaled 1 (first_pass fs) = Some cfg \<and>
    OrderBook_new (ladderMin cfg) (ladderTick cfg) (ladderLevels cfg) = Inr B \<and>
    (\<forall>f \<in> set fs. quotes f \<and> price_or_zero (f ! PriceCol) \<noteq> 0 \<longrightarrow>
       (\<forall>d. \<exists>k. indexOf (price_or_zero (f ! PriceCol)) (ladder_of d B) = Inr k))"
proof -
  obtain cfg B where "size_ladder scaled 1 (first_pass fs) = Some cfg"
    "OrderBook_new (ladderMin cfg) (ladderTick cfg) (ladderLevels cfg) = Inr B"
    "\<And>f d. f \<in> set fs \<Longrightarrow> quotes f \<Longrightarrow> price_or_zero (f ! PriceCol) \<noteq> 0 \<Longrightarrow> \<exists>k. indexOf (price_or_zero (f ! PriceCol)) (ladder_of d B) = Inr k"
    by (rule ladder_covers_file [where scaled = scaled, OF assms]) blast
  then show ?thesis by blast
qed

text \<open>
  C25. A reconstructed aggressor is the sum of its executions: whatever order the hash map is
  walked in, what the second pass finds for a timestamp is exactly one aggressor for each side
  with executions of known orders at that timestamp. It is a buy when sell orders rested and a
  sell otherwise, its quantity is the sum of the shares, its price the worst one paid: the
  highest against sell orders, the lowest against buy orders. Timestamps are nanoseconds below
  \<open>2 ^ 63\<close>; beyond, the doubled timestamp of the key wraps and groups merge.
\<close>
theorem replay_groups_exact:
  assumes "distinct keys" and "dom (aggregates (first_pass fs)) \<subseteq> set keys"
    and "\<forall>f \<in> set fs. unat (parseU64 (f ! TsNs)) < 2 ^ 63" and "unat ts < 2 ^ 63"
  shows "mset (aggressorsByTs keys (first_pass fs) ts) =
    mset (map (\<lambda>sell. \<lparr>aggr_side = (if sell then BUY else SELL),
           aggr_quantity = sum_list (map fill_shares (executions_at fs ts sell)),
           aggr_price = (if sell then Max else Min) (fill_price ` set (executions_at fs ts sell))\<rparr>)
      (filter (\<lambda>sell. executions_at fs ts sell \<noteq> []) [True, False]))"
proof -
  let ?agg = "aggregates (first_pass fs)"
  define S where "S = {sell. executions_at fs ts sell \<noteq> []}"
  have key: "filter (\<lambda>x. fill_key x = side_key ts sell) (fills fs pass1_start) = executions_at fs ts sell" for sell
    unfolding executions_at_def
  proof (rule filter_cong [OF refl])
    fix x assume "x \<in> set (fills fs pass1_start)"
    then have "unat (fill_ts x) < 2 ^ 63" using fills_ts [of x fs pass1_start] assms(3) by auto
    then show "(fill_key x = side_key ts sell) = (fill_ts x = ts \<and> (fill_side x = CHR ''S'') = sell)"
      unfolding fill_key_def group_key_side using side_key_eq assms(4) by auto
  qed
  have "finite S" and inj: "inj_on (side_key ts) S" by (auto simp: inj_on_def side_key_eq [OF assms(4) assms(4)])
  have keys: "{k \<in> set keys. ?agg k \<noteq> None \<and> k div 2 = ts} = side_key ts ` S"
  proof -
    have "?agg (side_key ts sell) \<noteq> None \<longleftrightarrow> sell \<in> S" for sell using groups_exact(1) [of fs "side_key ts sell"] by (simp add: S_def key)
    then have "{k. ?agg k \<noteq> None \<and> k div 2 = ts} = side_key ts ` S" by (auto simp: side_key_half [OF assms(4)])
    moreover have "{k \<in> set keys. ?agg k \<noteq> None \<and> k div 2 = ts} = {k. ?agg k \<noteq> None \<and> k div 2 = ts}" using assms(2) by blast
    ultimately show ?thesis by simp
  qed
  have val: "aggressor_of (the (?agg (side_key ts sell))) = \<lparr>aggr_side = (if sell then BUY else SELL),
      aggr_quantity = sum_list (map fill_shares (executions_at fs ts sell)),
      aggr_price = (if sell then Max else Min) (fill_price ` set (executions_at fs ts sell))\<rparr>" if "sell \<in> S" for sell
  proof -
    let ?xs = "executions_at fs ts sell"
    have ne: "?xs \<noteq> []" using that by (simp add: S_def)
    then obtain a where a: "?agg (side_key ts sell) = Some a" using groups_exact(1) [of fs "side_key ts sell"] by (auto simp: key)
    have "fill_side (hd ?xs) = CHR ''S'' \<longleftrightarrow> sell" using hd_in_set [OF ne] by (auto simp: executions_at_def)
    with groups_exact(2) [OF a] a show ?thesis by (auto simp: key aggressor_of_def)
  qed
  have "mset (aggressorsByTs keys (first_pass fs) ts) =
      image_mset (\<lambda>k. aggressor_of (the (?agg k))) (mset_set (side_key ts ` S))"
    using assms(1) by (simp add: aggressorsByTs_def mset_set_set [symmetric] keys [symmetric] del: mset_filter)
  also have "\<dots> = image_mset (\<lambda>sell. aggressor_of (the (?agg (side_key ts sell)))) (mset_set S)"
    by (simp add: image_mset_mset_set [OF inj, symmetric] multiset.map_comp comp_def)
  also have "\<dots> = image_mset (\<lambda>sell. \<lparr>aggr_side = (if sell then BUY else SELL),
      aggr_quantity = sum_list (map fill_shares (executions_at fs ts sell)),
      aggr_price = (if sell then Max else Min) (fill_price ` set (executions_at fs ts sell))\<rparr>) (mset_set S)"
    by (rule image_mset_cong) (use val \<open>finite S\<close> in auto)
  also have "mset_set S = mset (filter (\<lambda>sell. executions_at fs ts sell \<noteq> []) [True, False])"
  proof -
    have "S = set (filter (\<lambda>sell. executions_at fs ts sell \<noteq> []) [True, False])" unfolding S_def by (rule set_eqI, rename_tac b, case_tac b) simp_all
    then show ?thesis by (simp only: mset_set_set distinct_filter distinct.simps) simp
  qed
  finally show ?thesis by (simp only: mset_map)
qed

text \<open>
  Two executions at the same timestamp against the one sell order of a file.
\<close>

definition fill_rows :: "string list list" where
  "fill_rows =
     [[''1'', ''1'', [], [], ''A'', ''ADD_ORDER'', ''X'', ''7'', ''S'', ''100'', ''15.0000'', [], [], [], []],
      [''2'', ''9'', [], [], ''E'', ''ORDER_EXECUTED'', ''X'', ''7'', [], ''30'', [], [], [], [], []],
      [''3'', ''9'', [], [], ''E'', ''ORDER_EXECUTED'', ''X'', ''7'', [], ''20'', [], [], [], [], []]]"

theorem replay_groups_exact_witness:
  "aggressorsByTs [19] (first_pass fill_rows) 9 = [\<lparr>aggr_side = BUY, aggr_quantity = 50, aggr_price = 150000\<rparr>]"
proof -
  have p: "parseU64 ''7'' = 7" "parseU64 ''9'' = 9" "parseU64 ''1'' = 1" "parseU64 ''30'' = 30" "parseU64 ''20'' = 20" "parseU64 ''100'' = 100"
    by (simp_all add: parseU64_def char_value_def)
  have pr: "price_or_zero ''15.0000'' = 150000"
    by (simp add: price_or_zero_def parsePriceRaw_def find_char_def parseU64_def char_value_def)
  have f: "fills fill_rows pass1_start = [\<lparr>fill_ts = 9, fill_side = CHR ''S'', fill_shares = 30, fill_price = 150000\<rparr>,
      \<lparr>fill_ts = 9, fill_side = CHR ''S'', fill_shares = 20, fill_price = 150000\<rparr>]"
    by (simp add: fill_rows_def pass1_row_def row_fill_def pass1_start_def noteRange_def p pr Let_def)
  have x: "executions_at fill_rows 9 True = fills fill_rows pass1_start" "executions_at fill_rows 9 False = []"
    by (simp_all add: executions_at_def f)
  have "aggregates (first_pass fill_rows) k = None" if "k \<noteq> 19" for k
    using that groups_exact(1) [of fill_rows k] by (simp add: f fill_key_def group_key_def)
  then have "dom (aggregates (first_pass fill_rows)) \<subseteq> set [19]" by (metis domIff list.set_intros(1) subsetI)
  moreover have "\<forall>f \<in> set fill_rows. unat (parseU64 (f ! TsNs)) < 2 ^ 63" by (simp add: fill_rows_def p)
  moreover have "distinct [19 :: u64]" "unat (9 :: u64) < 2 ^ 63" by simp_all
  ultimately
  have "mset (aggressorsByTs [19] (first_pass fill_rows) 9) = mset [\<lparr>aggr_side = BUY, aggr_quantity = 50, aggr_price = 150000\<rparr>]"
    using replay_groups_exact [of "[19]" fill_rows 9] by (simp add: x f)
  then show ?thesis by simp
qed

text \<open>
  Two quotes, 15.0000 and 15.1100, on a tick of one cent.
\<close>

definition tick_rows :: "string list list" where
  "tick_rows =
     [[''1'', ''1'', [], [], ''A'', ''ADD_ORDER'', ''X'', ''7'', ''B'', ''100'', ''15.0000'', [], [], [], []],
      [''2'', ''2'', [], [], ''A'', ''ADD_ORDER'', ''X'', ''8'', ''S'', ''100'', ''15.1100'', [], [], [], []]]"


lemma tick_prices: "price_or_zero ''15.0000'' = 150000" "price_or_zero ''15.1100'' = 151100"
  by (simp_all add: price_or_zero_def parsePriceRaw_def find_char_def parseU64_def char_value_def)

lemma all_ladders: "(\<forall>d. P (ladder_of d B)) \<longleftrightarrow> P (bids B) \<and> P (asks B)"
proof
  show "P (bids B) \<and> P (asks B)" if "\<forall>d. P (ladder_of d B)" using that [rule_format, of Bids] that [rule_format, of Asks] by simp
next
  show "\<forall>d. P (ladder_of d B)" if "P (bids B) \<and> P (asks B)"
  proof
    fix d show "P (ladder_of d B)" using that by (cases d) simp_all
  qed
qed

lemma tick_rows_pass:
  "minPriceRaw (first_pass tick_rows) = 150000" "maxPriceRaw (first_pass tick_rows) = 151100"
  "aggregates (first_pass tick_rows) = Map.empty" "rowCount (first_pass tick_rows) = 2"
  by (simp_all add: first_pass_def tick_rows_def pass1_row_def pass1_start_def noteRange_def tick_prices Let_def)

text \<open>
  C38. A coarser tick can miss every quote: the headroom is not rounded to the tick, so for
  two quotes on a one-cent grid, the default headroom of 20 per cent and a tick of one cent
  the ladder starts between two grid prices and neither quote has a level on either side.
\<close>
theorem replay_tick_misses_grid:
  "\<exists>cfg B. size_ladder (\<lambda>span. span * 20 div 100) 100 (first_pass tick_rows) = Some cfg \<and>
    OrderBook_new (ladderMin cfg) (ladderTick cfg) (ladderLevels cfg) = Inr B \<and>
    list_all (\<lambda>f. \<forall>d. indexOf (price_or_zero (f ! PriceCol)) (ladder_of d B) =
      Inl (InvalidArgument ''Price does not fall on a configured tick boundary'')) tick_rows"
proof -
  let ?cfg = "\<lparr>ladderMin = 149680, ladderTick = 100, ladderLevels = 18\<rparr>"
  have s: "size_ladder (\<lambda>span. span * 20 div 100) 100 (first_pass tick_rows) = Some ?cfg"
    by (simp add: size_ladder_def tick_rows_pass Let_def SIZE_RANGE_def)
  have new: "\<exists>L. PriceLadder_new 149680 100 18 desc = Inr L \<and>
      indexOf 150000 L = Inl (InvalidArgument ''Price does not fall on a configured tick boundary'') \<and>
      indexOf 151100 L = Inl (InvalidArgument ''Price does not fall on a configured tick boundary'')" for desc
    by (simp add: PriceLadder_new_def indexOf_def Let_def)
  obtain b a where "PriceLadder_new 149680 100 18 True = Inr b" "PriceLadder_new 149680 100 18 False = Inr a" 
    "\<forall>x \<in> {150000, 151100}. \<forall>L \<in> {b, a}. indexOf x L = Inl (InvalidArgument ''Price does not fall on a configured tick boundary'')"
    using new [of True] new [of False] by auto
  then have "\<exists>B. OrderBook_new 149680 100 18 = Inr B \<and> list_all (\<lambda>f. \<forall>d. indexOf (price_or_zero (f ! PriceCol)) (ladder_of d B) =
      Inl (InvalidArgument ''Price does not fall on a configured tick boundary'')) tick_rows"
    by (simp add: OrderBook_new_def tick_rows_def tick_prices all_ladders [where P = "\<lambda>L. indexOf x L = e" for x e])
  with s show ?thesis by auto
qed

section \<open>Witnesses\<close>

definition tick_csv :: string where
  "tick_csv = ''seq'' @ [CHR 0x0A] @ join_fields (tick_rows ! 0) @ [CHR 0x0A, CHR 0x0A] @ join_fields (tick_rows ! 1)"

lemma tick_csv_rows: "data_rows tick_csv = tick_rows"
proof -
  let ?a = "join_fields (tick_rows ! 0)" and ?b = "join_fields (tick_rows ! 1)"
  have n: "CHR 0x0A \<notin> set ?a" "CHR 0x0A \<notin> set ?b" "?a \<noteq> []" "?b \<noteq> []" by (simp_all add: tick_rows_def join_fields_def)
  have rows: "splitRow 15 ?a = tick_rows ! 0" "splitRow 15 ?b = tick_rows ! 1"
    by (rule splitRow_join; simp add: tick_rows_def)+
  have "pieces (CHR 0x0A) tick_csv = [''seq'', ?a, [], ?b]"
    unfolding tick_csv_def using n(1,2) pieces_append [of "CHR 0x0A" "''seq''"] by (simp add: pieces_append pieces_none)
  then have "forEachLine tick_csv = [''seq'', ?a, ?b]" using n(3,4) by (simp add: forEachLine_pieces)
  then have "data_rows tick_csv = [tick_rows ! 0, tick_rows ! 1]" by (simp add: data_rows_def rows rows [unfolded One_nat_def])
  then show ?thesis by (simp add: tick_rows_def)
qed

lemma tick_rows_quote: "\<exists>f \<in> set tick_rows. quotes f \<and> price_or_zero (f ! PriceCol) \<noteq> 0"
  "\<forall>f \<in> set tick_rows. quotes f \<and> price_or_zero (f ! PriceCol) \<noteq> 0"
  by (simp_all add: tick_rows_def quotes_def tick_prices)

abbreviation fifth :: "u64 \<Rightarrow> u64" where
  "fifth \<equiv> \<lambda>span. span * 20 div 100"

theorem replay_ladder_covers_witness:
  "\<exists>cfg B. size_ladder fifth 1 (first_pass tick_rows) = Some cfg \<and>
    OrderBook_new (ladderMin cfg) (ladderTick cfg) (ladderLevels cfg) = Inr B \<and>
    (\<forall>d. \<exists>k. indexOf 150000 (ladder_of d B) = Inr k) \<and> (\<forall>d. \<exists>k. indexOf 151100 (ladder_of d B) = Inr k)"
proof -
  have "unat (maxPriceRaw (first_pass tick_rows)) + unat (fifth (maxPriceRaw (first_pass tick_rows) - minPriceRaw (first_pass tick_rows))) + 1 < SIZE_RANGE"
    by (simp add: tick_rows_pass SIZE_RANGE_def)
  from replay_ladder_covers [where scaled = fifth, OF tick_rows_quote(1) this] tick_rows_quote(2)
  obtain cfg B where c: "size_ladder fifth 1 (first_pass tick_rows) = Some cfg"
    "OrderBook_new (ladderMin cfg) (ladderTick cfg) (ladderLevels cfg) = Inr B"
    and all: "\<forall>f \<in> set tick_rows. \<forall>d. \<exists>k. indexOf (price_or_zero (f ! PriceCol)) (ladder_of d B) = Inr k" by blast
  have "(\<forall>d. \<exists>k. indexOf 150000 (ladder_of d B) = Inr k) \<and> (\<forall>d. \<exists>k. indexOf 151100 (ladder_of d B) = Inr k)"
    using all by (simp add: tick_rows_def tick_prices)
  with c show ?thesis by blast
qed

lemma reserve_two:
  assumes "orderPool B = OrderPool_new" and "orderIndex B = OrderIndex_new"
  shows "\<exists>B1. reserveOrderCapacity one_page_os (\<lambda>k. k) 2 B = Ret () B1"
proof -
  have "is_ret (OrderPool_reserve one_page_os 2 OrderPool_new)"
    by (simp add: OrderPool_reserve_def createPage_def Page_new_def one_page_os_def OrderPool_new_def is_ret_def
        addToFreePageList_def write_page_def write_pool_def Let_def align_up_def SIZE_RANGE_def)
  then obtain P1 where "OrderPool_reserve one_page_os 2 OrderPool_new = Ret () P1" by (auto simp: is_ret_def split: outcome.splits)
  moreover have "(2 :: nat) < 2 ^ 53" by simp
  then obtain ix where "OrderIndex_reserve (\<lambda>k. k) 2 OrderIndex_new = Ret () ix" using OrderIndex_reserve_ok [OF index_ok_new(1)] by metis
  ultimately show ?thesis using assms by (simp add: reserveOrderCapacity_def on_pool_def on_index_def)
qed

lemma tick_engine: "\<exists>E. replay_engine_for one_page_os (\<lambda>k. k) fifth 1 0 (first_pass tick_rows) = Inr E"
proof -
  have "size_ladder fifth 1 (first_pass tick_rows) = Some \<lparr>ladderMin = 149779, ladderTick = 1, ladderLevels = 1543\<rparr>"
    by (simp add: size_ladder_def tick_rows_pass Let_def SIZE_RANGE_def)
  moreover obtain B where B: "OrderBook_new 149779 1 1543 = Inr B" "orderPool B = OrderPool_new" "orderIndex B = OrderIndex_new"
    by (auto simp: OrderBook_new_def PriceLadder_new_def Let_def)
  ultimately show ?thesis using reserve_two [OF B(2,3)] by (auto simp: replay_engine_for_def tick_rows_pass SIZE_RANGE_def)
qed


text \<open>A delete of order 7, three nanoseconds after midnight.\<close>

definition delete_message :: "u8 list" where
  "delete_message = [68, 0, 1, 0, 0, 0, 0, 0, 0, 0, 3, 0, 0, 0, 0, 0, 0, 0, 7]"

theorem itch_csv_roundtrip_witness:
  "\<exists>fs. itch_fields 0 Map.empty 1 (CHR ''D'') 1 delete_message = Some fs \<and> splitRow 15 (join_fields fs) = fs \<and> parseU64 (fs ! OrderRef) = 7"
proof -
  have r: "rd48 delete_message 5 = Some 3" "rd64 delete_message 11 = Some 7"
    by (simp_all add: rd48_value rd64_value delete_message_def be_value_def)
  let ?fs = "[appendUInt [] 1, appendUInt [] 3, [], appendClock [] 3, ''D'', ''DELETE'', [], appendUInt [] 7, [], [], [], [], [], [], []]"
  have f: "itch_fields 0 Map.empty 1 (CHR ''D'') 1 delete_message = Some ?fs"
    by (simp add: itch_fields_def r symbol_field_def order_ref_field_def side_field_def shares_field_def price_field_def
        new_order_ref_field_def match_number_field_def printable_field_def attribution_field_def uint_field_def messageName_def)
  show ?thesis using itch_csv_roundtrip [OF f] f r by simp
qed

end
