(* ===== verification/Itch_Pipeline.thy ===== *)
theory Itch_Pipeline
  imports Itch_Replay
begin

text \<open>
  The converter and the replay together: what \<open>itch_to_csv\<close> writes for a whole session and the
  rows \<open>itch_replay\<close> splits that text into. The reference lists the rows of the kept messages.
\<close>

section \<open>Reference\<close>

text \<open>The row a message adds, if any, and the rows of a whole file up to the row limit.\<close>

definition message_row :: "itch_options \<Rightarrow> u64 \<Rightarrow> u8 list \<Rightarrow> itch_state \<Rightarrow> string list option" where
  "message_row opts epochBase m st = do {
     b \<leftarrow> byte_at m 0;
     locate \<leftarrow> rd16 m 1;
     let t = byte_char b;
     if t = CHR ''R'' \<or> (t = CHR ''S'' \<or> t = CHR ''H'') \<and> \<not> system opts \<or>
        symbols opts \<noteq> [] \<and> t \<noteq> CHR ''S'' \<and> (unat locate \<ge> length (keepLocate st) \<or> \<not> keepLocate st ! unat locate) \<or>
        messageName t = ''OTHER''
     then None
     else itch_fields epochBase (locateToSymbol st) (rows st + 1) t locate m
   }"

fun itch_rows :: "itch_options \<Rightarrow> u64 \<Rightarrow> u8 list list \<Rightarrow> itch_state \<Rightarrow> string list list" where
  "itch_rows opts epochBase [] st = []"
| "itch_rows opts epochBase (m # ms) st =
     (let st1 = st\<lparr>messages := messages st + 1\<rparr> in
      (case message_row opts epochBase m st1 of None \<Rightarrow> [] | Some f \<Rightarrow> [f]) @
      (case itch_message opts epochBase m st1 of
         None \<Rightarrow> []
       | Some (full, st2) \<Rightarrow> if full then [] else itch_rows opts epochBase ms st2))"

text \<open>The text columns of a row are free of separators.\<close>

definition clean_row :: "string list \<Rightarrow> bool" where
  "clean_row f \<longleftrightarrow> (\<forall>i \<in> {4, 6, 8, 13, 14}. CHR '','' \<notin> set (f ! i) \<and> CHR 0x0A \<notin> set (f ! i))"

section \<open>Lemmas\<close>

definition line_text :: "string list \<Rightarrow> string" where
  "line_text f = join_fields f @ [CHR 0x0A]"

lemma flush_output: "written (flush_buffer st) @ buffer (flush_buffer st) = written st @ buffer st"
  by (simp add: flush_buffer_def)

lemma message_output:
  assumes "itch_message opts epochBase m st = Some (full, st2)"
  shows "written st2 @ buffer st2 = written st @ buffer st @ concat (map line_text (case message_row opts epochBase m st of None \<Rightarrow> [] | Some f \<Rightarrow> [f]))"
proof -
  obtain b locate where b: "byte_at m 0 = Some b" "rd16 m 1 = Some locate"
    using assms by (auto simp: itch_message_def bind_eq_Some_conv)
  let ?t = "byte_char b"
  have dir: "written (note_directory opts locate s st) = written st" "buffer (note_directory opts locate s st) = buffer st" for s
    by (simp_all add: note_directory_def Let_def)
  show ?thesis
  proof (cases "message_row opts epochBase m st")
    case None
    then show ?thesis using assms b
      by (auto simp: itch_message_def message_row_def Let_def dir bind_eq_Some_conv split: if_splits)
  next
    case (Some f)
    then have "itch_fields epochBase (locateToSymbol st) (rows st + 1) ?t locate m = Some f"
      "st2 = flush_buffer (st\<lparr>rows := rows st + 1, buffer := append_row (buffer st) f\<rparr>)"
      using assms b by (auto simp: itch_message_def message_row_def Let_def bind_eq_Some_conv split: if_splits)
    then show ?thesis using Some by (simp add: flush_output append_row_def line_text_def)
  qed
qed

lemma messages_output:
  "itch_messages opts epochBase ms st = Some (st', tr) \<Longrightarrow>
     written st' @ buffer st' = written st @ buffer st @ concat (map line_text (itch_rows opts epochBase ms st))"
proof (induction ms arbitrary: st)
  case (Cons m ms)
  let ?st1 = "st\<lparr>messages := messages st + 1\<rparr>"
  obtain full st2 where m: "itch_message opts epochBase m ?st1 = Some (full, st2)" using Cons.prems by (auto simp: bind_eq_Some_conv)
  note o = message_output [OF m]
  show ?case
  proof (cases full)
    case True
    then show ?thesis using Cons.prems m o by (simp add: Let_def)
  next
    case False
    then have "written st' @ buffer st' = written st2 @ buffer st2 @ concat (map line_text (itch_rows opts epochBase ms st2))"
      using Cons m by simp
    with o have "written st' @ buffer st' = written st @ buffer st @
        concat (map line_text (case message_row opts epochBase m ?st1 of None \<Rightarrow> [] | Some f \<Rightarrow> [f])) @
        concat (map line_text (itch_rows opts epochBase ms st2))" by simp
    with False m show ?thesis by (simp add: Let_def)
  qed
qed simp

lemma itch_rows_origin:
  "f \<in> set (itch_rows opts epochBase ms st) \<Longrightarrow> \<exists>m \<in> set ms. \<exists>L row t locate. itch_fields epochBase L row t locate m = Some f"
proof (induction ms arbitrary: st)
  case (Cons m ms)
  let ?st1 = "st\<lparr>messages := messages st + 1\<rparr>"
  from Cons.prems consider "message_row opts epochBase m ?st1 = Some f" | st2 where "f \<in> set (itch_rows opts epochBase ms st2)"
    by (auto simp: Let_def split: option.splits if_splits)
  then show ?case
  proof cases
    case 1
    then show ?thesis by (auto simp: message_row_def bind_eq_Some_conv Let_def split: if_splits)
  next
    case 2
    with Cons.IH show ?thesis by fastforce
  qed
qed simp

lemma digits_no_newline: "CHR 0x0A \<notin> set (appendUInt [] v)" "CHR 0x0A \<notin> set (appendPrice [] raw)"
  "CHR 0x0A \<notin> set (appendClock [] v)" "CHR 0x0A \<notin> set (messageName t)"
proof -
  have p: "CHR 0x0A \<notin> set (padded w v)" for w v using padded_chars digit_char_neq(3) by metis
  show "CHR 0x0A \<notin> set (appendUInt [] v)" by (simp add: appendUInt_def to_chars_no_sep)
  show "CHR 0x0A \<notin> set (appendPrice [] raw)" by (simp add: price_chars to_chars_no_sep p)
  show "CHR 0x0A \<notin> set (appendClock [] v)" by (simp add: appendClock_def appendPadded_def p Let_def)
  show "CHR 0x0A \<notin> set (messageName t)" by (simp add: messageName_def)
qed

lemma numeric_fields_no_newline:
  "order_ref_field t m = Some s \<Longrightarrow> CHR 0x0A \<notin> set s" "shares_field t m = Some s \<Longrightarrow> CHR 0x0A \<notin> set s"
  "price_field t m = Some s \<Longrightarrow> CHR 0x0A \<notin> set s" "new_order_ref_field t m = Some s \<Longrightarrow> CHR 0x0A \<notin> set s"
  "match_number_field t m = Some s \<Longrightarrow> CHR 0x0A \<notin> set s"
  by (auto simp: order_ref_field_def shares_field_def price_field_def new_order_ref_field_def match_number_field_def uint_field_def
      digits_no_newline split: if_splits)

lemma join_no_newline: "\<forall>f \<in> set fs. CHR 0x0A \<notin> set f \<Longrightarrow> fs \<noteq> [] \<Longrightarrow> CHR 0x0A \<notin> set (join_fields fs)"
  by (auto simp: join_fields_def dest: in_set_butlastD)

lemma row_line:
  assumes "itch_fields epochBase L row t locate m = Some fs" and "clean_row fs"
  shows "splitRow 15 (join_fields fs) = fs" "CHR 0x0A \<notin> set (join_fields fs)" "join_fields fs \<noteq> []"
proof -
  show "splitRow 15 (join_fields fs) = fs" using split_row_fields [OF assms(1)] assms(2) by (simp add: clean_row_def)
  show "CHR 0x0A \<notin> set (join_fields fs)"
  proof (rule itch_fieldsE [OF assms(1)])
    fix nanos symbol ref sd shares pr newRef match printable attribution
    assume o: "order_ref_field t m = Some ref" "shares_field t m = Some shares" "price_field t m = Some pr"
      "new_order_ref_field t m = Some newRef" "match_number_field t m = Some match"
      and fs: "fs = [appendUInt [] row, appendUInt [] nanos, (if epochBase \<noteq> 0 then appendUInt [] (epochBase + nanos) else []),
         appendClock [] nanos, [t], messageName t, symbol, ref, sd, shares, pr, newRef, match, printable, attribution]"
    have "CHR 0x0A \<noteq> t" "CHR 0x0A \<notin> set symbol" "CHR 0x0A \<notin> set sd" "CHR 0x0A \<notin> set printable" "CHR 0x0A \<notin> set attribution"
      using assms(2) by (simp_all add: fs clean_row_def)
    then have "\<forall>f \<in> set fs. CHR 0x0A \<notin> set f"
      using numeric_fields_no_newline(1) [OF o(1)] numeric_fields_no_newline(2) [OF o(2)] numeric_fields_no_newline(3) [OF o(3)]
        numeric_fields_no_newline(4) [OF o(4)] numeric_fields_no_newline(5) [OF o(5)]
      by (simp add: fs digits_no_newline)
    then show ?thesis by (rule join_no_newline) (simp add: fs)
  qed
  show "join_fields fs \<noteq> []" by (rule itch_fieldsE [OF assms(1)]) (simp add: join_fields_def)
qed

lemma pieces_lines: "\<forall>l \<in> set ls. c \<notin> set l \<Longrightarrow> pieces c (concat (map (\<lambda>l. l @ [c]) ls)) = ls @ [[]]"
  by (induction ls) (auto simp: pieces_append)

lemma forEachLine_lines:
  assumes "\<forall>l \<in> set ls. CHR 0x0A \<notin> set l \<and> l \<noteq> []"
  shows "forEachLine (concat (map (\<lambda>l. l @ [CHR 0x0A]) ls)) = ls"
proof -
  have "filter (\<lambda>l. l \<noteq> []) ls = ls" using assms by (intro filter_True) blast
  then show ?thesis using pieces_lines [of ls "CHR 0x0A"] assms by (simp add: forEachLine_pieces)
qed

section \<open>Properties\<close>

text \<open>
  C24. A converted session is what the replay reads, file by file: for any messages of at least
  their specified size the converter succeeds and reports no truncation, and when the text
  columns hold no separators the rows the replay splits its output into are exactly the rows
  of the kept messages, in order and complete, the header line dropped; and once a book can be
  built for these rows, the replay of that output runs to its end on a sound book.
\<close>
theorem itch_file_feeds_replay:
  assumes "\<forall>m \<in> set ms. well_sized m \<and> length m < 65536"
    and "\<forall>f \<in> set (itch_rows opts epochBase ms itch_start). clean_row f"
  shows "\<exists>csv. itch_to_csv opts epochBase (concat (map frame ms)) = Some (csv, False) \<and>
    data_rows csv = itch_rows opts epochBase ms itch_start \<and>
    (\<forall>f \<in> set (data_rows csv). \<exists>m \<in> set ms. \<exists>L row t locate. itch_fields epochBase L row t locate m = Some f) \<and>
    (\<forall>os H clock scaled tick keys c E. let p = first_pass (itch_rows opts epochBase ms itch_start) in
       os_fresh os \<and> minPriceRaw p \<noteq> - 1 \<and> replay_engine_for os H scaled tick c p = Inr E \<and>
       unat (rowCount p) + card (dom (aggregates p)) < 2 ^ 53 \<longrightarrow>
       (\<exists>st. itch_replay os H clock scaled tick keys c csv = Completed st \<and> book_ok os H (book (replay_engine st)) \<and>
          spec_inv (view (replay_engine st))))"
proof -
  let ?rows = "itch_rows opts epochBase ms itch_start" and ?head = "butlast itch_header"
  have "\<forall>m \<in> set ms. framable m" using assms(1) by (auto simp: framable_def well_sized_def)
  then have loop: "itch_loop opts epochBase (concat (map frame ms)) 0 itch_start = itch_messages opts epochBase ms itch_start"
    using itch_loop_frames [of ms opts epochBase "[]" itch_start] by simp
  obtain st where st: "itch_messages opts epochBase ms itch_start = Some (st, False)"
    using itch_messages_ok [of ms opts epochBase itch_start] assms(1) by auto
  let ?csv = "written st @ buffer st"
  have rows: "splitRow 15 (join_fields f) = f" "CHR 0x0A \<notin> set (join_fields f) \<and> join_fields f \<noteq> []" if mem: "f \<in> set ?rows" for f
  proof -
    obtain L row t locate m where "itch_fields epochBase L row t locate m = Some f" using itch_rows_origin [OF mem] by blast
    from row_line [OF this] assms(2) mem
    show "splitRow 15 (join_fields f) = f" "CHR 0x0A \<notin> set (join_fields f) \<and> join_fields f \<noteq> []" by blast+
  qed
  have head: "itch_header = ?head @ [CHR 0x0A]" "CHR 0x0A \<notin> set ?head" "?head \<noteq> []" by (simp_all add: itch_header_def)
  have "?csv = itch_header @ concat (map line_text ?rows)" using messages_output [OF st] by (simp add: itch_start_def)
  then have "?csv = concat (map (\<lambda>l. l @ [CHR 0x0A]) (?head # map join_fields ?rows))"
    using head(1) by (simp add: line_text_def [abs_def] comp_def)
  then have "forEachLine ?csv = ?head # map join_fields ?rows"
    using forEachLine_lines [of "?head # map join_fields ?rows"] rows(2) head(2,3) by simp
  then have d: "data_rows ?csv = ?rows" using rows(1) by (simp add: data_rows_def map_idI)
  have conv: "itch_to_csv opts epochBase (concat (map frame ms)) = Some (?csv, False)" using loop st by (simp add: itch_to_csv_def)
  show ?thesis
  proof (intro exI [of _ ?csv] conjI conv d ballI allI)
    show "\<exists>m \<in> set ms. \<exists>L row t locate. itch_fields epochBase L row t locate m = Some f" if "f \<in> set (data_rows ?csv)" for f
      using that itch_rows_origin unfolding d by blast
    fix os H clock scaled tick keys c E
    show "let p = first_pass ?rows in os_fresh os \<and> minPriceRaw p \<noteq> - 1 \<and> replay_engine_for os H scaled tick c p = Inr E \<and>
        unat (rowCount p) + card (dom (aggregates p)) < 2 ^ 53 \<longrightarrow>
        (\<exists>st. itch_replay os H clock scaled tick keys c ?csv = Completed st \<and> book_ok os H (book (replay_engine st)) \<and>
           spec_inv (view (replay_engine st)))"
      using replay_completes [of os ?csv H scaled tick c E clock keys] unfolding d Let_def by blast
  qed
qed

section \<open>Witnesses\<close>

theorem itch_file_feeds_replay_witness:
  "\<exists>csv. itch_to_csv \<lparr>symbols = [], limit = 0, system = True\<rparr> 0 (concat (map frame [demo_message, demo_message])) = Some (csv, False) \<and>
    length (data_rows csv) = 2"
proof -
  let ?o = "\<lparr>symbols = [], limit = 0, system = True\<rparr>" and ?L = "Map.empty :: u16 \<rightharpoonup> string"
  have f: "itch_fields 0 ?L r (CHR ''S'') 0 demo_message =
      Some [appendUInt [] r, appendUInt [] 5, [], appendClock [] 5, ''S'', ''SYSTEM_EVENT'', [], [], [], [], [], [], [], [], ''O'']" for r
    by (simp add: itch_fields_def demo_message_def rd48_value be_value_def symbol_field_def order_ref_field_def side_field_def
        shares_field_def price_field_def new_order_ref_field_def match_number_field_def printable_field_def attribution_field_def
        char_field_def byte_at_def byte_char_def messageName_def char_of_def bit_Suc_0_iff)
  have h: "byte_at demo_message 0 = Some 83" "rd16 demo_message (Suc 0) = Some 0"
    by (simp_all add: demo_message_def byte_at_def rd16_value be_value_def)
  have b: "byte_char 83 = CHR ''S''" by (simp add: byte_char_def char_of_def bit_Suc_0_iff)
  have m: "message_row ?o 0 demo_message st = itch_fields 0 (locateToSymbol st) (rows st + 1) (CHR ''S'') 0 demo_message" for st
    by (simp add: message_row_def h b messageName_def)
  have i: "itch_message ?o 0 demo_message st = Some (False, flush_buffer (st\<lparr>rows := rows st + 1, buffer := append_row (buffer st) g\<rparr>))"
    if "itch_fields 0 (locateToSymbol st) (rows st + 1) (CHR ''S'') 0 demo_message = Some g" for st g
    using that by (simp add: itch_message_def h b messageName_def Let_def)
  have L: "locateToSymbol (flush_buffer st) = locateToSymbol st" "locateToSymbol itch_start = Map.empty" for st
    by (simp_all add: flush_buffer_def itch_start_def)
  have two: "length (itch_rows ?o 0 [demo_message, demo_message] itch_start) = 2"
    "\<forall>g \<in> set (itch_rows ?o 0 [demo_message, demo_message] itch_start). clean_row g"
    by (simp_all add: m i f L Let_def clean_row_def)
  from itch_file_feeds_replay [OF _ two(2)] demo_message_ok two(1) show ?thesis by auto
qed

end
