(* ===== verification/Spsc_Queue.thy ===== *)
theory Spsc_Queue
  imports Order_Model
begin

text \<open>
  \<open>SpscEventQueue\<close> (\<open>spsc_event_queue.hpp\<close>), the wait-free hand-off between the feed
  handler and the matching thread. First the operations as one thread would run them, with
  64-bit cursors that wrap; then the two threads as step relations that interleave at every
  access to shared memory and may read stale cursors. That the plain
  accesses to the storage are ordered by the release and acquire operations on the cursors
  is the subject of \<open>Spsc_Memory\<close>.
\<close>


section \<open>Model\<close>

text \<open>
  The queue object. The cursors are \<open>std::size_t\<close> and wrap; a slot of the storage holds a
  live event or none. \<open>Capacity\<close> is the template argument.
\<close>

record spsc_queue =
  head_cursor :: u64
  tail_cursor :: u64
  cached_head :: u64
  cached_tail :: u64
  event_storage :: "nat \<Rightarrow> order_event option"

definition SpscEventQueue_new :: spsc_queue where
  "SpscEventQueue_new = \<lparr>head_cursor = 0, tail_cursor = 0, cached_head = 0, cached_tail = 0, event_storage = Map.empty\<rparr>"

text \<open>The static assertions on the template argument.\<close>

definition capacity_ok :: "nat \<Rightarrow> bool" where
  "capacity_ok cap \<longleftrightarrow> cap AND (cap - 1) = 0 \<and> 2 \<le> cap \<and> cap < SIZE_RANGE"

definition slot_index :: "nat \<Rightarrow> u64 \<Rightarrow> nat" where
  "slot_index cap index = unat (index AND (word_of_nat cap - 1))"

definition is_full :: "nat \<Rightarrow> u64 \<Rightarrow> u64 \<Rightarrow> bool" where
  "is_full cap tail cachedHead \<longleftrightarrow> tail - cachedHead \<ge> word_of_nat cap"

text \<open>Constructing an event in a slot that holds one, or reading a dead slot, is undefined.\<close>

definition construct_slot :: "nat \<Rightarrow> u64 \<Rightarrow> order_event \<Rightarrow> spsc_queue \<Rightarrow> (unit, spsc_queue) outcome" where
  "construct_slot cap index ev q =
     (if event_storage q (slot_index cap index) \<noteq> None
      then Throw (UndefinedBehaviour ''construction over a live event'') q
      else Ret () (q\<lparr>event_storage := (event_storage q)(slot_index cap index \<mapsto> ev)\<rparr>))"

definition move_from_slot :: "nat \<Rightarrow> u64 \<Rightarrow> spsc_queue \<Rightarrow> (order_event, spsc_queue) outcome" where
  "move_from_slot cap index q =
     (case event_storage q (slot_index cap index) of
        None \<Rightarrow> Throw (UndefinedBehaviour ''read of a dead event'') q
      | Some ev \<Rightarrow> Ret ev (q\<lparr>event_storage := (event_storage q)(slot_index cap index := None)\<rparr>))"

definition tryPush :: "nat \<Rightarrow> order_event \<Rightarrow> spsc_queue \<Rightarrow> (bool, spsc_queue) outcome" where
  "tryPush cap ev q =
     (let tail = tail_cursor q in
      let q1 = (if is_full cap tail (cached_head q) then q\<lparr>cached_head := head_cursor q\<rparr> else q) in
      if is_full cap tail (cached_head q) \<and> is_full cap tail (cached_head q1) then Ret False q1
      else bind_outcome (construct_slot cap tail ev q1) (\<lambda>_ q2. Ret True (q2\<lparr>tail_cursor := tail + 1\<rparr>)))"

definition tryPop :: "nat \<Rightarrow> spsc_queue \<Rightarrow> (order_event option, spsc_queue) outcome" where
  "tryPop cap q =
     (let head = head_cursor q in
      let q1 = (if head = cached_tail q then q\<lparr>cached_tail := tail_cursor q\<rparr> else q) in
      if head = cached_tail q \<and> head = cached_tail q1 then Ret None q1
      else bind_outcome (move_from_slot cap head q1) (\<lambda>ev q2. Ret (Some ev) (q2\<lparr>head_cursor := head + 1\<rparr>)))"

definition sizeApprox :: "spsc_queue \<Rightarrow> u64" where
  "sizeApprox q = tail_cursor q - head_cursor q"

text \<open>The destructor; the loop compares cursors that wrap, and ends because their distance shrinks.\<close>

definition destroy_slot :: "nat \<Rightarrow> u64 \<Rightarrow> spsc_queue \<Rightarrow> (unit, spsc_queue) outcome" where
  "destroy_slot cap index q =
     (if event_storage q (slot_index cap index) = None
      then Throw (UndefinedBehaviour ''destruction of a dead event'') q
      else Ret () (q\<lparr>event_storage := (event_storage q)(slot_index cap index := None)\<rparr>))"

function destroy_events :: "nat \<Rightarrow> u64 \<Rightarrow> u64 \<Rightarrow> spsc_queue \<Rightarrow> (unit, spsc_queue) outcome" where
  "destroy_events cap head tail q =
     (if head = tail then Ret () q
      else case destroy_slot cap head q of
        Throw e q1 \<Rightarrow> Throw e q1
      | Ret _ q1 \<Rightarrow> destroy_events cap (head + 1) tail q1)"
  by pat_completeness auto
termination
proof (relation "measure (\<lambda>(cap, head, tail, q). unat (tail - head))")
  fix head tail :: u64 assume "head \<noteq> tail"
  then have "tail - head \<noteq> 0" by simp
  then have "unat (tail - head) \<noteq> 0" by (simp only: u64_eq_0_iff [symmetric] not_False_eq_True)
  moreover have "unat (tail - (head + 1)) = unat (tail - head) - 1" 
    using unat_sub_u64 [of 1 "tail - head"] \<open>unat (tail - head) \<noteq> 0\<close> by (simp add: u64_le_iff diff_diff_eq)
  ultimately have "unat (tail - (head + 1)) < unat (tail - head)" by linarith
  then show "((cap, head + 1, tail, q1), (cap, head, tail, q)) \<in> measure (\<lambda>(cap, head, tail, q). unat (tail - head))" for cap q q1
    by (simp only: in_measure case_prod_conv)
qed simp

declare destroy_events.simps [simp del]

definition SpscEventQueue_destroy :: "nat \<Rightarrow> spsc_queue \<Rightarrow> (unit, spsc_queue) outcome" where
  "SpscEventQueue_destroy cap q = destroy_events cap (head_cursor q) (tail_cursor q) q"

section \<open>Lemmas\<close>

subsection \<open>Cursors\<close>

lemma and_pred_pow2: "0 < n \<Longrightarrow> (n :: nat) AND (n - 1) = 0 \<Longrightarrow> \<exists>k. n = 2 ^ k"
proof (induction n rule: less_induct)
  case (less n)
  show ?case
  proof (cases "even n")
    case True
    then obtain m where m: "n = 2 * m" by blast
    with less.prems(1) have "0 < m" by simp
    then have pred: "(2 * m - Suc 0) div 2 = m - Suc 0" by (cases m) auto
    have "n AND (n - 1) = 2 * (m AND (m - 1))" unfolding m by (subst and_rec) (simp add: pred)
    with less.prems(2) less.IH [of m] m \<open>0 < m\<close> obtain k where "m = 2 ^ k" by auto
    then have "n = 2 ^ Suc k" using m by simp
    then show ?thesis by blast
  next
    case False
    then obtain m where m: "n = 2 * m + 1" by (blast elim: oddE)
    have "n AND (n - 1) = 2 * m" unfolding m by (subst and_rec) simp
    with less.prems(2) m have "n = 2 ^ 0" by simp
    then show ?thesis by blast
  qed
qed

lemma capacity_pow2:
  assumes "capacity_ok cap"
  obtains k where "cap = 2 ^ k" "0 < k" "k < 64"
proof -
  obtain k where k: "cap = 2 ^ k" using and_pred_pow2 [of cap] assms by (auto simp: capacity_ok_def)
  moreover have "0 < k" using assms k by (cases k) (auto simp: capacity_ok_def)
  moreover have "(2 :: nat) ^ k < 2 ^ 64" using assms k by (simp add: capacity_ok_def SIZE_RANGE_def)
  then have "k < 64" by (rule power_less_imp_less_exp [rotated]) simp
  ultimately show thesis using that by blast
qed

lemma capacity_bounds: "capacity_ok cap \<Longrightarrow> 0 < cap \<and> cap < SIZE_RANGE"
  by (simp add: capacity_ok_def)

lemma slot_index_nat:
  assumes "capacity_ok cap"
  shows "slot_index cap (word_of_nat n) = n mod cap"
proof -
  obtain k where k: "cap = 2 ^ k" "k < 64" using capacity_pow2 [OF assms] .
  have "(word_of_nat cap :: u64) - 1 = mask k" by (simp add: k mask_eq_exp_minus_1)
  then have "slot_index cap (word_of_nat n) = unat (take_bit k (word_of_nat n :: u64))"
    by (simp add: slot_index_def take_bit_eq_mask)
  also have "\<dots> = take_bit k (unat (word_of_nat n :: u64))" by (rule unsigned_take_bit_eq)
  also have "\<dots> = n mod 2 ^ 64 mod 2 ^ k" by (simp add: unat_of_nat take_bit_eq_mod)
  also have "\<dots> = n mod cap" unfolding k(1) by (rule mod_mod_cancel, rule le_imp_power_dvd) (use k(2) in simp)
  finally show ?thesis .
qed

lemma cursor_diff:
  assumes "h \<le> t" and "t - h < SIZE_RANGE"
  shows "unat ((word_of_nat t :: u64) - word_of_nat h) = t - h"
proof -
  have "(word_of_nat t :: u64) - word_of_nat h = word_of_nat (t - h)" using assms(1) by (simp add: of_nat_diff)
  then show ?thesis using assms(2) by (simp add: unat_of_nat SIZE_RANGE_def)
qed

lemma is_full_nat:
  assumes "capacity_ok cap" and "h \<le> t" and "t \<le> h + cap"
  shows "is_full cap (word_of_nat t) (word_of_nat h) \<longleftrightarrow> t = h + cap"
proof -
  have "unat (word_of_nat cap :: u64) = cap" using capacity_bounds [OF assms(1)] by (simp add: unat_of_nat SIZE_RANGE_def)
  moreover have "unat ((word_of_nat t :: u64) - word_of_nat h) = t - h"
    by (rule cursor_diff) (use assms capacity_bounds [OF assms(1)] in auto)
  ultimately show ?thesis using assms(2,3) by (auto simp: is_full_def word_le_nat_alt)
qed

lemma cursor_eq:
  assumes "h \<le> t" and "t - h < SIZE_RANGE"
  shows "(word_of_nat h :: u64) = word_of_nat t \<longleftrightarrow> h = t"
  using cursor_diff [OF assms] assms(1) by auto

lemma cursor_Suc: "(word_of_nat n :: u64) + 1 = word_of_nat (Suc n)"
  by simp

subsection \<open>The slots in use\<close>

text \<open>The events \<open>evs\<close> occupy consecutive slots from position \<open>lo\<close> on; all others are dead.\<close>

definition window :: "nat \<Rightarrow> (nat \<Rightarrow> order_event option) \<Rightarrow> nat \<Rightarrow> order_event list \<Rightarrow> bool" where
  "window cap st lo evs \<longleftrightarrow>
     (\<forall>j < length evs. st ((lo + j) mod cap) = Some (evs ! j)) \<and>
     (\<forall>s < cap. (\<forall>j < length evs. (lo + j) mod cap \<noteq> s) \<longrightarrow> st s = None)"

lemma mod_window:
  assumes "i < j" and "j - i < (cap :: nat)"
  shows "i mod cap \<noteq> j mod cap"
proof
  assume "i mod cap = j mod cap"
  then have "cap dvd j - i" using assms(1) mod_eq_dvd_iff_nat [of i j cap] by simp
  with assms show False by (auto dest: dvd_imp_le)
qed

lemma window_push:
  assumes w: "window cap st lo evs" and len: "length evs < cap"
  shows "st ((lo + length evs) mod cap) = None"
    and "window cap (st((lo + length evs) mod cap \<mapsto> e)) lo (evs @ [e])"
proof -
  have ne: "(lo + j) mod cap \<noteq> (lo + length evs) mod cap" if "j < length evs" for j
    using mod_window [of "lo + j" "lo + length evs" cap] that len by simp
  with w len show "st ((lo + length evs) mod cap) = None" by (simp add: window_def)
  show "window cap (st((lo + length evs) mod cap \<mapsto> e)) lo (evs @ [e])"
    unfolding window_def
  proof (intro conjI allI impI)
    fix j assume "j < length (evs @ [e])"
    then show "(st((lo + length evs) mod cap \<mapsto> e)) ((lo + j) mod cap) = Some ((evs @ [e]) ! j)"
      using w ne [of j] by (cases "j = length evs") (auto simp: window_def nth_append)
  next
    fix s assume s: "s < cap" and a: "\<forall>j < length (evs @ [e]). (lo + j) mod cap \<noteq> s"
    have "(lo + length evs) mod cap \<noteq> s" "\<forall>j < length evs. (lo + j) mod cap \<noteq> s" using a by auto
    with w s show "(st((lo + length evs) mod cap \<mapsto> e)) s = None" by (simp add: window_def)
  qed
qed

lemma window_pop:
  assumes w: "window cap st lo (e # evs)" and len: "length evs < cap"
  shows "st (lo mod cap) = Some e" and "window cap (st(lo mod cap := None)) (Suc lo) evs"
proof -
  show "st (lo mod cap) = Some e" using w by (auto simp: window_def)
  have ne: "(Suc lo + j) mod cap \<noteq> lo mod cap" if "j < length evs" for j
    using mod_window [of lo "Suc lo + j" cap] that len by auto
  show "window cap (st(lo mod cap := None)) (Suc lo) evs"
    unfolding window_def
  proof (intro conjI allI impI)
    fix j assume j: "j < length evs"
    then have "st ((lo + Suc j) mod cap) = Some ((e # evs) ! Suc j)" using w unfolding window_def by (metis Suc_less_eq length_Cons)
    with ne [OF j] show "(st(lo mod cap := None)) ((Suc lo + j) mod cap) = Some (evs ! j)" by simp
  next
    fix s assume s: "s < cap" and a: "\<forall>j < length evs. (Suc lo + j) mod cap \<noteq> s"
    show "(st(lo mod cap := None)) s = None"
    proof (cases "s = lo mod cap")
      case False
      have "(lo + j) mod cap \<noteq> s" if "j < length (e # evs)" for j
        using that a False by (cases j) auto
      with w s show ?thesis by (simp add: window_def)
    qed simp
  qed
qed

section \<open>One thread at a time\<close>

text \<open>
  Used sequentially the queue is a bounded queue. The representation: positions count
  pushes and pops without wrapping, the cursors are their residues, and each side's private
  copy of the other cursor is a past value of it.
\<close>

definition queue_rep :: "nat \<Rightarrow> spsc_queue \<Rightarrow> nat \<Rightarrow> order_event list \<Rightarrow> bool" where
  "queue_rep cap q h evs \<longleftrightarrow>
     head_cursor q = word_of_nat h \<and> tail_cursor q = word_of_nat (h + length evs) \<and> length evs \<le> cap \<and>
     window cap (event_storage q) h evs \<and>
     (\<exists>sh. sh \<le> h \<and> h + length evs \<le> sh + cap \<and> cached_head q = word_of_nat sh) \<and>
     (\<exists>st. h \<le> st \<and> st \<le> h + length evs \<and> cached_tail q = word_of_nat st)"

lemma tryPush_rep:
  assumes cap: "capacity_ok cap" and rep: "queue_rep cap q h evs"
  shows "if length evs = cap then \<exists>q'. tryPush cap ev q = Ret False q' \<and> queue_rep cap q' h evs
         else \<exists>q'. tryPush cap ev q = Ret True q' \<and> queue_rep cap q' h (evs @ [ev])"
proof -
  let ?t = "h + length evs"
  from rep obtain sh st where r: "head_cursor q = word_of_nat h" "tail_cursor q = word_of_nat ?t" "length evs \<le> cap"
    "window cap (event_storage q) h evs" "sh \<le> h" "?t \<le> sh + cap" "cached_head q = word_of_nat sh"
    "h \<le> st" "st \<le> ?t" "cached_tail q = word_of_nat st"
    by (auto simp: queue_rep_def)
  define q1 where "q1 = (if is_full cap (tail_cursor q) (cached_head q) then q\<lparr>cached_head := head_cursor q\<rparr> else q)"
  define sh1 where "sh1 = (if ?t = sh + cap then h else sh)"
  have full: "is_full cap (tail_cursor q) (cached_head q) \<longleftrightarrow> ?t = sh + cap"
    using is_full_nat [OF cap, of sh ?t] r(2,5,6,7) by simp
  have q1: "cached_head q1 = word_of_nat sh1" "sh1 \<le> h" "?t \<le> sh1 + cap" "tail_cursor q1 = word_of_nat ?t" "head_cursor q1 = word_of_nat h"
    "event_storage q1 = event_storage q" "cached_tail q1 = word_of_nat st"
    using r full by (simp_all add: q1_def sh1_def)
  have full1: "is_full cap (tail_cursor q) (cached_head q1) \<longleftrightarrow> ?t = sh1 + cap"
    using is_full_nat [OF cap, of sh1 ?t] q1(1-3) r(2) by simp
  have run: "tryPush cap ev q =
      (if ?t = sh + cap \<and> ?t = sh1 + cap then Ret False q1
       else bind_outcome (construct_slot cap (word_of_nat ?t) ev q1) (\<lambda>_ q2. Ret True (q2\<lparr>tail_cursor := word_of_nat ?t + 1\<rparr>)))"
    unfolding tryPush_def Let_def full full1 [unfolded q1_def full] q1_def [symmetric] r(2) [symmetric] by (simp add: q1_def full)
  show ?thesis
  proof (cases "length evs = cap")
    case True
    then have "sh = h" using r(5,6) by simp
    with True have "?t = sh + cap" "?t = sh1 + cap" by (simp_all add: sh1_def)
    moreover have "queue_rep cap q1 h evs" unfolding queue_rep_def using q1 r by auto
    ultimately show ?thesis using run True by simp
  next
    case False
    then have len: "length evs < cap" using r(3) by simp
    have "\<not> (?t = sh + cap \<and> ?t = sh1 + cap)" using len by (auto simp: sh1_def)
    note w = window_push(1) [OF r(4) len] window_push(2) [OF r(4) len, of ev]
    have sl: "slot_index cap (word_of_nat h + word_of_nat (length evs)) = ?t mod cap" using slot_index_nat [OF cap, of ?t] by simp
    let ?q = "q1\<lparr>event_storage := (event_storage q)(?t mod cap \<mapsto> ev), tail_cursor := word_of_nat ?t + 1\<rparr>"
    have push: "tryPush cap ev q = Ret True ?q"
      using run \<open>\<not> (?t = sh + cap \<and> ?t = sh1 + cap)\<close> w(1) q1(6) by (simp add: construct_slot_def sl)
    have "?t < sh1 + cap" using len r(6) by (auto simp: sh1_def)
    then have "\<exists>s. s \<le> h \<and> h + length (evs @ [ev]) \<le> s + cap \<and> cached_head q1 = word_of_nat s"
      using q1(1,2) by (intro exI [of _ sh1]) simp
    moreover have "\<exists>s. h \<le> s \<and> s \<le> h + length (evs @ [ev]) \<and> cached_tail q1 = word_of_nat s"
      using q1(7) r(8,9) by (intro exI [of _ st]) simp
    ultimately have "queue_rep cap ?q h (evs @ [ev])" unfolding queue_rep_def
      using q1(4,5) w(2) len by (simp add: cursor_Suc)
    with push show ?thesis using False by auto
  qed
qed

lemma tryPop_rep:
  assumes cap: "capacity_ok cap" and rep: "queue_rep cap q h evs"
  shows "case evs of [] \<Rightarrow> \<exists>q'. tryPop cap q = Ret None q' \<and> queue_rep cap q' h []
         | ev # rest \<Rightarrow> \<exists>q'. tryPop cap q = Ret (Some ev) q' \<and> queue_rep cap q' (Suc h) rest"
proof -
  let ?t = "h + length evs"
  from rep obtain sh st where r: "head_cursor q = word_of_nat h" "tail_cursor q = word_of_nat ?t" "length evs \<le> cap"
    "window cap (event_storage q) h evs" "sh \<le> h" "?t \<le> sh + cap" "cached_head q = word_of_nat sh"
    "h \<le> st" "st \<le> ?t" "cached_tail q = word_of_nat st"
    by (auto simp: queue_rep_def)
  have small: "n - h < SIZE_RANGE" if "n \<le> ?t" for n using that r(3) capacity_bounds [OF cap] by linarith
  define q1 where "q1 = (if head_cursor q = cached_tail q then q\<lparr>cached_tail := tail_cursor q\<rparr> else q)"
  define st1 where "st1 = (if h = st then ?t else st)"
  have eq: "head_cursor q = cached_tail q \<longleftrightarrow> h = st" using cursor_eq [OF r(8) small [OF r(9)]] r(1,10) by simp
  have q1: "cached_tail q1 = word_of_nat st1" "h \<le> st1" "st1 \<le> ?t" "head_cursor q1 = word_of_nat h" "tail_cursor q1 = word_of_nat ?t"
    "event_storage q1 = event_storage q" "cached_head q1 = word_of_nat sh"
    using r eq by (simp_all add: q1_def st1_def)
  have eq1: "head_cursor q = cached_tail q1 \<longleftrightarrow> h = st1" using cursor_eq [OF q1(2) small [OF q1(3)]] r(1) q1(1) by simp
  have run: "tryPop cap q =
      (if h = st \<and> h = st1 then Ret None q1
       else bind_outcome (move_from_slot cap (word_of_nat h) q1) (\<lambda>ev q2. Ret (Some ev) (q2\<lparr>head_cursor := word_of_nat h + 1\<rparr>)))"
    unfolding tryPop_def Let_def r(1) [symmetric] using eq eq1 by (simp add: q1_def)
  show ?thesis
  proof (cases evs)
    case Nil
    then have "h = st" "h = st1" using r(8,9) by (simp_all add: st1_def)
    moreover have "queue_rep cap q1 h []" unfolding queue_rep_def using q1 r Nil by auto
    ultimately show ?thesis using run Nil by simp
  next
    case (Cons ev rest)
    then have ne: "\<not> (h = st \<and> h = st1)" "h < st1" using r(8) by (auto simp: st1_def)
    have len: "length rest < cap" using r(3) Cons by simp
    note w = window_pop [OF r(4) [unfolded Cons] len]
    let ?q = "q1\<lparr>event_storage := (event_storage q)(h mod cap := None), head_cursor := word_of_nat h + 1\<rparr>"
    have "tryPop cap q = Ret (Some ev) ?q"
      using run ne w(1) q1(6) by (simp add: move_from_slot_def slot_index_nat [OF cap])
    moreover have "\<exists>s. s \<le> Suc h \<and> Suc h + length rest \<le> s + cap \<and> cached_head q1 = word_of_nat s"
      using q1(7) r(5,6) Cons by (intro exI [of _ sh]) simp
    moreover have "\<exists>s. Suc h \<le> s \<and> s \<le> Suc h + length rest \<and> cached_tail q1 = word_of_nat s"
      using q1(1,3) ne(2) Cons by (intro exI [of _ st1]) simp
    ultimately have "tryPop cap q = Ret (Some ev) ?q \<and> queue_rep cap ?q (Suc h) rest" unfolding queue_rep_def
      using q1(4,5) w(2) len Cons by (simp add: cursor_Suc)
    then show ?thesis using Cons by auto
  qed
qed

lemma destroy_events_window:
  assumes "capacity_ok cap" and "window cap (event_storage q) lo evs" and "length evs \<le> cap"
  shows "\<exists>q'. destroy_events cap (word_of_nat lo) (word_of_nat (lo + length evs)) q = Ret () q' \<and>
    (\<forall>s < cap. event_storage q' s = None)"
  using assms(2,3)
proof (induction evs arbitrary: q lo)
  case Nil
  then show ?case by (subst destroy_events.simps) (simp add: window_def)
next
  case (Cons e evs)
  have len: "length evs < cap" using Cons.prems(2) by simp
  note w = window_pop [OF Cons.prems(1) len]
  have "(word_of_nat lo :: u64) \<noteq> word_of_nat (lo + length (e # evs))"
    using cursor_eq [of lo "lo + length (e # evs)"] Cons.prems(2) capacity_bounds [OF assms(1)] by simp
  moreover have "destroy_slot cap (word_of_nat lo) q = Ret () (q\<lparr>event_storage := (event_storage q)(lo mod cap := None)\<rparr>)"
    using w(1) by (simp add: destroy_slot_def slot_index_nat [OF assms(1)])
  moreover have "lo + length (e # evs) = Suc lo + length evs" by simp
  ultimately have "destroy_events cap (word_of_nat lo) (word_of_nat (lo + length (e # evs))) q =
      destroy_events cap (word_of_nat (Suc lo)) (word_of_nat (Suc lo + length evs)) (q\<lparr>event_storage := (event_storage q)(lo mod cap := None)\<rparr>)"
    by (subst destroy_events.simps) (simp only: cursor_Suc outcome.case if_False)
  moreover have "\<exists>q'. destroy_events cap (word_of_nat (Suc lo)) (word_of_nat (Suc lo + length evs)) (q\<lparr>event_storage := (event_storage q)(lo mod cap := None)\<rparr>) =
      Ret () q' \<and> (\<forall>s < cap. event_storage q' s = None)"
    by (rule Cons.IH) (use w(2) len in \<open>simp_all del: fun_upd_apply\<close>)
  ultimately show ?case by (simp only:)
qed

lemma queue_rep_destroy:
  assumes "capacity_ok cap" and "queue_rep cap q h evs"
  shows "\<exists>q'. SpscEventQueue_destroy cap q = Ret () q' \<and> (\<forall>s < cap. event_storage q' s = None)"
  using destroy_events_window [OF assms(1), of q h evs] assms(2) by (simp add: SpscEventQueue_destroy_def queue_rep_def)

text \<open>What a client may rely on, and the run of any sequence of calls by one thread.\<close>

datatype 'e queue_op = Push 'e | Pop

datatype 'e queue_reply = Pushed bool | Popped "'e option"

fun run_queue :: "('e \<Rightarrow> 'q \<Rightarrow> (bool, 'q) outcome) \<Rightarrow> ('q \<Rightarrow> ('e option, 'q) outcome) \<Rightarrow> 'e queue_op list \<Rightarrow> 'q
    \<Rightarrow> ('e queue_reply list, 'q) outcome" where
  "run_queue push pop [] q = Ret [] q"
| "run_queue push pop (Push e # ops) q =
     bind_outcome (push e q) (\<lambda>b q1. bind_outcome (run_queue push pop ops q1) (\<lambda>rs q2. Ret (Pushed b # rs) q2))"
| "run_queue push pop (Pop # ops) q =
     bind_outcome (pop q) (\<lambda>r q1. bind_outcome (run_queue push pop ops q1) (\<lambda>rs q2. Ret (Popped r # rs) q2))"

fun spec_queue :: "nat \<Rightarrow> 'e queue_op list \<Rightarrow> 'e list \<Rightarrow> 'e queue_reply list \<times> 'e list" where
  "spec_queue cap [] xs = ([], xs)"
| "spec_queue cap (Push e # ops) xs =
     (case spec_queue cap ops (if length xs < cap then xs @ [e] else xs) of (rs, ys) \<Rightarrow> (Pushed (length xs < cap) # rs, ys))"
| "spec_queue cap (Pop # ops) xs =
     (case spec_queue cap ops (tl xs) of (rs, ys) \<Rightarrow> (Popped (if xs = [] then None else Some (hd xs)) # rs, ys))"

locale bounded_queue =
  fixes cap :: nat and rep :: "'q \<Rightarrow> 'e list \<Rightarrow> bool" and push :: "'e \<Rightarrow> 'q \<Rightarrow> (bool, 'q) outcome"
    and pop :: "'q \<Rightarrow> ('e option, 'q) outcome"
  assumes push_law: "rep q xs \<Longrightarrow>
      \<exists>q'. push e q = Ret (length xs < cap) q' \<and> rep q' (if length xs < cap then xs @ [e] else xs)"
    and pop_law: "rep q xs \<Longrightarrow> \<exists>q'. pop q = Ret (if xs = [] then None else Some (hd xs)) q' \<and> rep q' (tl xs)"
begin

lemma run_queue_spec:
  "rep q xs \<Longrightarrow> \<exists>q'. run_queue push pop ops q = Ret (fst (spec_queue cap ops xs)) q' \<and> rep q' (snd (spec_queue cap ops xs))"
proof (induction ops arbitrary: q xs)
  case (Cons op ops)
  show ?case
  proof (cases op)
    case (Push e)
    obtain q1 where q1: "push e q = Ret (length xs < cap) q1" "rep q1 (if length xs < cap then xs @ [e] else xs)"
      using push_law [OF Cons.prems] by blast
    from Cons.IH [OF q1(2)] q1(1) show ?thesis unfolding Push by (auto split: prod.split)
  next
    case Pop
    obtain q1 where q1: "pop q = Ret (if xs = [] then None else Some (hd xs)) q1" "rep q1 (tl xs)"
      using pop_law [OF Cons.prems] by blast
    from Cons.IH [OF q1(2)] q1(1) show ?thesis unfolding Pop by (auto split: prod.split)
  qed
qed simp

end

interpretation spsc: bounded_queue cap "\<lambda>q xs. capacity_ok cap \<and> (\<exists>h. queue_rep cap q h xs)" "tryPush cap" "tryPop cap" for cap
proof unfold_locales
  fix q xs e assume a: "capacity_ok cap \<and> (\<exists>h. queue_rep cap q h xs)"
  then obtain h where cap: "capacity_ok cap" and h: "queue_rep cap q h xs" by blast
  have "length xs \<le> cap" using h by (simp add: queue_rep_def)
  then show "\<exists>q'. tryPush cap e q = Ret (length xs < cap) q' \<and>
      capacity_ok cap \<and> (\<exists>h. queue_rep cap q' h (if length xs < cap then xs @ [e] else xs))"
    using tryPush_rep [OF cap h, of e] cap by (auto split: if_splits)
  show "\<exists>q'. tryPop cap q = Ret (if xs = [] then None else Some (hd xs)) q' \<and>
      capacity_ok cap \<and> (\<exists>h. queue_rep cap q' h (tl xs))"
    using tryPop_rep [OF cap h] cap by (cases xs) auto
qed

lemma queue_rep_new: "queue_rep cap SpscEventQueue_new 0 []"
  by (auto simp: queue_rep_def SpscEventQueue_new_def window_def)

section \<open>Two threads\<close>

text \<open>
  The producer and the consumer interleave at every access to shared memory. Each has a
  program counter with its local variables. A load of the other side's cursor may return
  any past value that is not older than the last one this side saw (coherence of a single
  atomic); \<open>seen_head\<close> and \<open>seen_tail\<close> are the positions of those values in the order of
  the stores. \<open>pushed\<close> and \<open>popped\<close> are the histories of published and taken events, and
  \<open>broken\<close> records an access C++ gives no meaning to.
\<close>

datatype producer_state =
    PIdle
  | PLoaded order_event u64
  | PFull order_event u64
  | PReady order_event u64
  | PWritten order_event u64

datatype consumer_state =
    CIdle
  | CLoaded u64
  | CEmpty u64
  | CReady u64
  | CTaken u64 order_event

record spsc_system =
  queue :: spsc_queue
  producer :: producer_state
  consumer :: consumer_state
  pushed :: "order_event list"
  popped :: "order_event list"
  seen_head :: nat
  seen_tail :: nat
  broken :: bool

definition spsc_start :: spsc_system where
  "spsc_start = \<lparr>queue = SpscEventQueue_new, producer = PIdle, consumer = CIdle, pushed = [], popped = [],
     seen_head = 0, seen_tail = 0, broken = False\<rparr>"

inductive producer_step :: "nat \<Rightarrow> spsc_system \<Rightarrow> spsc_system \<Rightarrow> bool" for cap where
  load_tail: "producer s = PIdle \<Longrightarrow>
    producer_step cap s (s\<lparr>producer := PLoaded ev (tail_cursor (queue s))\<rparr>)"
| looks_full: "producer s = PLoaded ev t \<Longrightarrow> is_full cap t (cached_head (queue s)) \<Longrightarrow>
    producer_step cap s (s\<lparr>producer := PFull ev t\<rparr>)"
| has_room: "producer s = PLoaded ev t \<Longrightarrow> \<not> is_full cap t (cached_head (queue s)) \<Longrightarrow>
    producer_step cap s (s\<lparr>producer := PReady ev t\<rparr>)"
| refresh_head: "producer s = PFull ev t \<Longrightarrow> seen_head s \<le> k \<Longrightarrow> k \<le> length (popped s) \<Longrightarrow>
    producer_step cap s (s\<lparr>queue := (queue s)\<lparr>cached_head := word_of_nat k\<rparr>, seen_head := k,
      producer := (if is_full cap t (word_of_nat k) then PIdle else PReady ev t)\<rparr>)"
| construct: "producer s = PReady ev t \<Longrightarrow> construct_slot cap t ev (queue s) = Ret u q \<Longrightarrow>
    producer_step cap s (s\<lparr>queue := q, producer := PWritten ev t\<rparr>)"
| construct_broken: "producer s = PReady ev t \<Longrightarrow> construct_slot cap t ev (queue s) = Throw e q \<Longrightarrow>
    producer_step cap s (s\<lparr>producer := PIdle, broken := True\<rparr>)"
| publish: "producer s = PWritten ev t \<Longrightarrow>
    producer_step cap s (s\<lparr>queue := (queue s)\<lparr>tail_cursor := t + 1\<rparr>, pushed := pushed s @ [ev], producer := PIdle\<rparr>)"

inductive consumer_step :: "nat \<Rightarrow> spsc_system \<Rightarrow> spsc_system \<Rightarrow> bool" for cap where
  load_head: "consumer s = CIdle \<Longrightarrow>
    consumer_step cap s (s\<lparr>consumer := CLoaded (head_cursor (queue s))\<rparr>)"
| looks_empty: "consumer s = CLoaded h \<Longrightarrow> h = cached_tail (queue s) \<Longrightarrow>
    consumer_step cap s (s\<lparr>consumer := CEmpty h\<rparr>)"
| has_event: "consumer s = CLoaded h \<Longrightarrow> h \<noteq> cached_tail (queue s) \<Longrightarrow>
    consumer_step cap s (s\<lparr>consumer := CReady h\<rparr>)"
| refresh_tail: "consumer s = CEmpty h \<Longrightarrow> seen_tail s \<le> k \<Longrightarrow> k \<le> length (pushed s) \<Longrightarrow>
    consumer_step cap s (s\<lparr>queue := (queue s)\<lparr>cached_tail := word_of_nat k\<rparr>, seen_tail := k,
      consumer := (if h = word_of_nat k then CIdle else CReady h)\<rparr>)"
| take_event: "consumer s = CReady h \<Longrightarrow> move_from_slot cap h (queue s) = Ret ev q \<Longrightarrow>
    consumer_step cap s (s\<lparr>queue := q, consumer := CTaken h ev\<rparr>)"
| take_broken: "consumer s = CReady h \<Longrightarrow> move_from_slot cap h (queue s) = Throw e q \<Longrightarrow>
    consumer_step cap s (s\<lparr>consumer := CIdle, broken := True\<rparr>)"
| release: "consumer s = CTaken h ev \<Longrightarrow>
    consumer_step cap s (s\<lparr>queue := (queue s)\<lparr>head_cursor := h + 1\<rparr>, popped := popped s @ [ev], consumer := CIdle\<rparr>)"

inductive spsc_reaches :: "nat \<Rightarrow> spsc_system \<Rightarrow> bool" for cap where
  reach_start: "spsc_reaches cap spsc_start"
| reach_producer: "spsc_reaches cap s \<Longrightarrow> producer_step cap s t \<Longrightarrow> spsc_reaches cap t"
| reach_consumer: "spsc_reaches cap s \<Longrightarrow> consumer_step cap s t \<Longrightarrow> spsc_reaches cap t"

inductive_cases producer_stepE: "producer_step cap s t"
inductive_cases consumer_stepE: "consumer_step cap s t"

subsection \<open>Invariant\<close>

text \<open>The events alive in the slots: published or written, and not yet taken.\<close>

fun written :: "producer_state \<Rightarrow> order_event list" where
  "written (PWritten ev t) = [ev]"
| "written _ = []"

fun taken :: "consumer_state \<Rightarrow> nat" where
  "taken (CTaken h ev) = 1"
| "taken _ = 0"

definition live_from :: "spsc_system \<Rightarrow> nat" where
  "live_from s = length (popped s) + taken (consumer s)"

definition live_events :: "spsc_system \<Rightarrow> order_event list" where
  "live_events s = drop (live_from s) (pushed s) @ written (producer s)"

fun producer_ok :: "nat \<Rightarrow> nat \<Rightarrow> nat \<Rightarrow> producer_state \<Rightarrow> bool" where
  "producer_ok cap T sh PIdle = True"
| "producer_ok cap T sh (PLoaded ev t) = (t = word_of_nat T)"
| "producer_ok cap T sh (PFull ev t) = (t = word_of_nat T)"
| "producer_ok cap T sh (PReady ev t) = (t = word_of_nat T \<and> T < sh + cap)"
| "producer_ok cap T sh (PWritten ev t) = (t = word_of_nat T \<and> T < sh + cap)"

fun consumer_ok :: "order_event list \<Rightarrow> nat \<Rightarrow> nat \<Rightarrow> consumer_state \<Rightarrow> bool" where
  "consumer_ok xs H st CIdle = True"
| "consumer_ok xs H st (CLoaded h) = (h = word_of_nat H)"
| "consumer_ok xs H st (CEmpty h) = (h = word_of_nat H)"
| "consumer_ok xs H st (CReady h) = (h = word_of_nat H \<and> H < st)"
| "consumer_ok xs H st (CTaken h ev) = (h = word_of_nat H \<and> H < st \<and> ev = xs ! H)"

definition cursors_ok :: "nat \<Rightarrow> spsc_system \<Rightarrow> bool" where
  "cursors_ok cap s \<longleftrightarrow>
     tail_cursor (queue s) = word_of_nat (length (pushed s)) \<and> head_cursor (queue s) = word_of_nat (length (popped s)) \<and>
     cached_head (queue s) = word_of_nat (seen_head s) \<and> cached_tail (queue s) = word_of_nat (seen_tail s) \<and>
     seen_head s \<le> length (popped s) \<and> length (pushed s) \<le> seen_head s + cap \<and>
     length (popped s) \<le> seen_tail s \<and> seen_tail s \<le> length (pushed s)"

definition spsc_inv :: "nat \<Rightarrow> spsc_system \<Rightarrow> bool" where
  "spsc_inv cap s \<longleftrightarrow>
     cursors_ok cap s \<and> \<not> broken s \<and> popped s = take (length (popped s)) (pushed s) \<and>
     producer_ok cap (length (pushed s)) (seen_head s) (producer s) \<and>
     consumer_ok (pushed s) (length (popped s)) (seen_tail s) (consumer s) \<and>
     window cap (event_storage (queue s)) (live_from s) (live_events s)"

lemma spsc_invD:
  assumes "spsc_inv cap s"
  shows "cursors_ok cap s" "\<not> broken s" "popped s = take (length (popped s)) (pushed s)"
    "producer_ok cap (length (pushed s)) (seen_head s) (producer s)"
    "consumer_ok (pushed s) (length (popped s)) (seen_tail s) (consumer s)"
    "window cap (event_storage (queue s)) (live_from s) (live_events s)"
  using assms by (simp_all add: spsc_inv_def)

lemma spsc_inv_start: "spsc_inv cap spsc_start"
  by (simp add: spsc_inv_def spsc_start_def cursors_ok_def SpscEventQueue_new_def window_def live_from_def live_events_def)

lemma live_bounds:
  assumes "spsc_inv cap s"
  shows "live_from s \<le> length (pushed s)" "live_from s + length (live_events s) = length (pushed s) + length (written (producer s))"
proof -
  note D = spsc_invD [OF assms]
  show l: "live_from s \<le> length (pushed s)"
    using D(1,5) by (cases "consumer s") (auto simp: cursors_ok_def live_from_def)
  then show "live_from s + length (live_events s) = length (pushed s) + length (written (producer s))"
    by (simp add: live_events_def)
qed

lemma producer_step_inv:
  assumes cap: "capacity_ok cap" and inv: "spsc_inv cap s" and st: "producer_step cap s t"
  shows "spsc_inv cap t"
proof -
  note D = spsc_invD [OF inv]
  from st show ?thesis
  proof (cases rule: producer_step.cases)
    case (construct ev t' u q)
    have t': "t' = word_of_nat (length (pushed s))" "length (pushed s) < seen_head s + cap" using D(4) construct(2) by simp_all
    have ne: "written (producer s) = []" using construct(2) by simp
    have pos: "live_from s + length (live_events s) = length (pushed s)" using live_bounds(2) [OF inv] ne by simp
    have "seen_head s \<le> live_from s" using D(1) by (simp add: cursors_ok_def live_from_def)
    then have len: "length (live_events s) < cap" using pos t'(2) by linarith
    note w = window_push(2) [OF D(6) len, of ev, unfolded pos]
    have q: "q = (queue s)\<lparr>event_storage := (event_storage (queue s))(length (pushed s) mod cap \<mapsto> ev)\<rparr>"
      using construct(3) unfolding t'(1) by (auto simp: construct_slot_def slot_index_nat [OF cap] split: if_splits)
    show ?thesis unfolding construct(1) spsc_inv_def
      using D(1,2,3,5) t' w ne by (simp add: q cursors_ok_def live_from_def live_events_def)
  next
    case (construct_broken ev t' e q)
    have t': "t' = word_of_nat (length (pushed s))" "length (pushed s) < seen_head s + cap" using D(4) construct_broken(2) by simp_all
    have pos: "live_from s + length (live_events s) = length (pushed s)" using live_bounds(2) [OF inv] construct_broken(2) by simp
    have "seen_head s \<le> live_from s" using D(1) by (simp add: cursors_ok_def live_from_def)
    then have len: "length (live_events s) < cap" using pos t'(2) by linarith
    have "event_storage (queue s) (length (pushed s) mod cap) = None" using window_push(1) [OF D(6) len] pos by simp
    then have False using construct_broken(3) unfolding t'(1) by (simp add: construct_slot_def slot_index_nat [OF cap])
    then show ?thesis ..
  next
    case (refresh_head ev t' k)
    have "is_full cap t' (word_of_nat k) \<longleftrightarrow> length (pushed s) = k + cap"
      using is_full_nat [OF cap, of k "length (pushed s)"] refresh_head(2,3,4) D(1,4) by (simp add: cursors_ok_def)
    then show ?thesis unfolding refresh_head(1) spsc_inv_def
      using D refresh_head(2,3,4) by (auto simp: cursors_ok_def live_from_def live_events_def)
  next
    case (has_room ev t')
    have "length (pushed s) \<noteq> seen_head s + cap"
      using is_full_nat [OF cap, of "seen_head s" "length (pushed s)"] has_room(2,3) D(1,4) by (auto simp: cursors_ok_def)
    then show ?thesis unfolding has_room(1) spsc_inv_def
      using D has_room(2) by (auto simp: cursors_ok_def live_from_def live_events_def)
  next
    case (publish ev t')
    have "drop (live_from s) (pushed s @ [ev]) = drop (live_from s) (pushed s) @ [ev]" using live_bounds(1) [OF inv] by simp
    moreover have "consumer_ok (pushed s @ [ev]) (length (popped s)) (seen_tail s) (consumer s)"
      using D(1,5) by (cases "consumer s") (auto simp: cursors_ok_def nth_append)
    moreover have "popped s = take (length (popped s)) (pushed s @ [ev])" using D(1,3) by (simp add: cursors_ok_def)
    ultimately show ?thesis unfolding publish(1) spsc_inv_def
      using D publish(2) by (auto simp: cursors_ok_def live_from_def live_events_def)
  qed (use D in \<open>auto simp: spsc_inv_def cursors_ok_def live_from_def live_events_def\<close>)
qed

lemma consumer_step_inv:
  assumes cap: "capacity_ok cap" and inv: "spsc_inv cap s" and st: "consumer_step cap s t"
  shows "spsc_inv cap t"
proof -
  note D = spsc_invD [OF inv]
  have T: "length (pushed s) - length (popped s) < SIZE_RANGE"
    using D(1) capacity_bounds [OF cap] by (auto simp: cursors_ok_def)
  have front: "live_events s = pushed s ! length (popped s) # drop (Suc (length (popped s))) (pushed s) @ written (producer s)"
      "live_from s = length (popped s)" "length (popped s) < length (pushed s)"
      "length (drop (Suc (length (popped s))) (pushed s) @ written (producer s)) < cap"
    if c: "consumer s = CReady h" for h
  proof -
    show fr: "live_from s = length (popped s)" using c by (simp add: live_from_def)
    show lt: "length (popped s) < length (pushed s)" using D(1,5) c by (auto simp: cursors_ok_def)
    then show "live_events s = pushed s ! length (popped s) # drop (Suc (length (popped s))) (pushed s) @ written (producer s)"
      using fr by (simp add: live_events_def Cons_nth_drop_Suc)
    have "length (pushed s) + length (written (producer s)) \<le> seen_head s + cap"
      using D(1,4) by (cases "producer s") (auto simp: cursors_ok_def)
    then show "length (drop (Suc (length (popped s))) (pushed s) @ written (producer s)) < cap"
      using D(1) lt by (auto simp: cursors_ok_def)
  qed
  from st show ?thesis
  proof (cases rule: consumer_step.cases)
    case (take_event h ev q)
    note f = front [OF take_event(2)]
    have h: "h = word_of_nat (length (popped s))" "length (popped s) < seen_tail s" using D(5) take_event(2) by simp_all
    note w = window_pop [OF D(6) [unfolded f(1,2)] f(4)]
    have q: "ev = pushed s ! length (popped s)" "q = (queue s)\<lparr>event_storage := (event_storage (queue s))(length (popped s) mod cap := None)\<rparr>"
      using take_event(3) w(1) unfolding h(1) by (auto simp: move_from_slot_def slot_index_nat [OF cap])
    show ?thesis unfolding take_event(1) spsc_inv_def
      using D(1-4) h q(1) w(2) by (simp add: q(2) cursors_ok_def live_from_def live_events_def)
  next
    case (take_broken h e q)
    note f = front [OF take_broken(2)]
    have h: "h = word_of_nat (length (popped s))" using D(5) take_broken(2) by simp
    have "event_storage (queue s) (length (popped s) mod cap) \<noteq> None" using window_pop(1) [OF D(6) [unfolded f(1,2)] f(4)] by simp
    then have False using take_broken(3) unfolding h by (auto simp: move_from_slot_def slot_index_nat [OF cap] split: option.splits)
    then show ?thesis ..
  next
    case (refresh_tail h k)
    have "h = word_of_nat k \<longleftrightarrow> length (popped s) = k"
      using cursor_eq [of "length (popped s)" k] refresh_tail(2,3,4) D(1,5) T by (auto simp: cursors_ok_def)
    then show ?thesis unfolding refresh_tail(1) spsc_inv_def
      using D refresh_tail(2,3,4) by (auto simp: cursors_ok_def live_from_def live_events_def)
  next
    case (has_event h)
    have "length (popped s) \<noteq> seen_tail s" using has_event(2,3) D(1,5) by (auto simp: cursors_ok_def)
    then show ?thesis unfolding has_event(1) spsc_inv_def
      using D has_event(2) by (auto simp: cursors_ok_def live_from_def live_events_def)
  next
    case (release h ev)
    have "length (popped s) < length (pushed s)" "ev = pushed s ! length (popped s)" using D(1,5) release(2) by (auto simp: cursors_ok_def)
    then have "popped s @ [ev] = take (Suc (length (popped s))) (pushed s)" using D(3) by (simp add: take_Suc_conv_app_nth)
    then show ?thesis unfolding release(1) spsc_inv_def
      using D release(2) by (auto simp: cursors_ok_def live_from_def live_events_def)
  qed (use D in \<open>auto simp: spsc_inv_def cursors_ok_def live_from_def live_events_def\<close>)
qed

lemma spsc_reaches_inv:
  assumes "capacity_ok cap" and "spsc_reaches cap s"
  shows "spsc_inv cap s"
  using assms(2)
  by (induction rule: spsc_reaches.induct)
    (use spsc_inv_start producer_step_inv [OF assms(1)] consumer_step_inv [OF assms(1)] in blast)+

subsection \<open>Calls as runs of steps\<close>

text \<open>
  A call that is not interrupted and sees the current cursors does what the sequential
  definition says, so the step relations split exactly those calls.
\<close>

lemma tryPush_steps:
  assumes "producer s = PIdle" and "seen_head s \<le> length (popped s)" and "head_cursor (queue s) = word_of_nat (length (popped s))"
    and "tryPush cap ev (queue s) = Ret b q"
  shows "\<exists>t. (producer_step cap)\<^sup>*\<^sup>* s t \<and> producer t = PIdle \<and> queue t = q \<and> popped t = popped s \<and> consumer t = consumer s \<and>
    pushed t = (if b then pushed s @ [ev] else pushed s)"
proof -
  let ?t = "tail_cursor (queue s)" and ?k = "length (popped s)"
  let ?s1 = "s\<lparr>producer := PLoaded ev ?t\<rparr>"
  have s1: "(producer_step cap)\<^sup>*\<^sup>* s ?s1" using producer_step.load_tail [OF assms(1)] by blast
  have push: "\<exists>t. (producer_step cap)\<^sup>*\<^sup>* s2 t \<and> producer t = PIdle \<and> queue t = q2\<lparr>tail_cursor := ?t + 1\<rparr> \<and> popped t = popped s \<and>
      consumer t = consumer s \<and> pushed t = pushed s @ [ev]"
    if "producer s2 = PReady ev ?t" "construct_slot cap ?t ev (queue s2) = Ret () q2" "popped s2 = popped s" "consumer s2 = consumer s"
      "pushed s2 = pushed s" for s2 q2
  proof -
    let ?s3 = "s2\<lparr>queue := q2, producer := PWritten ev ?t\<rparr>"
    let ?s4 = "?s3\<lparr>queue := (queue ?s3)\<lparr>tail_cursor := ?t + 1\<rparr>, pushed := pushed ?s3 @ [ev], producer := PIdle\<rparr>"
    have "producer_step cap s2 ?s3" by (rule producer_step.construct [OF that(1,2)])
    moreover have "producer_step cap ?s3 ?s4" by (rule producer_step.publish) simp
    ultimately have "(producer_step cap)\<^sup>*\<^sup>* s2 ?s4" by (meson converse_rtranclp_into_rtranclp r_into_rtranclp)
    with that show ?thesis by (intro exI [of _ ?s4]) simp
  qed
  show ?thesis
  proof (cases "is_full cap ?t (cached_head (queue s))")
    case False
    let ?s2 = "?s1\<lparr>producer := PReady ev ?t\<rparr>"
    have s2: "(producer_step cap)\<^sup>*\<^sup>* s ?s2" using producer_step.has_room [of ?s1 ev ?t cap] False s1 by (auto intro: rtranclp.rtrancl_into_rtrancl)
    from assms(4) False obtain q2 where q2: "construct_slot cap ?t ev (queue s) = Ret () q2" "b" "q = q2\<lparr>tail_cursor := ?t + 1\<rparr>"
      by (auto simp: tryPush_def Let_def bind_outcome_Ret_iff)
    from push [of ?s2 q2] q2 s2 show ?thesis by (auto intro: rtranclp_trans)
  next
    case True
    let ?q1 = "(queue s)\<lparr>cached_head := head_cursor (queue s)\<rparr>"
    let ?s2 = "?s1\<lparr>producer := PFull ev ?t\<rparr>"
    have s2: "(producer_step cap)\<^sup>*\<^sup>* s ?s2" using producer_step.looks_full [of ?s1 ev ?t cap] True s1 by (auto intro: rtranclp.rtrancl_into_rtrancl)
    let ?s3 = "?s2\<lparr>queue := (queue ?s2)\<lparr>cached_head := word_of_nat ?k\<rparr>, seen_head := ?k,
      producer := (if is_full cap ?t (word_of_nat ?k) then PIdle else PReady ev ?t)\<rparr>"
    have "producer_step cap ?s2 ?s3" using producer_step.refresh_head [of ?s2 ev ?t ?k cap] assms(2) by simp
    then have s3: "(producer_step cap)\<^sup>*\<^sup>* s ?s3" using s2 by (rule rtranclp.rtrancl_into_rtrancl [rotated])
    have q3: "queue ?s3 = ?q1" using assms(3) by simp
    show ?thesis
    proof (cases "is_full cap ?t (word_of_nat ?k)")
      case full: True
      then have "b = False" "q = ?q1" using assms(3,4) True by (auto simp: tryPush_def Let_def)
      with s3 q3 full show ?thesis by (intro exI [of _ ?s3]) simp
    next
      case room: False
      then obtain q2 where q2: "construct_slot cap ?t ev ?q1 = Ret () q2" "b" "q = q2\<lparr>tail_cursor := ?t + 1\<rparr>"
        using assms(3,4) True by (auto simp: tryPush_def Let_def bind_outcome_Ret_iff)
      from push [of ?s3 q2] q2 q3 room obtain t where "(producer_step cap)\<^sup>*\<^sup>* ?s3 t" "producer t = PIdle" "queue t = q"
        "popped t = popped s" "consumer t = consumer s" "pushed t = pushed s @ [ev]" by auto
      with s3 q2(2) show ?thesis by (intro exI [of _ t]) (auto intro: rtranclp_trans)
    qed
  qed
qed

subsection \<open>Progress\<close>

text \<open>The number of own steps a call still needs at most.\<close>

fun push_rank :: "producer_state \<Rightarrow> nat" where
  "push_rank PIdle = 0"
| "push_rank (PWritten ev t) = 1"
| "push_rank (PReady ev t) = 2"
| "push_rank (PFull ev t) = 3"
| "push_rank (PLoaded ev t) = 4"

fun pop_rank :: "consumer_state \<Rightarrow> nat" where
  "pop_rank CIdle = 0"
| "pop_rank (CTaken h ev) = 1"
| "pop_rank (CReady h) = 2"
| "pop_rank (CEmpty h) = 3"
| "pop_rank (CLoaded h) = 4"

lemma producer_step_rank: "producer_step cap s t \<Longrightarrow> producer s \<noteq> PIdle \<Longrightarrow> push_rank (producer t) < push_rank (producer s)"
  by (induction rule: producer_step.induct) auto

lemma consumer_step_rank: "consumer_step cap s t \<Longrightarrow> consumer s \<noteq> CIdle \<Longrightarrow> pop_rank (consumer t) < pop_rank (consumer s)"
  by (induction rule: consumer_step.induct) auto

lemma producer_enabled:
  assumes "spsc_inv cap s"
  shows "\<exists>t. producer_step cap s t"
proof (cases "producer s")
  case (PFull ev t)
  have "seen_head s \<le> length (popped s)" using spsc_invD(1) [OF assms] by (simp add: cursors_ok_def)
  with PFull producer_step.refresh_head show ?thesis by blast
next
  case (PLoaded ev t)
  then show ?thesis using producer_step.looks_full producer_step.has_room by (cases "is_full cap t (cached_head (queue s))") blast+
next
  case (PReady ev t)
  then show ?thesis using producer_step.construct producer_step.construct_broken
    by (cases "construct_slot cap t ev (queue s)") blast+
qed (use producer_step.load_tail producer_step.publish in blast)+

lemma consumer_enabled:
  assumes "spsc_inv cap s"
  shows "\<exists>t. consumer_step cap s t"
proof (cases "consumer s")
  case (CEmpty h)
  have "seen_tail s \<le> length (pushed s)" using spsc_invD(1) [OF assms] by (simp add: cursors_ok_def)
  with CEmpty consumer_step.refresh_tail show ?thesis by blast
next
  case (CLoaded h)
  then show ?thesis using consumer_step.looks_empty consumer_step.has_event by (cases "h = cached_tail (queue s)") blast+
next
  case (CReady h)
  then show ?thesis using consumer_step.take_event consumer_step.take_broken
    by (cases "move_from_slot cap h (queue s)") blast+
qed (use consumer_step.load_head consumer_step.release in blast)+

text \<open>Once both threads are outside their operations the destructor finds every event left.\<close>

lemma spsc_inv_destroy:
  assumes "capacity_ok cap" and "spsc_inv cap s" and "producer s = PIdle" and "consumer s = CIdle"
  shows "\<exists>q'. SpscEventQueue_destroy cap (queue s) = Ret () q' \<and> (\<forall>i < cap. event_storage q' i = None)"
proof -
  note D = spsc_invD [OF assms(2)]
  have e: "live_from s = length (popped s)" "live_events s = drop (length (popped s)) (pushed s)"
    using assms(3,4) by (simp_all add: live_from_def live_events_def)
  have c: "length (popped s) \<le> length (pushed s)" "length (pushed s) \<le> length (popped s) + cap" using D(1) by (auto simp: cursors_ok_def)
  then have "length (popped s) + length (live_events s) = length (pushed s)" "length (live_events s) \<le> cap" by (simp_all add: e)
  with destroy_events_window [OF assms(1) D(6)] D(1) e(1) show ?thesis
    by (simp add: SpscEventQueue_destroy_def cursors_ok_def del: of_nat_add)
qed

section \<open>Properties\<close>

text \<open>
  C9. Between two threads the queue is a bounded FIFO without data races: in every reachable
  state of every interleaving, with cursors that wrap and loads that may be stale, the
  events taken are a prefix of the events published, at most \<open>Capacity\<close> are in flight, no
  event was constructed over a live one or read from a dead slot, whenever both threads
  are about to touch the storage they touch different slots, and the destructor, run when
  neither thread is in a call, destroys every event left and nothing else.
\<close>
theorem spsc_fifo_race_free:
  assumes "capacity_ok cap" and "spsc_reaches cap s"
  shows "(\<exists>rest. pushed s = popped s @ rest \<and> length rest \<le> cap \<and> unat (sizeApprox (queue s)) = length rest) \<and> \<not> broken s \<and>
    (\<forall>ev t h. producer s = PReady ev t \<and> consumer s = CReady h \<longrightarrow> slot_index cap t \<noteq> slot_index cap h) \<and>
    (producer s = PIdle \<and> consumer s = CIdle \<longrightarrow>
       (\<exists>q. SpscEventQueue_destroy cap (queue s) = Ret () q \<and> (\<forall>i < cap. event_storage q i = None)))"
proof -
  note inv = spsc_reaches_inv [OF assms]
  note D = spsc_invD [OF inv]
  let ?H = "length (popped s)" and ?T = "length (pushed s)"
  have c: "?H \<le> ?T" "?T - ?H \<le> cap" using D(1) by (auto simp: cursors_ok_def)
  have "pushed s = popped s @ drop ?H (pushed s)" using D(3) append_take_drop_id [of ?H "pushed s"] by simp
  moreover have "unat (sizeApprox (queue s)) = ?T - ?H"
    using cursor_diff [OF c(1)] c(2) capacity_bounds [OF assms(1)] D(1) by (simp add: sizeApprox_def cursors_ok_def)
  moreover have "slot_index cap t \<noteq> slot_index cap h" if "producer s = PReady ev t" "consumer s = CReady h" for ev t h
  proof -
    have "t = word_of_nat ?T" "h = word_of_nat ?H" "?H < ?T" "?T - ?H < cap" using that D(1,4,5) by (auto simp: cursors_ok_def)
    then show ?thesis using mod_window [of ?H ?T cap] by (simp add: slot_index_nat [OF assms(1)])
  qed
  ultimately show ?thesis using D(2) c(2) spsc_inv_destroy [OF assms(1) inv]
    by (intro conjI exI [of _ "drop ?H (pushed s)"] impI) auto
qed

text \<open>
  C28. Both operations are wait-free: in every reachable state each thread has a next step,
  and whatever the other thread does in between, a started push or pop is over after at
  most four own steps.
\<close>
theorem spsc_wait_free:
  assumes "capacity_ok cap" and "spsc_reaches cap s"
  shows "(\<exists>t. producer_step cap s t) \<and> (\<exists>t. consumer_step cap s t) \<and> push_rank (producer s) \<le> 4 \<and> pop_rank (consumer s) \<le> 4 \<and>
    (\<forall>t. producer_step cap s t \<longrightarrow> consumer t = consumer s \<and>
       (producer s = PIdle \<or> push_rank (producer t) < push_rank (producer s))) \<and>
    (\<forall>t. consumer_step cap s t \<longrightarrow> producer t = producer s \<and>
       (consumer s = CIdle \<or> pop_rank (consumer t) < pop_rank (consumer s)))"
proof -
  note inv = spsc_reaches_inv [OF assms]
  have "push_rank (producer s) \<le> 4" by (cases "producer s") auto
  moreover have "pop_rank (consumer s) \<le> 4" by (cases "consumer s") auto
  moreover have "consumer t = consumer s" if "producer_step cap s t" for t using that by cases auto
  moreover have "producer t = producer s" if "consumer_step cap s t" for t using that by cases auto
  ultimately show ?thesis
    using producer_enabled [OF inv] consumer_enabled [OF inv] producer_step_rank consumer_step_rank by blast
qed

text \<open>
  Used by one thread at a time the queue answers every sequence of pushes and pops as a
  list bounded by \<open>Capacity\<close> does: a push is refused exactly when the list is full, a pop
  exactly when it is empty, and events come out in the order they went in. The destructor
  then leaves no live event behind and never destroys a dead one.
\<close>
theorem spsc_sequential_fifo:
  assumes "capacity_ok cap"
  shows "\<exists>q q'. run_queue (tryPush cap) (tryPop cap) ops SpscEventQueue_new = Ret (fst (spec_queue cap ops [])) q \<and>
    SpscEventQueue_destroy cap q = Ret () q' \<and> (\<forall>i < cap. event_storage q' i = None)"
  using spsc.run_queue_spec [of cap SpscEventQueue_new "[]" ops] assms queue_rep_new queue_rep_destroy by blast

theorem spsc_sequential_fifo_witness:
  "\<exists>q. run_queue (tryPush 2) (tryPop 2) [Push (CancelEvent \<lparr>cancelOrderId = 1\<rparr>), Pop, Pop] SpscEventQueue_new =
     Ret [Pushed True, Popped (Some (CancelEvent \<lparr>cancelOrderId = 1\<rparr>)), Popped None] q"
proof -
  have "capacity_ok 2" by (simp add: capacity_ok_def SIZE_RANGE_def)
  from spsc_sequential_fifo [OF this, of "[Push (CancelEvent \<lparr>cancelOrderId = 1\<rparr>), Pop, Pop]"] show ?thesis by auto
qed

text \<open>A run to the point where an event is ready in one slot and the other is written.\<close>

definition spsc_demo :: spsc_system where
  "spsc_demo = spsc_start\<lparr>producer := PLoaded (CancelEvent \<lparr>cancelOrderId = 1\<rparr>) 0\<rparr>"

lemma spsc_demo_reached: "spsc_reaches 2 spsc_demo"
proof -
  have "producer_step 2 spsc_start spsc_demo"
    using producer_step.load_tail [of spsc_start 2 "CancelEvent \<lparr>cancelOrderId = 1\<rparr>"]
    by (simp add: spsc_demo_def spsc_start_def SpscEventQueue_new_def)
  with spsc_reaches.reach_start show ?thesis by (rule spsc_reaches.reach_producer)
qed

theorem spsc_fifo_race_free_witness:
  "\<exists>rest. pushed spsc_demo = popped spsc_demo @ rest \<and> length rest \<le> 2"
  using spsc_fifo_race_free [OF _ spsc_demo_reached] by (auto simp: capacity_ok_def SIZE_RANGE_def)

theorem spsc_wait_free_witness:
  "\<exists>t. producer_step 2 spsc_demo t \<and> push_rank (producer t) < 4"
proof -
  have "capacity_ok 2" by (simp add: capacity_ok_def SIZE_RANGE_def)
  from spsc_wait_free [OF this spsc_demo_reached] obtain t where "producer_step 2 spsc_demo t"
    "producer spsc_demo = PIdle \<or> push_rank (producer t) < push_rank (producer spsc_demo)" by blast
  then show ?thesis by (auto simp: spsc_demo_def)
qed

end
