(* ===== verification/Interchange_Feed.thy ===== *)
theory Interchange_Feed
  imports Itch_Replay
begin

text \<open>
  The interchange format, shared by \<open>threaded_replay_benchmark.cpp\<close>, \<open>snapshot_recorder.cpp\<close> and
  \<open>benchmark_interchange.cpp\<close>: the parser of its rows (the three files hold the same text),
  the ladder whose headroom is rounded to the tick, and the engine on a book of that size. The
  row splitter and the line loop are those of \<open>Text_Format\<close>. The lemmas give the price range
  of a file and what the rounded ladder covers.
\<close>

section \<open>Model\<close>

text \<open>Digits after leading spaces, up to the first other character.\<close>

definition is_dec :: "char \<Rightarrow> bool" where
  "is_dec c \<longleftrightarrow> \<not> (char_value c < char_value (CHR ''0'') \<or> char_value c > char_value (CHR ''9''))"

definition parseU64_digits :: "string \<Rightarrow> u64" where
  "parseU64_digits s = parseU64 (takeWhile is_dec (dropWhile (\<lambda>c. c = CHR '' '') s))"

definition parsePriceRaw_digits :: "string \<Rightarrow> u64 option" where
  "parsePriceRaw_digits s =
     (let trimmed = trim_right (dropWhile (\<lambda>c. c = CHR '' '') s) in
      if trimmed = [] then None else Some (parseU64_digits trimmed))"

datatype event_kind = KindNew | KindCancel | KindReduce

record parsed_event =
  tsNs :: u64
  kind :: event_kind
  parsed_id :: u64
  parsed_side :: order_side
  parsed_type :: order_type
  parsed_price :: u64
  parsed_quantity :: u64

definition toOrderEvent :: "parsed_event \<Rightarrow> order_event" where
  "toOrderEvent e =
     (case kind e of
        KindNew \<Rightarrow> NewEvent \<lparr>newOrderId = parsed_id e, newPrice = parsed_price e, newQuantity = parsed_quantity e,
          newTimestamp = tsNs e, newSide = parsed_side e, newType = parsed_type e\<rparr>
      | KindCancel \<Rightarrow> CancelEvent \<lparr>cancelOrderId = parsed_id e\<rparr>
      | KindReduce \<Rightarrow> ReduceEvent \<lparr>reduceOrderId = parsed_id e, reduceQuantity = parsed_quantity e\<rparr>)"

record feed =
  events :: "parsed_event list"
  feedMin :: u64
  feedMax :: u64

definition feed_start :: feed where
  "feed_start = \<lparr>events = [], feedMin = - 1, feedMax = 0\<rparr>"

definition note_feed :: "u64 \<Rightarrow> feed \<Rightarrow> feed" where
  "note_feed p fd = (if p = 0 then fd else fd\<lparr>feedMin := min (feedMin fd) p, feedMax := max (feedMax fd) p\<rparr>)"

definition event_of :: "string \<Rightarrow> event_kind option" where
  "event_of s =
     (if s = ''NEW'' then Some KindNew else if s = ''CANCEL'' then Some KindCancel
      else if s = ''REDUCE'' then Some KindReduce else None)"

definition feed_row :: "string list \<Rightarrow> feed \<Rightarrow> feed" where
  "feed_row f fd =
     (case event_of (f ! 2) of
        None \<Rightarrow> fd
      | Some k \<Rightarrow>
        let e = \<lparr>tsNs = parseU64_digits (f ! 1), kind = k, parsed_id = parseU64_digits (f ! 3),
                 parsed_side = (if f ! 4 \<noteq> [] \<and> f ! 4 ! 0 = CHR ''B'' then BUY else SELL),
                 parsed_type = (if f ! 5 = ''MARKET'' then MARKET else LIMIT), parsed_price = 0,
                 parsed_quantity = parseU64_digits (f ! 7)\<rparr> in
        (case parsePriceRaw_digits (f ! 6) of
           None \<Rightarrow> fd\<lparr>events := events fd @ [e]\<rparr>
         | Some p \<Rightarrow>
           let fd1 = (if k = KindNew \<and> parsed_type e = LIMIT then note_feed p fd else fd) in
           fd1\<lparr>events := events fd1 @ [e\<lparr>parsed_price := p\<rparr>]\<rparr>))"

definition read_feed :: "string \<Rightarrow> feed" where
  "read_feed input = fold feed_row (map (splitRow 8) (tl (forEachLine input))) feed_start"

definition size_ladder_rounded :: "(u64 \<Rightarrow> u64) \<Rightarrow> u64 \<Rightarrow> feed \<Rightarrow> ladder_config option" where
  "size_ladder_rounded scaled tick fd =
     (if tick = 0 then None
      else let span = feedMax fd - feedMin fd;
               rawHeadroom = scaled span + tick;
               headroom = (rawHeadroom + tick - 1) div tick * tick;
               mn0 = (if feedMin fd > headroom then feedMin fd - headroom else feedMin fd mod tick);
               mn = (if mn0 = 0 then tick else mn0);
               mx = feedMax fd + headroom
           in Some \<lparr>ladderMin = mn, ladderTick = tick, ladderLevels = (unat ((mx - mn) div tick) + 1) mod SIZE_RANGE\<rparr>)"

text \<open>
  The engine of a tool: a book sized for the feed, with capacity for all its events reserved
  where the tool does so (\<open>reserve\<close>).
\<close>

definition interchange_engine :: "os_env \<Rightarrow> hash_fun \<Rightarrow> (u64 \<Rightarrow> u64) \<Rightarrow> u64 \<Rightarrow> bool \<Rightarrow> u64 \<Rightarrow> feed \<Rightarrow> error + engine" where
  "interchange_engine os H scaled tick reserve c fd =
     (case size_ladder_rounded scaled tick fd of
        None \<Rightarrow> Inl (UndefinedBehaviour ''division by zero'')
      | Some cfg \<Rightarrow>
        (case OrderBook_new (ladderMin cfg) (ladderTick cfg) (ladderLevels cfg) of
           Inl e \<Rightarrow> Inl e
         | Inr B \<Rightarrow>
           if \<not> reserve then Inr (MatchingEngine_new B c)
           else (case reserveOrderCapacity os H (length (events fd)) B of
              Throw e _ \<Rightarrow> Inl e
            | Ret _ B1 \<Rightarrow> Inr (MatchingEngine_new B1 c))))"

section \<open>Lemmas\<close>

text \<open>The buffer is cleared first, so what it held does not matter.\<close>

lemma processEvent_into_buffer: "processEvent_into os H ev (E, buf) = processEvent_into os H ev (E, [])"
  by (simp add: processEvent_into_def)

lemma run_snoc: "run exec (cs @ [c]) s = (let (rs, s1) = run exec cs s; (r, s2) = exec c s1 in (rs @ [r], s2))"
  by (induction cs arbitrary: s) (auto simp: Let_def split: prod.splits)

lemma demo_engine_sound: "spec_inv (view demo_engine)"
  unfolding demo_engine_ok(2)
  by (simp add: spec_inv_def sound_order_def demo_order_def Order_new_def Order_full_def)

subsection \<open>The rounded ladder\<close>

lemma ladder_hits:
  assumes "tick \<noteq> 0" and "mn \<noteq> 0" and top: "unat mn + L * unat tick < SIZE_RANGE"
  obtains l where "PriceLadder_new mn tick (L + 1) desc = Inr l"
    "\<And>p. mn \<le> p \<Longrightarrow> unat p \<le> unat mn + L * unat tick \<Longrightarrow> unat tick dvd unat p - unat mn \<Longrightarrow> \<exists>k. indexOf p l = Inr k"
proof -
  have T: "0 < unat tick" using assms(1) by (simp add: u64_eq_0_iff)
  have "L \<le> L * unat tick" using T by simp
  then have L: "L < SIZE_RANGE" using top by linarith
  then have uL: "unat (word_of_nat L :: u64) = L" by (simp add: unat_of_nat SIZE_RANGE_def)
  have "unat (- 1 - mn :: u64) = SIZE_RANGE - 1 - unat mn" using unat_sub_u64 [of mn "- 1"] by simp
  moreover have "L \<le> (SIZE_RANGE - 1 - unat mn) div unat tick" using top T by (simp add: less_eq_div_iff_mult_less_eq)
  ultimately have ok: "\<not> word_of_nat L > (- 1 - mn) div tick" by (simp add: u64_less_iff unat_div uL)
  define mx where "mx = mn + word_of_nat L * tick"
  have "unat (word_of_nat L * tick) = L * unat tick" using top by (simp add: unat_word_ariths uL SIZE_RANGE_def)
  then have mx: "unat mx = unat mn + L * unat tick" unfolding mx_def using top by (subst unat_add_u64) simp_all
  define l where "l = projr (PriceLadder_new mn tick (L + 1) desc)"
  have l: "PriceLadder_new mn tick (L + 1) desc = Inr l" "minPrice l = mn" "maxPrice l = mx" "tickSize l = tick" "descending l = desc"
    using assms(1,2) ok by (simp_all add: l_def PriceLadder_new_def Let_def mx_def)
  have "\<exists>k. indexOf p l = Inr k" if p: "mn \<le> p" "unat p \<le> unat mn + L * unat tick" "unat tick dvd unat p - unat mn" for p
  proof -
    have le: "p \<le> mx" using p(2) mx by (simp add: u64_le_iff)
    have "unat (p - mn) mod unat tick = 0" using p(1,3) by (simp add: unat_sub_u64)
    moreover have "unat tick dvd (L * unat tick - (unat p - unat mn))" using p(3) by (simp add: dvd_diff_nat)
    then have "unat (mx - p) mod unat tick = 0" using le p(1) mx by (simp add: unat_sub_u64 u64_le_iff add.commute mod_eq_0_iff_dvd)
    ultimately have "(p - mn) mod tick = 0" "(mx - p) mod tick = 0" by (simp_all add: u64_eq_0_iff unat_mod)
    then show ?thesis using le p(1) by (simp add: indexOf_def Let_def l not_less)
  qed
  with that l(1) show thesis by blast
qed

lemma rounded_bounds:
  fixes t m r h mn :: nat
  assumes "0 < t" and "0 < m" and "h = (r + t - 1) div t * t"
    and "mn = (let z = (if m > h then m - h else m mod t) in if z = 0 then t else z)"
  shows "r \<le> h" "h < r + t" "0 < mn" "mn \<le> m" "t dvd m - mn"
proof -
  have e: "(r + t - 1) div t * t + (r + t - 1) mod t = r + t - 1" by simp
  have "(r + t - 1) mod t < t" using assms(1) by simp
  with e assms(1,3) show "r \<le> h" "h < r + t" by linarith+
  have d: "t dvd h" using assms(3) by simp
  show "0 < mn" using assms(1,4) by (simp add: Let_def)
  show "mn \<le> m" using assms(1,2,4) by (auto simp: Let_def mod_eq_0_iff_dvd dvd_imp_le split: if_splits)
  show "t dvd m - mn" using d assms(1,2,4) by (auto simp: Let_def dvd_diff_nat minus_mod_eq_mult_div mod_eq_0_iff_dvd split: if_splits)
qed

lemma unat_mul_le: "unat (a :: u64) * unat b < SIZE_RANGE \<Longrightarrow> unat (a * b) = unat a * unat b"
  by (simp add: unat_word_ariths SIZE_RANGE_def)

lemma size_ladder_rounded_shape:
  assumes "tick \<noteq> 0" and "feedMin fd \<noteq> 0" and "feedMin fd \<le> feedMax fd"
    and "unat (feedMax fd) + unat (scaled (feedMax fd - feedMin fd)) + 2 * unat tick < SIZE_RANGE"
  obtains mn L where "size_ladder_rounded scaled tick fd = Some \<lparr>ladderMin = mn, ladderTick = tick, ladderLevels = L + 1\<rparr>"
    "mn \<noteq> 0" "mn \<le> feedMin fd" "unat tick dvd unat (feedMin fd) - unat mn" "unat (feedMax fd) \<le> unat mn + L * unat tick"
    "unat mn + L * unat tick < SIZE_RANGE"
proof -
  let ?t = "unat tick" and ?m = "unat (feedMin fd)" and ?M = "unat (feedMax fd)" and ?r = "unat (scaled (feedMax fd - feedMin fd)) + unat tick"
  define raw where "raw = scaled (feedMax fd - feedMin fd) + tick"
  define hr where "hr = (raw + tick - 1) div tick * tick"
  define mn where "mn = (let z = (if feedMin fd > hr then feedMin fd - hr else feedMin fd mod tick) in if z = 0 then tick else z)"
  define mx where "mx = feedMax fd + hr"
  have t: "0 < ?t" "0 < ?m" using assms(1,2) by (simp_all add: u64_eq_0_iff)
  have raw: "unat raw = ?r" unfolding raw_def using assms(4) by (intro unat_add_u64) simp
  have "unat (raw + tick - 1) = ?r + ?t - 1"
  proof -
    have a: "unat (raw + tick) = ?r + ?t" using unat_add_u64 [of raw tick] raw assms(4) by simp
    moreover have "(1 :: u64) \<le> raw + tick" using a t(1) by (simp add: u64_le_iff)
    ultimately show ?thesis using unat_sub_u64 [of 1 "raw + tick"] by simp
  qed
  moreover have "(?r + ?t - 1) div ?t * ?t < SIZE_RANGE"
    using rounded_bounds(2) [OF t, of "(?r + ?t - 1) div ?t * ?t" ?r] assms(4) by auto
  ultimately have hr: "unat hr = (?r + ?t - 1) div ?t * ?t"
    unfolding hr_def using unat_mul_le [of "(raw + tick - 1) div tick" tick] by (simp add: unat_div)
  have z: "unat mn = (let z = (if ?m > unat hr then ?m - unat hr else ?m mod ?t) in if z = 0 then ?t else z)"
    unfolding mn_def Let_def by (auto simp: u64_less_iff u64_eq_0_iff unat_sub_u64 unat_mod u64_le_iff)
  note b = rounded_bounds [OF t hr z]
  have mx: "unat mx = ?M + unat hr" unfolding mx_def using assms(4) b(2) by (intro unat_add_u64) linarith
  have le: "mn \<le> mx" "mn \<le> feedMin fd" "mn \<noteq> 0" "?m \<le> ?M" using b(3,4) mx assms(3) by (auto simp: u64_le_iff u64_eq_0_iff)
  define L where "L = unat ((mx - mn) div tick)"
  have L: "L = (unat mx - unat mn) div ?t" by (simp add: L_def unat_div unat_sub_u64 [OF le(1)])
  have e: "L * ?t + (unat mx - unat mn) mod ?t = unat mx - unat mn" unfolding L by simp
  have lt: "(unat mx - unat mn) mod ?t < ?t" using t(1) by simp
  have up: "unat mn + L * ?t \<le> unat mx" using e b(4) le(4) mx by linarith
  then have top: "unat mn + L * ?t < SIZE_RANGE" using unat_less_range [of mx] by linarith
  have all: "?M \<le> unat mn + L * ?t" using e lt b(1) mx t(1) b(4) le(4) by linarith
  have "L + 1 < SIZE_RANGE"
  proof -
    have "L \<le> L * ?t" using t(1) by simp
    with top b(3) show ?thesis by linarith
  qed
  then have s: "size_ladder_rounded scaled tick fd = Some \<lparr>ladderMin = mn, ladderTick = tick, ladderLevels = L + 1\<rparr>"
    using assms(1) unfolding size_ladder_rounded_def raw_def [symmetric] Let_def
    unfolding hr_def [symmetric] mx_def [symmetric] mn_def [unfolded Let_def, symmetric] L_def [symmetric] by simp
  show thesis by (rule that [OF s le(3,2) b(5) all top])
qed

lemma rounded_ladder_on_grid:
  assumes "tick \<noteq> 0" and "feedMin fd \<noteq> 0" and "feedMin fd \<le> feedMax fd"
    and "unat (feedMax fd) + unat (scaled (feedMax fd - feedMin fd)) + 2 * unat tick < SIZE_RANGE"
  shows "\<exists>cfg B. size_ladder_rounded scaled tick fd = Some cfg \<and>
    OrderBook_new (ladderMin cfg) (ladderTick cfg) (ladderLevels cfg) = Inr B \<and>
    (\<forall>p d. feedMin fd \<le> p \<and> p \<le> feedMax fd \<and> unat tick dvd unat p - unat (feedMin fd) \<longrightarrow>
       (\<exists>k. indexOf p (ladder_of d B) = Inr k))"
proof -
  let ?t = "unat tick" and ?m = "unat (feedMin fd)"
  obtain mn L where s: "size_ladder_rounded scaled tick fd = Some \<lparr>ladderMin = mn, ladderTick = tick, ladderLevels = L + 1\<rparr>"
    and mn: "mn \<noteq> 0" "mn \<le> feedMin fd" "?t dvd ?m - unat mn"
    and all: "unat (feedMax fd) \<le> unat mn + L * ?t" and top: "unat mn + L * ?t < SIZE_RANGE"
    by (rule size_ladder_rounded_shape [where scaled = scaled, OF assms])
  obtain l1 where l1: "PriceLadder_new mn tick (L + 1) True = Inr l1"
    "\<And>p. mn \<le> p \<Longrightarrow> unat p \<le> unat mn + L * ?t \<Longrightarrow> ?t dvd unat p - unat mn \<Longrightarrow> \<exists>k. indexOf p l1 = Inr k"
    using ladder_hits [OF assms(1) mn(1) top] by blast
  obtain l2 where l2: "PriceLadder_new mn tick (L + 1) False = Inr l2"
    "\<And>p. mn \<le> p \<Longrightarrow> unat p \<le> unat mn + L * ?t \<Longrightarrow> ?t dvd unat p - unat mn \<Longrightarrow> \<exists>k. indexOf p l2 = Inr k"
    using ladder_hits [OF assms(1) mn(1) top] by blast
  have hit: "mn \<le> p" "unat p \<le> unat mn + L * ?t" "?t dvd unat p - unat mn"
    if p: "feedMin fd \<le> p \<and> p \<le> feedMax fd \<and> ?t dvd unat p - ?m" for p
  proof -
    show "mn \<le> p" using p mn(2) by (meson order_trans)
    show "unat p \<le> unat mn + L * ?t" using p all by (auto simp: u64_le_iff)
    have "unat p - unat mn = (unat p - ?m) + (?m - unat mn)" using p mn(2) by (simp add: u64_le_iff)
    then show "?t dvd unat p - unat mn" using p mn(3) by (metis dvd_add)
  qed
  let ?B = "\<lparr>orderPool = OrderPool_new, orderIndex = OrderIndex_new, bids = l1, asks = l2\<rparr>"
  have "OrderBook_new mn tick (L + 1) = Inr ?B" by (simp add: OrderBook_new_def l1(1) [simplified] l2(1) [simplified])
  moreover have "\<exists>k. indexOf p (ladder_of d ?B) = Inr k" if "feedMin fd \<le> p \<and> p \<le> feedMax fd \<and> ?t dvd unat p - ?m" for p d
    using l1(2) [OF hit [OF that]] l2(2) [OF hit [OF that]] by (cases d) simp_all
  ultimately show ?thesis using s by auto
qed

lemma interchange_engine_sound:
  assumes "interchange_engine os H scaled tick reserve c fd = Inr E" and "os_fresh os" and "length (events fd) < 2 ^ 53"
  shows "book_ok os H (book E)" "view E = (\<lambda>_. [], c)" "spec_inv (view E)"
proof -
  obtain cfg B where x: "size_ladder_rounded scaled tick fd = Some cfg"
    "OrderBook_new (ladderMin cfg) (ladderTick cfg) (ladderLevels cfg) = Inr B"
    using assms(1) by (auto simp: interchange_engine_def split: option.splits sum.splits)
  have lc: "ladderLevels cfg < SIZE_RANGE" using x(1) by (auto simp: size_ladder_rounded_def Let_def SIZE_RANGE_def split: if_splits)
  note new = book_rep_ok [OF book_rep_new [OF x(2) lc]] resting_new [OF x(2) lc]
  have "book_ok os H (book E) \<and> view E = (\<lambda>_. [], c)"
  proof (cases reserve)
    case False
    with assms(1) x new show ?thesis by (auto simp: interchange_engine_def MatchingEngine_new_def view_def)
  next
    case True
    with assms(1) x obtain B1 where B1: "reserveOrderCapacity os H (length (events fd)) B = Ret () B1" "E = MatchingEngine_new B1 c"
      by (auto simp: interchange_engine_def split: outcome.splits)
    note r = reserve_book [OF new(1) assms(2) B1(1) assms(3)]
    show ?thesis using r(1) r(2) new(2) B1(2) by (simp add: MatchingEngine_new_def view_def)
  qed
  then show "book_ok os H (book E)" "view E = (\<lambda>_. [], c)" "spec_inv (view E)" by (simp_all add: spec_inv_def)
qed

subsection \<open>The range of a feed\<close>

definition quoting :: "parsed_event \<Rightarrow> bool" where
  "quoting e \<longleftrightarrow> kind e = KindNew \<and> parsed_type e = LIMIT \<and> parsed_price e \<noteq> 0"

definition feed_ok :: "feed \<Rightarrow> bool" where
  "feed_ok fd \<longleftrightarrow> feedMin fd \<noteq> 0 \<and> (\<forall>e \<in> set (events fd). quoting e \<longrightarrow> feedMin fd \<le> parsed_price e \<and> parsed_price e \<le> feedMax fd)"

lemma note_feed_ok:
  assumes "feed_ok fd"
  shows "feed_ok (note_feed p fd)" "p \<noteq> 0 \<Longrightarrow> feedMin (note_feed p fd) \<le> p \<and> p \<le> feedMax (note_feed p fd)"
    "events (note_feed p fd) = events fd"
  using assms by (auto simp: feed_ok_def note_feed_def min_def max_def)

lemma feed_add_event:
  assumes "feed_ok fd" and "events fd = xs" and "quoting e \<Longrightarrow> feedMin fd \<le> parsed_price e \<and> parsed_price e \<le> feedMax fd"
  shows "feed_ok (fd\<lparr>events := xs @ [e]\<rparr>)"
  using assms by (auto simp: feed_ok_def)

lemma feed_row_ok: "feed_ok fd \<Longrightarrow> feed_ok (feed_row f fd)"
proof (cases "event_of (f ! 2)")
  case (Some k)
  assume ok: "feed_ok fd"
  show ?thesis
  proof (cases "parsePriceRaw_digits (f ! 6)")
    case None
    with Some ok show ?thesis by (auto simp: feed_row_def Let_def quoting_def intro!: feed_add_event)
  next
    case (Some p)
    with \<open>event_of (f ! 2) = Some k\<close> ok note_feed_ok [OF ok, of p] show ?thesis
      by (auto simp: feed_row_def Let_def quoting_def intro!: feed_add_event)
  qed
qed (simp add: feed_row_def)

lemma read_feed_ok: "feed_ok (read_feed input)"
proof -
  have "feed_ok (fold feed_row fs fd)" if "feed_ok fd" for fs fd using that by (induction fs arbitrary: fd) (simp_all add: feed_row_ok)
  moreover have "feed_ok feed_start" by (simp add: feed_ok_def feed_start_def)
  ultimately show ?thesis by (simp add: read_feed_def)
qed

section \<open>Properties\<close>

text \<open>
  C30. The rounded ladder of the interchange tools keeps the grid: for every tick, away from
  the top of the 64-bit range, a file with at least one priced limit order gives a book, and
  every limit price of the file that lies a whole number of ticks above the lowest one has a
  level on both sides.
\<close>
theorem interchange_ladder_on_grid:
  fixes input
  defines "fd \<equiv> read_feed input"
  assumes "tick \<noteq> 0" and "\<exists>e \<in> set (events fd). quoting e"
    and "unat (feedMax fd) + unat (scaled (feedMax fd - feedMin fd)) + 2 * unat tick < SIZE_RANGE"
  shows "\<exists>cfg B. size_ladder_rounded scaled tick fd = Some cfg \<and>
    OrderBook_new (ladderMin cfg) (ladderTick cfg) (ladderLevels cfg) = Inr B \<and>
    (\<forall>e \<in> set (events fd). quoting e \<and> unat tick dvd unat (parsed_price e) - unat (feedMin fd) \<longrightarrow>
       (\<forall>d. \<exists>k. indexOf (parsed_price e) (ladder_of d B) = Inr k))"
proof -
  have ok: "feedMin fd \<noteq> 0" "\<And>e. e \<in> set (events fd) \<Longrightarrow> quoting e \<Longrightarrow> feedMin fd \<le> parsed_price e \<and> parsed_price e \<le> feedMax fd"
    using read_feed_ok [of input] by (auto simp: feed_ok_def fd_def)
  then have "feedMin fd \<le> feedMax fd" using assms(3) by (meson order_trans)
  from rounded_ladder_on_grid [where scaled = scaled, OF assms(2) ok(1) this assms(4)] ok(2) show ?thesis by blast
qed

section \<open>A concrete file\<close>

text \<open>A sell order of ten at 15.0000 and a buy order of four at 15.1100, one cent a tick.\<close>

definition demo_rows :: "string list list" where
  "demo_rows =
     [[''1'', ''1'', ''NEW'', ''7'', ''S'', ''LIMIT'', ''150000'', ''10''],
      [''2'', ''2'', ''NEW'', ''8'', ''B'', ''LIMIT'', ''151100'', ''4'']]"

definition demo_csv :: string where
  "demo_csv = ''seq'' @ [CHR 0x0A] @ join_fields (demo_rows ! 0) @ [CHR 0x0A, CHR 0x0A] @ join_fields (demo_rows ! 1)"

definition demo_feed :: feed where
  "demo_feed =
     \<lparr>events =
        [\<lparr>tsNs = 1, kind = KindNew, parsed_id = 7, parsed_side = SELL, parsed_type = LIMIT, parsed_price = 150000, parsed_quantity = 10\<rparr>,
         \<lparr>tsNs = 2, kind = KindNew, parsed_id = 8, parsed_side = BUY, parsed_type = LIMIT, parsed_price = 151100, parsed_quantity = 4\<rparr>],
      feedMin = 150000, feedMax = 151100\<rparr>"

lemma demo_csv_feed: "read_feed demo_csv = demo_feed"
proof -
  let ?a = "join_fields (demo_rows ! 0)" and ?b = "join_fields (demo_rows ! 1)"
  have n: "CHR 0x0A \<notin> set ?a" "CHR 0x0A \<notin> set ?b" "?a \<noteq> []" "?b \<noteq> []" by (simp_all add: demo_rows_def join_fields_def)
  have rows: "splitRow 8 ?a = demo_rows ! 0" "splitRow 8 ?b = demo_rows ! 1"
    by (rule splitRow_join; simp add: demo_rows_def)+
  have "pieces (CHR 0x0A) demo_csv = [''seq'', ?a, [], ?b]"
    unfolding demo_csv_def using n(1,2) pieces_append [of "CHR 0x0A" "''seq''"] by (simp add: pieces_append pieces_none)
  then have "forEachLine demo_csv = [''seq'', ?a, ?b]" using n(3,4) by (simp add: forEachLine_pieces)
  then have "read_feed demo_csv = fold feed_row [demo_rows ! 0, demo_rows ! 1] feed_start"
    by (simp add: read_feed_def rows rows [unfolded One_nat_def])
  moreover have num: "parseU64_digits ''1'' = 1" "parseU64_digits ''2'' = 2" "parseU64_digits ''7'' = 7" "parseU64_digits ''8'' = 8"
    "parseU64_digits ''10'' = 10" "parseU64_digits ''4'' = 4" "parsePriceRaw_digits ''150000'' = Some 150000"
    "parsePriceRaw_digits ''151100'' = Some 151100"
    by (simp_all add: parseU64_digits_def parsePriceRaw_digits_def is_dec_def char_value_def parseU64_def trim_right_def)
  ultimately show ?thesis
    by (simp add: demo_rows_def feed_row_def event_of_def note_feed_def feed_start_def demo_feed_def Let_def)
qed

lemma demo_interchange_engine: "\<exists>E. interchange_engine one_page_os (\<lambda>k. k) fifth 100 True 0 demo_feed = Inr E"
proof -
  have "size_ladder_rounded fifth 100 demo_feed = Some \<lparr>ladderMin = 149600, ladderTick = 100, ladderLevels = 20\<rparr>"
    by (simp add: size_ladder_rounded_def demo_feed_def Let_def SIZE_RANGE_def)
  moreover obtain B where B: "OrderBook_new 149600 100 20 = Inr B" "orderPool B = OrderPool_new" "orderIndex B = OrderIndex_new"
    by (auto simp: OrderBook_new_def PriceLadder_new_def Let_def)
  moreover have "length (events demo_feed) = 2" by (simp add: demo_feed_def)
  ultimately show ?thesis using reserve_two [OF B(2,3)] by (auto simp: interchange_engine_def)
qed

section \<open>Witnesses\<close>

theorem interchange_ladder_on_grid_witness:
  "\<exists>cfg B. size_ladder_rounded fifth 100 demo_feed = Some cfg \<and>
    OrderBook_new (ladderMin cfg) (ladderTick cfg) (ladderLevels cfg) = Inr B \<and> (\<exists>k. indexOf 151100 (asks B) = Inr k)"
proof -
  have q: "\<exists>e \<in> set (events (read_feed demo_csv)). quoting e" by (simp add: demo_csv_feed demo_feed_def quoting_def)
  have b: "unat (feedMax (read_feed demo_csv)) + unat (fifth (feedMax (read_feed demo_csv) - feedMin (read_feed demo_csv))) +
      2 * unat (100 :: u64) < SIZE_RANGE" by (simp add: demo_csv_feed demo_feed_def SIZE_RANGE_def)
  from interchange_ladder_on_grid [where scaled = fifth, OF _ q b]
  obtain cfg B where B: "size_ladder_rounded fifth 100 demo_feed = Some cfg"
    "OrderBook_new (ladderMin cfg) (ladderTick cfg) (ladderLevels cfg) = Inr B"
    and all: "\<forall>e \<in> set (events demo_feed). quoting e \<and> unat (100 :: u64) dvd unat (parsed_price e) - unat (feedMin demo_feed) \<longrightarrow>
       (\<forall>d. \<exists>k. indexOf (parsed_price e) (ladder_of d B) = Inr k)" by (auto simp: demo_csv_feed)
  have "\<forall>d. \<exists>k. indexOf 151100 (ladder_of d B) = Inr k" using all by (simp add: demo_feed_def quoting_def)
  from this [rule_format, of Asks] B show ?thesis by auto
qed

end
