(* ===== verification/Replay_Loop.thy ===== *)
theory Replay_Loop
  imports Interchange_Feed
begin

text \<open>
  What the single-threaded tools share: the label of an event, the history of a sequential
  run of the engine over a file, and the interface of a loop that hands each event to the
  engine and keeps books on the replies. \<open>Interchange_Benchmark\<close> and \<open>Snapshot_Recorder\<close>
  interpret it on their loops.
\<close>

section \<open>Labels\<close>

text \<open>The label a latency sample is filed under: a market order always counts as crossing.\<close>

definition event_label :: "parsed_event \<Rightarrow> execution list \<Rightarrow> string" where
  "event_label e xs =
     (case kind e of
        KindNew \<Rightarrow> if parsed_type e = MARKET \<or> xs \<noteq> [] then ''NEW_CROSS'' else ''NEW_REST''
      | KindReduce \<Rightarrow> ''REDUCE''
      | KindCancel \<Rightarrow> ''CANCEL'')"

section \<open>The history of a run\<close>

text \<open>What the engine did with each event: the reply and the engine afterwards.\<close>

record turn =
  turn_event :: parsed_event
  turn_reply :: reply
  turn_engine :: engine

fun trace :: "os_env \<Rightarrow> hash_fun \<Rightarrow> engine \<Rightarrow> parsed_event list \<Rightarrow> turn list" where
  "trace os H E [] = []"
| "trace os H E (e # es) =
     (case engine_exec os H (toOrderEvent e) E of
        (r, E1) \<Rightarrow> \<lparr>turn_event = e, turn_reply = r, turn_engine = E1\<rparr> # trace os H E1 es)"

fun is_accepted :: "reply \<Rightarrow> bool" where
  "is_accepted (Accepted _) = True"
| "is_accepted (Failed _ _) = False"

fun executions_of :: "reply \<Rightarrow> execution list" where
  "executions_of (Accepted xs) = xs"
| "executions_of (Failed _ xs) = xs"

definition turn_label :: "turn \<Rightarrow> string" where
  "turn_label t = event_label (turn_event t) (executions_of (turn_reply t))"

text \<open>The accepted turns of a history, how many were refused, and the samples under a label.\<close>

definition accepted :: "turn list \<Rightarrow> turn list" where
  "accepted h = filter (is_accepted \<circ> turn_reply) h"

definition refused_count :: "turn list \<Rightarrow> nat" where
  "refused_count h = length (filter (Not \<circ> is_accepted \<circ> turn_reply) h)"

definition samples :: "(nat \<Rightarrow> u64) \<Rightarrow> string \<Rightarrow> turn list \<Rightarrow> u64 list" where
  "samples clock l h =
     map (clock \<circ> fst) (filter (\<lambda>(i, t). is_accepted (turn_reply t) \<and> turn_label t = l) (enumerate 0 h))"

lemma accepted_snoc [simp]: "accepted (h @ [t]) = accepted h @ (if is_accepted (turn_reply t) then [t] else [])"
  by (simp add: accepted_def)

lemma accepted_Nil [simp]: "accepted [] = []"
  by (simp add: accepted_def)

lemma refused_snoc [simp]: "refused_count (h @ [t]) = refused_count h + (if is_accepted (turn_reply t) then 0 else 1)"
  by (simp add: refused_count_def)

lemma refused_Nil [simp]: "refused_count [] = 0"
  by (simp add: refused_count_def)

lemma samples_snoc [simp]:
  "samples clock l (h @ [t]) =
     samples clock l h @ (if is_accepted (turn_reply t) \<and> turn_label t = l then [clock (length h)] else [])"
  by (simp add: samples_def enumerate_append_eq)

lemma samples_Nil [simp]: "samples clock l [] = []"
  by (simp add: samples_def)

lemma accepted_or_refused: "length (accepted h) + refused_count h = length h"
  using sum_length_filter_compl [of "is_accepted \<circ> turn_reply" h] by (simp add: accepted_def refused_count_def comp_def)

text \<open>Every accepted turn has exactly one of the four labels.\<close>

definition labels :: "string list" where
  "labels = [''NEW_REST'', ''NEW_CROSS'', ''CANCEL'', ''REDUCE'']"

lemma samples_total: "(\<Sum>l\<leftarrow>labels. length (samples clock l h)) + refused_count h = length h"
proof (induction h rule: rev_induct)
  case (snoc t h)
  have "turn_label t \<in> set labels" by (simp add: turn_label_def event_label_def labels_def split: event_kind.splits)
  with snoc show ?case by (auto simp: labels_def)
qed (simp add: labels_def)

lemma trace_run:
  "run (engine_exec os H) (map toOrderEvent evs) E =
     (map turn_reply (trace os H E evs), last (E # map turn_engine (trace os H E evs)))"
  by (induction evs arbitrary: E) (auto split: prod.splits)

lemma trace_events: "map turn_event (trace os H E evs) = evs"
  by (induction evs arbitrary: E) (auto split: prod.splits)

lemma trace_length [simp]: "length (trace os H E evs) = length evs"
  using arg_cong [OF trace_events, of length os H E evs] by simp

lemma trace_snoc:
  "trace os H E (es @ [e]) = trace os H E es @
     [(case engine_exec os H (toOrderEvent e) (last (E # map turn_engine (trace os H E es))) of
         (r, E1) \<Rightarrow> \<lparr>turn_event = e, turn_reply = r, turn_engine = E1\<rparr>)]"
  by (induction es arbitrary: E) (auto split: prod.splits)

section \<open>Loops over the engine\<close>

text \<open>
  A loop that hands each event to the engine and keeps books on the reply. The interface: on
  a sound engine a round ends normally, the engine is the one the event leads to, and the
  books agree with the history that is one turn longer. The client's lemma: the whole loop
  ends normally, and its books agree with the history of the sequential run.
\<close>

locale engine_loop =
  fixes os :: os_env and H :: hash_fun and round :: "nat \<Rightarrow> parsed_event \<Rightarrow> 's \<Rightarrow> (unit, 's) outcome"
    and engine_of :: "'s \<Rightarrow> engine" and books :: "turn list \<Rightarrow> 's \<Rightarrow> bool"
  assumes round_ok: "os_fresh os \<Longrightarrow> book_ok os H (book (engine_of s)) \<Longrightarrow> books h s \<Longrightarrow>
    engine_exec os H (toOrderEvent e) (engine_of s) = (r, E) \<Longrightarrow>
    \<exists>s'. round (length h) e s = Ret () s' \<and> engine_of s' = E \<and>
         books (h @ [\<lparr>turn_event = e, turn_reply = r, turn_engine = E\<rparr>]) s'"
begin

lemma loop_ok:
  assumes "os_fresh os" and "book_ok os H (book (engine_of s))" and "books h s"
  shows "\<exists>s'. run_all (\<lambda>(i, e). round i e) (enumerate (length h) evs) s = Ret () s' \<and>
    engine_of s' = last (engine_of s # map turn_engine (trace os H (engine_of s) evs)) \<and>
    books (h @ trace os H (engine_of s) evs) s'"
  using assms(2,3)
proof (induction evs arbitrary: h s)
  case (Cons e evs)
  obtain r E where x: "engine_exec os H (toOrderEvent e) (engine_of s) = (r, E)" by (cases "engine_exec os H (toOrderEvent e) (engine_of s)")
  from round_ok [OF assms(1) Cons.prems x] obtain s1 where s1: "round (length h) e s = Ret () s1" "engine_of s1 = E"
    "books (h @ [\<lparr>turn_event = e, turn_reply = r, turn_engine = E\<rparr>]) s1" by blast
  have "book_ok os H (book E)" using eng.simulated [of os H "engine_of s"] assms(1) Cons.prems(1) x by blast
  with Cons.IH [OF _ s1(3)] s1(1,2) x show ?case by auto
qed simp

end


lemma step_error: "engine_step ev v (Failed x xs) w \<Longrightarrow> defined_error x"
  by (cases rule: engine_step.cases) auto

text \<open>An engine call of a round, by its reply.\<close>

lemma engine_call_cases:
  assumes "os_fresh os" and "book_ok os H (book E)" and "engine_exec os H ev E = (r, E1)"
  obtains (accepted) k xs where "processEvent_into os H ev (E, buf) = Ret k (E1, xs)" "r = Accepted xs"
  | (failed) x xs where "processEvent_into os H ev (E, buf) = Throw x (E1, xs)" "r = Failed x xs" "defined_error x"
proof (cases "processEvent_into os H ev (E, buf)")
  case (Ret k s)
  with assms(3) accepted [of k "snd s"] show ?thesis
    by (auto simp: engine_exec_def Let_def reply_of_def next_engine_def processEvent_into_buffer [of os H ev E buf])
next
  case (Throw x s)
  have "engine_step ev (view E) r (view E1)" using eng.simulated [of os H E ev r E1] assms by blast
  with Throw assms(3) failed [of x "snd s"] show ?thesis
    by (auto simp: engine_exec_def Let_def reply_of_def next_engine_def processEvent_into_buffer [of os H ev E buf] dest: step_error)
qed

end
