(* ===== verification/Threaded_Replay.thy ===== *)
theory Threaded_Replay
  imports Spsc_Queue Replay_Loop Latency_Stats
begin

text \<open>
  \<open>threaded_replay_benchmark\<close> (\<open>tools/concurrency/threaded_replay_benchmark.cpp\<close>): the events of
  a file are parsed up front, a feed-handler thread pushes them through the SPSC queue and
  the matching thread pops them and runs the engine. The two loops are a step relation that
  interleaves the steps of \<open>Spsc_Queue\<close> with the loop bodies; the clock is an arbitrary value
  at each reading. Parsing and ladder sizing are those of \<open>Interchange_Feed\<close>. The lemmas
  give the invariant of the pipeline and that it can always be completed.
\<close>

section \<open>The two threads\<close>

text \<open>
  The feed handler pushes the events in order, each until the queue takes it, and stores a
  time stamp after every push; the matching thread pops, reads the stamp, and hands the
  event to the engine. \<open>stamped\<close> is the loop counter of the feed handler and \<open>consumed\<close>
  the one of the matching thread; an event that was popped and not yet processed is the
  last one of \<open>popped\<close>. The list \<open>raws\<close> stands for the parsed events of the file, which the
  matching thread consults for the label of a sample, and \<open>evs\<close> for what \<open>toOrderEvent\<close> makes
  of them.
\<close>

definition QueueCapacity :: nat where
  "QueueCapacity = 4096"

record pipeline =
  sys :: spsc_system
  pipe_engine :: engine
  pipe_buffer :: "execution list"
  stamped :: nat
  pushNs :: "nat \<Rightarrow> u64"
  consumed :: nat
  popNs :: "nat \<Rightarrow> u64"
  pipe_latency :: latency_log
  errorCount :: u64

definition pipeline_start :: "engine \<Rightarrow> pipeline" where
  "pipeline_start E = \<lparr>sys = spsc_start, pipe_engine = E, pipe_buffer = [], stamped = 0, pushNs = (\<lambda>_. 0),
     consumed = 0, popNs = (\<lambda>_. 0), pipe_latency = (\<lambda>_. []), errorCount = 0\<rparr>"

text \<open>
  The body of the matching loop after a successful pop: the hand-off sample, the engine call
  and the catch block. On a well-formed book an engine call ends in no other error than an
  exception, so the error branch is the catch block.
\<close>

definition handle_event :: "os_env \<Rightarrow> hash_fun \<Rightarrow> u64 \<Rightarrow> u64 \<Rightarrow> parsed_event \<Rightarrow> order_event \<Rightarrow> pipeline \<Rightarrow> pipeline" where
  "handle_event os H now elapsed raw ev s =
     (let s1 = s\<lparr>popNs := (popNs s)(consumed s := now),
                 pipe_latency := LatencyLog_record ''HANDOFF'' (now - pushNs s (consumed s)) (pipe_latency s)\<rparr> in
      case processEvent_into os H ev (pipe_engine s1, pipe_buffer s1) of
        Ret _ es \<Rightarrow> s1\<lparr>pipe_engine := fst es, pipe_buffer := snd es,
          pipe_latency := LatencyLog_record (event_label raw (snd es)) elapsed (pipe_latency s1), consumed := consumed s1 + 1\<rparr>
      | Throw _ es \<Rightarrow> s1\<lparr>pipe_engine := fst es, pipe_buffer := snd es, errorCount := errorCount s1 + 1, consumed := consumed s1 + 1\<rparr>)"

inductive pipeline_step :: "os_env \<Rightarrow> hash_fun \<Rightarrow> parsed_event list \<Rightarrow> order_event list \<Rightarrow> pipeline \<Rightarrow> pipeline \<Rightarrow> bool" for os H raws evs where
  begin_push: "stamped s < length evs \<Longrightarrow> length (pushed (sys s)) = stamped s \<Longrightarrow> producer (sys s) = PIdle \<Longrightarrow>
    producer_step QueueCapacity (sys s) t \<Longrightarrow> producer t = PLoaded (evs ! stamped s) tail \<Longrightarrow>
    pipeline_step os H raws evs s (s\<lparr>sys := t\<rparr>)"
| go_on_push: "producer (sys s) \<noteq> PIdle \<Longrightarrow> producer_step QueueCapacity (sys s) t \<Longrightarrow>
    pipeline_step os H raws evs s (s\<lparr>sys := t\<rparr>)"
| stamp: "length (pushed (sys s)) = stamped s + 1 \<Longrightarrow> producer (sys s) = PIdle \<Longrightarrow>
    pipeline_step os H raws evs s (s\<lparr>pushNs := (pushNs s)(stamped s := now), stamped := stamped s + 1\<rparr>)"
| poll: "consumed s < length evs \<Longrightarrow> length (popped (sys s)) = consumed s \<Longrightarrow> consumer_step QueueCapacity (sys s) t \<Longrightarrow>
    pipeline_step os H raws evs s (s\<lparr>sys := t\<rparr>)"
| handle: "length (popped (sys s)) = consumed s + 1 \<Longrightarrow>
    pipeline_step os H raws evs s (handle_event os H now elapsed (raws ! consumed s) (last (popped (sys s))) s)"

inductive_cases pipeline_stepE: "pipeline_step os H raws evs s t"

definition pipeline_reaches :: "os_env \<Rightarrow> hash_fun \<Rightarrow> parsed_event list \<Rightarrow> engine \<Rightarrow> pipeline \<Rightarrow> bool" where
  "pipeline_reaches os H raws E s \<longleftrightarrow> (pipeline_step os H raws (map toOrderEvent raws))\<^sup>*\<^sup>* (pipeline_start E) s"

section \<open>Lemmas\<close>

lemma queue_capacity_ok: "capacity_ok QueueCapacity"
  by (simp add: capacity_ok_def QueueCapacity_def SIZE_RANGE_def)

lemma handle_event_sel:
  "sys (handle_event os H now el raw ev s) = sys s" "consumed (handle_event os H now el raw ev s) = consumed s + 1"
  "stamped (handle_event os H now el raw ev s) = stamped s" "pushNs (handle_event os H now el raw ev s) = pushNs s"
  "pipe_latency (handle_event os H now el raw ev s) ''HANDOFF'' = pipe_latency s ''HANDOFF'' @ [now - pushNs s (consumed s)]"
  "pipe_engine (handle_event os H now el raw ev s) = snd (engine_exec os H ev (pipe_engine s))"
  using processEvent_into_buffer [of os H ev "pipe_engine s" "pipe_buffer s"]
  by (auto simp: handle_event_def Let_def engine_exec_def next_engine_def LatencyLog_record_def event_label_def
      split: outcome.splits event_kind.splits)

fun loaded :: "producer_state \<Rightarrow> order_event list" where
  "loaded PIdle = []"
| "loaded (PLoaded ev t) = [ev]"
| "loaded (PFull ev t) = [ev]"
| "loaded (PReady ev t) = [ev]"
| "loaded (PWritten ev t) = [ev]"

lemma producer_step_history:
  assumes "producer_step cap s t"
  shows "popped t = popped s" "producer s \<noteq> PIdle \<Longrightarrow> \<not> broken t \<Longrightarrow>
      (pushed t = pushed s \<and> (loaded (producer t) = loaded (producer s) \<or> producer t = PIdle)) \<or>
      (pushed t = pushed s @ loaded (producer s) \<and> producer t = PIdle)"
    "producer s = PIdle \<Longrightarrow> pushed t = pushed s"
  using assms by (auto elim!: producer_stepE)

lemma consumer_step_history:
  assumes "consumer_step cap s t"
  shows "pushed t = pushed s" "producer t = producer s" "length (popped t) = length (popped s) \<or> length (popped t) = Suc (length (popped s))"
  using assms by (auto elim!: consumer_stepE)

text \<open>The invariant of the pipeline.\<close>

definition pipeline_inv :: "os_env \<Rightarrow> hash_fun \<Rightarrow> order_event list \<Rightarrow> engine \<Rightarrow> pipeline \<Rightarrow> bool" where
  "pipeline_inv os H evs E s \<longleftrightarrow>
     spsc_reaches QueueCapacity (sys s) \<and>
     pushed (sys s) = take (length (pushed (sys s))) evs \<and> length (pushed (sys s)) \<le> length evs \<and>
     (length (pushed (sys s)) = stamped s \<or> length (pushed (sys s)) = stamped s + 1 \<and> producer (sys s) = PIdle) \<and>
     (producer (sys s) \<noteq> PIdle \<longrightarrow> stamped s < length evs \<and> loaded (producer (sys s)) = [evs ! stamped s]) \<and>
     (length (popped (sys s)) = consumed s \<or> length (popped (sys s)) = consumed s + 1) \<and>
     pipe_engine s = snd (run (engine_exec os H) (take (consumed s) evs) E)"

lemma pipeline_inv_start: "pipeline_inv os H evs E (pipeline_start E)"
  unfolding pipeline_inv_def pipeline_start_def
  by (simp add: spsc_reaches.reach_start) (simp add: spsc_start_def)

lemma reached_prefix:
  assumes "spsc_reaches QueueCapacity s"
  shows "\<not> broken s" "popped s = take (length (popped s)) (pushed s)" "length (popped s) \<le> length (pushed s)"
  using spsc_invD [OF spsc_reaches_inv [OF queue_capacity_ok assms]] by (auto simp: cursors_ok_def)

lemma take_grown: "xs = take (length xs) evs \<Longrightarrow> length xs < length evs \<Longrightarrow> xs @ [evs ! length xs] = take (Suc (length xs)) evs"
  by (metis take_Suc_conv_app_nth)

lemma handled_event:
  assumes "pipeline_inv os H evs E s" and "length (popped (sys s)) = consumed s + 1"
  shows "last (popped (sys s)) = evs ! consumed s" "consumed s < length evs"
proof -
  let ?xs = "popped (sys s)" and ?n = "consumed s"
  have r: "spsc_reaches QueueCapacity (sys s)" and pre: "pushed (sys s) = take (length (pushed (sys s))) evs"
    and le: "length (pushed (sys s)) \<le> length evs"
    using assms(1) by (simp_all add: pipeline_inv_def)
  note p = reached_prefix [OF r]
  have n: "?n < length (pushed (sys s))" using p(3) assms(2) by simp
  then show "?n < length evs" using le by simp
  have "?xs ! ?n = evs ! ?n" by (metis p(2) pre assms(2) n less_add_one nth_take)
  moreover have "last ?xs = ?xs ! ?n" using assms(2) by (metis add_diff_cancel_right' last_conv_nth length_0_conv nat.simps(3) add.commute plus_1_eq_Suc)
  ultimately show "last ?xs = evs ! ?n" by simp
qed

lemma pipeline_step_inv:
  assumes "pipeline_step os H raws evs s t" and "pipeline_inv os H evs E s"
  shows "pipeline_inv os H evs E t"
  using assms(1)
proof (cases rule: pipeline_step.cases)
  case (begin_push u tail)
  have "spsc_reaches QueueCapacity u" using assms(2) begin_push(5) by (auto simp: pipeline_inv_def intro: spsc_reaches.reach_producer)
  with assms(2) begin_push producer_step_history [OF begin_push(5)] show ?thesis by (simp add: pipeline_inv_def)
next
  case (go_on_push u)
  have r: "spsc_reaches QueueCapacity u" using assms(2) go_on_push(3) by (auto simp: pipeline_inv_def intro: spsc_reaches.reach_producer)
  note h = producer_step_history [OF go_on_push(3)]
  have st: "length (pushed (sys s)) = stamped s" "stamped s < length evs" "loaded (producer (sys s)) = [evs ! stamped s]"
    and pre: "pushed (sys s) = take (length (pushed (sys s))) evs"
    using assms(2) go_on_push(2) by (auto simp: pipeline_inv_def)
  have grown: "pushed (sys s) @ [evs ! stamped s] = take (Suc (stamped s)) evs" using take_grown [OF pre] st by simp
  consider "pushed u = pushed (sys s)" "loaded (producer u) = loaded (producer (sys s)) \<or> producer u = PIdle"
    | "pushed u = pushed (sys s) @ [evs ! stamped s]" "producer u = PIdle"
    using h(2) [OF go_on_push(2) reached_prefix(1) [OF r]] st(3) by auto
  then show ?thesis
  proof cases
    case 1
    with r h(1) st assms(2) show ?thesis by (auto simp: pipeline_inv_def go_on_push(1))
  next
    case 2
    have len: "length (pushed u) = Suc (stamped s)" using 2(1) st(1) by simp
    have "pushed u = take (length (pushed u)) evs" unfolding len using 2(1) grown by simp
    with r h(1) st len 2(2) assms(2) show ?thesis by (simp add: pipeline_inv_def go_on_push(1))
  qed
next
  case (stamp now)
  with assms(2) show ?thesis by (simp add: pipeline_inv_def)
next
  case (poll u)
  have r: "spsc_reaches QueueCapacity u" using assms(2) poll(4) by (auto simp: pipeline_inv_def intro: spsc_reaches.reach_consumer)
  with consumer_step_history [OF poll(4)] assms(2) poll(3) show ?thesis by (auto simp: pipeline_inv_def poll(1))
next
  case (handle now el)
  let ?n = "consumed s"
  note ev = handled_event [OF assms(2) handle(2)]
  have eng: "pipe_engine s = snd (run (engine_exec os H) (take ?n evs) E)" using assms(2) by (simp add: pipeline_inv_def)
  have "snd (engine_exec os H (evs ! ?n) (pipe_engine s)) = snd (run (engine_exec os H) (take (Suc ?n) evs) E)"
    unfolding eng take_Suc_conv_app_nth [OF ev(2)] by (simp add: run_snoc Let_def split: prod.splits)
  with assms(2) handle show ?thesis by (simp add: pipeline_inv_def handle_event_sel ev(1))
qed

lemma pipeline_reaches_inv: "pipeline_reaches os H raws E s \<Longrightarrow> pipeline_inv os H (map toOrderEvent raws) E s"
  unfolding pipeline_reaches_def
  by (induction rule: rtranclp_induct) (use pipeline_inv_start pipeline_step_inv in blast)+

subsection \<open>A run can always be completed\<close>

text \<open>
  What is still to do before the next event is taken or published, counting an idle thread
  as one that has yet to start its call.
\<close>

definition pop_work :: "consumer_state \<Rightarrow> nat" where
  "pop_work c = (if c = CIdle then 5 else pop_rank c)"

definition push_work :: "producer_state \<Rightarrow> nat" where
  "push_work p = (if p = PIdle then 5 else push_rank p)"

lemma ex_step: "P x \<Longrightarrow> Q x \<Longrightarrow> \<exists>x. P x \<and> Q x"
  by blast

lemma consumer_advances:
  assumes cap: "capacity_ok cap" and inv: "spsc_inv cap s" and some: "length (popped s) < length (pushed s)"
  shows "\<exists>t. consumer_step cap s t \<and>
    (length (popped t) = Suc (length (popped s)) \<or> popped t = popped s \<and> pop_work (consumer t) < pop_work (consumer s))"
proof (cases "consumer s")
  case CIdle
  from consumer_step.load_head [OF this, of cap] show ?thesis by (rule ex_step) (simp add: pop_work_def CIdle)
next
  case (CLoaded h)
  show ?thesis
  proof (cases "h = cached_tail (queue s)")
    case True
    from consumer_step.looks_empty [OF CLoaded True] show ?thesis by (rule ex_step) (simp add: pop_work_def CLoaded)
  next
    case False
    from consumer_step.has_event [OF CLoaded False] show ?thesis by (rule ex_step) (simp add: pop_work_def CLoaded)
  qed
next
  case (CEmpty h)
  let ?T = "length (pushed s)" and ?H = "length (popped s)"
  have c: "seen_tail s \<le> ?T" "?T - ?H \<le> cap" "h = word_of_nat ?H"
    using spsc_invD(1,5) [OF inv] CEmpty by (auto simp: cursors_ok_def)
  then have "h \<noteq> word_of_nat ?T" using cursor_eq [of ?H ?T] some capacity_bounds [OF cap] by auto
  with consumer_step.refresh_tail [OF CEmpty c(1) order_refl, of cap] show ?thesis
    by (intro ex_step) (assumption, simp add: pop_work_def CEmpty)
next
  case (CReady h)
  show ?thesis
  proof (cases "move_from_slot cap h (queue s)")
    case (Ret ev q)
    from consumer_step.take_event [OF CReady Ret] show ?thesis by (rule ex_step) (simp add: pop_work_def CReady)
  next
    case (Throw e q)
    from consumer_step_inv [OF cap inv consumer_step.take_broken [OF CReady Throw]] show ?thesis by (simp add: spsc_inv_def)
  qed
next
  case (CTaken h ev)
  from consumer_step.release [OF this, of cap] show ?thesis by (rule ex_step) simp
qed

lemma producer_advances:
  assumes cap: "capacity_ok cap" and inv: "spsc_inv cap s" and room: "length (pushed s) < length (popped s) + cap"
    and busy: "producer s \<noteq> PIdle"
  shows "\<exists>t. producer_step cap s t \<and> (pushed t = pushed s @ loaded (producer s) \<or>
    pushed t = pushed s \<and> push_work (producer t) < push_work (producer s))"
proof (cases "producer s")
  case PIdle
  with busy show ?thesis by simp
next
  case (PLoaded ev x)
  show ?thesis
  proof (cases "is_full cap x (cached_head (queue s))")
    case True
    from producer_step.looks_full [OF PLoaded True] show ?thesis by (rule ex_step) (simp add: push_work_def PLoaded)
  next
    case False
    from producer_step.has_room [OF PLoaded False] show ?thesis by (rule ex_step) (simp add: push_work_def PLoaded)
  qed
next
  case (PFull ev x)
  let ?T = "length (pushed s)" and ?H = "length (popped s)"
  have c: "seen_head s \<le> ?H" "?H \<le> ?T" "x = word_of_nat ?T"
    using spsc_invD(1,4) [OF inv] PFull by (auto simp: cursors_ok_def)
  then have "\<not> is_full cap x (word_of_nat ?H)" using is_full_nat [OF cap c(2)] room by simp
  with producer_step.refresh_head [OF PFull c(1) order_refl, of cap] show ?thesis
    by (intro ex_step) (assumption, simp add: push_work_def PFull)
next
  case (PReady ev x)
  show ?thesis
  proof (cases "construct_slot cap x ev (queue s)")
    case (Ret u q)
    from producer_step.construct [OF PReady Ret] show ?thesis by (rule ex_step) (simp add: push_work_def PReady)
  next
    case (Throw e q)
    from producer_step_inv [OF cap inv producer_step.construct_broken [OF PReady Throw]] show ?thesis by (simp add: spsc_inv_def)
  qed
next
  case (PWritten ev x)
  from producer_step.publish [OF this, of cap] show ?thesis by (rule ex_step) (simp add: PWritten)
qed

lemma take_next_event:
  assumes "pipeline_inv os H evs E s" and "length (popped (sys s)) = consumed s" and "consumed s < length (pushed (sys s))"
  shows "\<exists>u. (pipeline_step os H raws evs)\<^sup>*\<^sup>* s (s\<lparr>sys := u\<rparr>) \<and> length (popped u) = consumed s + 1"
  using assms
proof (induction "pop_work (consumer (sys s))" arbitrary: s rule: less_induct)
  case less
  have inv: "spsc_inv QueueCapacity (sys s)" and lt: "consumed s < length evs"
    using less.prems spsc_reaches_inv [OF queue_capacity_ok] by (auto simp: pipeline_inv_def)
  obtain u where u: "consumer_step QueueCapacity (sys s) u"
    "length (popped u) = Suc (length (popped (sys s))) \<or> popped u = popped (sys s) \<and> pop_work (consumer u) < pop_work (consumer (sys s))"
    using consumer_advances [OF queue_capacity_ok inv] less.prems(2,3) by auto
  let ?t = "s\<lparr>sys := u\<rparr>"
  have st: "pipeline_step os H raws evs s ?t" by (rule poll [OF lt less.prems(2) u(1)])
  show ?case
  proof (cases "length (popped u) = Suc (length (popped (sys s)))")
    case True
    with less.prems(2) have "length (popped u) = consumed s + 1" by simp
    with r_into_rtranclp [of "pipeline_step os H raws evs", OF st] show ?thesis by blast
  next
    case False
    with u(2) have "popped u = popped (sys s)" "pop_work (consumer (sys ?t)) < pop_work (consumer (sys s))" by auto
    with less.hyps [of ?t] pipeline_step_inv [OF st less.prems(1)] less.prems(2,3) consumer_step_history(1) [OF u(1)]
    obtain v where "(pipeline_step os H raws evs)\<^sup>*\<^sup>* ?t (s\<lparr>sys := v\<rparr>)" "length (popped v) = consumed s + 1" by auto
    with st show ?thesis by (meson converse_rtranclp_into_rtranclp)
  qed
qed

lemma publish_next_event:
  assumes "pipeline_inv os H evs E s" and "length (popped (sys s)) = consumed s" and "length (pushed (sys s)) = consumed s"
    and "producer (sys s) \<noteq> PIdle"
  shows "\<exists>u. (pipeline_step os H raws evs)\<^sup>*\<^sup>* s (s\<lparr>sys := u\<rparr>) \<and> popped u = popped (sys s) \<and> consumed s < length (pushed u)"
  using assms
proof (induction "push_work (producer (sys s))" arbitrary: s rule: less_induct)
  case less
  have inv: "spsc_inv QueueCapacity (sys s)"
    using less.prems spsc_reaches_inv [OF queue_capacity_ok] by (auto simp: pipeline_inv_def)
  have "length (pushed (sys s)) < length (popped (sys s)) + QueueCapacity" using less.prems(2,3) by (simp add: QueueCapacity_def)
  from producer_advances [OF queue_capacity_ok inv this less.prems(4)] obtain u where u: "producer_step QueueCapacity (sys s) u"
    "pushed u = pushed (sys s) @ loaded (producer (sys s)) \<or> pushed u = pushed (sys s) \<and> push_work (producer u) < push_work (producer (sys s))" by blast
  let ?t = "s\<lparr>sys := u\<rparr>"
  have st: "pipeline_step os H raws evs s ?t" by (rule go_on_push [OF less.prems(4) u(1)])
  have pop: "popped u = popped (sys s)" by (rule producer_step_history(1) [OF u(1)])
  have load: "length (loaded (producer (sys s))) = 1" using less.prems(1,4) by (simp add: pipeline_inv_def)
  show ?case
  proof (cases "pushed u = pushed (sys s) @ loaded (producer (sys s))")
    case True
    with load less.prems(3) pop have "popped u = popped (sys s) \<and> consumed s < length (pushed u)" by simp
    with r_into_rtranclp [of "pipeline_step os H raws evs", OF st] show ?thesis by blast
  next
    case False
    with u(2) have w: "pushed u = pushed (sys s)" "push_work (producer (sys ?t)) < push_work (producer (sys s))" by auto
    have "producer u \<noteq> PIdle"
    proof
      assume "producer u = PIdle"
      with w(2) show False by (cases "producer (sys s)") (simp_all add: push_work_def)
    qed
    with less.hyps [of ?t] w pop pipeline_step_inv [OF st less.prems(1)] less.prems(2,3)
    obtain v where "(pipeline_step os H raws evs)\<^sup>*\<^sup>* ?t (s\<lparr>sys := v\<rparr>)" "popped v = popped (sys s)" "consumed s < length (pushed v)" by auto
    with st show ?thesis by (meson converse_rtranclp_into_rtranclp)
  qed
qed

lemma pipeline_steps_inv: "(pipeline_step os H raws evs)\<^sup>*\<^sup>* s t \<Longrightarrow> pipeline_inv os H evs E s \<Longrightarrow> pipeline_inv os H evs E t"
  by (induction rule: rtranclp_induct) (use pipeline_step_inv in blast)+

text \<open>With nothing in the queue and the feed handler between two events, the next push starts.\<close>

lemma start_next_push:
  assumes "pipeline_inv os H evs E s" and "producer (sys s) = PIdle" and "length (pushed (sys s)) < length evs"
  shows "\<exists>t. (pipeline_step os H raws evs)\<^sup>*\<^sup>* s t \<and> consumed t = consumed s \<and> popped (sys t) = popped (sys s) \<and>
    pushed (sys t) = pushed (sys s) \<and> producer (sys t) \<noteq> PIdle"
proof -
  obtain s1 where s1: "(pipeline_step os H raws evs)\<^sup>*\<^sup>* s s1" "sys s1 = sys s" "consumed s1 = consumed s" "length (pushed (sys s)) = stamped s1"
  proof (cases "length (pushed (sys s)) = stamped s")
    case True
    with that [of s] show thesis by simp
  next
    case False
    then have "length (pushed (sys s)) = stamped s + 1" using assms(1) by (auto simp: pipeline_inv_def)
    with that r_into_rtranclp [of "pipeline_step os H raws evs", OF stamp [OF this assms(2), of os H raws evs 0]] show thesis by simp
  qed
  let ?u = "(sys s)\<lparr>producer := PLoaded (evs ! stamped s1) (tail_cursor (queue (sys s)))\<rparr>"
  have "pipeline_step os H raws evs s1 (s1\<lparr>sys := ?u\<rparr>)"
    by (rule begin_push [of s1 evs ?u]) (use s1 assms(2,3) producer_step.load_tail [OF assms(2)] in auto)
  with s1(1) have "(pipeline_step os H raws evs)\<^sup>*\<^sup>* s (s1\<lparr>sys := ?u\<rparr>)" by (rule rtranclp.rtrancl_into_rtrancl)
  then show ?thesis by (rule ex_step) (simp add: s1(2,3))
qed

lemma process_next_event:
  assumes inv: "pipeline_inv os H evs E s" and lt: "consumed s < length evs"
  shows "\<exists>t. (pipeline_step os H raws evs)\<^sup>*\<^sup>* s t \<and> consumed t = Suc (consumed s)"
proof -
  have fin: "\<exists>t. (pipeline_step os H raws evs)\<^sup>*\<^sup>* u t \<and> consumed t = Suc (consumed u)" if "length (popped (sys u)) = consumed u + 1" for u
    using r_into_rtranclp [of "pipeline_step os H raws evs", OF handle [OF that, of os H raws evs 0 0]] handle_event_sel(2) [of os H 0 0] by fastforce
  have queued: "\<exists>t. (pipeline_step os H raws evs)\<^sup>*\<^sup>* u t \<and> consumed t = Suc (consumed u)"
    if u: "pipeline_inv os H evs E u" "length (popped (sys u)) = consumed u" "consumed u < length (pushed (sys u))" for u
  proof -
    obtain v where v: "(pipeline_step os H raws evs)\<^sup>*\<^sup>* u (u\<lparr>sys := v\<rparr>)" "length (popped v) = consumed u + 1" using take_next_event [OF u] by blast
    from fin [of "u\<lparr>sys := v\<rparr>"] v(2) obtain t where "(pipeline_step os H raws evs)\<^sup>*\<^sup>* (u\<lparr>sys := v\<rparr>) t" "consumed t = Suc (consumed u)" by auto
    with v(1) show ?thesis by (meson rtranclp_trans)
  qed
  have busy: "\<exists>t. (pipeline_step os H raws evs)\<^sup>*\<^sup>* u t \<and> consumed t = Suc (consumed u)"
    if u: "pipeline_inv os H evs E u" "length (popped (sys u)) = consumed u" "length (pushed (sys u)) = consumed u" "producer (sys u) \<noteq> PIdle" for u
  proof -
    obtain v where v: "(pipeline_step os H raws evs)\<^sup>*\<^sup>* u (u\<lparr>sys := v\<rparr>)" "popped v = popped (sys u)" "consumed u < length (pushed v)"
      using publish_next_event [OF u] by blast
    with queued [of "u\<lparr>sys := v\<rparr>"] pipeline_steps_inv [OF v(1) u(1)] u(2)
    obtain t where "(pipeline_step os H raws evs)\<^sup>*\<^sup>* (u\<lparr>sys := v\<rparr>) t" "consumed t = Suc (consumed u)" by auto
    with v(1) show ?thesis by (meson rtranclp_trans)
  qed
  have r: "spsc_reaches QueueCapacity (sys s)" using inv by (simp add: pipeline_inv_def)
  consider "length (popped (sys s)) = consumed s + 1" | "length (popped (sys s)) = consumed s" "consumed s < length (pushed (sys s))"
    | "length (popped (sys s)) = consumed s" "length (pushed (sys s)) = consumed s"
    using inv reached_prefix(3) [OF r] by (fastforce simp: pipeline_inv_def)
  then show ?thesis
  proof cases
    case 3
    show ?thesis
    proof (cases "producer (sys s) = PIdle")
      case True
      then obtain v where "(pipeline_step os H raws evs)\<^sup>*\<^sup>* s v" "consumed v = consumed s" "popped (sys v) = popped (sys s)"
        "pushed (sys v) = pushed (sys s)" "producer (sys v) \<noteq> PIdle"
        using start_next_push [OF inv True] 3 lt by auto
      with busy [of v] pipeline_steps_inv [OF _ inv] 3 show ?thesis by (metis rtranclp_trans)
    qed (use busy [OF inv 3] in blast)
  qed (use fin queued [OF inv] in blast)+
qed

lemma pipeline_completes:
  assumes "pipeline_inv os H evs E s"
  shows "\<exists>t. (pipeline_step os H raws evs)\<^sup>*\<^sup>* s t \<and> consumed t = length evs"
  using assms
proof (induction "length evs - consumed s" arbitrary: s)
  case 0
  have "spsc_reaches QueueCapacity (sys s)" using 0(2) by (simp add: pipeline_inv_def)
  then have "consumed s \<le> length evs" using 0(2) reached_prefix(3) [of "sys s"] by (auto simp: pipeline_inv_def)
  with 0(1) show ?case by auto
next
  case (Suc n)
  then have "consumed s < length evs" by linarith
  from process_next_event [OF Suc.prems this] obtain u where u: "(pipeline_step os H raws evs)\<^sup>*\<^sup>* s u" "consumed u = Suc (consumed s)" by blast
  have "n = length evs - consumed u" using Suc.hyps(2) u(2) by linarith
  with Suc.hyps(1) [of u] pipeline_steps_inv [OF u(1) Suc.prems] obtain t where "(pipeline_step os H raws evs)\<^sup>*\<^sup>* u t" "consumed t = length evs" by auto
  with u(1) show ?case by (meson rtranclp_trans)
qed

subsection \<open>What the matching thread records\<close>

definition pipeline_tallies :: "os_env \<Rightarrow> hash_fun \<Rightarrow> parsed_event list \<Rightarrow> engine \<Rightarrow> pipeline \<Rightarrow> bool" where
  "pipeline_tallies os H raws E s \<longleftrightarrow>
     errorCount s = word_of_nat (refused_count (trace os H E (take (consumed s) raws))) \<and>
     (\<forall>l \<in> set labels. length (pipe_latency s l) = length (samples (\<lambda>_. 0) l (trace os H E (take (consumed s) raws)))) \<and>
     length (pipe_latency s ''HANDOFF'') = consumed s"

lemma handle_event_tallies:
  assumes "engine_exec os H ev (pipe_engine s) = (r, E1)"
  shows "errorCount (handle_event os H now el raw ev s) = errorCount s + (if is_accepted r then 0 else 1)"
    and "l \<in> set labels \<Longrightarrow> length (pipe_latency (handle_event os H now el raw ev s) l) =
      length (pipe_latency s l) + (if is_accepted r \<and> event_label raw (executions_of r) = l then 1 else 0)"
  using assms processEvent_into_buffer [of os H ev "pipe_engine s" "pipe_buffer s"]
  by (auto simp: handle_event_def Let_def engine_exec_def reply_of_def LatencyLog_record_def labels_def split: outcome.splits)

lemma pipeline_step_tallies:
  assumes "pipeline_step os H raws (map toOrderEvent raws) s t" and "pipeline_inv os H (map toOrderEvent raws) E s"
    and "pipeline_tallies os H raws E s"
  shows "pipeline_tallies os H raws E t"
  using assms(1)
proof (cases rule: pipeline_step.cases)
  case (handle now el)
  let ?n = "consumed s" and ?h = "trace os H E (take (consumed s) raws)"
  note ev = handled_event [OF assms(2) handle(2)]
  obtain r E1 where x: "engine_exec os H (toOrderEvent (raws ! ?n)) (pipe_engine s) = (r, E1)" by fastforce
  have "pipe_engine s = last (E # map turn_engine ?h)"
    using assms(2) by (simp add: pipeline_inv_def take_map trace_run)
  then have h: "trace os H E (take (Suc ?n) raws) = ?h @ [\<lparr>turn_event = raws ! ?n, turn_reply = r, turn_engine = E1\<rparr>]"
    using ev(2) x trace_snoc [of os H E "take ?n raws" "raws ! ?n"] by (simp add: take_Suc_conv_app_nth)
  have "last (popped (sys s)) = toOrderEvent (raws ! ?n)" using ev by simp
  with assms(3) handle(1) handle_event_tallies [where now = now and el = el and raw = "raws ! ?n", OF x] handle_event_sel(2,5) [of os H now el "raws ! ?n" "toOrderEvent (raws ! ?n)" s] h
  show ?thesis by (simp add: pipeline_tallies_def turn_label_def)
qed (use assms(3) in \<open>simp_all add: pipeline_tallies_def\<close>)

lemma pipeline_reaches_tallies: "pipeline_reaches os H raws E s \<Longrightarrow> pipeline_tallies os H raws E s"
  unfolding pipeline_reaches_def
proof (induction rule: rtranclp_induct)
  case base
  show ?case by (simp add: pipeline_tallies_def pipeline_start_def)
next
  case (step s t)
  then show ?case using pipeline_step_tallies pipeline_reaches_inv unfolding pipeline_reaches_def by blast
qed

text \<open>
  The pipeline never gets stuck: from every reachable state there is a continuation in which
  the matching thread processes all events.
\<close>
lemma pipeline_can_complete:
  assumes "pipeline_reaches os H raws E s"
  shows "\<exists>t. (pipeline_step os H raws (map toOrderEvent raws))\<^sup>*\<^sup>* s t \<and> pipeline_reaches os H raws E t \<and> consumed t = length raws"
proof -
  from pipeline_completes [OF pipeline_reaches_inv [OF assms], of raws] obtain t where
    "(pipeline_step os H raws (map toOrderEvent raws))\<^sup>*\<^sup>* s t" "consumed t = length raws" by auto
  with assms show ?thesis unfolding pipeline_reaches_def by (meson rtranclp_trans)
qed

lemma pipeline_reached:
  assumes "os_fresh os" and "book_ok os H (book E)" and "spec_inv (view E)" and "pipeline_reaches os H raws E s"
  shows "consumed s \<le> length raws" "\<not> broken (sys s)"
    "pipe_engine s = snd (run (engine_exec os H) (map toOrderEvent (take (consumed s) raws)) E)"
    "book_ok os H (book (pipe_engine s))" "spec_inv (view (pipe_engine s))"
proof -
  let ?evs = "map toOrderEvent raws"
  have inv: "pipeline_inv os H ?evs E s" by (rule pipeline_reaches_inv [OF assms(4)])
  then have r: "spsc_reaches QueueCapacity (sys s)" and e: "pipe_engine s = snd (run (engine_exec os H) (take (consumed s) ?evs) E)"
    by (simp_all add: pipeline_inv_def)
  show "consumed s \<le> length raws" using inv reached_prefix(3) [OF r] by (auto simp: pipeline_inv_def)
  obtain rs E' where run: "run (engine_exec os H) (take (consumed s) ?evs) E = (rs, E')" by fastforce
  have "book_ok os H (book E')" using eng.run_path [of os H E, OF conjI [OF assms(1,2)] run] by simp
  moreover have "spec_inv (view E')" using eng.run_inv [of os H E, OF conjI [OF assms(1,2)] assms(3) run] .
  ultimately show "book_ok os H (book (pipe_engine s))" "spec_inv (view (pipe_engine s))" using e run by simp_all
  show "\<not> broken (sys s)" by (rule reached_prefix(1) [OF r])
  show "pipe_engine s = snd (run (engine_exec os H) (map toOrderEvent (take (consumed s) raws)) E)" using e by (simp add: take_map)
qed

section \<open>Properties\<close>

text \<open>
  C11. Two threads compute what one computes: in every reachable state of every interleaving
  of the feed handler and the matching thread, the engine is in the state a sequential run
  over the first \<open>consumed\<close> events leads to, no event is lost, doubled or reordered, the queue
  is used without a race, on a sound book the book stays sound, and every processed event has
  a hand-off sample and is counted once, under its label or as an error.
\<close>
theorem threaded_equals_sequential:
  assumes "os_fresh os" and "book_ok os H (book E)" and "spec_inv (view E)" and "pipeline_reaches os H raws E s"
  shows "consumed s \<le> length raws \<and> \<not> broken (sys s) \<and>
    pipe_engine s = snd (run (engine_exec os H) (map toOrderEvent (take (consumed s) raws)) E) \<and>
    book_ok os H (book (pipe_engine s)) \<and> spec_inv (view (pipe_engine s)) \<and>
    length (pipe_latency s ''HANDOFF'') = consumed s \<and>
    word_of_nat (\<Sum>l\<leftarrow>labels. length (pipe_latency s l)) + errorCount s = word_of_nat (consumed s)"
proof -
  note p = pipeline_reached [OF assms]
  let ?h = "trace os H E (take (consumed s) raws)"
  have t: "pipeline_tallies os H raws E s" by (rule pipeline_reaches_tallies [OF assms(4)])
  have "length ?h = consumed s" using p(1) by simp
  then have "(\<Sum>l\<leftarrow>labels. length (samples (\<lambda>_. 0) l ?h)) + refused_count ?h = consumed s" using samples_total [of "\<lambda>_. 0" ?h] by simp
  moreover have "(\<Sum>l\<leftarrow>labels. length (pipe_latency s l)) = (\<Sum>l\<leftarrow>labels. length (samples (\<lambda>_. 0) l ?h))"
    using t by (intro arg_cong [of _ _ sum_list] map_cong) (auto simp: pipeline_tallies_def)
  ultimately have "word_of_nat (\<Sum>l\<leftarrow>labels. length (pipe_latency s l)) + errorCount s = (word_of_nat (consumed s) :: u64)"
    using t unfolding pipeline_tallies_def by (metis of_nat_add)
  with p t show ?thesis by (simp add: pipeline_tallies_def)
qed

text \<open>
  C39. The hand-off latency can be measured against a stamp that was never stored: whatever the
  events and the clock, there is a run in which the matching thread pops and processes the
  first event before the feed handler, which stores its time stamp only after the push has
  returned, gets to do so; the recorded latency is then the absolute clock value.
\<close>
theorem threaded_stamp_too_late:
  assumes "raws \<noteq> []"
  shows "\<exists>s. pipeline_reaches os H raws E s \<and> consumed s = 1 \<and> stamped s = 0 \<and> pipe_latency s ''HANDOFF'' = [now]"
proof -
  let ?evs = "map toOrderEvent raws"
  let ?s = "pipeline_start E" and ?u = "spsc_start\<lparr>producer := PLoaded (hd ?evs) 0\<rparr>"
  let ?s1 = "?s\<lparr>sys := ?u\<rparr>" and ?R = "(pipeline_step os H raws ?evs)\<^sup>*\<^sup>*"
  have ne: "?evs \<noteq> []" using assms by simp
  have "producer_step QueueCapacity spsc_start ?u"
    using producer_step.load_tail [of spsc_start QueueCapacity "hd ?evs"] by (simp add: spsc_start_def SpscEventQueue_new_def)
  then have "pipeline_step os H raws ?evs ?s ?s1"
    by (intro begin_push [where t = ?u])
      (use assms hd_conv_nth [OF ne] in \<open>simp_all add: pipeline_start_def hd_conv_nth, simp_all add: spsc_start_def\<close>)
  then have s1: "?R ?s ?s1" by blast
  note inv1 = pipeline_steps_inv [OF s1 pipeline_inv_start]
  have "length (popped (sys ?s1)) = consumed ?s1" "length (pushed (sys ?s1)) = consumed ?s1" "producer (sys ?s1) \<noteq> PIdle"
    by (simp_all add: pipeline_start_def spsc_start_def)
  note start = this
  obtain v where v: "?R ?s1 (?s1\<lparr>sys := v\<rparr>)" "popped v = popped (sys ?s1)" "consumed ?s1 < length (pushed v)"
    using publish_next_event [OF inv1 start] by blast
  let ?s2 = "?s1\<lparr>sys := v\<rparr>"
  have "length (popped (sys ?s2)) = consumed ?s2" "consumed ?s2 < length (pushed (sys ?s2))" using v(2,3) start(1) by simp_all
  from take_next_event [OF pipeline_steps_inv [OF v(1) inv1] this]
  obtain w where w: "?R ?s2 (?s2\<lparr>sys := w\<rparr>)" "length (popped w) = consumed ?s2 + 1" by blast
  let ?s3 = "?s2\<lparr>sys := w\<rparr>"
  let ?s4 = "handle_event os H now 0 (raws ! consumed ?s3) (last (popped (sys ?s3))) ?s3"
  have "pipeline_step os H raws ?evs ?s3 ?s4" by (rule handle) (use w(2) in simp)
  with s1 v(1) w(1) have "?R ?s ?s4" by (meson rtranclp_trans rtranclp.rtrancl_into_rtrancl)
  then show ?thesis unfolding pipeline_reaches_def by (rule ex_step) (simp add: handle_event_sel, simp add: pipeline_start_def)
qed

section \<open>Witnesses\<close>

definition demo_cancel :: parsed_event where
  "demo_cancel = \<lparr>tsNs = 1, kind = KindCancel, parsed_id = 1, parsed_side = BUY, parsed_type = LIMIT, parsed_price = 0, parsed_quantity = 0\<rparr>"

theorem threaded_equals_sequential_witness:
  "\<exists>s. pipeline_reaches one_page_os (\<lambda>k. k) [demo_cancel] demo_engine s \<and> consumed s = 1 \<and>
    book_ok one_page_os (\<lambda>k. k) (book (pipe_engine s)) \<and> spec_inv (view (pipe_engine s)) \<and> length (pipe_latency s ''HANDOFF'') = 1"
proof -
  have "pipeline_reaches one_page_os (\<lambda>k. k) [demo_cancel] demo_engine (pipeline_start demo_engine)" by (simp add: pipeline_reaches_def)
  from pipeline_can_complete [OF this] obtain s where
    s: "pipeline_reaches one_page_os (\<lambda>k. k) [demo_cancel] demo_engine s" "consumed s = 1" by auto
  with threaded_equals_sequential [OF one_page_os_fresh demo_engine_ok(1) demo_engine_sound s(1)] show ?thesis by auto
qed

theorem threaded_stamp_too_late_witness:
  "\<exists>s. pipeline_reaches one_page_os (\<lambda>k. k) [demo_cancel] demo_engine s \<and> consumed s = 1 \<and> stamped s = 0 \<and>
    pipe_latency s ''HANDOFF'' = [12345]"
  by (rule threaded_stamp_too_late) simp

end
