(* ===== verification/Interchange_Benchmark.thy ===== *)
theory Interchange_Benchmark
  imports Replay_Loop Latency_Stats
begin

text \<open>
  \<open>benchmark_interchange\<close> (\<open>tools/benchmark/benchmark_interchange.cpp\<close>): the file is parsed, a
  book of its size is built, and the events are replayed one by one, each timed and filed
  under its label. The time an event takes is a parameter, \<open>clock i\<close> for the event at
  position \<open>i\<close>. What it prints is in \<open>Tool_Reports\<close>.
\<close>

section \<open>Model\<close>

datatype 'a tool_result = ToolExit nat | ToolUncaught error | ToolDone 'a

record bench =
  bench_engine :: engine
  bench_buffer :: "execution list"
  bench_latency :: latency_log
  bench_counts :: "string \<Rightarrow> u64"
  bench_errors :: u64

text \<open>A new order uses the caller's buffer, a cancellation or a reduction the overload that returns its executions.\<close>

definition bench_call :: "os_env \<Rightarrow> hash_fun \<Rightarrow> parsed_event \<Rightarrow> bench \<Rightarrow> (string, bench) outcome" where
  "bench_call os H e st =
     (case kind e of
        KindNew \<Rightarrow>
          (case processEvent_into os H (toOrderEvent e) (bench_engine st, bench_buffer st) of
             Ret _ s \<Rightarrow> Ret (event_label e (snd s)) (st\<lparr>bench_engine := fst s, bench_buffer := snd s\<rparr>)
           | Throw x s \<Rightarrow> Throw x (st\<lparr>bench_engine := fst s, bench_buffer := snd s\<rparr>))
      | _ \<Rightarrow>
          (case processEvent os H (toOrderEvent e) (bench_engine st) of
             Ret _ E \<Rightarrow> Ret (if kind e = KindCancel then ''CANCEL'' else ''REDUCE'') (st\<lparr>bench_engine := E\<rparr>)
           | Throw x E \<Rightarrow> Throw x (st\<lparr>bench_engine := E\<rparr>)))"

definition bench_event :: "os_env \<Rightarrow> hash_fun \<Rightarrow> (nat \<Rightarrow> u64) \<Rightarrow> nat \<Rightarrow> parsed_event \<Rightarrow> bench \<Rightarrow> (unit, bench) outcome" where
  "bench_event os H clock i e st =
     (case bench_call os H e st of
        Ret l st1 \<Rightarrow> Ret () (st1\<lparr>bench_latency := LatencyLog_record l (clock i) (bench_latency st1),
                                bench_counts := (bench_counts st1)(l := bench_counts st1 l + 1)\<rparr>)
      | Throw x st1 \<Rightarrow> if defined_error x then Ret () (st1\<lparr>bench_errors := bench_errors st1 + 1\<rparr>) else Throw x st1)"

definition bench_start :: "engine \<Rightarrow> bench" where
  "bench_start E = \<lparr>bench_engine = E, bench_buffer = [], bench_latency = (\<lambda>_. []), bench_counts = (\<lambda>_. 0), bench_errors = 0\<rparr>"

text \<open>The rows of a file and those among them with an unknown event.\<close>

definition count_row :: "string list \<Rightarrow> u64 \<times> u64 \<Rightarrow> u64 \<times> u64" where
  "count_row f c = (fst c + 1, if event_of (f ! 2) = None then snd c + 1 else snd c)"

definition row_counts :: "string \<Rightarrow> u64 \<times> u64" where
  "row_counts input = fold count_row (map (splitRow 8) (tl (forEachLine input))) (0, 0)"

definition benchmark_interchange ::
  "os_env \<Rightarrow> hash_fun \<Rightarrow> (u64 \<Rightarrow> u64) \<Rightarrow> (nat \<Rightarrow> u64) \<Rightarrow> u64 \<Rightarrow> u64 \<Rightarrow> string \<Rightarrow> bench tool_result" where
  "benchmark_interchange os H scaled clock tick c input =
     (let fd = read_feed input in
      if feedMin fd = - 1 then ToolExit 1
      else case interchange_engine os H scaled tick False c fd of
        Inl x \<Rightarrow> ToolUncaught x
      | Inr E \<Rightarrow>
        (case run_all (\<lambda>(i, e). bench_event os H clock i e) (enumerate 0 (events fd)) (bench_start E) of
           Ret _ st \<Rightarrow> ToolDone st
         | Throw x st \<Rightarrow> ToolUncaught x))"

section \<open>Lemmas\<close>

definition bench_books :: "(nat \<Rightarrow> u64) \<Rightarrow> turn list \<Rightarrow> bench \<Rightarrow> bool" where
  "bench_books clock h st \<longleftrightarrow>
     (\<forall>l. bench_latency st l = samples clock l h \<and> bench_counts st l = word_of_nat (length (samples clock l h))) \<and>
     bench_errors st = word_of_nat (refused_count h)"

lemma bench_event_engine:
  assumes "engine_exec os H (toOrderEvent e) (bench_engine st) = (r, E)"
    and "\<exists>k. processEvent_into os H (toOrderEvent e) (bench_engine st, bench_buffer st) = Ret k (E, xs) \<and> r = Accepted xs \<or>
        (\<exists>x. processEvent_into os H (toOrderEvent e) (bench_engine st, bench_buffer st) = Throw x (E, xs) \<and> r = Failed x xs \<and> defined_error x)"
  shows "\<exists>buf. bench_event os H clock i e st =
     Ret () (if is_accepted r
        then st\<lparr>bench_engine := E, bench_buffer := buf,
               bench_latency := LatencyLog_record (event_label e (executions_of r)) (clock i) (bench_latency st),
               bench_counts := (bench_counts st)(event_label e (executions_of r) := bench_counts st (event_label e (executions_of r)) + 1)\<rparr>
        else st\<lparr>bench_engine := E, bench_buffer := buf, bench_errors := bench_errors st + 1\<rparr>)"
proof -
  have "processEvent_into os H (toOrderEvent e) (bench_engine st, bench_buffer st) = processEvent_into os H (toOrderEvent e) (bench_engine st, [])"
    by (rule processEvent_into_buffer)
  with assms(2) show ?thesis
    by (cases "kind e")
      (auto simp: bench_event_def bench_call_def processEvent_def by_value_def event_label_def split: if_splits
        intro: exI [of _ xs] exI [of _ "bench_buffer st"])
qed

interpretation bench: engine_loop os H "bench_event os H clock" bench_engine "bench_books clock" for os H clock
proof
  fix s :: bench and h e r E
  assume fresh: "os_fresh os" and ok: "book_ok os H (book (bench_engine s))" and books: "bench_books clock h s"
    and x: "engine_exec os H (toOrderEvent e) (bench_engine s) = (r, E)"
  from fresh ok x obtain xs where "\<exists>k. processEvent_into os H (toOrderEvent e) (bench_engine s, bench_buffer s) = Ret k (E, xs) \<and> r = Accepted xs \<or>
      (\<exists>x. processEvent_into os H (toOrderEvent e) (bench_engine s, bench_buffer s) = Throw x (E, xs) \<and> r = Failed x xs \<and> defined_error x)"
    by (cases rule: engine_call_cases [where buf = "bench_buffer s"]) blast+
  from bench_event_engine [OF x this, of clock "length h"] books
  show "\<exists>s'. bench_event os H clock (length h) e s = Ret () s' \<and> bench_engine s' = E \<and>
      bench_books clock (h @ [\<lparr>turn_event = e, turn_reply = r, turn_engine = E\<rparr>]) s'"
    by (auto simp: bench_books_def LatencyLog_record_def turn_label_def)
qed

lemma feed_row_events: "length (events (feed_row f fd)) = length (events fd) + (if event_of (f ! 2) = None then 0 else 1)"
  by (auto simp: feed_row_def note_feed_def Let_def split: option.splits)

lemma row_counts_fold:
  assumes "fst c = snd c + word_of_nat (length (events fd))"
  shows "fst (fold count_row fs c) = snd (fold count_row fs c) + word_of_nat (length (events (fold feed_row fs fd)))"
  using assms
proof (induction fs arbitrary: c fd)
  case (Cons f fs)
  have "fst (count_row f c) = snd (count_row f c) + word_of_nat (length (events (feed_row f fd)))"
    using Cons.prems by (simp add: count_row_def feed_row_events)
  from Cons.IH [OF this] show ?case by simp
qed simp

section \<open>The whole run\<close>

text \<open>
  The benchmark replays the whole file and accounts for every event: once its engine is
  set up the run ends normally, whatever the clock; the engine is in the state of the
  sequential run over all events; the samples of a label are the times of exactly the
  accepted events with that label, and its counter is their number; the error counter is the
  number of refused events; together they are all events, and with the skipped rows all rows.
\<close>
lemma benchmark_run:
  fixes input
  defines "evs \<equiv> events (read_feed input)"
  assumes "os_fresh os" and "feedMin (read_feed input) \<noteq> - 1" and "length evs < 2 ^ 53"
    and "interchange_engine os H scaled tick False c (read_feed input) = Inr E"
  shows "\<exists>st. benchmark_interchange os H scaled clock tick c input = ToolDone st \<and>
    bench_engine st = snd (run (engine_exec os H) (map toOrderEvent evs) E) \<and>
    (\<forall>l. bench_latency st l = samples clock l (trace os H E evs) \<and>
         unat (bench_counts st l) = length (samples clock l (trace os H E evs))) \<and>
    (\<Sum>l\<leftarrow>labels. unat (bench_counts st l)) + unat (bench_errors st) = length evs \<and>
    fst (row_counts input) = snd (row_counts input) + word_of_nat (length evs)"
proof -
  let ?h = "trace os H E evs"
  have ok: "book_ok os H (book (bench_engine (bench_start E)))" "bench_books clock [] (bench_start E)"
    using interchange_engine_sound(1) [OF assms(5,2)] assms(4) by (simp_all add: bench_start_def bench_books_def evs_def)
  from bench.loop_ok [OF assms(2) ok, of evs] obtain st where
    st: "run_all (\<lambda>(i, e). bench_event os H clock i e) (enumerate 0 evs) (bench_start E) = Ret () st"
      "bench_engine st = last (E # map turn_engine ?h)" "bench_books clock ?h st" by (auto simp: bench_start_def)
  have le: "length (samples clock l ?h) \<le> length evs" "refused_count ?h \<le> length evs" for l
    using length_filter_le [of _ "enumerate 0 ?h"] length_filter_le [of _ ?h] by (auto simp: samples_def refused_count_def)
  have small: "unat (word_of_nat k :: u64) = k" if "k \<le> length evs" for k
    using that assms(4) by (simp add: unat_of_nat)
  have "fst (row_counts input) = snd (row_counts input) + word_of_nat (length evs)"
    using row_counts_fold [of "(0, 0)" feed_start] by (simp add: row_counts_def read_feed_def evs_def feed_start_def)
  moreover have "benchmark_interchange os H scaled clock tick c input = ToolDone st"
    using assms(3,5) st(1) by (simp add: benchmark_interchange_def Let_def evs_def)
  moreover have "bench_engine st = snd (run (engine_exec os H) (map toOrderEvent evs) E)" using st(2) by (simp add: trace_run)
  moreover have c: "unat (bench_counts st l) = length (samples clock l ?h)" "bench_latency st l = samples clock l ?h" for l
    using st(3) small [OF le(1)] by (simp_all add: bench_books_def)
  moreover have "unat (bench_errors st) = refused_count ?h" using st(3) small [OF le(2)] by (simp add: bench_books_def)
  ultimately show ?thesis using samples_total [of clock ?h] by simp
qed

end
