(* ===== verification/Book_Snapshot.thy ===== *)
theory Book_Snapshot
  imports Book_Spec
begin

text \<open>
  What \<open>OrderBook::captureSnapshot\<close> shows of a book: the runs of equal prices in the resting
  orders of each side are the occupied levels of its ladder.
\<close>

section \<open>Reference\<close>

text \<open>The maximal runs of consecutive elements with the same key.\<close>

fun add_to_runs :: "('a \<Rightarrow> 'k) \<Rightarrow> 'a \<Rightarrow> 'a list list \<Rightarrow> 'a list list" where
  "add_to_runs key x ((y # ys) # gs) = (if key x = key y then (x # y # ys) # gs else [x] # (y # ys) # gs)"
| "add_to_runs key x gs = [x] # gs"

definition runs :: "('a \<Rightarrow> 'k) \<Rightarrow> 'a list \<Rightarrow> 'a list list" where
  "runs key xs = foldr (add_to_runs key) xs []"

text \<open>What a side looks like from outside: its prices, best first, with the orders at each.\<close>

definition depth_view :: "order list \<Rightarrow> order list list" where
  "depth_view xs = runs price xs"

definition shows_level :: "snapshot_level \<Rightarrow> order list \<Rightarrow> bool" where
  "shows_level l g \<longleftrightarrow>
     g \<noteq> [] \<and> levelPriceRaw l = price (hd g) \<and> orderCount l = length g \<and>
     sum_list (map (unat \<circ> remainingQuantity) g) \<le> unat (levelQuantity l)"

section \<open>Lemmas\<close>

lemma runs_Cons: "runs key (x # xs) = add_to_runs key x (runs key xs)"
  by (simp add: runs_def)

lemma add_to_runs_other: "gs = [] \<or> key x \<noteq> key (hd (hd gs)) \<or> hd gs = [] \<Longrightarrow> add_to_runs key x gs = [x] # gs"
  by (cases "(key, x, gs)" rule: add_to_runs.cases) auto

lemma runs_group:
  assumes "xs \<noteq> []" and "\<forall>x \<in> set xs. key x = k" and "runs key ys = [] \<or> hd (runs key ys) \<noteq> [] \<and> key (hd (hd (runs key ys))) \<noteq> k"
  shows "runs key (xs @ ys) = xs # runs key ys"
  using assms(1,2)
proof (induction xs)
  case (Cons x xs)
  show ?case
  proof (cases "xs = []")
    case True
    with Cons.prems assms(3) show ?thesis by (auto simp: runs_Cons intro!: add_to_runs_other)
  next
    case False
    then obtain z zs where "xs = z # zs" by (cases xs) auto
    with Cons False show ?thesis by (simp add: runs_Cons)
  qed
qed simp

lemma runs_concat:
  assumes "\<forall>g \<in> set gs. g \<noteq> [] \<and> (\<forall>x \<in> set g. key x = key (hd g))" and "distinct (map (key \<circ> hd) gs)"
  shows "runs key (concat gs) = gs"
  using assms
proof (induction gs)
  case Nil
  then show ?case by (simp add: runs_def)
next
  case (Cons g gs)
  have all: "\<forall>h \<in> set gs. h \<noteq> [] \<and> (\<forall>x \<in> set h. key x = key (hd h))"
    by (intro ballI bspec [OF Cons.prems(1)] list.set_intros(2))
  have g: "g \<noteq> []" "\<forall>x \<in> set g. key x = key (hd g)" using bspec [OF Cons.prems(1), of g] by (blast intro: list.set_intros(1))+
  have dist: "distinct (map (key \<circ> hd) gs)" "\<forall>h \<in> set gs. key (hd h) \<noteq> key (hd g)" using Cons.prems(2)
    unfolding list.map distinct.simps by (simp_all add: image_iff) metis
  have IH: "runs key (concat gs) = gs" by (rule Cons.IH [OF all dist(1)])
  have "gs = [] \<or> hd gs \<noteq> [] \<and> key (hd (hd gs)) \<noteq> key (hd g)" using all dist(2) by (meson hd_in_set)
  with runs_group [OF g, of "concat gs"] show ?case by (simp add: IH)
qed

lemma concat_map_occupied: "concat (map f (filter (\<lambda>i. f i \<noteq> []) is)) = concat (map f is)"
  by (induction "is") auto

text \<open>The occupied levels of a side are the runs of its resting orders.\<close>

lemma occupied_groups:
  assumes rep: "book_rep os H B Q"
  defines "g \<equiv> \<lambda>d i. map (order_at (book_mem B)) (Q d i)"
  shows "depth_view (resting d B) = map (g d) (sorted_list_of_set (occ_set (ladder_of d B)))"
    and "i \<in> occ_set (ladder_of d B) \<Longrightarrow> shows_level (snapshot_of (level_of (d, i) B)) (g d i)"
proof -
  note D = book_repD [OF rep [unfolded book_rep_def]]
  let ?L = "ladder_of d B"
  have occ: "occ_set ?L = {i. i < levelCount ?L \<and> Q d i \<noteq> []}" using D(3) by (simp add: ladders_ok_def)
  have order: "price x = levelPrice (level_of (d, i) B)" if "i < levelCount ?L" "x \<in> set (g d i)" for i x
  proof -
    obtain p where p: "p \<in> set (Q d i)" "x = order_at (book_mem B) p" using \<open>x \<in> set (g d i)\<close> unfolding g_def by auto
    from levels_repD(2) [OF D(4) \<open>i < levelCount ?L\<close> p(1)] obtain ord where "book_mem B p = Some ord" "price ord = levelPrice (level_of (d, i) B)" by auto
    then show ?thesis using p(2) by (simp add: order_at_Some strip_def)
  qed
  have idx: "sorted_list_of_set (occ_set ?L) = filter (\<lambda>i. g d i \<noteq> []) [0..<levelCount ?L]"
    by (rule sorted_distinct_set_unique) (auto simp: occ g_def sorted_wrt_filter)
  have inj: "inj_on (\<lambda>i. levelPrice (level_of (d, i) B)) {..<levelCount ?L}"
    
  proof (rule linorder_inj_onI)
    fix i j assume "i < j" "i \<in> {..<levelCount ?L}" "j \<in> {..<levelCount ?L}"
    with level_price_better [OF D(3), of i j d] show "levelPrice (level_of (d, i) B) \<noteq> levelPrice (level_of (d, j) B)" by (cases d) auto
  qed auto
  have rest: "resting d B = concat (map (g d) (sorted_list_of_set (occ_set ?L)))"
    unfolding resting_ptrs [OF rep] side_ptrs_def map_concat idx concat_map_occupied by (simp add: map_map comp_def g_def)
  have ne: "g d i \<noteq> []" "i < levelCount ?L" if "i \<in> set (sorted_list_of_set (occ_set ?L))" for i using that by (auto simp: idx)
  have hd: "price (hd (g d i)) = levelPrice (level_of (d, i) B)" if "i \<in> set (sorted_list_of_set (occ_set ?L))" for i
    using order [OF ne(2) [OF that]] ne(1) [OF that] by simp
  have "map (price \<circ> hd) (map (g d) (sorted_list_of_set (occ_set ?L))) = map (\<lambda>i. levelPrice (level_of (d, i) B)) (sorted_list_of_set (occ_set ?L))"
    unfolding map_map using hd by (intro map_cong) (simp_all only: comp_apply)
  moreover have "distinct (map (\<lambda>i. levelPrice (level_of (d, i) B)) (sorted_list_of_set (occ_set ?L)))"
    unfolding distinct_map using inj ne(2) by (auto intro: inj_on_subset)
  ultimately have dist: "distinct (map (price \<circ> hd) (map (g d) (sorted_list_of_set (occ_set ?L))))" by (simp only:)
  show "depth_view (resting d B) = map (g d) (sorted_list_of_set (occ_set ?L))"
    unfolding depth_view_def rest
  proof (rule runs_concat [OF _ dist])
    show "\<forall>x \<in> set (map (g d) (sorted_list_of_set (occ_set ?L))). x \<noteq> [] \<and> (\<forall>y \<in> set x. price y = price (hd x))"
    proof
      fix x assume "x \<in> set (map (g d) (sorted_list_of_set (occ_set ?L)))"
      then obtain i where i: "i \<in> set (sorted_list_of_set (occ_set ?L))" "x = g d i" by auto
      show "x \<noteq> [] \<and> (\<forall>y \<in> set x. price y = price (hd x))"
        unfolding i(2) hd [OF i(1)] using ne [OF i(1)] order by blast
    qed
  qed
  show "shows_level (snapshot_of (level_of (d, i) B)) (g d i)" if "i \<in> occ_set ?L"
  proof -
    have i: "i \<in> set (sorted_list_of_set (occ_set ?L))" "i < levelCount ?L" using that occ by (auto simp: occ)
    have lr: "level_rep (book_mem B) (d, i) (level_of (d, i) B) (Q d i)" by (rule levels_repD(1) [OF D(4) i(2)])
    have "map (unat \<circ> remainingQuantity) (g d i) = map (rem_of (book_mem B)) (Q d i)"
      unfolding g_def map_map
    proof (rule map_cong [OF refl])
      fix p assume "p \<in> set (Q d i)"
      with levels_repD(2) [OF D(4) i(2)] obtain ord where "book_mem B p = Some ord" by blast
      then show "(unat \<circ> remainingQuantity \<circ> order_at (book_mem B)) p = rem_of (book_mem B) p"
        by (simp add: order_at_Some strip_def rem_of_def)
    qed
    with lr hd [OF i(1)] ne(1) [OF i(1)] show ?thesis
      by (simp add: shows_level_def snapshot_of_def level_rep_def) (simp add: g_def)
  qed
qed

lemma captured_side:
  assumes "book_rep os H B Q"
  shows "list_all2 shows_level (forEachOccupied depth snapshot_of (ladder_of d B)) (take depth (depth_view (resting d B)))"
    and "occupied (ladder_of d B) = length (depth_view (resting d B))"
proof -
  note D = book_repD [OF assms [unfolded book_rep_def]]
  have lok: "ladder_ok (ladder_of d B)" by (rule ladders_okD(1) [OF D(3)])
  have "i \<in> occ_set (ladder_of d B)" if "i \<in> set (take depth (sorted_list_of_set (occ_set (ladder_of d B))))" for i
    using that bits_of_finite by (auto dest!: in_set_takeD)
  then show "list_all2 shows_level (forEachOccupied depth snapshot_of (ladder_of d B)) (take depth (depth_view (resting d B)))"
    unfolding forEachOccupied_def visited_best [OF lok] occupied_groups(1) [OF assms] take_map list_all2_map1 list_all2_map2
    using occupied_groups(2) [OF assms] by (auto simp: list.rel_refl_strong level_of_def intro!: list.rel_refl_strong)
  show "occupied (ladder_of d B) = length (depth_view (resting d B))"
    unfolding occupied_groups(1) [OF assms] using ladder_okD(3) [OF lok] by simp
qed

section \<open>Properties\<close>

text \<open>
  C15. A snapshot is the book seen from outside: on a well-formed book a capture to any depth
  lists, for each side, the best prices of the resting orders in priority order with the
  number of orders at each, at most \<open>depth\<close> of them; no level shows less than the quantity
  resting there; the best prices are those of the first listed levels, zero when none is
  listed; the level counts are the numbers of distinct prices; and the caller's sequence and
  time stamp are left alone.
\<close>
theorem snapshot_exact:
  assumes "book_ok os H B"
  shows "let s' = captureSnapshot depth B s in
    list_all2 shows_level (snapBids s') (take depth (depth_view (resting Bids B))) \<and>
    list_all2 shows_level (snapAsks s') (take depth (depth_view (resting Asks B))) \<and>
    bidLevelCount s' = length (depth_view (resting Bids B)) \<and> askLevelCount s' = length (depth_view (resting Asks B)) \<and>
    bestBidRaw s' = (case take depth (depth_view (resting Bids B)) of [] \<Rightarrow> 0 | g # _ \<Rightarrow> price (hd g)) \<and>
    bestAskRaw s' = (case take depth (depth_view (resting Asks B)) of [] \<Rightarrow> 0 | g # _ \<Rightarrow> price (hd g)) \<and>
    snapSequence s' = snapSequence s \<and> snapTsNs s' = snapTsNs s"
proof -
  obtain Q where rep: "book_rep os H B Q" using book_okE [OF assms] .
  note b = captured_side [OF rep, where d = Bids, simplified] and a = captured_side [OF rep, where d = Asks, simplified]
  have first: "(case ls of [] \<Rightarrow> 0 | l # _ \<Rightarrow> levelPriceRaw l) = (case gs of [] \<Rightarrow> 0 | g # _ \<Rightarrow> price (hd g))"
    if "list_all2 shows_level ls gs" for ls gs
    using that by (cases rule: list.rel_cases) (auto simp: shows_level_def)
  show ?thesis using b a first [OF b(1)] first [OF a(1)] by (simp add: captureSnapshot_def Let_def)
qed

section \<open>Witnesses\<close>

theorem snapshot_exact_witness:
  "let s' = captureSnapshot 5 demo_ask BookSnapshot_new in
    bestAskRaw s' = 101 \<and> bestBidRaw s' = 0 \<and> askLevelCount s' = 1 \<and> length (snapAsks s') = 1"
proof -
  have g: "depth_view [demo_order] = [[demo_order]]" "depth_view [] = []" by (simp_all add: depth_view_def runs_def)
  have pr: "price demo_order = 101" by (simp add: demo_order_def Order_new_def Order_full_def)
  show ?thesis using snapshot_exact [OF demo_ask_ok(1), of 5 BookSnapshot_new]
    by (auto simp: Let_def demo_ask_ok(2,3) g pr list_all2_Cons2)
qed

end
