(* ===== verification/Json_Text.thy ===== *)
theory Json_Text
  imports Text_Format
begin

text \<open>
  JSON text: values, the writer that gives a value its canonical text without blanks, and a
  reader. It is the reference for the lines \<open>snapshot_recorder.cpp\<close> writes. The writer escapes
  what the program escapes, quotes and backslashes; the reader follows the standard and takes
  no raw control character in a string. So the reader inverts the writer on the values whose
  strings have none, and only on them.
\<close>

section \<open>Values and their text\<close>

datatype json = JNum nat | JStr string | JArr "json list" | JObj "(string \<times> json) list"

fun commas :: "string list \<Rightarrow> string" where
  "commas [] = []"
| "commas [x] = x"
| "commas (x # y # zs) = x @ '','' @ commas (y # zs)"

text \<open>A quote and a backslash are escaped inside a string.\<close>

definition escaped :: "string \<Rightarrow> string" where
  "escaped s = concat (map (\<lambda>c. if c = CHR 0x22 \<or> c = CHR 0x5C then [CHR 0x5C, c] else [c]) s)"

definition quoted :: "string \<Rightarrow> string" where
  "quoted s = CHR 0x22 # escaped s @ [CHR 0x22]"

fun render :: "json \<Rightarrow> string" where
  "render (JNum n) = to_chars n"
| "render (JStr s) = quoted s"
| "render (JArr js) = ''['' @ commas (map render js) @ '']''"
| "render (JObj ms) = ''{'' @ commas (map (\<lambda>(k, j). quoted k @ '':'' @ render j) ms) @ ''}''"

section \<open>A reader\<close>

text \<open>
  As in the standard, a string holds no raw control character, and only certain characters may
  follow a backslash. The escapes with a letter stand for control characters; the writer never
  makes one of them, and \<open>u\<close> with a code is left out.
\<close>

definition is_control :: "char \<Rightarrow> bool" where
  "is_control c \<longleftrightarrow> of_char c < (32 :: nat)"

definition unescape :: "char \<Rightarrow> char option" where
  "unescape c =
     (if c = CHR 0x22 \<or> c = CHR 0x5C \<or> c = CHR ''/'' then Some c
      else map_of [(CHR ''b'', CHR 0x08), (CHR ''f'', CHR 0x0C), (CHR ''n'', CHR 0x0A), (CHR ''r'', CHR 0x0D), (CHR ''t'', CHR 0x09)] c)"

fun read_str :: "string \<Rightarrow> (string \<times> string) option" where
  "read_str [] = None"
| "read_str [c] = (if c = CHR 0x22 then Some ([], []) else None)"
| "read_str (c # d # s) =
     (if c = CHR 0x22 then Some ([], d # s)
      else if c = CHR 0x5C then
        (case unescape d of None \<Rightarrow> None | Some x \<Rightarrow> map_option (apfst (Cons x)) (read_str s))
      else if is_control c then None
      else map_option (apfst (Cons c)) (read_str (d # s)))"

definition read_num :: "string \<Rightarrow> (nat \<times> string) option" where
  "read_num s =
     (case takeWhile is_digit s of
        [] \<Rightarrow> None
      | ds \<Rightarrow> Some (dec_value ds, dropWhile is_digit s))"

text \<open>
  Values by recursive descent. The fuel bounds the nesting and the number of elements; the
  list readers stand after the opening bracket or after a comma.
\<close>

fun read_json :: "nat \<Rightarrow> string \<Rightarrow> (json \<times> string) option"
and read_elements :: "nat \<Rightarrow> string \<Rightarrow> (json list \<times> string) option"
and read_members :: "nat \<Rightarrow> string \<Rightarrow> ((string \<times> json) list \<times> string) option" where
  "read_json 0 s = None"
| "read_json (Suc n) s =
     (case s of
        [] \<Rightarrow> None
      | c # r \<Rightarrow>
        if c = CHR 0x22 then map_option (apfst JStr) (read_str r)
        else if c = CHR ''['' then
          (if r \<noteq> [] \<and> hd r = CHR '']'' then Some (JArr [], tl r) else map_option (apfst JArr) (read_elements n r))
        else if c = CHR ''{'' then
          (if r \<noteq> [] \<and> hd r = CHR ''}'' then Some (JObj [], tl r) else map_option (apfst JObj) (read_members n r))
        else map_option (apfst JNum) (read_num s))"
| "read_elements 0 s = None"
| "read_elements (Suc n) s =
     (case read_json n s of
        Some (j, c # r) \<Rightarrow>
          if c = CHR '','' then map_option (apfst (Cons j)) (read_elements n r)
          else if c = CHR '']'' then Some ([j], r) else None
      | _ \<Rightarrow> None)"
| "read_members 0 s = None"
| "read_members (Suc n) s =
     (case s of
        [] \<Rightarrow> None
      | q # s1 \<Rightarrow>
        if q \<noteq> CHR 0x22 then None
        else (case read_str s1 of
          Some (k, d # s2) \<Rightarrow>
            if d \<noteq> CHR '':'' then None
            else (case read_json n s2 of
              Some (j, c # r) \<Rightarrow>
                if c = CHR '','' then map_option (apfst (Cons (k, j))) (read_members n r)
                else if c = CHR ''}'' then Some ([(k, j)], r) else None
            | _ \<Rightarrow> None)
        | _ \<Rightarrow> None))"

text \<open>One line of a file, without its line end: a value and nothing after it.\<close>

definition read_line :: "nat \<Rightarrow> string \<Rightarrow> json option" where
  "read_line n s = (case read_json n s of Some (j, []) \<Rightarrow> Some j | _ \<Rightarrow> None)"

text \<open>A value whose strings need no other escapes than those the writer makes.\<close>

abbreviation clean_text :: "string \<Rightarrow> bool" where
  "clean_text s \<equiv> \<forall>c \<in> set s. \<not> is_control c"

fun clean :: "json \<Rightarrow> bool" where
  "clean (JNum n) \<longleftrightarrow> True"
| "clean (JStr s) \<longleftrightarrow> clean_text s"
| "clean (JArr js) \<longleftrightarrow> (\<forall>j \<in> set js. clean j)"
| "clean (JObj ms) \<longleftrightarrow> (\<forall>(k, j) \<in> set ms. clean_text k \<and> clean j)"

section \<open>The reader inverts the writer\<close>

lemma escaped_Nil [simp]: "escaped [] = []"
  by (simp add: escaped_def)

lemma escaped_Cons: "escaped (c # s) = (if c = CHR 0x22 \<or> c = CHR 0x5C then [CHR 0x5C, c] else [c]) @ escaped s"
  by (simp add: escaped_def)

lemma unescape_simps: "unescape (CHR 0x22) = Some (CHR 0x22)" "unescape (CHR 0x5C) = Some (CHR 0x5C)"
  by (simp_all add: unescape_def)

lemma read_str_step:
  assumes "\<not> is_control c" and "t \<noteq> []"
  shows "read_str ((if c = CHR 0x22 \<or> c = CHR 0x5C then [CHR 0x5C, c] else [c]) @ t) = map_option (apfst (Cons c)) (read_str t)"
  using assms by (cases t) (auto simp: unescape_simps)

lemma read_str_escaped: "clean_text s \<Longrightarrow> read_str (escaped s @ CHR 0x22 # r) = Some (s, r)"
proof (induction s)
  case Nil
  then show ?case by (cases r) simp_all
next
  case (Cons c s)
  then show ?case using read_str_step [of c "escaped s @ CHR 0x22 # r"] by (simp add: escaped_Cons)
qed

text \<open>A string cut off before its closing quote, or with a raw control character, is not read.\<close>

lemma read_str_unclosed:
  assumes "clean_text s" and "r = [] \<or> is_control (hd r) \<and> hd r \<noteq> CHR 0x22 \<and> hd r \<noteq> CHR 0x5C"
  shows "read_str (escaped s @ r) = None"
  using assms(1)
proof (induction s)
  case Nil
  show ?case using assms(2) by (cases r rule: read_str.cases) auto
next
  case (Cons c s)
  then have IH: "read_str (escaped s @ r) = None" by simp
  show ?case
  proof (cases "escaped s @ r = []")
    case True
    with Cons.prems show ?thesis by (auto simp: escaped_Cons unescape_simps)
  next
    case False
    with read_str_step [OF _ False, of c] IH Cons.prems show ?thesis by (simp add: escaped_Cons)
  qed
qed

lemma read_num_to_chars:
  assumes "r = [] \<or> \<not> is_digit (hd r)"
  shows "read_num (to_chars n @ r) = Some (n, r)"
proof -
  have "takeWhile is_digit (to_chars n @ r) = to_chars n" "dropWhile is_digit (to_chars n @ r) = r"
    using assms to_chars_digit by (cases r; simp add: takeWhile_append dropWhile_append2 takeWhile_eq_all_conv)+
  moreover obtain d ds where "to_chars n = d # ds" using to_chars_ne by (cases "to_chars n") auto
  ultimately show ?thesis using dec_value_to_chars [of n] by (simp add: read_num_def)
qed

text \<open>How much fuel a value needs.\<close>

fun weight :: "json \<Rightarrow> nat" where
  "weight (JNum n) = 1"
| "weight (JStr s) = 1"
| "weight (JArr js) = 1 + sum_list (map (\<lambda>j. 1 + weight j) js)"
| "weight (JObj ms) = 1 + sum_list (map (\<lambda>(k, j). 1 + weight j) ms)"

lemma to_chars_first: "hd (to_chars n) \<notin> {CHR 0x22, CHR ''['', CHR ''{''}"
proof -
  have "is_digit (hd (to_chars n))" by (rule to_chars_digit [OF hd_in_set [OF to_chars_ne]])
  then show ?thesis by (auto simp: is_digit_def)
qed

definition stops :: "string \<Rightarrow> bool" where
  "stops r \<longleftrightarrow> r = [] \<or> \<not> is_digit (hd r)"

lemma stops_simps [simp]: "stops (CHR '','' # r)" "stops (CHR '']'' # r)" "stops (CHR ''}'' # r)" "stops (CHR 0x0A # r)" "stops []"
  by (simp_all add: stops_def is_digit_def)

lemma render_first: "render j \<noteq> [] \<and> hd (render j) \<noteq> CHR '']'' \<and> hd (render j) \<noteq> CHR ''}''"
proof (cases j)
  case (JNum n)
  have "is_digit (hd (to_chars n))" by (rule to_chars_digit [OF hd_in_set [OF to_chars_ne]])
  then show ?thesis using JNum to_chars_ne by (auto simp: is_digit_def)
qed (simp_all add: quoted_def)

lemma read_elements_render:
  assumes "js \<noteq> []" and "\<And>j m s. j \<in> set js \<Longrightarrow> weight j \<le> m \<Longrightarrow> stops s \<Longrightarrow> read_json m (render j @ s) = Some (j, s)"
    and "sum_list (map (\<lambda>j. 1 + weight j) js) \<le> n"
  shows "read_elements n (commas (map render js) @ CHR '']'' # r) = Some (js, r)"
  using assms
proof (induction js arbitrary: n rule: list_nonempty_induct)
  case (single j)
  then obtain m where "n = Suc m" "weight j \<le> m" by (cases n) auto
  with single.prems(1) [of j m "CHR '']'' # r"] show ?case by simp
next
  case (cons j js)
  then obtain m where m: "n = Suc m" "weight j \<le> m" "sum_list (map (\<lambda>j. 1 + weight j) js) \<le> m" by (cases n) auto
  have "commas (map render (j # js)) = render j @ '','' @ commas (map render js)" using cons.hyps by (cases js) auto
  moreover have "read_elements m (commas (map render js) @ CHR '']'' # r) = Some (js, r)"
    by (rule cons.IH) (use cons.prems(1) m(3) in auto)
  ultimately show ?case using cons.prems(1) [of j m "CHR '','' # commas (map render js) @ CHR '']'' # r"] m(1,2) by simp
qed

lemma read_members_render:
  assumes "ms \<noteq> []" and "\<And>j m s. j \<in> snd ` set ms \<Longrightarrow> weight j \<le> m \<Longrightarrow> stops s \<Longrightarrow> read_json m (render j @ s) = Some (j, s)"
    and "sum_list (map (\<lambda>(k, j). 1 + weight j) ms) \<le> n" and "\<forall>k \<in> fst ` set ms. clean_text k"
  shows "read_members n (commas (map (\<lambda>(k, j). quoted k @ '':'' @ render j) ms) @ CHR ''}'' # r) = Some (ms, r)"
  using assms
proof (induction ms arbitrary: n rule: list_nonempty_induct)
  case (single x)
  obtain k j where x: "x = (k, j)" by (cases x)
  with single obtain m where "n = Suc m" "weight j \<le> m" by (cases n) auto
  with single.prems(1) [of j m "CHR ''}'' # r"] single.prems(3) x show ?case by (simp add: quoted_def read_str_escaped)
next
  case (cons x ms)
  let ?t = "commas (map (\<lambda>(k, j). quoted k @ '':'' @ render j) ms)"
  obtain k j where x: "x = (k, j)" by (cases x)
  with cons obtain m where m: "n = Suc m" "weight j \<le> m" "sum_list (map (\<lambda>(k, j). 1 + weight j) ms) \<le> m" by (cases n) auto
  have "commas (map (\<lambda>(k, j). quoted k @ '':'' @ render j) (x # ms)) = quoted k @ '':'' @ render j @ '','' @ ?t"
    using cons.hyps x by (cases ms) auto
  moreover have "read_members m (?t @ CHR ''}'' # r) = Some (ms, r)"
    by (rule cons.IH) (use cons.prems(1,3) m(3) in auto)
  ultimately show ?case using cons.prems(1) [of j m "CHR '','' # ?t @ CHR ''}'' # r"] cons.prems(3) m(1,2) x
    by (simp add: quoted_def read_str_escaped)
qed

lemma commas_ne: "xs \<noteq> [] \<Longrightarrow> hd xs \<noteq> [] \<Longrightarrow> commas xs \<noteq> [] \<and> hd (commas xs) = hd (hd xs)"
  by (cases xs rule: commas.cases) auto

lemma read_json_render: "clean j \<Longrightarrow> weight j \<le> n \<Longrightarrow> stops s \<Longrightarrow> read_json n (render j @ s) = Some (j, s)"
proof (induction j arbitrary: n s)
  case (JNum k)
  then obtain m where "n = Suc m" by (cases n) auto
  moreover obtain c t where "to_chars k = c # t" using to_chars_ne by (cases "to_chars k") auto
  ultimately show ?case using to_chars_first [of k] read_num_to_chars [of s k] JNum.prems(3) by (simp add: stops_def)
next
  case (JStr k)
  then obtain m where "n = Suc m" by (cases n) auto
  then show ?case using JStr.prems(1) by (simp add: quoted_def read_str_escaped)
next
  case (JArr js)
  then obtain m where m: "n = Suc m" "sum_list (map (\<lambda>j. 1 + weight j) js) \<le> m" by (cases n) auto
  show ?case
  proof (cases js)
    case (Cons j js')
    then have "js \<noteq> []" by simp
    from read_elements_render [OF this _ m(2)] JArr.IH JArr.prems(1)
    have "read_elements m (commas (map render js) @ CHR '']'' # s) = Some (js, s)" by simp
    moreover have "commas (map render js) \<noteq> [] \<and> hd (commas (map render js)) \<noteq> CHR '']''"
      using commas_ne [of "map render js"] render_first [of j] Cons by simp
    ultimately show ?thesis using m(1) by simp
  qed (simp add: m(1))
next
  case (JObj ms)
  let ?t = "commas (map (\<lambda>(k, j). quoted k @ '':'' @ render j) ms)"
  from JObj obtain m where m: "n = Suc m" "sum_list (map (\<lambda>(k, j). 1 + weight j) ms) \<le> m" by (cases n) auto
  show ?case
  proof (cases ms)
    case (Cons x ms')
    then have "ms \<noteq> []" by simp
    have "read_members m (?t @ CHR ''}'' # s) = Some (ms, s)"
      by (rule read_members_render [OF \<open>ms \<noteq> []\<close> _ m(2)]) (use JObj.IH JObj.prems(1) in fastforce)+
    moreover have "?t \<noteq> [] \<and> hd ?t \<noteq> CHR ''}''"
      using commas_ne [of "map (\<lambda>(k, j). quoted k @ '':'' @ render j) ms"] Cons by (cases x) (simp add: quoted_def)
    ultimately show ?thesis using m(1) by simp
  qed (simp add: m(1))
qed

lemma read_line_render: "clean j \<Longrightarrow> weight j \<le> n \<Longrightarrow> read_line n (render j) = Some j"
  using read_json_render [of j n "[]"] by (simp add: read_line_def)

text \<open>The text of such a value stays on one line.\<close>

lemma newline_control: "is_control newline"
  by (simp add: is_control_def)

lemma escaped_newline: "newline \<in> set (escaped s) \<longleftrightarrow> newline \<in> set s" "count_list (escaped s) newline = count_list s newline"
  by (induction s) (auto simp: escaped_Cons)

lemma commas_newline: "newline \<notin> set (commas xs) \<longleftrightarrow> (\<forall>x \<in> set xs. newline \<notin> set x)"
  by (induction xs rule: commas.induct) auto

lemma quoted_newline: "clean_text s \<Longrightarrow> newline \<notin> set (quoted s)"
  using newline_control by (auto simp: quoted_def escaped_newline)

lemma to_chars_newline: "newline \<notin> set (to_chars n)"
  using to_chars_digit [of newline n] by (auto simp: is_digit_def)

lemma render_newline: "clean j \<Longrightarrow> newline \<notin> set (render j)"
proof (induction j)
  case (JArr js)
  then show ?case by (simp add: commas_newline)
next
  case (JObj ms)
  have "newline \<notin> set (quoted k @ '':'' @ render j)" if "(k, j) \<in> set ms" for k j
  proof -
    have c: "clean_text k" "clean j" using bspec [OF JObj.prems [unfolded clean.simps] that] by simp_all
    show ?thesis using JObj.IH [OF that _ c(2)] quoted_newline [OF c(1)] by simp
  qed
  then show ?case by (auto simp: commas_newline)
qed (simp_all add: quoted_newline to_chars_newline)

end
