(* ===== verification/Snapshot_Recorder.thy ===== *)
theory Snapshot_Recorder
  imports Interchange_Benchmark Book_Snapshot Json_Text
begin

text \<open>
  \<open>snapshot_recorder\<close> (\<open>tools/viz/snapshot_recorder.cpp\<close>): the events of a file are replayed
  through the engine, and every so many events the book, the counters, the latency figures
  and the executions since the last frame are written as one line of JSON. The duration of
  an engine call (\<open>clock i\<close>) and the rounding of a percentile's rank are parameters; the
  output is the text of the file. The reference describes a frame as a JSON value that
  depends only on the history of the sequential run; the lemmas show that the loop writes
  exactly the texts of these values, one line each. The header line is not always one: the
  program puts the label into it with only quotes and backslashes escaped.
\<close>

section \<open>Model\<close>

record tape_entry =
  tapeTs :: u64
  tapePrice :: u64
  tapeQuantity :: u64
  aggressorSide :: char

record recorder =
  rec_engine :: engine
  rec_buffer :: "execution list"
  rec_snapshot :: book_snapshot
  rec_latency :: "string \<Rightarrow> u64 list option"
  tape :: "tape_entry list"
  newCount :: u64
  cancelCount :: u64
  reduceCount :: u64
  tradeCount :: u64
  buyQty :: u64
  sellQty :: u64
  rec_errors :: u64
  frames :: u64
  rec_out :: string

definition recorder_start :: "engine \<Rightarrow> string \<Rightarrow> recorder" where
  "recorder_start E header =
     \<lparr>rec_engine = E, rec_buffer = [], rec_snapshot = BookSnapshot_new, rec_latency = (\<lambda>_. None), tape = [], newCount = 0,
      cancelCount = 0, reduceCount = 0, tradeCount = 0, buyQty = 0, sellQty = 0, rec_errors = 0, frames = 0, rec_out = header\<rparr>"

subsection \<open>One event\<close>

definition note_event :: "u64 \<Rightarrow> parsed_event \<Rightarrow> recorder \<Rightarrow> recorder" where
  "note_event elapsed e st =
     (let l = event_label e (rec_buffer st);
          st1 = (case kind e of
             KindNew \<Rightarrow> st\<lparr>newCount := newCount st + 1\<rparr>
           | KindReduce \<Rightarrow> st\<lparr>reduceCount := reduceCount st + 1\<rparr>
           | KindCancel \<Rightarrow> st\<lparr>cancelCount := cancelCount st + 1\<rparr>);
          window = (case rec_latency st1 l of None \<Rightarrow> [] | Some w \<Rightarrow> w)
      in st1\<lparr>rec_latency := (rec_latency st1)(l \<mapsto> RollingLatency_add elapsed window)\<rparr>)"

definition note_execution :: "parsed_event \<Rightarrow> execution \<Rightarrow> recorder \<Rightarrow> recorder" where
  "note_execution e x st =
     (let qty = executionQuantity x;
          st1 = st\<lparr>tradeCount := tradeCount st + 1\<rparr>;
          st2 = (if parsed_side e = BUY then st1\<lparr>buyQty := buyQty st1 + qty\<rparr> else st1\<lparr>sellQty := sellQty st1 + qty\<rparr>)
      in st2\<lparr>tape := tape st2 @ [\<lparr>tapeTs = tsNs e, tapePrice = executionPrice x, tapeQuantity = qty,
           aggressorSide = (if parsed_side e = BUY then CHR ''B'' else CHR ''S'')\<rparr>]\<rparr>)"

definition record_event :: "os_env \<Rightarrow> hash_fun \<Rightarrow> u64 \<Rightarrow> parsed_event \<Rightarrow> recorder \<Rightarrow> (unit, recorder) outcome" where
  "record_event os H elapsed e st =
     (case processEvent_into os H (toOrderEvent e) (rec_engine st, rec_buffer st) of
        Ret _ s \<Rightarrow> Ret () (fold (note_execution e) (snd s) (note_event elapsed e (st\<lparr>rec_engine := fst s, rec_buffer := snd s\<rparr>)))
      | Throw x s \<Rightarrow>
        let st1 = st\<lparr>rec_engine := fst s, rec_buffer := snd s\<rparr> in
        if defined_error x then Ret () (st1\<lparr>rec_errors := rec_errors st1 + 1\<rparr>) else Throw x st1)"

subsection \<open>One frame\<close>

definition u64_text :: "u64 \<Rightarrow> string" where
  "u64_text x = to_chars (unat x)"

definition json_key :: "string \<Rightarrow> string" where
  "json_key k = CHR 0x22 # k @ [CHR 0x22, CHR '':'']"

definition appendJsonLevels :: "string \<Rightarrow> snapshot_level list \<Rightarrow> string" where
  "appendJsonLevels out ls =
     out @ ''['' @ commas (map (\<lambda>l. ''['' @ u64_text (levelPriceRaw l) @ '','' @ u64_text (levelQuantity l) @ '','' @
       to_chars (orderCount l) @ '']'') ls) @ '']''"

definition flow_text :: "recorder \<Rightarrow> string" where
  "flow_text st =
     ''{'' @ json_key ''new'' @ u64_text (newCount st) @ '','' @ json_key ''cancel'' @ u64_text (cancelCount st) @
     '','' @ json_key ''reduce'' @ u64_text (reduceCount st) @ '','' @ json_key ''trades'' @ u64_text (tradeCount st) @
     '','' @ json_key ''buyQty'' @ u64_text (buyQty st) @ '','' @ json_key ''sellQty'' @ u64_text (sellQty st) @ ''}''"

definition latency_text :: "rank_fun \<Rightarrow> (string \<Rightarrow> u64 list option) \<Rightarrow> string" where
  "latency_text rank lat =
     ''{'' @ commas (map (\<lambda>name. let p = RollingLatency_percentiles rank (the (lat name)) in
         json_key name @ ''['' @ u64_text (p ! 0) @ '','' @ u64_text (p ! 1) @ '','' @ u64_text (p ! 2) @ '']'')
       (filter (\<lambda>name. lat name \<noteq> None) labels)) @ ''}''"

definition tape_text :: "tape_entry list \<Rightarrow> string" where
  "tape_text tp =
     (let tapeStart = (if length tp > 24 then length tp - 24 else 0) in
      ''['' @ commas (map (\<lambda>t. ''['' @ u64_text (tapeTs t) @ '','' @ u64_text (tapePrice t) @ '','' @ u64_text (tapeQuantity t) @
        '','' @ [CHR 0x22, aggressorSide t, CHR 0x22] @ '']'') (drop tapeStart tp)) @ '']'')"

definition frame_line :: "rank_fun \<Rightarrow> recorder \<Rightarrow> string" where
  "frame_line rank st =
     (let s = rec_snapshot st;
          l1 = ''{'' @ json_key ''seq'' @ u64_text (snapSequence s);
          l2 = l1 @ '','' @ json_key ''ts'' @ u64_text (snapTsNs s);
          l3 = l2 @ '','' @ json_key ''bb'' @ u64_text (bestBidRaw s);
          l4 = l3 @ '','' @ json_key ''ba'' @ u64_text (bestAskRaw s);
          l5 = l4 @ '','' @ json_key ''nb'' @ to_chars (bidLevelCount s);
          l6 = l5 @ '','' @ json_key ''na'' @ to_chars (askLevelCount s);
          l7 = appendJsonLevels (l6 @ '','' @ json_key ''bids'') (snapBids s);
          l8 = appendJsonLevels (l7 @ '','' @ json_key ''asks'') (snapAsks s);
          l9 = l8 @ '','' @ json_key ''flow'' @ flow_text st;
          l10 = l9 @ '','' @ json_key ''lat'' @ latency_text rank (rec_latency st)
      in l10 @ '','' @ json_key ''tape'' @ tape_text (tape st) @ ''}'' @ [newline])"

definition due :: "nat \<Rightarrow> nat \<Rightarrow> nat \<Rightarrow> bool" where
  "due every n i \<longleftrightarrow> \<not> ((i + 1) mod every \<noteq> 0 \<and> i + 1 \<noteq> n)"

definition emit_frame :: "rank_fun \<Rightarrow> nat \<Rightarrow> nat \<Rightarrow> parsed_event \<Rightarrow> recorder \<Rightarrow> recorder" where
  "emit_frame rank depth i e st =
     (let s = captureSnapshot depth (book (rec_engine st)) (rec_snapshot st);
          st1 = st\<lparr>rec_snapshot := s\<lparr>snapSequence := word_of_nat (i + 1), snapTsNs := tsNs e\<rparr>\<rparr>
      in st1\<lparr>tape := [], rec_out := rec_out st1 @ frame_line rank st1, frames := frames st1 + 1\<rparr>)"

definition record_round ::
  "os_env \<Rightarrow> hash_fun \<Rightarrow> rank_fun \<Rightarrow> (nat \<Rightarrow> u64) \<Rightarrow> nat \<Rightarrow> nat \<Rightarrow> nat \<Rightarrow> nat \<Rightarrow> parsed_event \<Rightarrow> recorder \<Rightarrow> (unit, recorder) outcome" where
  "record_round os H rank clock depth every n i e st =
     bind_outcome (record_event os H (clock i) e st) (\<lambda>_ st1.
       Ret () (if due every n i then emit_frame rank depth i e st1 else st1))"

subsection \<open>The whole run\<close>

record recorder_options =
  optInput :: string
  optOutput :: string
  optLabel :: string
  snapshotEvery :: u64
  optDepth :: u64
  optTick :: u64
  optHeadroom :: string

definition header_line :: "recorder_options \<Rightarrow> nat \<Rightarrow> feed \<Rightarrow> string" where
  "header_line opt every fd =
     ''{'' @ json_key ''type'' @ [CHR 0x22] @ ''meta'' @ [CHR 0x22] @ '','' @ json_key ''label'' @ [CHR 0x22] @ escaped (optLabel opt) @
     [CHR 0x22] @ '','' @ json_key ''events'' @ to_chars (length (events fd)) @ '','' @ json_key ''tick'' @ u64_text (optTick opt) @
     '','' @ json_key ''depth'' @ u64_text (optDepth opt) @ '','' @ json_key ''every'' @ to_chars every @
     '','' @ json_key ''minPrice'' @ u64_text (feedMin fd) @ '','' @ json_key ''maxPrice'' @ u64_text (feedMax fd) @ ''}'' @ [newline]"

definition frame_distance :: "recorder_options \<Rightarrow> feed \<Rightarrow> nat" where
  "frame_distance opt fd =
     (if snapshotEvery opt = 0 then max 1 (length (events fd) div 1500) else unat (snapshotEvery opt))"

text \<open>
  The run on a file's text: the input file, the conversion of the headroom option and whether
  the output file can be written are parameters.
\<close>

definition snapshot_recorder ::
  "os_env \<Rightarrow> hash_fun \<Rightarrow> rank_fun \<Rightarrow> (nat \<Rightarrow> u64) \<Rightarrow> (string \<Rightarrow> u64 \<Rightarrow> u64) \<Rightarrow> bool \<Rightarrow> recorder_options \<Rightarrow> u64 \<Rightarrow> string
    \<Rightarrow> recorder tool_result" where
  "snapshot_recorder os H rank clock scaled writable opt c input =
     (let fd = read_feed input in
      if feedMin fd = - 1 then ToolExit 1
      else let every = frame_distance opt fd in
        case interchange_engine os H (scaled (optHeadroom opt)) (optTick opt) True c fd of
        Inl x \<Rightarrow> ToolUncaught x
      | Inr E \<Rightarrow>
        if \<not> writable then ToolExit 1
        else (case run_all (\<lambda>(i, e). record_round os H rank clock (unat (optDepth opt)) every (length (events fd)) i e)
                    (enumerate 0 (events fd)) (recorder_start E (header_line opt every fd)) of
           Ret _ st \<Rightarrow> ToolDone st
         | Throw x st \<Rightarrow> ToolUncaught x))"

section \<open>Reference\<close>

text \<open>A frame as a value: the book, the counters, the latency figures and the tape.\<close>

definition jnum :: "u64 \<Rightarrow> json" where
  "jnum x = JNum (unat x)"

definition levels_json :: "snapshot_level list \<Rightarrow> json" where
  "levels_json ls = JArr (map (\<lambda>l. JArr [jnum (levelPriceRaw l), jnum (levelQuantity l), JNum (orderCount l)]) ls)"

definition frame_json :: "book_snapshot \<Rightarrow> (string \<times> u64) list \<Rightarrow> (string \<times> u64 list) list \<Rightarrow> tape_entry list \<Rightarrow> json" where
  "frame_json s flow lat tp =
     JObj [(''seq'', jnum (snapSequence s)), (''ts'', jnum (snapTsNs s)), (''bb'', jnum (bestBidRaw s)), (''ba'', jnum (bestAskRaw s)),
       (''nb'', JNum (bidLevelCount s)), (''na'', JNum (askLevelCount s)),
       (''bids'', levels_json (snapBids s)), (''asks'', levels_json (snapAsks s)),
       (''flow'', JObj (map (\<lambda>(k, x). (k, jnum x)) flow)),
       (''lat'', JObj (map (\<lambda>(k, ps). (k, JArr (map jnum ps))) lat)),
       (''tape'', JArr (map (\<lambda>t. JArr [jnum (tapeTs t), jnum (tapePrice t), jnum (tapeQuantity t), JStr [aggressorSide t]]) tp))]"

text \<open>The trades of the accepted events of a history.\<close>

definition trades :: "turn list \<Rightarrow> (parsed_event \<times> execution) list" where
  "trades h = concat (map (\<lambda>t. map (Pair (turn_event t)) (executions_of (turn_reply t))) (accepted h))"

definition entry_of :: "parsed_event \<times> execution \<Rightarrow> tape_entry" where
  "entry_of ex =
     \<lparr>tapeTs = tsNs (fst ex), tapePrice = executionPrice (snd ex), tapeQuantity = executionQuantity (snd ex),
      aggressorSide = (if parsed_side (fst ex) = BUY then CHR ''B'' else CHR ''S'')\<rparr>"

definition quantity_where :: "(order_side \<Rightarrow> bool) \<Rightarrow> turn list \<Rightarrow> u64" where
  "quantity_where P h = sum_list (map (executionQuantity \<circ> snd) (filter (P \<circ> parsed_side \<circ> fst) (trades h)))"

definition kind_count :: "event_kind \<Rightarrow> turn list \<Rightarrow> u64" where
  "kind_count k h = word_of_nat (length (filter (\<lambda>t. kind (turn_event t) = k) (accepted h)))"

definition flow_after :: "turn list \<Rightarrow> (string \<times> u64) list" where
  "flow_after h =
     [(''new'', kind_count KindNew h), (''cancel'', kind_count KindCancel h), (''reduce'', kind_count KindReduce h),
      (''trades'', word_of_nat (length (trades h))), (''buyQty'', quantity_where (\<lambda>d. d = BUY) h),
      (''sellQty'', quantity_where (\<lambda>d. d \<noteq> BUY) h)]"

definition latency_after :: "rank_fun \<Rightarrow> (nat \<Rightarrow> u64) \<Rightarrow> turn list \<Rightarrow> (string \<times> u64 list) list" where
  "latency_after rank clock h =
     map (\<lambda>l. (l, RollingLatency_percentiles rank (fold RollingLatency_add (samples clock l h) [])))
       (filter (\<lambda>l. samples clock l h \<noteq> []) labels)"

text \<open>The frame after event \<open>k\<close>: its tape goes back to the previous frame.\<close>

definition frame_after :: "rank_fun \<Rightarrow> (nat \<Rightarrow> u64) \<Rightarrow> nat \<Rightarrow> nat \<Rightarrow> turn list \<Rightarrow> nat \<Rightarrow> json" where
  "frame_after rank clock depth every h k =
     (let past = take (k + 1) h;
          fresh = map entry_of (trades (drop (k div every * every) past));
          s = captureSnapshot depth (book (turn_engine (h ! k))) BookSnapshot_new
      in frame_json (s\<lparr>snapSequence := word_of_nat (k + 1), snapTsNs := tsNs (turn_event (h ! k))\<rparr>)
           (flow_after past) (latency_after rank clock past) (drop (length fresh - 24) fresh))"

section \<open>Lemmas\<close>

subsection \<open>A line is the text of a value\<close>

lemma escaped_plain: "CHR 0x22 \<notin> set s \<Longrightarrow> CHR 0x5C \<notin> set s \<Longrightarrow> escaped s = s"
  by (induction s) (auto simp: escaped_def)

lemma key_render: "CHR 0x22 \<notin> set k \<Longrightarrow> CHR 0x5C \<notin> set k \<Longrightarrow> quoted k @ '':'' = json_key k"
  by (simp add: quoted_def json_key_def escaped_plain)

lemma render_jnum: "render (jnum x) = u64_text x"
  by (simp add: jnum_def u64_text_def)

lemma render_frame:
  "render (JObj [(''seq'', a), (''ts'', b), (''bb'', c), (''ba'', d), (''nb'', e), (''na'', f), (''bids'', g), (''asks'', h),
      (''flow'', i), (''lat'', j), (''tape'', k)]) =
     ''{'' @ json_key ''seq'' @ render a @ '','' @ json_key ''ts'' @ render b @ '','' @ json_key ''bb'' @ render c @
     '','' @ json_key ''ba'' @ render d @ '','' @ json_key ''nb'' @ render e @ '','' @ json_key ''na'' @ render f @
     '','' @ json_key ''bids'' @ render g @ '','' @ json_key ''asks'' @ render h @ '','' @ json_key ''flow'' @ render i @
     '','' @ json_key ''lat'' @ render j @ '','' @ json_key ''tape'' @ render k @ ''}''"
  by (simp add: json_key_def quoted_def escaped_def)

lemma levels_render: "appendJsonLevels out ls = out @ render (levels_json ls)"
  by (simp add: levels_json_def appendJsonLevels_def jnum_def u64_text_def comp_def)

lemma percentiles_three: "\<exists>a b c. RollingLatency_percentiles rank w = [a, b, c]"
  by (simp add: RollingLatency_percentiles_def Let_def)

lemma latency_render:
  "render (JObj (map (\<lambda>(k, ps). (k, JArr (map jnum ps)))
       (map (\<lambda>l. (l, RollingLatency_percentiles rank (the (lat l)))) (filter (\<lambda>l. lat l \<noteq> None) labels)))) =
     latency_text rank lat"
proof -
  have "(case (case (l, RollingLatency_percentiles rank (the (lat l))) of (k, ps) \<Rightarrow> (k, JArr (map jnum ps))) of
          (k, j) \<Rightarrow> quoted k @ '':'' @ render j) =
        (let p = RollingLatency_percentiles rank (the (lat l)) in
          json_key l @ ''['' @ u64_text (p ! 0) @ '','' @ u64_text (p ! 1) @ '','' @ u64_text (p ! 2) @ '']'')"
    if "l \<in> set labels" for l
  proof -
    obtain a b c where p: "RollingLatency_percentiles rank (the (lat l)) = [a, b, c]" using percentiles_three by blast
    have "quoted l @ '':'' = json_key l" using that by (intro key_render) (auto simp: labels_def)
    then show ?thesis by (simp add: p jnum_def u64_text_def flip: append_assoc)
  qed
  then show ?thesis unfolding latency_text_def render.simps map_map by (auto intro!: arg_cong [of _ _ commas] simp: comp_def)
qed

lemma tape_render:
  assumes "\<forall>t \<in> set tp. aggressorSide t \<in> {CHR ''B'', CHR ''S''}"
  shows "render (JArr (map (\<lambda>t. JArr [jnum (tapeTs t), jnum (tapePrice t), jnum (tapeQuantity t), JStr [aggressorSide t]])
      (drop (length tp - 24) tp))) = tape_text tp"
proof -
  have "(if length tp > 24 then length tp - 24 else 0) = length tp - 24" by simp
  moreover have "render (JStr [aggressorSide t]) = [CHR 0x22, aggressorSide t, CHR 0x22]" if "t \<in> set tp" for t
    using assms that by (auto simp: quoted_def escaped_def)
  ultimately show ?thesis unfolding tape_text_def Let_def
    by (auto simp: jnum_def u64_text_def comp_def intro!: arg_cong [of _ _ commas] dest!: in_set_dropD)
qed

lemma flow_render:
  "render (JObj (map (\<lambda>(k, x). (k, jnum x)) [(''new'', newCount st), (''cancel'', cancelCount st), (''reduce'', reduceCount st),
      (''trades'', tradeCount st), (''buyQty'', buyQty st), (''sellQty'', sellQty st)])) = flow_text st"
  by (simp add: flow_text_def jnum_def u64_text_def json_key_def quoted_def escaped_def)

lemma frame_line_render:
  assumes "\<forall>t \<in> set (tape st). aggressorSide t \<in> {CHR ''B'', CHR ''S''}"
  shows "frame_line rank st =
    render (frame_json (rec_snapshot st)
      [(''new'', newCount st), (''cancel'', cancelCount st), (''reduce'', reduceCount st), (''trades'', tradeCount st),
       (''buyQty'', buyQty st), (''sellQty'', sellQty st)]
      (map (\<lambda>l. (l, RollingLatency_percentiles rank (the (rec_latency st l)))) (filter (\<lambda>l. rec_latency st l \<noteq> None) labels))
      (drop (length (tape st) - 24) (tape st))) @ [newline]"
  unfolding frame_json_def render_frame flow_render latency_render tape_render [OF assms] render_jnum render.simps(1)
    frame_line_def Let_def levels_render append_assoc ..

subsection \<open>The books of the recorder\<close>

lemma trades_snoc [simp]:
  "trades (h @ [t]) = trades h @ (if is_accepted (turn_reply t) then map (Pair (turn_event t)) (executions_of (turn_reply t)) else [])"
  by (simp add: trades_def)

lemma trades_Nil [simp]: "trades [] = []"
  by (simp add: trades_def)

lemma kind_count_snoc [simp]:
  "kind_count k (h @ [t]) = kind_count k h + (if is_accepted (turn_reply t) \<and> kind (turn_event t) = k then 1 else 0)"
  by (simp add: kind_count_def)

lemma quantity_where_snoc [simp]:
  "quantity_where P (h @ [t]) = quantity_where P h +
     (if is_accepted (turn_reply t) \<and> P (parsed_side (turn_event t)) then sum_list (map executionQuantity (executions_of (turn_reply t))) else 0)"
  by (auto simp: quantity_where_def comp_def filter_map)

lemma counts_Nil [simp]: "kind_count k [] = 0" "quantity_where P [] = 0"
  by (simp_all add: kind_count_def quantity_where_def)

lemma fold_note_execution:
  "fold (note_execution e) xs st = st\<lparr>tradeCount := tradeCount st + word_of_nat (length xs),
     buyQty := buyQty st + (if parsed_side e = BUY then sum_list (map executionQuantity xs) else 0),
     sellQty := sellQty st + (if parsed_side e \<noteq> BUY then sum_list (map executionQuantity xs) else 0),
     tape := tape st @ map (entry_of \<circ> Pair e) xs\<rparr>"
  by (induction xs arbitrary: st) (simp_all add: note_execution_def Let_def entry_of_def add.assoc)

definition tallies :: "(nat \<Rightarrow> u64) \<Rightarrow> turn list \<Rightarrow> recorder \<Rightarrow> bool" where
  "tallies clock h st \<longleftrightarrow>
     newCount st = kind_count KindNew h \<and> cancelCount st = kind_count KindCancel h \<and> reduceCount st = kind_count KindReduce h \<and>
     tradeCount st = word_of_nat (length (trades h)) \<and> buyQty st = quantity_where (\<lambda>d. d = BUY) h \<and>
     sellQty st = quantity_where (\<lambda>d. d \<noteq> BUY) h \<and> rec_errors st = word_of_nat (refused_count h) \<and>
     (\<forall>l. rec_latency st l = (if samples clock l h = [] then None else Some (fold RollingLatency_add (samples clock l h) [])))"

definition frames_due :: "nat \<Rightarrow> nat \<Rightarrow> nat \<Rightarrow> nat list" where
  "frames_due every n m = filter (due every n) [0..<m]"

text \<open>The frames of a history, as they stand in the file.\<close>

definition frames_text :: "rank_fun \<Rightarrow> (nat \<Rightarrow> u64) \<Rightarrow> nat \<Rightarrow> nat \<Rightarrow> nat \<Rightarrow> turn list \<Rightarrow> string" where
  "frames_text rank clock depth every n h =
     concat (map (\<lambda>k. render (frame_after rank clock depth every h k) @ [newline]) (frames_due every n (length h)))"

definition recorder_books ::
  "rank_fun \<Rightarrow> (nat \<Rightarrow> u64) \<Rightarrow> nat \<Rightarrow> nat \<Rightarrow> nat \<Rightarrow> string \<Rightarrow> turn list \<Rightarrow> recorder \<Rightarrow> bool" where
  "recorder_books rank clock depth every n header h st \<longleftrightarrow> (length h \<le> n \<longrightarrow>
     tallies clock h st \<and>
     (length h < n \<longrightarrow> tape st = map entry_of (trades (drop (length h div every * every) h))) \<and>
     rec_out st = header @ frames_text rank clock depth every n h \<and>
     frames st = word_of_nat (length (frames_due every n (length h))))"

lemma record_event_tallies:
  assumes "os_fresh os" and "book_ok os H (book (rec_engine st))" and "tallies clock h st"
    and "engine_exec os H (toOrderEvent e) (rec_engine st) = (r, E)"
  defines "t \<equiv> \<lparr>turn_event = e, turn_reply = r, turn_engine = E\<rparr>"
  shows "\<exists>st1. record_event os H (clock (length h)) e st = Ret () st1 \<and> rec_engine st1 = E \<and> tallies clock (h @ [t]) st1 \<and>
    tape st1 = tape st @ map entry_of (trades [t]) \<and> rec_out st1 = rec_out st \<and> frames st1 = frames st"
  using assms(1,2,4)
proof (cases rule: engine_call_cases [where buf = "rec_buffer st"])
  case (accepted k xs)
  have one: "trades [t] = map (Pair e) xs" using accepted(2) trades_snoc [of "[]" t] by (simp add: t_def)
  show ?thesis
    using accepted assms(3) one
    by (cases "kind e")
      (auto simp: record_event_def note_event_def fold_note_execution Let_def tallies_def t_def turn_label_def)
next
  case (failed x xs)
  have one: "trades [t] = []" using failed(2) trades_snoc [of "[]" t] by (simp add: t_def)
  show ?thesis using failed assms(3) one by (auto simp: record_event_def tallies_def t_def Let_def)
qed

lemma capture_overwrites:
  "(captureSnapshot depth B s)\<lparr>snapSequence := q, snapTsNs := x\<rparr> = (captureSnapshot depth B s')\<lparr>snapSequence := q, snapTsNs := x\<rparr>"
  by (cases s; cases s') (simp add: captureSnapshot_def Let_def)

lemma frame_after_append: "k < length h \<Longrightarrow> frame_after rank clock depth every (h @ [t]) k = frame_after rank clock depth every h k"
  by (simp add: frame_after_def Let_def nth_append)

lemma frames_due_Suc: "frames_due every n (Suc m) = frames_due every n m @ (if due every n m then [m] else [])"
  by (simp add: frames_due_def)

lemma frames_text_snoc:
  "frames_text rank clock depth every n (h @ [t]) = frames_text rank clock depth every n h @
     (if due every n (length h) then render (frame_after rank clock depth every (h @ [t]) (length h)) @ [newline] else [])"
proof -
  have "map (\<lambda>k. render (frame_after rank clock depth every (h @ [t]) k) @ [newline]) (frames_due every n (length h)) =
      map (\<lambda>k. render (frame_after rank clock depth every h k) @ [newline]) (frames_due every n (length h))"
    by (auto simp: frames_due_def frame_after_append)
  then show ?thesis by (simp add: frames_text_def frames_due_Suc del: map_eq_conv)
qed

lemma frames_text_Nil: "frames_text rank clock depth every n [] = []"
  by (simp add: frames_text_def frames_due_def)

lemma entry_side: "aggressorSide (entry_of x) \<in> {CHR ''B'', CHR ''S''}"
  by (simp add: entry_of_def)

lemma emit_frame_line:
  assumes "tallies clock (h @ [t]) st" and "tape st = map entry_of (trades (drop (length h div every * every) (h @ [t])))"
    and "rec_engine st = turn_engine t"
  shows "frame_line rank (st\<lparr>rec_snapshot := (captureSnapshot depth (book (rec_engine st)) (rec_snapshot st))
      \<lparr>snapSequence := word_of_nat (length h + 1), snapTsNs := tsNs (turn_event t)\<rparr>\<rparr>) =
    render (frame_after rank clock depth every (h @ [t]) (length h)) @ [newline]"
proof -
  let ?s = "(captureSnapshot depth (book (turn_engine t)) (rec_snapshot st))\<lparr>snapSequence := word_of_nat (length h + 1), snapTsNs := tsNs (turn_event t)\<rparr>"
  have sides: "\<forall>x \<in> set (tape (st\<lparr>rec_snapshot := ?s\<rparr>)). aggressorSide x \<in> {CHR ''B'', CHR ''S''}"
    using assms(2) entry_side by auto
  have lat: "map (\<lambda>l. (l, RollingLatency_percentiles rank (the (rec_latency st l)))) (filter (\<lambda>l. rec_latency st l \<noteq> None) labels) =
      latency_after rank clock (h @ [t])"
    using assms(1) unfolding tallies_def latency_after_def by (intro map_cong filter_cong) auto
  show ?thesis
    unfolding assms(3) frame_line_render [OF sides] frame_after_def Let_def
    using assms(1,2) lat capture_overwrites [where s = "rec_snapshot st" and s' = BookSnapshot_new]
    by (simp add: tallies_def flow_after_def)
qed

lemma record_round_books:
  assumes fresh: "os_fresh os" and ok: "book_ok os H (book (rec_engine st))"
    and books: "recorder_books rank clock depth every n header h st"
    and x: "engine_exec os H (toOrderEvent e) (rec_engine st) = (r, E)"
  defines "t \<equiv> \<lparr>turn_event = e, turn_reply = r, turn_engine = E\<rparr>"
  shows "\<exists>st'. record_round os H rank clock depth every n (length h) e st = Ret () st' \<and> rec_engine st' = E \<and>
    recorder_books rank clock depth every n header (h @ [t]) st'"
proof (cases "length h < n")
  case False
  from fresh ok x obtain st1 where "record_event os H (clock (length h)) e st = Ret () st1" "rec_engine st1 = E"
    by (cases rule: engine_call_cases [where buf = "rec_buffer st"])
      (auto simp: record_event_def note_event_def fold_note_execution Let_def split: event_kind.splits)
  with False show ?thesis by (simp add: record_round_def recorder_books_def emit_frame_def Let_def)
next
  case True
  with books have b: "tallies clock h st" "tape st = map entry_of (trades (drop (length h div every * every) h))"
    "rec_out st = header @ frames_text rank clock depth every n h"
    "frames st = word_of_nat (length (frames_due every n (length h)))" by (simp_all add: recorder_books_def)
  from record_event_tallies [OF fresh ok b(1) x] obtain st1 where
    st1: "record_event os H (clock (length h)) e st = Ret () st1" "rec_engine st1 = E" "tallies clock (h @ [t]) st1"
      "tape st1 = tape st @ map entry_of (trades [t])" "rec_out st1 = rec_out st" "frames st1 = frames st" unfolding t_def by blast
  have le: "length h div every * every \<le> length h" by simp
  have tp: "tape st1 = map entry_of (trades (drop (length h div every * every) (h @ [t])))"
    using st1(4) b(2) le trades_snoc [of "[]" t] by simp
  note ft = frames_text_snoc [of rank clock depth every n h t]
  show ?thesis
  proof (cases "due every n (length h)")
    case due: True
    have "Suc (length h) div every * every = Suc (length h)" if "Suc (length h) < n"
      using due that by (auto simp: due_def)
    with due st1 b ft True emit_frame_line [OF st1(3) tp, of rank depth] show ?thesis
      by (auto simp: record_round_def recorder_books_def emit_frame_def Let_def frames_due_Suc tallies_def t_def)
  next
    case nd: False
    have "Suc (length h) div every * every = length h div every * every" using nd by (auto simp: due_def div_Suc)
    with nd st1 b ft tp True show ?thesis
      by (auto simp: record_round_def recorder_books_def Let_def frames_due_Suc t_def)
  qed
qed

interpretation recorder: engine_loop os H "record_round os H rank clock depth every n" rec_engine "recorder_books rank clock depth every n header"
  for os H rank clock depth every n header
  by unfold_locales (rule record_round_books)

lemma recorder_run:
  fixes input
  defines "fd \<equiv> read_feed input"
  assumes "os_fresh os" and "feedMin fd \<noteq> - 1" and "length (events fd) < 2 ^ 53"
    and "interchange_engine os H (scaled (optHeadroom opt)) (optTick opt) True c fd = Inr E"
  obtains st where "snapshot_recorder os H rank clock scaled True opt c input = ToolDone st"
    "rec_engine st = last (E # map turn_engine (trace os H E (events fd)))"
    "tallies clock (trace os H E (events fd)) st"
    "rec_out st = header_line opt (frame_distance opt fd) fd @
       frames_text rank clock (unat (optDepth opt)) (frame_distance opt fd) (length (events fd)) (trace os H E (events fd))"
    "frames st = word_of_nat (length (frames_due (frame_distance opt fd) (length (events fd)) (length (events fd))))"
proof -
  let ?every = "frame_distance opt fd" and ?n = "length (events fd)" and ?depth = "unat (optDepth opt)"
  let ?hd = "header_line opt ?every fd"
  have ok: "book_ok os H (book (rec_engine (recorder_start E ?hd)))" "recorder_books rank clock ?depth ?every ?n ?hd [] (recorder_start E ?hd)"
    using interchange_engine_sound(1) [OF assms(5,2,4)]
    by (simp_all add: recorder_start_def recorder_books_def tallies_def frames_due_def frames_text_Nil)
  from recorder.loop_ok [OF assms(2) ok, of "events fd"] that assms(3,5) show thesis
    by (auto simp: snapshot_recorder_def Let_def fd_def [symmetric] recorder_start_def recorder_books_def)
qed

text \<open>The header as a value.\<close>

definition header_json :: "recorder_options \<Rightarrow> nat \<Rightarrow> feed \<Rightarrow> json" where
  "header_json opt every fd =
     JObj [(''type'', JStr ''meta''), (''label'', JStr (optLabel opt)), (''events'', JNum (length (events fd))),
       (''tick'', jnum (optTick opt)), (''depth'', jnum (optDepth opt)), (''every'', JNum every),
       (''minPrice'', jnum (feedMin fd)), (''maxPrice'', jnum (feedMax fd))]"

lemma header_render: "header_line opt every fd = render (header_json opt every fd) @ [newline]"
  by (simp add: header_json_def header_line_def json_key_def quoted_def escaped_plain jnum_def u64_text_def)

subsection \<open>The lines of the file\<close>

lemma clean_keys:
  "clean_text ''type''" "clean_text ''meta''" "clean_text ''label''" "clean_text ''events''" "clean_text ''tick''" "clean_text ''depth''"
  "clean_text ''every''" "clean_text ''minPrice''" "clean_text ''maxPrice''" "clean_text ''seq''" "clean_text ''ts''" "clean_text ''bb''"
  "clean_text ''ba''" "clean_text ''nb''" "clean_text ''na''" "clean_text ''bids''" "clean_text ''asks''" "clean_text ''flow''"
  "clean_text ''lat''" "clean_text ''tape''" "clean_text ''new''" "clean_text ''cancel''" "clean_text ''reduce''" "clean_text ''trades''"
  "clean_text ''buyQty''" "clean_text ''sellQty''" "clean_text [CHR ''B'']" "clean_text [CHR ''S'']"
  by (simp_all add: is_control_def)

lemma clean_labels: "l \<in> set labels \<Longrightarrow> clean_text l"
  by (auto simp: labels_def is_control_def)

lemma clean_members [simp]: "clean (JObj [])" "clean (JObj ((k, j) # ms)) \<longleftrightarrow> clean_text k \<and> clean j \<and> clean (JObj ms)"
  by simp_all

lemma clean_jnum [simp]: "clean (jnum x)"
  by (simp add: jnum_def)

lemma clean_frame_json:
  assumes "\<forall>x \<in> set flow. clean_text (fst x)" and "\<forall>x \<in> set lat. clean_text (fst x)"
    and "\<forall>t \<in> set tp. aggressorSide t \<in> {CHR ''B'', CHR ''S''}"
  shows "clean (frame_json s flow lat tp)"
proof -
  have "clean (levels_json ls)" for ls by (simp add: levels_json_def jnum_def)
  moreover have "clean (JObj (map (\<lambda>(k, x). (k, jnum x)) flow))" using assms(1) by (auto simp: jnum_def)
  moreover have "clean (JObj (map (\<lambda>(k, ps). (k, JArr (map jnum ps))) lat))" using assms(2) by (auto simp: jnum_def)
  moreover have "clean_text [aggressorSide t]" if "t \<in> set tp" for t using assms(3) that clean_keys(27,28) by fastforce
  then have "clean (JArr (map (\<lambda>t. JArr [jnum (tapeTs t), jnum (tapePrice t), jnum (tapeQuantity t), JStr [aggressorSide t]]) tp))"
    by (simp add: jnum_def)
  ultimately show ?thesis unfolding frame_json_def by (simp only: clean_members clean_jnum clean.simps(1) simp_thms) (intro conjI clean_keys)
qed

lemma clean_frame_after: "clean (frame_after rank clock depth every h k)"
proof -
  have "\<forall>x \<in> set (flow_after g). clean_text (fst x)" for g using clean_keys(21-26) by (simp add: flow_after_def)
  moreover have "\<forall>x \<in> set (latency_after rank clock g). clean_text (fst x)" for g using clean_labels by (auto simp: latency_after_def)
  moreover have "\<forall>t \<in> set (drop m (map entry_of xs)). aggressorSide t \<in> {CHR ''B'', CHR ''S''}" for m xs
  proof
    fix t assume "t \<in> set (drop m (map entry_of xs))"
    then obtain x where "t = entry_of x" by (auto dest!: in_set_dropD)
    then show "aggressorSide t \<in> {CHR ''B'', CHR ''S''}" using entry_side [of x] by simp
  qed
  ultimately show ?thesis unfolding frame_after_def Let_def by (intro clean_frame_json)
qed

lemma clean_header: "clean_text (optLabel opt) \<Longrightarrow> clean (header_json opt every fd)"
  unfolding header_json_def by (simp only: clean_members clean_jnum clean.simps(1,2) simp_thms) (intro conjI clean_keys)

lemma hd_pieces: "hd (pieces c xs) = takeWhile (\<lambda>x. x \<noteq> c) xs"
  by (induction xs) auto

lemma header_start:
  obtains r where "render (header_json opt every fd) =
    CHR ''{'' # quoted ''type'' @ '':'' @ quoted ''meta'' @ '','' @ quoted ''label'' @ '':'' @ CHR 0x22 # escaped (optLabel opt) @ r"
  unfolding header_json_def by (auto simp: quoted_def)

lemma read_members_one:
  "clean_text key \<Longrightarrow> read_members (Suc k) (quoted key @ '':'' @ s) =
     (case read_json k s of
        Some (j, c # r) \<Rightarrow>
          if c = CHR '','' then map_option (apfst (Cons (key, j))) (read_members k r)
          else if c = CHR ''}'' then Some ([(key, j)], r) else None
      | _ \<Rightarrow> None)"
  by (simp add: quoted_def read_str_escaped)

lemma read_header_label:
  assumes "read_str t = None"
  shows "read_json n (CHR ''{'' # quoted ''type'' @ '':'' @ quoted ''meta'' @ '','' @ quoted ''label'' @ '':'' @ CHR 0x22 # t) = None"
proof -
  note one = read_members_one [OF clean_keys(1)] read_members_one [OF clean_keys(3)]
  have lab: "read_members k (quoted ''label'' @ '':'' @ CHR 0x22 # t) = None" for k
  proof (cases k)
    case (Suc i)
    have "read_json i (CHR 0x22 # t) = None" using assms by (cases i) simp_all
    then show ?thesis unfolding Suc one by simp
  qed simp
  have meta: "read_json k (quoted ''meta'' @ u) = (if k = 0 then None else Some (JStr ''meta'', u))" for k u
    using read_str_escaped [OF clean_keys(2), of u] by (cases k) (simp_all add: quoted_def)
  have "read_members k (quoted ''type'' @ '':'' @ quoted ''meta'' @ '','' @ quoted ''label'' @ '':'' @ CHR 0x22 # t) = None" for k
  proof (cases k)
    case (Suc i)
    show ?thesis unfolding Suc one(1) meta using lab [of i] by simp
  qed simp
  then show ?thesis by (cases n) (simp_all add: quoted_def)
qed

text \<open>A header whose label has a control character is not JSON: its first line ends inside the label, or holds the character.\<close>

lemma header_unreadable:
  assumes "\<not> clean_text (optLabel opt)"
  shows "read_line n (hd (pieces newline (render (header_json opt every fd)))) = None"
proof -
  from assms have "\<exists>c \<in> set (optLabel opt). is_control c" by blast
  from split_list_first_prop [OF this] obtain pre c post where
    l: "optLabel opt = pre @ c # post" "is_control c" "clean_text pre" by auto
  have c: "c \<noteq> CHR 0x22" "c \<noteq> CHR 0x5C" using l(2) by (auto simp: is_control_def)
  obtain r where r: "render (header_json opt every fd) =
    CHR ''{'' # quoted ''type'' @ '':'' @ quoted ''meta'' @ '','' @ quoted ''label'' @ '':'' @ CHR 0x22 # escaped (optLabel opt) @ r"
    by (rule header_start)
  let ?t = "escaped pre @ takeWhile (\<lambda>x. x \<noteq> newline) (c # escaped post @ r)"
  have "escaped (optLabel opt) @ r = escaped pre @ c # escaped post @ r" using c by (simp add: l(1) escaped_def)
  moreover have "newline \<notin> set (escaped pre)" using l(3) newline_control by (auto simp: escaped_newline)
  moreover have "newline \<notin> set (quoted ''type'')" "newline \<notin> set (quoted ''meta'')" "newline \<notin> set (quoted ''label'')"
    by (rule quoted_newline [OF clean_keys(1)], rule quoted_newline [OF clean_keys(2)], rule quoted_newline [OF clean_keys(3)])
  ultimately have "hd (pieces newline (render (header_json opt every fd))) =
      CHR ''{'' # quoted ''type'' @ '':'' @ quoted ''meta'' @ '','' @ quoted ''label'' @ '':'' @ CHR 0x22 # ?t"
    unfolding hd_pieces r by (simp add: takeWhile_append takeWhile_eq_all_conv)
  moreover have "read_str ?t = None" by (rule read_str_unclosed [OF l(3)]) (use l(2) c in auto)
  ultimately show ?thesis using read_header_label [of ?t n] by (simp add: read_line_def)
qed

lemma count_newline: "newline \<notin> set xs \<Longrightarrow> count_list xs newline = 0"
  by (induction xs) auto

lemma header_newlines: "count_list (render (header_json opt every fd)) newline = count_list (optLabel opt) newline"
proof -
  have "count_list (render (jnum x)) newline = 0" "count_list (render (JNum k)) newline = 0" for x k
    using to_chars_newline by (simp_all add: jnum_def count_newline)
  moreover have "count_list (quoted (optLabel opt)) newline = count_list (optLabel opt) newline"
    by (simp add: quoted_def count_list_append escaped_newline(2))
  moreover have "count_list (quoted k) newline = 0" if "clean_text k" for k using quoted_newline [OF that] by (rule count_newline)
  ultimately show ?thesis unfolding header_json_def
    by (simp only: render.simps(2,4) list.map prod.case commas.simps count_list_append clean_keys) (simp add: clean_keys)
qed

lemma recorder_lines:
  fixes every n depth
  assumes "rec_out st = header_line opt every fd @ frames_text rank clock depth every n h"
  defines "fs \<equiv> map (frame_after rank clock depth every h) (frames_due every n (length h))"
  shows "lines_of (rec_out st) = pieces newline (render (header_json opt every fd)) @ map render fs"
proof -
  have "frames_text rank clock depth every n h = concat (map (\<lambda>l. l @ [newline]) (map render fs))"
    by (simp add: frames_text_def fs_def comp_def)
  moreover have "\<forall>l \<in> set (map render fs). newline \<notin> set l"
    using render_newline [OF clean_frame_after] by (auto simp: fs_def)
  ultimately show ?thesis using assms(1) by (simp only: header_render append_assoc append_Cons append_Nil lines_of_split lines_of_lines)
qed

lemma read_frames:
  assumes "\<forall>j \<in> set fs. clean j"
  shows "map (read_line (sum_list (map weight fs) + w)) (map render fs) = map Some fs"
proof -
  have "weight j \<le> sum_list (map weight fs) + w" if "j \<in> set fs" for j
    using member_le_sum_list [of "weight j" "map weight fs"] that by simp
  then show ?thesis using assms by (auto intro!: read_line_render)
qed

subsection \<open>How many frames\<close>

lemma frames_due_count:
  assumes "0 < every"
  shows "length (frames_due every n n) = n div every + (if n mod every = 0 then 0 else 1)"
proof -
  have c: "length (filter (\<lambda>i. Suc i mod every = 0) [0..<m]) = m div every" for m
    by (induction m) (auto simp: div_Suc)
  show ?thesis
  proof (cases n)
    case (Suc m)
    have "filter (due every n) [0..<m] = filter (\<lambda>i. Suc i mod every = 0) [0..<m]"
      by (intro filter_cong) (auto simp: due_def Suc)
    then have "length (frames_due every n n) = m div every + 1" unfolding Suc frames_due_Suc
      using c [of m] Suc by (simp add: frames_due_def due_def)
    then show ?thesis using Suc by (auto simp: div_Suc)
  qed (simp add: frames_due_def)
qed

lemma kinds_total:
  "length (filter (\<lambda>t. kind (turn_event t) = KindNew) (accepted h)) + length (filter (\<lambda>t. kind (turn_event t) = KindCancel) (accepted h)) +
     length (filter (\<lambda>t. kind (turn_event t) = KindReduce) (accepted h)) + refused_count h = length h"
proof (induction h rule: rev_induct)
  case (snoc t h)
  then show ?case by (cases "kind (turn_event t)") auto
qed simp

text \<open>
  The number of frames: with a given distance there is a frame for every full stretch of
  events and one for the rest; without one, a file of fewer than 1500 events has a frame per
  event and a longer one between 1500 and 3000 frames.
\<close>
lemma recorder_frame_count:
  "let n = length (events fd); k = length (frames_due (frame_distance opt fd) n n) in
    k = n div frame_distance opt fd + (if n mod frame_distance opt fd = 0 then 0 else 1) \<and>
    (snapshotEvery opt = 0 \<longrightarrow> (if n < 1500 then k = n else 1500 \<le> k \<and> k \<le> 3000))"
proof -
  let ?n = "length (events fd)" and ?d = "frame_distance opt fd"
  have "0 < ?d" by (simp add: frame_distance_def u64_eq_0_iff less_max_iff_disj)
  note c = frames_due_count [OF this, of ?n]
  have "if ?n < 1500 then length (frames_due ?d ?n ?n) = ?n else 1500 \<le> length (frames_due ?d ?n ?n) \<and> length (frames_due ?d ?n ?n) \<le> 3000"
    if z: "snapshotEvery opt = 0"
  proof (cases "?n < 1500")
    case True
    then show ?thesis using c z by (simp add: frame_distance_def)
  next
    case False
    define q where "q = ?n div 1500"
    have q: "?d = q" "0 < q" using False z by (auto simp: frame_distance_def q_def max_def)
    have "q * 1500 + ?n mod 1500 = ?n" unfolding q_def by simp
    moreover have "?n mod 1500 < 1500" by simp
    ultimately have lo: "q * 1500 \<le> ?n" and hi: "?n < q * 1500 + 1500" by linarith+
    have "1500 \<le> ?n div q" using lo q(2) by (simp add: less_eq_div_iff_mult_less_eq mult.commute)
    moreover have "?n < q * 3000" using hi q(2) by linarith
    then have "?n div q < 3000" using q(2) by (simp add: div_less_iff_less_mult mult.commute)
    ultimately show ?thesis using c False unfolding q(1) by (simp split: if_splits)
  qed
  with c show ?thesis unfolding Let_def by blast
qed

text \<open>The counters as a frame shows them, and the frame after the last event.\<close>

definition flow_counters :: "recorder \<Rightarrow> (string \<times> u64) list" where
  "flow_counters st =
     [(''new'', newCount st), (''cancel'', cancelCount st), (''reduce'', reduceCount st), (''trades'', tradeCount st),
      (''buyQty'', buyQty st), (''sellQty'', sellQty st)]"

lemma last_frame:
  assumes "tallies clock h st" and "rec_engine st = last (E # map turn_engine h)" and "map turn_event h = evs" and "evs \<noteq> []"
  shows "frame_after rank clock depth every h (length evs - 1) =
    frame_json ((captureSnapshot depth (book (rec_engine st)) BookSnapshot_new)\<lparr>snapSequence := word_of_nat (length evs), snapTsNs := tsNs (last evs)\<rparr>)
      (flow_counters st) (latency_after rank clock h)
      (let fresh = map entry_of (trades (drop ((length evs - 1) div every * every) h)) in drop (length fresh - 24) fresh)"
proof -
  have h: "h \<noteq> []" "length evs = length h" using assms(3,4) by auto
  then have l: "h ! (length evs - 1) = last h" "take (length evs - 1 + 1) h = h" "Suc (length h - Suc 0) = length h" by (simp_all add: last_conv_nth)
  have e: "rec_engine st = turn_engine (last h)" "turn_event (last h) = last evs"
    using assms(2) h(1) last_map [OF h(1), of turn_event] assms(3) by (simp_all add: last_map)
  have f: "flow_after h = flow_counters st" using assms(1) by (simp add: flow_after_def flow_counters_def tallies_def)
  show ?thesis unfolding frame_after_def Let_def l(1,2) e f using l(3) h(2) by simp
qed

lemma frames_due_last: "0 < n \<Longrightarrow> frames_due every n n \<noteq> [] \<and> last (frames_due every n n) = n - 1"
  using frames_due_Suc [of every n "n - 1"] by (simp add: due_def)

section \<open>Properties\<close>

text \<open>
  C16. The recorder watches without interfering: once its engine is set up and the output can
  be written, the run ends normally, whatever the clock and the rounding of ranks; the engine
  is in the state of the sequential run over all events; every event is counted exactly once,
  as new, cancelled, reduced or failed; the trade counter counts the executions of the
  accepted events; a frame is written for every full stretch of events and one for the rest,
  each a line of the file after the header; and the last line of the file is the state after
  the last event: the book of the final engine, under the number and the time stamp of the
  last event, with the final counters.
\<close>
theorem recorder_follows_engine:
  fixes input opt
  defines "evs \<equiv> events (read_feed input)" and "every \<equiv> frame_distance opt (read_feed input)"
  assumes "os_fresh os" and "feedMin (read_feed input) \<noteq> - 1" and "length evs < 2 ^ 53"
    and "interchange_engine os H (scaled (optHeadroom opt)) (optTick opt) True c (read_feed input) = Inr E"
  shows "\<exists>st. snapshot_recorder os H rank clock scaled True opt c input = ToolDone st \<and>
    rec_engine st = snd (run (engine_exec os H) (map toOrderEvent evs) E) \<and>
    unat (newCount st) + unat (cancelCount st) + unat (reduceCount st) + unat (rec_errors st) = length evs \<and>
    tradeCount st = word_of_nat (length (trades (trace os H E evs))) \<and>
    unat (frames st) = length evs div every + (if length evs mod every = 0 then 0 else 1) \<and>
    length (lines_of (rec_out st)) = Suc (count_list (optLabel opt) newline) + unat (frames st) \<and>
    (evs \<noteq> [] \<longrightarrow> (\<exists>fuel lat tp. read_line fuel (last (lines_of (rec_out st))) = Some (frame_json
       ((captureSnapshot (unat (optDepth opt)) (book (rec_engine st)) BookSnapshot_new)
          \<lparr>snapSequence := word_of_nat (length evs), snapTsNs := tsNs (last evs)\<rparr>)
       (flow_counters st) lat tp)))"
proof -
  let ?h = "trace os H E evs" and ?depth = "unat (optDepth opt)"
  let ?fs = "map (frame_after rank clock ?depth every ?h) (frames_due every (length evs) (length evs))"
  obtain st where st: "snapshot_recorder os H rank clock scaled True opt c input = ToolDone st"
    "rec_engine st = last (E # map turn_engine ?h)" and books: "tallies clock ?h st"
    and out: "rec_out st = header_line opt every (read_feed input) @ frames_text rank clock ?depth every (length evs) ?h"
    and fr: "frames st = word_of_nat (length (frames_due every (length evs) (length evs)))"
    unfolding evs_def every_def by (rule recorder_run [where scaled = scaled, OF assms(3,4) assms(5,6) [unfolded evs_def]])
  have small: "unat (word_of_nat k :: u64) = k" if "k \<le> length evs" for k
    using that assms(5) by (simp add: unat_of_nat)
  have "length (filter P (accepted ?h)) \<le> length evs" for P
    by (rule order_trans [OF length_filter_le]) (use accepted_or_refused [of ?h] in simp)
  then have "unat (kind_count k ?h) = length (filter (\<lambda>t. kind (turn_event t) = k) (accepted ?h))" for k
    unfolding kind_count_def by (rule small)
  moreover have "unat (rec_errors st) = refused_count ?h"
    using books accepted_or_refused [of ?h] small [of "refused_count ?h"] by (simp add: tallies_def)
  ultimately have counts: "unat (newCount st) + unat (cancelCount st) + unat (reduceCount st) + unat (rec_errors st) = length evs"
    "tradeCount st = word_of_nat (length (trades ?h))" using books kinds_total [of ?h] by (simp_all add: tallies_def)
  have "length (frames_due every (length evs) (length evs)) \<le> length [0..<length evs]" unfolding frames_due_def by (rule length_filter_le)
  then have f: "unat (frames st) = length ?fs" using fr small by simp
  have "0 < every" by (simp add: every_def frame_distance_def u64_eq_0_iff less_max_iff_disj)
  note k = frames_due_count [OF this, of "length evs"]
  note ls = recorder_lines [OF out, unfolded trace_length]
  have len: "length (lines_of (rec_out st)) = Suc (count_list (optLabel opt) newline) + unat (frames st)"
    unfolding ls f by (simp add: length_pieces header_newlines)
  have last: "\<exists>fuel lat tp. read_line fuel (last (lines_of (rec_out st))) = Some (frame_json
       ((captureSnapshot ?depth (book (rec_engine st)) BookSnapshot_new)
          \<lparr>snapSequence := word_of_nat (length evs), snapTsNs := tsNs (last evs)\<rparr>)
       (flow_counters st) lat tp)" if ne: "evs \<noteq> []"
  proof -
    note d = frames_due_last [of "length evs" every]
    let ?f = "frame_after rank clock ?depth every ?h (length evs - 1)"
    have "last (lines_of (rec_out st)) = render ?f" unfolding ls using d ne by (simp add: last_map)
    with read_line_render [OF clean_frame_after order_refl]
    have "read_line (weight ?f) (last (lines_of (rec_out st))) = Some ?f" by (simp only:)
    then show ?thesis unfolding last_frame [OF books st(2) trace_events ne] by blast
  qed
  show ?thesis using st counts f k len last by (intro exI [of _ st]) (simp add: trace_run)
qed

text \<open>
  C13. What the recorder writes can be read back, line by line, by a reader of JSON: for every
  event that is due there is one line after the header, and it reads as the frame after that
  event: the captured book, the counters so far, the percentiles of the last samples and the
  newest executions since the frame before. If the label has no control character, the header
  is the one line before them and reads with the label as given, quotes and backslashes
  included. If it has one, the first line of the file is not JSON, with any fuel; a newline
  in the label moreover spreads the header over as many lines more.
\<close>
theorem recorder_output_reads_back:
  fixes input
  defines "fd \<equiv> read_feed input"
  assumes "os_fresh os" and "feedMin fd \<noteq> - 1" and "length (events fd) < 2 ^ 53"
    and "interchange_engine os H (scaled (optHeadroom opt)) (optTick opt) True c fd = Inr E"
  shows "\<exists>st fuel heads frames. snapshot_recorder os H rank clock scaled True opt c input = ToolDone st \<and>
    lines_of (rec_out st) = heads @ frames \<and> length heads = Suc (count_list (optLabel opt) newline) \<and>
    map (read_line fuel) frames =
      map (\<lambda>k. Some (frame_after rank clock (unat (optDepth opt)) (frame_distance opt fd) (trace os H E (events fd)) k))
        (frames_due (frame_distance opt fd) (length (events fd)) (length (events fd))) \<and>
    (if clean_text (optLabel opt)
     then map (read_line fuel) heads = [Some (header_json opt (frame_distance opt fd) fd)]
     else \<forall>n. read_line n (hd heads) = None)"
proof -
  let ?every = "frame_distance opt fd" and ?h = "trace os H E (events fd)"
  let ?hd = "header_json opt ?every fd"
  let ?fs = "map (frame_after rank clock (unat (optDepth opt)) ?every ?h) (frames_due ?every (length (events fd)) (length (events fd)))"
  obtain st where st: "snapshot_recorder os H rank clock scaled True opt c input = ToolDone st"
    and out: "rec_out st = header_line opt ?every fd @ frames_text rank clock (unat (optDepth opt)) ?every (length (events fd)) ?h"
    unfolding fd_def by (rule recorder_run [where scaled = scaled, OF assms(2) assms(3-5) [unfolded fd_def]])
  note ls = recorder_lines [OF out, unfolded trace_length]
  have fr: "map (read_line (sum_list (map weight ?fs) + weight ?hd)) (map render ?fs) = map Some ?fs"
    by (rule read_frames) (use clean_frame_after in auto)
  have len: "length (pieces newline (render ?hd)) = Suc (count_list (optLabel opt) newline)" by (simp add: length_pieces header_newlines)
  have good: "map (read_line (sum_list (map weight ?fs) + weight ?hd)) (pieces newline (render ?hd)) = [Some ?hd]" if "clean_text (optLabel opt)"
    unfolding pieces_none [OF render_newline [OF clean_header [OF that]]]
    using read_line_render [OF clean_header [OF that] le_add2] by simp
  have some: "map Some ?fs = map (\<lambda>k. Some (frame_after rank clock (unat (optDepth opt)) ?every ?h k)) (frames_due ?every (length (events fd)) (length (events fd)))"
    by simp
  define fuel where "fuel = sum_list (map weight ?fs) + weight ?hd"
  show ?thesis
    using st ls len good [folded fuel_def] trans [OF fr some, folded fuel_def] header_unreadable
    by (intro exI [of _ st] exI [of _ fuel] exI [of _ "pieces newline (render ?hd)"] exI [of _ "map render ?fs"]) simp
qed

section \<open>Witnesses\<close>

definition demo_options :: recorder_options where
  "demo_options = \<lparr>optInput = ''a.csv'', optOutput = ''snapshots.jsonl'', optLabel = ''a.csv'', snapshotEvery = 0, optDepth = 12,
     optTick = 100, optHeadroom = ''20.0''\<rparr>"

lemma demo_recorder_engine:
  "\<exists>E. interchange_engine one_page_os (\<lambda>k. k) ((\<lambda>_. fifth) (optHeadroom demo_options)) (optTick demo_options) True 0 (read_feed demo_csv) = Inr E"
  using demo_interchange_engine by (simp add: demo_options_def demo_csv_feed)

lemma demo_feed_facts:
  "feedMin (read_feed demo_csv) \<noteq> - 1" "length (events (read_feed demo_csv)) < 2 ^ 53" "length (events (read_feed demo_csv)) = 2"
  by (simp_all add: demo_csv_feed demo_feed_def)

lemma demo_frames:
  "frame_distance demo_options (read_feed demo_csv) = 1" "frame_distance (demo_options\<lparr>optLabel := l\<rparr>) (read_feed demo_csv) = 1" "frames_due 1 2 2 = [0, 1]"
  by (simp_all add: frame_distance_def demo_options_def demo_csv_feed demo_feed_def frames_due_def due_def upt_rec)

theorem recorder_follows_engine_witness:
  "\<exists>st fuel j. snapshot_recorder one_page_os (\<lambda>k. k) exact_rank (\<lambda>_. 5) (\<lambda>_. fifth) True demo_options 0 demo_csv = ToolDone st \<and>
    unat (newCount st) + unat (cancelCount st) + unat (reduceCount st) + unat (rec_errors st) = 2 \<and> unat (frames st) = 2 \<and>
    read_line fuel (last (lines_of (rec_out st))) = Some j"
proof -
  have ne: "events (read_feed demo_csv) \<noteq> []" using demo_feed_facts(3) by auto
  obtain E where E: "interchange_engine one_page_os (\<lambda>k. k) ((\<lambda>_. fifth) (optHeadroom demo_options)) (optTick demo_options) True 0 (read_feed demo_csv) = Inr E"
    using demo_recorder_engine by blast
  show ?thesis
    using recorder_follows_engine [OF one_page_os_fresh demo_feed_facts(1,2) E, where rank = exact_rank and clock = "\<lambda>_. 5"] ne
    unfolding demo_feed_facts(3) demo_frames(1) by auto
qed

text \<open>With a harmless label all three lines read; with a newline as label the first does not.\<close>

theorem recorder_output_reads_back_witness:
  "(\<exists>st fuel. snapshot_recorder one_page_os (\<lambda>k. k) exact_rank (\<lambda>_. 5) (\<lambda>_. fifth) True demo_options 0 demo_csv = ToolDone st \<and>
     length (lines_of (rec_out st)) = 3 \<and> None \<notin> set (map (read_line fuel) (lines_of (rec_out st)))) \<and>
   (\<exists>st. snapshot_recorder one_page_os (\<lambda>k. k) exact_rank (\<lambda>_. 5) (\<lambda>_. fifth) True (demo_options\<lparr>optLabel := [newline]\<rparr>) 0 demo_csv = ToolDone st \<and>
     length (lines_of (rec_out st)) = 4 \<and> (\<forall>n. read_line n (hd (lines_of (rec_out st))) = None))"
  (is "?good \<and> ?bad")
proof
  obtain E where E: "interchange_engine one_page_os (\<lambda>k. k) ((\<lambda>_. fifth) (optHeadroom demo_options)) (optTick demo_options) True 0 (read_feed demo_csv) = Inr E"
    using demo_recorder_engine by blast
  note use_it = recorder_output_reads_back [where scaled = "\<lambda>_. fifth" and rank = exact_rank and clock = "\<lambda>_. 5", OF one_page_os_fresh demo_feed_facts(1,2)]
  have label: "clean_text (optLabel demo_options)" "count_list (optLabel demo_options) newline = 0" by (simp_all add: demo_options_def is_control_def)
  obtain st fuel x y z a b j where g: "snapshot_recorder one_page_os (\<lambda>k. k) exact_rank (\<lambda>_. 5) (\<lambda>_. fifth) True demo_options 0 demo_csv = ToolDone st"
    "lines_of (rec_out st) = [x, y, z]" "read_line fuel x = Some j" "read_line fuel y = Some a" "read_line fuel z = Some b"
    using use_it [OF E] label unfolding demo_feed_facts(3) demo_frames(1,3) by auto
  then have "length (lines_of (rec_out st)) = 3" "None \<notin> set (map (read_line fuel) (lines_of (rec_out st)))" by simp_all
  with g(1) show ?good by blast
  let ?opt = "demo_options\<lparr>optLabel := [newline]\<rparr>"
  have E2: "interchange_engine one_page_os (\<lambda>k. k) ((\<lambda>_. fifth) (optHeadroom ?opt)) (optTick ?opt) True 0 (read_feed demo_csv) = Inr E" using E by simp
  have bad: "\<not> clean_text (optLabel ?opt)" using newline_control by simp
  obtain st fuel hs fs a b where g: "snapshot_recorder one_page_os (\<lambda>k. k) exact_rank (\<lambda>_. 5) (\<lambda>_. fifth) True ?opt 0 demo_csv = ToolDone st"
    "lines_of (rec_out st) = hs @ fs" "length hs = 2" "map (read_line fuel) fs = [Some a, Some b]" "\<forall>n. read_line n (hd hs) = None"
    using use_it [OF E2] bad unfolding demo_feed_facts(3) demo_frames(2,3) by auto
  have "length fs = 2" using arg_cong [OF g(4), of length] by simp
  moreover have "hd (hs @ fs) = hd hs" using g(3) by (cases hs) auto
  ultimately show ?bad using g(1-3,5) by (intro exI [of _ st]) simp
qed

end
