(* ===== verification/Tool_Options.thy ===== *)
theory Tool_Options
  imports Itch_Options Itch_Pipeline Threaded_Replay Snapshot_Recorder
begin

text \<open>
  The command lines of the tools (\<open>itch_to_csv.cpp\<close>, \<open>itch_replay.cpp\<close>, \<open>benchmark_interchange.cpp\<close>,
  \<open>threaded_replay_benchmark.cpp\<close>, \<open>snapshot_recorder.cpp\<close>), their input file, and their \<open>main\<close>
  functions composed from the parts of the other theories. The properties go from the command
  line to the state the tool ends in.
\<close>

section \<open>Model\<close>

text \<open>
  The options the tools share. The headroom stays as written: its conversion by \<open>strtod\<close> is
  part of the parameter \<open>scaled\<close>.
\<close>

record tool_options =
  toolInput :: string
  toolHeadroom :: string
  toolTick :: u64

definition tool_default :: tool_options where
  "tool_default = \<lparr>toolInput = [], toolHeadroom = ''20.0'', toolTick = 1\<rparr>"

text \<open>The loop of \<open>itch_replay\<close> and \<open>benchmark_interchange\<close>; an unknown argument ends it.\<close>

function parse_tool_args :: "string list \<Rightarrow> tool_options \<Rightarrow> tool_options option" where
  "parse_tool_args [] opt = Some opt"
| "parse_tool_args (a # others) opt =
     (if a = ''--input'' then parse_tool_args (tl others) (opt\<lparr>toolInput := next_arg others\<rparr>)
      else if a = ''--headroom-pct'' then parse_tool_args (tl others) (opt\<lparr>toolHeadroom := next_arg others\<rparr>)
      else if a = ''--tick'' then parse_tool_args (tl others) (opt\<lparr>toolTick := strtoull (next_arg others)\<rparr>)
      else None)"
  by pat_completeness auto
termination by (relation "measure (\<lambda>(args, opt). length args)") auto

text \<open>The loop of \<open>threaded_replay_benchmark\<close>, after the input file; it skips what it does not know.\<close>

function parse_threaded_args :: "string list \<Rightarrow> tool_options \<Rightarrow> tool_options" where
  "parse_threaded_args [] opt = opt"
| "parse_threaded_args (a # others) opt =
     (if a = ''--headroom-pct'' then parse_threaded_args (tl others) (opt\<lparr>toolHeadroom := next_arg others\<rparr>)
      else if a = ''--tick'' then parse_threaded_args (tl others) (opt\<lparr>toolTick := strtoull (next_arg others)\<rparr>)
      else parse_threaded_args others opt)"
  by pat_completeness auto
termination by (relation "measure (\<lambda>(args, opt). length args)") auto

definition recorder_default :: recorder_options where
  "recorder_default = \<lparr>optInput = [], optOutput = ''snapshots.jsonl'', optLabel = [], snapshotEvery = 0, optDepth = 12, optTick = 1,
     optHeadroom = ''20.0''\<rparr>"

function parse_recorder_args :: "string list \<Rightarrow> recorder_options \<Rightarrow> recorder_options option" where
  "parse_recorder_args [] opt = Some opt"
| "parse_recorder_args (a # others) opt =
     (if a = ''--input'' then parse_recorder_args (tl others) (opt\<lparr>optInput := next_arg others\<rparr>)
      else if a = ''--output'' then parse_recorder_args (tl others) (opt\<lparr>optOutput := next_arg others\<rparr>)
      else if a = ''--label'' then parse_recorder_args (tl others) (opt\<lparr>optLabel := next_arg others\<rparr>)
      else if a = ''--every'' then parse_recorder_args (tl others) (opt\<lparr>snapshotEvery := strtoull (next_arg others)\<rparr>)
      else if a = ''--depth'' then parse_recorder_args (tl others) (opt\<lparr>optDepth := strtoull (next_arg others)\<rparr>)
      else if a = ''--tick'' then parse_recorder_args (tl others) (opt\<lparr>optTick := strtoull (next_arg others)\<rparr>)
      else if a = ''--headroom-pct'' then parse_recorder_args (tl others) (opt\<lparr>optHeadroom := next_arg others\<rparr>)
      else None)"
  by pat_completeness auto
termination by (relation "measure (\<lambda>(args, opt). length args)") auto

text \<open>
  The memory-mapped input. The file system is a parameter; a file of length zero cannot be
  mapped, since \<open>mmap\<close> refuses a length of zero.
\<close>

definition MappedFile :: "(string \<Rightarrow> string option) \<Rightarrow> string \<Rightarrow> error + string" where
  "MappedFile fs file =
     (case fs file of
        None \<Rightarrow> Inl (RuntimeError (''cannot open '' @ file))
      | Some content \<Rightarrow> if content = [] then Inl (RuntimeError (''mmap failed for '' @ file)) else Inr content)"

definition interchange_benchmark_main ::
  "os_env \<Rightarrow> hash_fun \<Rightarrow> (string \<Rightarrow> u64 \<Rightarrow> u64) \<Rightarrow> (nat \<Rightarrow> u64) \<Rightarrow> u64 \<Rightarrow> (string \<Rightarrow> string option) \<Rightarrow> string list \<Rightarrow> bench tool_result" where
  "interchange_benchmark_main os H scaled clock c fs args =
     (case parse_tool_args args tool_default of
        None \<Rightarrow> ToolExit 2
      | Some opt \<Rightarrow>
        if toolInput opt = [] then ToolExit 2
        else (case MappedFile fs (toolInput opt) of
           Inl x \<Rightarrow> ToolUncaught x
         | Inr input \<Rightarrow> benchmark_interchange os H (scaled (toolHeadroom opt)) clock (toolTick opt) c input))"

definition itch_replay_main ::
  "os_env \<Rightarrow> hash_fun \<Rightarrow> label_clock \<Rightarrow> (string \<Rightarrow> u64 \<Rightarrow> u64) \<Rightarrow> u64 list \<Rightarrow> u64 \<Rightarrow> (string \<Rightarrow> string option) \<Rightarrow> string list \<Rightarrow> replay_result" where
  "itch_replay_main os H clock scaled keys c fs args =
     (case parse_tool_args args tool_default of
        None \<Rightarrow> Exit 2
      | Some opt \<Rightarrow>
        if toolInput opt = [] then Exit 2
        else (case MappedFile fs (toolInput opt) of
           Inl x \<Rightarrow> Uncaught x
         | Inr input \<Rightarrow> itch_replay os H clock (scaled (toolHeadroom opt)) (toolTick opt) keys c input))"

definition recorder_main ::
  "os_env \<Rightarrow> hash_fun \<Rightarrow> rank_fun \<Rightarrow> (nat \<Rightarrow> u64) \<Rightarrow> (string \<Rightarrow> u64 \<Rightarrow> u64) \<Rightarrow> (string \<Rightarrow> bool) \<Rightarrow> u64 \<Rightarrow> (string \<Rightarrow> string option)
    \<Rightarrow> string list \<Rightarrow> recorder tool_result" where
  "recorder_main os H rank clock scaled writable c fs args =
     (case parse_recorder_args args recorder_default of
        None \<Rightarrow> ToolExit 2
      | Some opt \<Rightarrow>
        if optInput opt = [] then ToolExit 2
        else let opt1 = (if optLabel opt = [] then opt\<lparr>optLabel := optInput opt\<rparr> else opt) in
          (case MappedFile fs (optInput opt1) of
             Inl x \<Rightarrow> ToolUncaught x
           | Inr input \<Rightarrow> snapshot_recorder os H rank clock scaled (writable (optOutput opt1)) opt1 c input))"

text \<open>
  The converter: an input that cannot be opened, stated or mapped and an output that cannot be
  written end it with exit code 1; the value is the text written and the truncation flag.
\<close>

definition itch_to_csv_main ::
  "(int \<Rightarrow> int \<Rightarrow> int \<Rightarrow> int) \<Rightarrow> (string \<Rightarrow> bool) \<Rightarrow> (string \<Rightarrow> u8 list option) \<Rightarrow> string list \<Rightarrow> (string \<times> bool) tool_result" where
  "itch_to_csv_main mktime writable fs args =
     (case itch_configure mktime args of
        None \<Rightarrow> ToolUncaught (InvalidArgument ''stoi'')
      | Some (Inl code) \<Rightarrow> ToolExit code
      | Some (Inr (cli, epochBase)) \<Rightarrow>
        (case fs (cli_input cli) of
           None \<Rightarrow> ToolExit 1
         | Some input \<Rightarrow>
           if input = [] then ToolExit 1
           else if cli_output cli \<noteq> ''-'' \<and> \<not> writable (cli_output cli) then ToolExit 1
           else (case itch_to_csv \<lparr>symbols = cli_symbols cli, limit = cli_limit cli, system = cli_system cli\<rparr> epochBase input of
              None \<Rightarrow> ToolUncaught (UndefinedBehaviour ''read past the end of a message'')
            | Some r \<Rightarrow> ToolDone r)))"

text \<open>The threaded tool up to the start of its threads: the parsed events and the pipeline.\<close>

definition threaded_setup ::
  "os_env \<Rightarrow> hash_fun \<Rightarrow> (string \<Rightarrow> u64 \<Rightarrow> u64) \<Rightarrow> u64 \<Rightarrow> (string \<Rightarrow> string option) \<Rightarrow> string list
    \<Rightarrow> (parsed_event list \<times> pipeline) tool_result" where
  "threaded_setup os H scaled c fs args =
     (case args of
        [] \<Rightarrow> ToolExit 2
      | file # others \<Rightarrow>
        let opt = parse_threaded_args others (tool_default\<lparr>toolInput := file\<rparr>) in
        (case MappedFile fs file of
           Inl x \<Rightarrow> ToolUncaught x
         | Inr input \<Rightarrow>
           let fd = read_feed input in
           if feedMin fd = - 1 then ToolExit 1
           else (case interchange_engine os H (scaled (toolHeadroom opt)) (toolTick opt) True c fd of
              Inl x \<Rightarrow> ToolUncaught x
            | Inr E \<Rightarrow> ToolDone (events fd, pipeline_start E))))"

section \<open>Lemmas\<close>

lemma strtoull_to_chars: "strtoull (to_chars (unat x)) = x"
proof -
  obtain c r where s: "to_chars (unat x) = c # r" using to_chars_ne by (cases "to_chars (unat x)") auto
  then have "is_digit c" using to_chars_digit [of c "unat x"] by simp
  then have "\<not> is_blank c" "c \<noteq> CHR ''-''" "c \<noteq> CHR ''+''" by (auto simp: is_digit_def is_blank_def)
  moreover have "takeWhile is_digit (to_chars (unat x)) = to_chars (unat x)" using to_chars_digit by (simp add: takeWhile_eq_all_conv)
  ultimately have "sign_and_digits (to_chars (unat x)) = (False, to_chars (unat x))" unfolding s sign_and_digits_def by simp
  moreover have "unat x < 2 ^ 64" using unat_less_range [of x] by (simp add: SIZE_RANGE_def)
  ultimately show ?thesis by (simp add: strtoull_def dec_value_to_chars)
qed

lemma strtoull_no_digits: "snd (sign_and_digits s) = [] \<Longrightarrow> strtoull s = 0"
  by (cases "sign_and_digits s") (auto simp: strtoull_def dec_value_def)

lemma parse_input_tick:
  "parse_tool_args [''--input'', f, ''--tick'', v] tool_default = Some (tool_default\<lparr>toolInput := f, toolTick := strtoull v\<rparr>)"
  "parse_recorder_args [''--input'', f, ''--tick'', v] recorder_default = Some (recorder_default\<lparr>optInput := f, optTick := strtoull v\<rparr>)"
  "parse_threaded_args [''--tick'', v] opt = opt\<lparr>toolTick := strtoull v\<rparr>"
  by (simp_all add: next_arg_def)

text \<open>Without reservation, the engine of a file with prices can always be built.\<close>

lemma interchange_engine_exists:
  fixes input
  defines "fd \<equiv> read_feed input"
  assumes "tick \<noteq> 0" and "\<exists>e \<in> set (events fd). quoting e"
    and "unat (feedMax fd) + unat (scaled (feedMax fd - feedMin fd)) + 2 * unat tick < SIZE_RANGE"
  shows "\<exists>E. interchange_engine os H scaled tick False c fd = Inr E" "feedMin fd \<noteq> - 1"
proof -
  have ok: "feedMin fd \<noteq> 0" "feedMin fd \<le> feedMax fd"
    using read_feed_ok [of input] assms(3) unfolding fd_def [symmetric] feed_ok_def by (auto intro: order_trans)
  from rounded_ladder_on_grid [where scaled = scaled, OF assms(2) ok assms(4)]
  show "\<exists>E. interchange_engine os H scaled tick False c fd = Inr E" by (auto simp: interchange_engine_def)
  show "feedMin fd \<noteq> - 1"
  proof
    assume "feedMin fd = - 1"
    then have "SIZE_RANGE - 1 \<le> unat (feedMax fd)" using ok(2) by (simp add: u64_le_iff)
    moreover have "0 < unat tick" using assms(2) by (simp add: u64_eq_0_iff)
    ultimately show False using assms(4) by linarith
  qed
qed

text \<open>A session of complete messages is always converted, whatever the options.\<close>

lemma itch_main_converts:
  assumes "itch_configure mktime args = Some (Inr (cli, base))" and "fs (cli_input cli) = Some (concat (map frame ms))"
    and "ms \<noteq> []" and "\<forall>m \<in> set ms. well_sized m \<and> length m < 65536" and "cli_output cli = ''-'' \<or> writable (cli_output cli)"
  shows "\<exists>csv. itch_to_csv_main mktime writable fs args = ToolDone (csv, False)"
proof -
  have "\<forall>m \<in> set ms. framable m" using assms(4) by (auto simp: framable_def well_sized_def)
  with itch_messages_ok [of ms _ base itch_start] assms(4) obtain st where
    "itch_loop \<lparr>symbols = cli_symbols cli, limit = cli_limit cli, system = cli_system cli\<rparr> base (concat (map frame ms)) 0 itch_start = Some (st, False)"
    using itch_loop_frames [of ms _ base "[]" itch_start] by fastforce
  moreover have "concat (map frame ms) \<noteq> []" using assms(3,4) by (cases ms) (auto simp: frame_def well_sized_def)
  ultimately show ?thesis using assms(1,2,5) by (auto simp: itch_to_csv_main_def itch_to_csv_def)
qed

section \<open>Properties\<close>

text \<open>
  C40. A tick that is not a number stops every tool: an option value without digits, an empty
  one included, reads as a tick of zero, and the sizing of the ladder then divides by zero,
  which has no defined behaviour.
\<close>
theorem tools_divide_by_zero_tick:
  assumes "fs f = Some input" and "f \<noteq> []" and "input \<noteq> []" and "snd (sign_and_digits v) = []"
  shows "(feedMin (read_feed input) \<noteq> - 1 \<longrightarrow>
      interchange_benchmark_main os H scaled clock c fs [''--input'', f, ''--tick'', v] = ToolUncaught (UndefinedBehaviour ''division by zero'') \<and>
      recorder_main os H rank clock scaled writable c fs [''--input'', f, ''--tick'', v] =
        ToolUncaught (UndefinedBehaviour ''division by zero'') \<and>
      threaded_setup os H scaled c fs [f, ''--tick'', v] = ToolUncaught (UndefinedBehaviour ''division by zero'')) \<and>
    (minPriceRaw (first_pass (data_rows input)) \<noteq> - 1 \<longrightarrow>
      itch_replay_main os H label_times scaled keys c fs [''--input'', f, ''--tick'', v] = Uncaught (UndefinedBehaviour ''division by zero''))"
proof -
  have z: "strtoull v = 0" using assms(4) by (rule strtoull_no_digits)
  have m: "MappedFile fs f = Inr input" using assms(1,3) by (simp add: MappedFile_def)
  have e: "interchange_engine os H sc 0 r c fd = Inl (UndefinedBehaviour ''division by zero'')" for sc r fd
    by (simp add: interchange_engine_def size_ladder_rounded_def)
  have "replay_engine_for os H sc 0 c p = Inl (UndefinedBehaviour ''division by zero'')" for sc p
    by (simp add: replay_engine_for_def size_ladder_def)
  with m e assms(2) show ?thesis
    unfolding interchange_benchmark_main_def recorder_main_def threaded_setup_def itch_replay_main_def parse_input_tick z
    by (simp add: Let_def tool_default_def recorder_default_def benchmark_interchange_def snapshot_recorder_def itch_replay_def next_arg_def z)
qed

text \<open>
  C29. The threaded tool from its command line to its last event: when the set-up succeeds, the
  events are those of the input file and the engine starts on an empty book; from every state
  the two threads can reach there is a continuation in which the matching thread processes
  every event, and then the engine is in the state of the sequential run over the whole file,
  on a well-formed, uncrossed book.
\<close>
theorem threaded_command_line:
  assumes "os_fresh os" and "threaded_setup os H scaled c fs args = ToolDone (raws, p)" and "length raws < 2 ^ 53"
  shows "\<exists>input E. fs (hd args) = Some input \<and> raws = events (read_feed input) \<and> p = pipeline_start E \<and> view E = (\<lambda>_. [], c) \<and>
    (\<forall>s. pipeline_reaches os H raws E s \<longrightarrow>
      (\<exists>t. (pipeline_step os H raws (map toOrderEvent raws))\<^sup>*\<^sup>* s t \<and> consumed t = length raws \<and>
        pipe_engine t = snd (run (engine_exec os H) (map toOrderEvent raws) E) \<and>
        book_ok os H (book (pipe_engine t)) \<and> spec_inv (view (pipe_engine t))))"
proof -
  obtain f others where args: "args = f # others" using assms(2) by (cases args) (auto simp: threaded_setup_def)
  define opt where "opt = parse_threaded_args others (tool_default\<lparr>toolInput := f\<rparr>)"
  obtain input E where i: "fs f = Some input" "raws = events (read_feed input)" "p = pipeline_start E"
    "interchange_engine os H (scaled (toolHeadroom opt)) (toolTick opt) True c (read_feed input) = Inr E"
    using assms(2) unfolding threaded_setup_def args opt_def
    by (auto simp: Let_def MappedFile_def split: option.splits if_splits sum.splits)
  note sound = interchange_engine_sound [OF i(4) assms(1,3) [unfolded i(2)]]
  have "\<exists>t. (pipeline_step os H raws (map toOrderEvent raws))\<^sup>*\<^sup>* s t \<and> consumed t = length raws \<and>
      pipe_engine t = snd (run (engine_exec os H) (map toOrderEvent raws) E) \<and>
      book_ok os H (book (pipe_engine t)) \<and> spec_inv (view (pipe_engine t))" if "pipeline_reaches os H raws E s" for s
    using pipeline_can_complete [OF that] pipeline_reached [OF assms(1) sound(1,3)] by (metis take_all order_refl)
  with i(1,2,3) sound(2) args show ?thesis by auto
qed

section \<open>Witnesses\<close>

lemma demo_csv_ne: "demo_csv \<noteq> []"
  by (simp add: demo_csv_def)

theorem tools_divide_by_zero_tick_witness:
  "interchange_benchmark_main one_page_os (\<lambda>k. k) (\<lambda>_. fifth) (\<lambda>_. 5) 0 [''a.csv'' \<mapsto> demo_csv] [''--input'', ''a.csv'', ''--tick'', ''one''] =
     ToolUncaught (UndefinedBehaviour ''division by zero'')"
proof -
  have "snd (sign_and_digits ''one'') = []" by (simp add: sign_and_digits_def is_blank_def is_digit_def)
  with tools_divide_by_zero_tick [of "[''a.csv'' \<mapsto> demo_csv]" "''a.csv''" demo_csv] demo_csv_ne demo_feed_facts(1)
  show ?thesis by simp
qed

theorem threaded_command_line_witness:
  "\<exists>raws E t. threaded_setup one_page_os (\<lambda>k. k) (\<lambda>_. fifth) 0 [''a.csv'' \<mapsto> demo_csv] [''a.csv'', ''--tick'', ''100''] =
      ToolDone (raws, pipeline_start E) \<and> pipeline_reaches one_page_os (\<lambda>k. k) raws E t \<and> consumed t = 2"
proof -
  let ?fs = "[''a.csv'' \<mapsto> demo_csv]"
  have tick: "strtoull ''100'' = 100" by (simp add: strtoull_def sign_and_digits_def is_blank_def is_digit_def dec_value_def)
  obtain E where E: "interchange_engine one_page_os (\<lambda>k. k) fifth 100 True 0 demo_feed = Inr E" using demo_interchange_engine by blast
  have s: "threaded_setup one_page_os (\<lambda>k. k) (\<lambda>_. fifth) 0 ?fs [''a.csv'', ''--tick'', ''100''] = ToolDone (events demo_feed, pipeline_start E)"
    using E demo_csv_ne demo_feed_facts(1) unfolding threaded_setup_def
    by (simp add: MappedFile_def next_arg_def tick tool_default_def demo_csv_feed Let_def)
  have two: "length (events demo_feed) = 2" by (simp add: demo_feed_def)
  from threaded_command_line [OF one_page_os_fresh s] two obtain E1 where E1: "pipeline_start E = pipeline_start E1" and
    all: "\<forall>s. pipeline_reaches one_page_os (\<lambda>k. k) (events demo_feed) E1 s \<longrightarrow>
       (\<exists>t. (pipeline_step one_page_os (\<lambda>k. k) (events demo_feed) (map toOrderEvent (events demo_feed)))\<^sup>*\<^sup>* s t \<and> consumed t = 2)"
    by fastforce
  have "pipeline_reaches one_page_os (\<lambda>k. k) (events demo_feed) E1 (pipeline_start E1)" by (simp add: pipeline_reaches_def)
  with all obtain t where "(pipeline_step one_page_os (\<lambda>k. k) (events demo_feed) (map toOrderEvent (events demo_feed)))\<^sup>*\<^sup>* (pipeline_start E1) t"
    "consumed t = 2" by blast
  with s E1 show ?thesis unfolding pipeline_reaches_def by metis
qed

end
