(* ===== verification/Engine_Capacity.thy ===== *)
theory Engine_Capacity
  imports Engine_Spec
begin

text \<open>
  When no order is lost for want of room. A book call changes the number of pages of the pool
  and the totals of the levels only in known ways: matching, cancelling and reducing never add
  to a total, an insertion adds the quantity that rests. Together with the identifiers in use
  this bounds every resource an insertion needs, so an engine on a book with reserved capacity
  accepts a whole stream of orders. The level totals matter because they are what the overflow
  check of \<open>PriceLevel::addOrder\<close> reads, and filled quantities stay in them.
\<close>

section \<open>What a call adds to the levels\<close>

text \<open>The pool keeps its pages, and no level total grows by more than \<open>T\<close>.\<close>

definition grown :: "nat \<Rightarrow> order_book \<Rightarrow> order_book \<Rightarrow> bool" where
  "grown T B B' \<longleftrightarrow>
     length (pages (orderPool B)) \<le> length (pages (orderPool B')) \<and>
     (\<forall>r. unat (totalQuantity (level_of r B')) \<le> unat (totalQuantity (level_of r B)) + T)"

lemma grown_refl [simp]: "grown T B B"
  by (simp add: grown_def)

lemma grown_trans: "grown a B B1 \<Longrightarrow> grown b B1 B2 \<Longrightarrow> grown (a + b) B B2"
proof -
  assume a: "grown a B B1" and b: "grown b B1 B2"
  have "unat (totalQuantity (level_of r B2)) \<le> unat (totalQuantity (level_of r B)) + (a + b)" for r
  proof -
    have "unat (totalQuantity (level_of r B1)) \<le> unat (totalQuantity (level_of r B)) + a"
      "unat (totalQuantity (level_of r B2)) \<le> unat (totalQuantity (level_of r B1)) + b" using a b unfolding grown_def by blast+
    then show ?thesis by simp
  qed
  with a b show ?thesis by (auto simp: grown_def)
qed

lemma grown_mono: "grown a B B' \<Longrightarrow> a \<le> b \<Longrightarrow> grown b B B'"
  unfolding grown_def by (meson add_left_mono le_trans)

text \<open>No total grows.\<close>

abbreviation calm :: "order_book \<Rightarrow> order_book \<Rightarrow> bool" where
  "calm \<equiv> grown 0"

lemma calm_trans: "calm B B1 \<Longrightarrow> grown T B1 B2 \<Longrightarrow> grown T B B2" "grown T B B1 \<Longrightarrow> calm B1 B2 \<Longrightarrow> grown T B B2"
  using grown_trans [of 0 B B1 T B2] grown_trans [of T B B1 0 B2] by simp_all

lemma calm_bind:
  assumes "calm B (state_of m)" and "\<And>x B1. m = Ret x B1 \<Longrightarrow> grown T B1 (state_of (f x B1))"
  shows "grown T B (state_of (bind_outcome m f))"
proof (cases m)
  case (Ret x B1)
  with assms show ?thesis by (auto intro: calm_trans)
next
  case (Throw e B1)
  with assms(1) show ?thesis by (auto simp: grown_def intro: le_trans [OF _ le_add1])
qed

subsection \<open>The parts of a book call\<close>

lemma write_page_pages: "length (pages (state_of (write_page k f P))) = length (pages P)"
  by (simp add: write_page_def)

lemma write_pool_pages: "(\<And>P. pages (f P) = pages P) \<Longrightarrow> length (pages (state_of (write_pool f P))) = length (pages P)"
  by (simp add: write_pool_def)

lemma bind_pages:
  assumes "length (pages (state_of m)) = n" and "\<And>x P. m = Ret x P \<Longrightarrow> length (pages P) = n \<Longrightarrow> length (pages (state_of (f x P))) = n"
  shows "length (pages (state_of (bind_outcome m f))) = n"
  using assms by (cases m) auto

lemmas pool_pages = write_page_pages write_pool_pages

lemma addToFreePageList_pages: "length (pages (state_of (addToFreePageList k P))) = length (pages P)"
  unfolding addToFreePageList_def
  by (auto intro!: bind_pages simp: pool_pages split: option.splits)

lemma removeFromFreePageList_pages: "length (pages (state_of (removeFromFreePageList k P))) = length (pages P)"
  unfolding removeFromFreePageList_def
  by (auto intro!: bind_pages simp: pool_pages Let_def split: option.splits)

lemma OrderPool_release_pages: "length (pages (state_of (OrderPool_release p P))) = length (pages P)"
  unfolding OrderPool_release_def
  by (auto intro!: bind_pages simp: pool_pages addToFreePageList_pages Let_def split: option.splits)

lemma calm_release: "calm B (state_of (on_pool (OrderPool_release p) B))"
  using OrderPool_release_pages [of p "orderPool B"] by (auto simp: on_pool_def grown_def split: outcome.splits)

lemma calm_index: "calm B (state_of (on_index f B))"
  by (auto simp: on_index_def grown_def split: outcome.splits)

lemma marks_levels: "levels (state_of (markEmpty pr L)) = levels L" "levels (state_of (markOccupied pr L)) = levels L"
  by (auto simp: markEmpty_def markOccupied_def Let_def split: sum.splits option.splits)

lemma calm_ladder:
  assumes "levels (state_of (f (ladder_of d B))) = levels (ladder_of d B)"
  shows "calm B (state_of (on_ladder d f B))"
  using assms by (auto simp: on_ladder_def grown_def level_of_def split: outcome.splits)

lemma calm_mem [simp]: "calm B (set_mem h B)"
  by (simp add: grown_def)

lemma grown_level:
  assumes "unat (totalQuantity (fst (state_of (f (level_of r B, book_mem B))))) \<le> unat (totalQuantity (level_of r B)) + T"
  shows "grown T B (state_of (on_level r f B))"
  using assms by (auto simp: on_level_def grown_def level_of_set_level split: outcome.splits prod.splits)

subsection \<open>Removals and the matching loop\<close>

lemma calm_unlink:
  assumes "level_rep (book_mem B) r (level_of r B) ps" and "p \<in> set ps"
  shows "calm B (state_of (on_level r (PriceLevel_removeOrder r (Some p)) B))"
proof (rule grown_level)
  obtain ord where "book_mem B p = Some ord" using level_rep_memD [OF assms] by blast
  from PriceLevel_removeOrder_ok [OF assms this] obtain l' h' where
    "PriceLevel_removeOrder r (Some p) (level_of r B, book_mem B) = Ret () (l', h')"
    "unat (totalQuantity l') = unat (totalQuantity (level_of r B)) - unat (remainingQuantity ord)" by metis
  then show "unat (totalQuantity (fst (state_of (PriceLevel_removeOrder r (Some p) (level_of r B, book_mem B))))) \<le>
      unat (totalQuantity (level_of r B)) + 0" by simp
qed

lemma remove_calm:
  assumes "book_rep_ex X os H B Q"
  shows "calm B (state_of (OrderBook_removeOrder H (Some p) B))"
proof (cases "book_mem B p")
  case None
  then show ?thesis by (simp add: OrderBook_removeOrder_def)
next
  case (Some ord)
  note D = book_repD [OF assms]
  obtain d i where home: "i < levelCount (ladder_of d B)" "p \<in> set (Q d i)" "priceLevel ord = Some (d, i)"
    using levels_rep_home [OF D(4) Some] by metis
  note un = calm_unlink [OF levels_repD(1) [OF D(4) home(1)] home(2)]
  show ?thesis
    using Some home(3) unfolding OrderBook_removeOrder_def
    by (auto intro!: calm_bind un calm_release calm_index calm_ladder simp: marks_levels split: sum.splits)
qed

lemma cancel_calm:
  assumes "book_ok os H B"
  shows "calm B (state_of (cancelOrder H i B))"
proof -
  obtain Q where "book_rep_ex {} os H B Q" using book_okE [OF assms] by (metis book_rep_def)
  note r = remove_calm [OF this]
  show ?thesis unfolding cancelOrder_def by (auto intro!: calm_bind r split: sum.splits option.splits)
qed

lemma calm_reduceTotal: "calm B (state_of (on_level r (level_only (reduceTotalQuantity q)) B))"
proof (rule grown_level)
  have "unat (totalQuantity l - q) \<le> unat (totalQuantity l)" if "\<not> totalQuantity l < q" for l :: price_level
    using that by (simp add: unat_sub_u64 u64_le_iff u64_less_iff)
  then show "unat (totalQuantity (fst (state_of (level_only (reduceTotalQuantity q) (level_of r B, book_mem B))))) \<le> unat (totalQuantity (level_of r B)) + 0"
    by (simp add: level_only_def reduceTotalQuantity_def)
qed

lemma calm_order: "calm B (state_of (on_order p f B))"
  by (auto simp: on_order_def grown_def split: option.splits outcome.splits)

lemma reduce_calm: "calm B (state_of (reduceOrder H i q B))"
  unfolding reduceOrder_def
  by (auto intro!: calm_bind calm_reduceTotal calm_order simp: Let_def split: sum.splits option.splits)

lemma match_loop_calm:
  assumes "book_ok os H (book E)"
  shows "calm (book E) (book (fst (state_of (match_loop H n i pr sd ty q (E, out)))))"
  using assms
proof (induction n arbitrary: E q out)
  case (Suc n)
  let ?d = "opposite sd" and ?B = "book E"
  obtain Q where rep: "book_rep os H ?B Q" using book_okE [OF Suc.prems] .
  show ?case
  proof (cases "best (ladder_of ?d ?B)")
    case None
    with match_round_stop [of q sd E] show ?thesis by simp
  next
    case (Some k)
    obtain p ord qs where h: "k < levelCount (ladder_of ?d ?B)" "k < length (levels (ladder_of ?d ?B))"
      "headOrder (level_of (?d, k) ?B) = Some p" "book_mem ?B p = Some ord" "priceLevel ord = Some (?d, k)"
      "price ord = levelPrice (level_of (?d, k) ?B)" "good_order ?d ord" "side_ptrs ?d ?B Q = p # qs"
      by (rule head_order [OF rep Some])
    have rh: "round_head sd ?B k p ord" using Some h by (simp add: round_head_def)
    consider (stop) "q = 0" | (no_cross) "q \<noteq> 0" "\<not> crosses sd ty pr (price ord)"
      | (full) "q \<noteq> 0" "crosses sd ty pr (price ord)" "remainingQuantity ord \<le> q"
      | (part) "q \<noteq> 0" "crosses sd ty pr (price ord)" "q < remainingQuantity ord" by force
    then show ?thesis
    proof cases
      case stop
      with match_round_stop [of q sd E] show ?thesis by simp
    next
      case no_cross
      with match_round_no_cross [OF rh] show ?thesis by simp
    next
      case full
      let ?B1 = "set_mem ((book_mem ?B)(p \<mapsto> with_remaining 0 ord)) ?B"
      obtain B' Q' where B': "OrderBook_removeOrder H (Some p) ?B1 = Ret () B'" "book_rep os H B' Q'"
        by (rule fill_head [OF rep h(8,4)]) blast
      have "calm ?B B'" using calm_trans(1) [OF calm_mem remove_calm [OF fill_in_place [OF rep h(4)], of p]] B'(1) by simp
      with Suc.IH [of "E\<lparr>book := B'\<rparr>"] match_round_full [OF rh full(2) _ full(3) B'(1)] full(1) book_rep_ok [OF B'(2)] show ?thesis
        by (auto simp: word_neq_0_conv simp del: match_loop.simps intro: calm_trans)
    next
      case part
      let ?B1 = "set_mem ((book_mem ?B)(p \<mapsto> with_remaining (remainingQuantity ord - q) ord)) ?B"
      obtain B' where B': "on_level (?d, k) (level_only (reduceTotalQuantity q)) ?B1 = Ret () B'" "book_rep os H B' Q"
        by (rule partial_fill_head [OF rep h(8,4,5,2) part(3)]) blast
      have "calm ?B B'" using calm_trans(1) [OF calm_mem calm_reduceTotal [of ?B1 "(?d, k)" q]] B'(1) by simp
      with Suc.IH [of "E\<lparr>book := B'\<rparr>"] match_round_partial [OF rh part(2) _ part(3) B'(1)] part(1) book_rep_ok [OF B'(2)] show ?thesis
        by (auto simp: word_neq_0_conv simp del: match_loop.simps intro: calm_trans)
    qed
  qed
qed simp

subsection \<open>Insertions\<close>

lemma bind_pages_le:
  assumes "n \<le> length (pages (state_of m))" and "\<And>x P. m = Ret x P \<Longrightarrow> n \<le> length (pages P) \<Longrightarrow> n \<le> length (pages (state_of (f x P)))"
  shows "n \<le> length (pages (state_of (bind_outcome m f)))"
  using assms by (cases m) auto

lemma createPage_pages: "length (pages P) \<le> length (pages (state_of (createPage os P)))"
  unfolding createPage_def
  by (auto intro!: bind_pages_le simp: addToFreePageList_pages Let_def split: sum.splits prod.splits)

lemma OrderPool_allocate_pages: "length (pages P) \<le> length (pages (state_of (OrderPool_allocate os ord P)))"
  unfolding OrderPool_allocate_def
  by (auto intro!: bind_pages_le simp: pool_pages createPage_pages removeFromFreePageList_pages Let_def split: option.splits)

lemma calm_allocate: "calm B (state_of (on_pool (OrderPool_allocate os ord) B))"
  using OrderPool_allocate_pages [of "orderPool B" os ord] by (auto simp: on_pool_def grown_def split: outcome.splits)

lemma unat_plus_le: "unat (a + b :: u64) \<le> unat a + unat b"
  by (simp add: unat_word_ariths)

lemma addOrder_total:
  assumes "h p = Some ord"
  shows "unat (totalQuantity (fst (state_of (PriceLevel_addOrder r (Some p) (l, h))))) \<le> unat (totalQuantity l) + unat (remainingQuantity ord)"
  using assms unat_plus_le [of "totalQuantity l" "remainingQuantity ord"]
  by (auto simp: PriceLevel_addOrder_def write_order_def write_level_def Quantity_plus_def Let_def split: option.splits)

lemma add_grown:
  assumes "book_ok os H B" and "os_fresh os" and "addOrderWithQuantities os H i pr oq rq t sd ty sq B = Ret p B'"
  shows "grown (unat rq) B B'"
proof -
  let ?ord = "Order_full i pr oq rq t sd ty sq"
  obtain Q where "book_rep_ex {} os H B Q" using book_okE [OF assms(1)] by (metis book_rep_def)
  note D = book_repD [OF this]
  from assms(3) obtain p1 B1 where al: "on_pool (OrderPool_allocate os ?ord) B = Ret p1 B1"
    by (cases "on_pool (OrderPool_allocate os ?ord) B") (auto simp: addOrderWithQuantities_def split: if_splits)
  have mem: "book_mem B1 p1 = Some ?ord"
    using OrderPool_allocate_cases [OF D(1) assms(2), of ?ord] al by (fastforce simp: on_pool_def split: outcome.splits)
  from assms(3) al mem obtain d n B2 where
    ad: "on_level (d, n) (PriceLevel_addOrder (d, n) (Some p1)) B1 = Ret () B2" and
    mk: "mark_and_index H d (PriceLevel_isEmpty (level_of (d, n) B1)) (price ?ord) p1 B2 = Ret () B'"
    by (simp add: addOrderWithQuantities_def release_and_rethrow_def unlink_and_rethrow_def Let_def bind_outcome_Ret_iff
        split: if_splits sum.splits outcome.splits)
  have "calm B B1" using calm_allocate [of B os ?ord] al by simp
  moreover have "grown (unat rq) B1 B2"
    using grown_level [of "PriceLevel_addOrder (d, n) (Some p1)" "(d, n)" B1 "unat rq"] addOrder_total [where h = "book_mem B1" and p = p1, OF mem] ad by simp
  moreover have "calm B2 B'"
  proof -
    have "calm B2 (state_of (mark_and_index H d (PriceLevel_isEmpty (level_of (d, n) B1)) (price ?ord) p1 B2))"
      by (auto intro!: calm_bind calm_index calm_ladder simp: marks_levels)
    with mk show ?thesis by simp
  qed
  ultimately show ?thesis by (blast intro: calm_trans)
qed

section \<open>Room for orders\<close>

text \<open>An event brings at most its own identifier to the book.\<close>

definition resting_ids :: "sides \<Rightarrow> u64 set" where
  "resting_ids v = (\<Union>d. orderId ` set (v d))"

lemma thinned_ids: "thinned ys xs \<Longrightarrow> orderId ` set ys \<subseteq> orderId ` set xs"
  using thinned_set shrunk_sel(1) by (metis (no_types, lifting) image_subsetI image_eqI)

lemma ids_update: "resting_ids (v(d := xs)) \<subseteq> resting_ids v \<union> orderId ` set xs"
  unfolding resting_ids_def
proof
  fix i assume "i \<in> (\<Union>c. orderId ` set ((v(d := xs)) c))"
  then obtain c where "i \<in> orderId ` set ((v(d := xs)) c)" by blast
  then show "i \<in> (\<Union>c. orderId ` set (v c)) \<union> orderId ` set xs" by (cases "c = d") auto
qed

lemma ids_rest: "resting_ids (rest n r sq v) \<subseteq> insert (newOrderId n) (resting_ids v)"
proof -
  let ?d = "side_of (newSide n)"
  have "orderId (remainder n r sq) = newOrderId n" by (simp add: remainder_def Order_full_def)
  then have "orderId ` set (spec_insert ?d (remainder n r sq) (v ?d)) = insert (newOrderId n) (orderId ` set (v ?d))" by simp
  moreover have "orderId ` set (v ?d) \<subseteq> resting_ids v" by (auto simp: resting_ids_def)
  ultimately have "resting_ids (v(?d := spec_insert ?d (remainder n r sq) (v ?d))) \<subseteq> insert (newOrderId n) (resting_ids v)"
    using ids_update [of v ?d "spec_insert ?d (remainder n r sq) (v ?d)"] by blast
  then show ?thesis by (simp add: rest_def subset_insertI)
qed

lemma ids_mono: "(\<And>d. orderId ` set (w d) \<subseteq> orderId ` set (v d)) \<Longrightarrow> resting_ids w \<subseteq> resting_ids v"
  unfolding resting_ids_def by (intro UN_mono) auto

lemma matched_ids:
  assumes "matched n v = (es, r, ys)" and "spec_inv (v, c)"
  shows "resting_ids (v(opposite (newSide n) := ys)) \<subseteq> resting_ids v"
proof -
  have "thinned ys (v (opposite (newSide n)))"
    using spec_match_thinned [OF assms(1) [unfolded matched_def]] spec_invD(5) [OF assms(2)] by blast
  from thinned_ids [OF this] have "orderId ` set ys \<subseteq> resting_ids v" by (auto simp: resting_ids_def)
  with ids_update [of v "opposite (newSide n)" ys] show ?thesis by blast
qed

lemma engine_step_ids:
  assumes "engine_step ev s r t" and "spec_inv s"
  shows "resting_ids (fst t) \<subseteq> resting_ids (fst s) \<union> (case ev of NewEvent n \<Rightarrow> {newOrderId n} | _ \<Rightarrow> {})"
  using assms
proof (cases rule: engine_step.cases)
  case (filled n v c es r' ys)
  from matched_ids [OF filled(6) assms(2) [unfolded filled(2)]] ids_rest [of n r' "c + 1" "v(opposite (newSide n) := ys)"]
  show ?thesis unfolding filled(1,2,4) by auto
next
  case (stranded n v c es r' ys e)
  from matched_ids [OF stranded(6) assms(2) [unfolded stranded(2)]] show ?thesis unfolding stranded(1,2,4) by auto
next
  case (cancelled k v c)
  have "orderId ` set (spec_cancel (cancelOrderId k) (v d)) \<subseteq> orderId ` set (v d)" for d
    by (rule thinned_ids [OF spec_cancel_thinned [OF spec_invD(5) [OF assms(2) [unfolded cancelled(2)]]]])
  then show ?thesis unfolding cancelled(1,2,4) by (simp add: ids_mono)
next
  case (reduced x v c)
  have "orderId ` set (spec_reduce (reduceOrderId x) (reduceQuantity x) (v d)) \<subseteq> orderId ` set (v d)" for d
    by (rule thinned_ids [OF spec_reduce_thinned [OF spec_invD(5) [OF assms(2) [unfolded reduced(2)]]]])
      (use reduced(5) in fastforce)
  then show ?thesis unfolding reduced(1,2,4) by (simp add: ids_mono)
qed auto


lemma index_count_dom:
  assumes "index_ok H ix"
  shows "card (dom (index_map ix)) = index_count ix"
proof -
  have "distinct (map slotKey (filter used (slots ix)))" using assms by (auto simp: index_ok_def keys_distinct_def)
  then have "card (slotKey ` set (filter used (slots ix))) = length (filter used (slots ix))"
    by (metis distinct_card length_map list.set_map)
  moreover have "dom (index_map ix) = slotKey ` set (filter used (slots ix))"
    by (simp add: index_map_def dom_map_of_conv_image_fst image_image)
  ultimately show ?thesis using assms by (simp add: index_ok_def size_entries)
qed

text \<open>The number of live orders and of index entries, by their identifiers.\<close>

lemma live_ids:
  assumes "book_ok os H (book E)" and "resting_ids (fst (view E)) \<subseteq> A" and "finite A"
  shows "liveOrderCount (orderPool (book E)) \<le> card A" "index_count (orderIndex (book E)) \<le> card A"
proof -
  let ?B = "book E"
  obtain Q where rep: "book_rep os H ?B Q" using book_okE [OF assms(1)] .
  note D = book_repD [OF rep [unfolded book_rep_def]]
  have sub: "orderId ord \<in> A" if pm: "book_mem ?B p = Some ord" for p ord
  proof -
    obtain d where "strip ord \<in> set (resting d ?B)" using live_resting [OF rep pm] .
    then have "orderId (strip ord) \<in> orderId ` set (resting d ?B)" by (rule imageI)
    then have "orderId ord \<in> resting_ids (fst (view E))" by (auto simp: resting_ids_def view_def)
    with assms(2) show ?thesis by blast
  qed
  have "card (dom (book_mem ?B)) \<le> card A"
  proof (rule card_inj_on_le [where f = "\<lambda>p. orderId (the (book_mem ?B p))"])
    show "inj_on (\<lambda>p. orderId (the (book_mem ?B p))) (dom (book_mem ?B))"
      using index_agrees_unique [OF D(5)] by (auto simp: inj_on_def)
  qed (use sub assms(3) in auto)
  then show "liveOrderCount (orderPool ?B) \<le> card A" using D(1) by (simp add: pool_ok_def book_mem_def)
  have "dom (index_map (orderIndex ?B)) \<subseteq> A" using index_agreesD(2) [OF D(5)] sub by blast
  then have "card (dom (index_map (orderIndex ?B))) \<le> card A" by (rule card_mono [OF assms(3)])
  then show "index_count (orderIndex ?B) \<le> card A" using index_count_dom [OF D(2)] by simp
qed

text \<open>
  Room for \<open>K\<close> orders on the grid of book \<open>B0\<close>: the pool has the slots, no level total exceeds \<open>T\<close>
  and the resting identifiers are among \<open>A\<close>.
\<close>

definition engine_room :: "os_env \<Rightarrow> hash_fun \<Rightarrow> order_book \<Rightarrow> nat \<Rightarrow> u64 set \<Rightarrow> nat \<Rightarrow> engine \<Rightarrow> bool" where
  "engine_room os H B0 K A T E \<longleftrightarrow>
     os_fresh os \<and> book_ok os H (book E) \<and> spec_inv (view E) \<and> same_grids B0 (book E) \<and>
     K \<le> 819 * length (pages (orderPool (book E))) \<and>
     (\<forall>d i. i < levelCount (ladder_of d B0) \<longrightarrow> unat (totalQuantity (level_of (d, i) (book E))) \<le> T) \<and>
     finite A \<and> resting_ids (fst (view E)) \<subseteq> A"

lemma engine_roomD:
  assumes "engine_room os H B0 K A T E"
  shows "os_fresh os" "book_ok os H (book E)" "spec_inv (view E)" "same_grids B0 (book E)"
    "K \<le> 819 * length (pages (orderPool (book E)))"
    "i < levelCount (ladder_of d B0) \<Longrightarrow> unat (totalQuantity (level_of (d, i) (book E))) \<le> T"
    "finite A" "resting_ids (fst (view E)) \<subseteq> A"
  using assms by (simp_all add: engine_room_def)

text \<open>The slots and totals along a growth; the rest of the invariant comes from the reference.\<close>

lemma room_grown:
  assumes "engine_room os H B0 K A T E" and "grown U (book E) B'"
  shows "K \<le> 819 * length (pages (orderPool B'))"
    "i < levelCount (ladder_of d B0) \<Longrightarrow> unat (totalQuantity (level_of (d, i) B')) \<le> T + U"
proof -
  have "length (pages (orderPool (book E))) \<le> length (pages (orderPool B'))" using assms(2) by (simp add: grown_def)
  then show "K \<le> 819 * length (pages (orderPool B'))" using engine_roomD(5) [OF assms(1)] by linarith
  assume "i < levelCount (ladder_of d B0)"
  then have "unat (totalQuantity (level_of (d, i) (book E))) \<le> T" by (rule engine_roomD(6) [OF assms(1)])
  moreover have "unat (totalQuantity (level_of (d, i) B')) \<le> unat (totalQuantity (level_of (d, i) (book E))) + U"
    using assms(2) by (simp only: grown_def)
  ultimately show "unat (totalQuantity (level_of (d, i) B')) \<le> T + U" by simp
qed

lemma room_can_rest:
  assumes "engine_room os H B0 K A T E" and "calm (book E) B1" and "book_ok os H B1" and "same_grids (book E) B1"
    and "resting_ids (\<lambda>d. resting d B1) \<subseteq> A" and "i \<notin> A" and "card A < K" and "card A + 1 < 2 ^ 53"
    and "indexOf pr (ladder_of (side_of sd) B0) = Inr n" and "rq \<noteq> 0" and "T + unat rq < SIZE_RANGE"
    and "Order_isValid (Order_full i pr oq rq t sd LIMIT sq)"
  shows "can_rest i pr oq rq t sd LIMIT sq B1"
proof -
  note R = engine_roomD [OF assms(1)] and g = room_grown [OF assms(1,2)]
  let ?E1 = "E\<lparr>book := B1\<rparr>"
  have b: "book_ok os H (book ?E1)" "resting_ids (fst (view ?E1)) \<subseteq> A" using assms(3,5) by (simp_all add: view_def)
  note live = live_ids [OF b R(7), simplified]
  obtain Q where rep: "book_rep os H B1 Q" using book_okE [OF assms(3)] .
  note D = book_repD [OF rep [unfolded book_rep_def]]
  have gr: "same_grids B0 B1" using same_grids_trans [OF R(4) assms(4)] .
  then have ix: "indexOf pr (ladder_of (side_of sd) B1) = Inr n"
    using grid_eq_index assms(9) by (metis same_grids_def)
  have "n < levelCount (ladder_of (side_of sd) B0)" using indexOf_book(1) [OF D(3) ix] same_grids_count [OF gr] by simp
  from g(2) [OF this] have tot: "unat rq + unat (totalQuantity (level_of (side_of sd, n) B1)) < SIZE_RANGE" using assms(11) by simp
  have "index_map (orderIndex B1) i = None"
  proof (rule ccontr)
    assume "index_map (orderIndex B1) i \<noteq> None"
    then have "in_use i (fst (view ?E1))" using find_in_use [OF b(1), of i] book_find [OF rep [unfolded book_rep_def], of i]
      by (auto simp: OrderBook_findOrder_def)
    then have "i \<in> resting_ids (fst (view ?E1))" unfolding in_use_def resting_ids_def by blast
    with b(2) assms(6) show False by blast
  qed
  moreover have "firstPageWithFreeSlot (orderPool B1) \<noteq> None"
    using no_free_slot [OF D(1)] live(1) g(1) assms(7) by (metis leD le_trans)
  ultimately show ?thesis using ix tot live(2) assms(8,10,12) by (simp add: can_rest_def side_of_if)
qed

text \<open>A new order is accepted as long as there is room.\<close>

lemma room_new_order:
  assumes room: "engine_room os H B0 K A T E" and nr: "incoming_ok n" "newOrderId n \<notin> A" "currentSequence E \<noteq> - 1"
    and A: "card A < K" "card A + 1 < 2 ^ 53" and q: "T + unat (newQuantity n) < SIZE_RANGE"
    and grid: "newType n = LIMIT \<longrightarrow> (\<exists>k. indexOf (newPrice n) (ladder_of (side_of (newSide n)) B0) = Inr k)"
  shows "\<exists>m E' es. processEvent_into os H (NewEvent n) (E, buf) = Ret m (E', es) \<and>
    engine_room os H B0 K (insert (newOrderId n) A) (T + unat (newQuantity n)) E' \<and> currentSequence E' = currentSequence E + 1"
proof -
  note R = engine_roomD [OF room]
  have "\<not> in_use (newOrderId n) (fst (view E))" using R(8) nr(2) by (auto simp: in_use_def resting_ids_def)
  then have acc: "\<not> refuses (NewEvent n) (view E)" using nr(1,3) by (simp add: view_def)
  obtain es r ys where m: "matched n (fst (view E)) = (es, r, ys)" by (metis prod_cases3)
  obtain E1 where E1: "match_new os H n (E, []) =
      (if r > 0 \<and> newType n = LIMIT
       then bind_outcome (on_book (addRestingRemainder os H (newOrderId n) (newPrice n) (newQuantity n) r (newTimestamp n)
          (newSide n) LIMIT (currentSequence E + 1)) (E1, [] @ es)) (\<lambda>_ s3. Ret () s3)
       else Ret () (E1, [] @ es))"
    "book_ok os H (book E1)" "view E1 = ((fst (view E))(opposite (newSide n) := ys), currentSequence E + 1)"
    "same_grids (book E) (book E1)"
    "match_loop H (liveOrderCount (orderPool (book E)) + 2) (newOrderId n) (newPrice n) (newSide n) (newType n) (newQuantity n)
      (E\<lparr>currentSequence := currentSequence E + 1\<rparr>, []) = Ret r (E1, [] @ es)"
    by (rule matchOrder_accepted [OF R(2) acc m, where out = "[]"]) blast
  have "book_ok os H (book (E\<lparr>currentSequence := currentSequence E + 1\<rparr>))" using R(2) by simp
  from match_loop_calm [OF this, where n = "liveOrderCount (orderPool (book E)) + 2" and i = "newOrderId n" and pr = "newPrice n"
      and sd = "newSide n" and ty = "newType n" and q = "newQuantity n" and out = "[]", unfolded E1(5)]
  have calm: "calm (book E) (book E1)" by simp
  let ?R = "processEvent_into os H (NewEvent n) (E, buf)"
  have step: "engine_step (NewEvent n) (view E) (reply_of ?R) (view (next_engine ?R))" "book_ok os H (book (next_engine ?R))"
    using processEvent_step [OF R(1,2), of "NewEvent n" buf] by simp_all
  have ids: "resting_ids (fst (view E1)) \<subseteq> A" using matched_ids [OF m] R(3,8) E1(3) by (cases "view E") fastforce
  have rq: "unat r \<le> unat (newQuantity n)" using new_event_traded(1) [OF m] by simp
  let ?add = "addOrderWithQuantities os H (newOrderId n) (newPrice n) (newQuantity n) r (newTimestamp n) (newSide n) LIMIT
    (currentSequence E + 1)"
  have PE: "?R = bind_outcome (match_new os H n (E, [])) (\<lambda>_ s1. Ret (length (snd s1)) s1)" by (simp add: processEvent_into_def)
  have run: "\<exists>E' m. ?R = Ret m (E', es) \<and> grown (unat (newQuantity n)) (book E1) (book E') \<and> same_grids (book E1) (book E') \<and>
      currentSequence E' = currentSequence E1"
  proof (cases "r > 0 \<and> newType n = LIMIT")
    case False
    then have "match_new os H n (E, []) = Ret () (E1, es)" using E1(1) by auto
    then show ?thesis using PE by auto
  next
    case True
    obtain k where k: "indexOf (newPrice n) (ladder_of (side_of (newSide n)) B0) = Inr k" using grid True by blast
    have "currentSequence E + 1 \<noteq> 0" using nr(3) by (simp add: eq_neg_iff_add_eq_0)
    then have valid: "Order_isValid (Order_full (newOrderId n) (newPrice n) (newQuantity n) r (newTimestamp n) (newSide n) LIMIT (currentSequence E + 1))"
      using nr(1,3) rq True by (simp add: incoming_ok_def Order_isValid_def Order_full_def valid_defs isBuy_def isSell_def isLimit_def u64_le_iff)
    have "can_rest (newOrderId n) (newPrice n) (newQuantity n) r (newTimestamp n) (newSide n) LIMIT (currentSequence E + 1) (book E1)"
      by (rule room_can_rest [OF room calm E1(2,4) _ nr(2) A k _ _ valid]) (use ids True q rq in \<open>auto simp: view_def\<close>)
    then obtain p B' where B': "?add (book E1) = Ret p B'"
      using add_Throw(5) [OF E1(2) R(1)] by (cases "?add (book E1)") blast+
    then have "match_new os H n (E, []) = Ret () (E1\<lparr>book := B'\<rparr>, es)" using E1(1) True by (simp add: addRestingRemainder_def on_book_def)
    moreover have "grown (unat (newQuantity n)) (book E1) B'"
      by (rule grown_mono [OF add_grown [OF E1(2) R(1) B'] rq])
    ultimately show ?thesis using PE add_Ret(4) [OF E1(2) R(1) B'] by auto
  qed
  then obtain E' m' where E': "?R = Ret m' (E', es)" "grown (unat (newQuantity n)) (book E1) (book E')" "same_grids (book E1) (book E')"
    "currentSequence E' = currentSequence E1" by blast
  have ne: "next_engine ?R = E'" using E'(1) by (simp add: next_engine_def)
  have "resting_ids (fst (view E')) \<subseteq> insert (newOrderId n) A" using engine_step_ids [OF step(1) R(3)] R(8) ne by auto
  moreover note room_grown [OF room calm_trans(1) [OF calm E'(2)]]
  moreover have "same_grids B0 (book E')" using same_grids_trans R(4) E1(4) E'(3) by blast
  moreover have "currentSequence E1 = currentSequence E + 1" using E1(3) by (simp add: view_def)
  ultimately have "engine_room os H B0 K (insert (newOrderId n) A) (T + unat (newQuantity n)) E'"
    using R(1,7) step(2) engine_step_inv [OF step(1) R(3)] ne by (simp add: engine_room_def)
  with E'(1,4) \<open>currentSequence E1 = currentSequence E + 1\<close> show ?thesis by auto
qed

text \<open>Cancellations and reductions leave it.\<close>

lemma cancel_grids:
  assumes "book_ok os H B"
  shows "same_grids B (state_of (cancelOrder H k B))"
proof -
  obtain Q where "book_rep os H B Q" using book_okE [OF assms] .
  then show ?thesis by (cases rule: cancelOrder_cases [where k = k]) auto
qed

lemma reduce_grids:
  assumes "book_ok os H B"
  shows "same_grids B (state_of (reduceOrder H k q B))"
proof -
  obtain Q where "book_rep os H B Q" using book_okE [OF assms] .
  then show ?thesis by (cases rule: reduceOrder_cases [where k = k and newQ = q]) (auto simp: reduced_to_def)
qed

lemma room_other:
  assumes room: "engine_room os H B0 K A T E" and ev: "\<And>n. ev \<noteq> NewEvent n"
  shows "engine_room os H B0 K A T (next_engine (processEvent_into os H ev (E, buf)))"
    "currentSequence (next_engine (processEvent_into os H ev (E, buf))) = currentSequence E"
proof -
  let ?R = "processEvent_into os H ev (E, buf)"
  note R = engine_roomD [OF room]
  have step: "engine_step ev (view E) (reply_of ?R) (view (next_engine ?R))" "book_ok os H (book (next_engine ?R))"
    using processEvent_step [OF R(1,2), of ev buf] by simp_all
  have "calm (book E) (book (next_engine ?R)) \<and> same_grids (book E) (book (next_engine ?R)) \<and>
    currentSequence (next_engine ?R) = currentSequence E"
  proof (cases ev)
    case (CancelEvent k)
    then show ?thesis using cancel_calm [OF R(2), of "cancelOrderId k"] cancel_grids [OF R(2), of "cancelOrderId k"]
      by (cases "cancelOrder H (cancelOrderId k) (book E)") (simp_all add: processEvent_into_def next_engine_def on_book_def Let_def)
  next
    case (ReduceEvent x)
    then show ?thesis using reduce_calm [of "book E" H "reduceOrderId x" "reduceQuantity x"] reduce_grids [OF R(2), of "reduceOrderId x" "reduceQuantity x"]
      by (cases "reduceOrder H (reduceOrderId x) (reduceQuantity x) (book E)") (simp_all add: processEvent_into_def next_engine_def on_book_def Let_def)
  qed (use ev in simp)
  then have g: "calm (book E) (book (next_engine ?R))" "same_grids (book E) (book (next_engine ?R))"
    "currentSequence (next_engine ?R) = currentSequence E" by simp_all
  have "resting_ids (fst (view (next_engine ?R))) \<subseteq> A"
    using engine_step_ids [OF step(1) R(3)] R(8) ev by (cases ev) auto
  then show "engine_room os H B0 K A T (next_engine ?R)"
    using R(1,7) step(2) engine_step_inv [OF step(1) R(3)] room_grown [OF room g(1)] same_grids_trans [OF R(4) g(2)] by (simp add: engine_room_def)
  show "currentSequence (next_engine ?R) = currentSequence E" by (rule g(3))
qed

lemma room_cancel_accepted:
  assumes "engine_room os H B0 K A T E" and "OrderId_isValid (cancelOrderId k)"
  shows "\<exists>es. reply_of (processEvent_into os H (CancelEvent k) (E, buf)) = Accepted es"
proof -
  note R = engine_roomD [OF assms(1)]
  have "\<not> refuses (CancelEvent k) (view E)" using assms(2) by (simp add: view_def)
  with processEvent_step [OF R(1,2), of "CancelEvent k" buf] show ?thesis by (auto elim: engine_step_CancelE)
qed

section \<open>A reserved engine\<close>

definition new_orders :: "order_event list \<Rightarrow> new_order list" where
  "new_orders evs = List.map_filter (\<lambda>ev. case ev of NewEvent n \<Rightarrow> Some n | _ \<Rightarrow> None) evs"

lemma new_orders_simps [simp]:
  "new_orders [] = []" "new_orders (NewEvent n # evs) = n # new_orders evs"
  "new_orders (CancelEvent k # evs) = new_orders evs" "new_orders (ReduceEvent r # evs) = new_orders evs"
  by (simp_all add: new_orders_def map_filter_simps)

text \<open>The events a client may send: well-formed orders on the grid of the book, cancellations by a valid identifier.\<close>

fun well_formed :: "order_book \<Rightarrow> order_event \<Rightarrow> bool" where
  "well_formed B (NewEvent n) \<longleftrightarrow> incoming_ok n \<and>
     (newType n = LIMIT \<longrightarrow> \<not> isl (indexOf (newPrice n) (ladder_of (side_of (newSide n)) B)))"
| "well_formed B (CancelEvent k) \<longleftrightarrow> OrderId_isValid (cancelOrderId k)"
| "well_formed B (ReduceEvent r) \<longleftrightarrow> True"

fun goes_through :: "order_event \<Rightarrow> reply \<Rightarrow> bool" where
  "goes_through (ReduceEvent r) rp \<longleftrightarrow> True"
| "goes_through ev (Accepted es) \<longleftrightarrow> True"
| "goes_through ev (Failed e es) \<longleftrightarrow> False"

lemma room_run:
  assumes "engine_room os H B0 K A T E" and "list_all (well_formed B0) evs" and "distinct (map newOrderId (new_orders evs))"
    and "newOrderId ` set (new_orders evs) \<inter> A = {}" and "card A + length (new_orders evs) \<le> K" and "K < 2 ^ 53"
    and "T + sum_list (map (unat \<circ> newQuantity) (new_orders evs)) < SIZE_RANGE"
    and "unat (currentSequence E) + length (new_orders evs) < SIZE_RANGE"
    and "run (engine_exec os H) evs E = (rs, E')"
  shows "list_all2 goes_through evs rs \<and> book_ok os H (book E') \<and> spec_inv (view E')"
  using assms
proof (induction evs arbitrary: A T E rs)
  case Nil
  then show ?case by (simp add: engine_room_def)
next
  case (Cons ev evs)
  let ?R = "processEvent_into os H ev (E, [])"
  have ex: "engine_exec os H ev E = (reply_of ?R, next_engine ?R)" by (simp add: engine_exec_def Let_def)
  obtain rs' where rs: "rs = reply_of ?R # rs'" "run (engine_exec os H) evs (next_engine ?R) = (rs', E')"
    using Cons.prems(9) ex by (auto split: prod.splits)
  show ?case
  proof (cases ev)
    case (NewEvent n)
    have sq: "currentSequence E \<noteq> - 1" using Cons.prems(8) NewEvent by auto
    have grid: "newType n = LIMIT \<longrightarrow> (\<exists>k. indexOf (newPrice n) (ladder_of (side_of (newSide n)) B0) = Inr k)"
      using Cons.prems(2) NewEvent by (auto intro: sum.collapse(2) [symmetric])
    have fin: "finite A" by (rule engine_roomD(7) [OF Cons.prems(1)])
    have "\<exists>m E1 es. ?R = Ret m (E1, es) \<and> engine_room os H B0 K (insert (newOrderId n) A) (T + unat (newQuantity n)) E1 \<and>
        currentSequence E1 = currentSequence E + 1"
      unfolding NewEvent
      by (rule room_new_order [OF Cons.prems(1) _ _ sq _ _ _ grid]) (use Cons.prems(2-7) NewEvent in auto)
    then obtain m E1 es where E1: "?R = Ret m (E1, es)" "engine_room os H B0 K (insert (newOrderId n) A) (T + unat (newQuantity n)) E1"
      "currentSequence E1 = currentSequence E + 1" by blast
    have "unat (currentSequence E1) = unat (currentSequence E) + 1" using sq E1(3) by (simp add: unat_Suc_u64)
    then have "list_all2 goes_through evs rs' \<and> book_ok os H (book E') \<and> spec_inv (view E')"
      by (intro Cons.IH [OF E1(2)]) (use Cons.prems rs(2) E1(1) fin NewEvent in \<open>auto simp: next_engine_def\<close>)
    then show ?thesis using rs(1) E1(1) NewEvent by (simp add: reply_of_def)
  next
    case (CancelEvent k)
    note o = room_other [OF Cons.prems(1), of ev "[]"]
    have "list_all2 goes_through evs rs' \<and> book_ok os H (book E') \<and> spec_inv (view E')"
      by (intro Cons.IH [OF o(1)]) (use Cons.prems rs(2) o(2) CancelEvent in auto)
    then show ?thesis using rs(1) room_cancel_accepted [OF Cons.prems(1), of k "[]"] Cons.prems(2) CancelEvent by auto
  next
    case (ReduceEvent x)
    note o = room_other [OF Cons.prems(1), of ev "[]"]
    have "list_all2 goes_through evs rs' \<and> book_ok os H (book E') \<and> spec_inv (view E')"
      by (intro Cons.IH [OF o(1)]) (use Cons.prems rs(2) o(2) ReduceEvent in auto)
    then show ?thesis using rs(1) ReduceEvent by auto
  qed
qed

lemma new_level_totals:
  assumes "OrderBook_new mn tick lc = Inr B" and "lc < SIZE_RANGE" and "i < levelCount (ladder_of d B)"
  shows "totalQuantity (level_of (d, i) B) = 0"
proof -
  from assms(1) obtain b a where b: "PriceLadder_new mn tick lc True = Inr b" and a: "PriceLadder_new mn tick lc False = Inr a"
    and B: "B = \<lparr>orderPool = OrderPool_new, orderIndex = OrderIndex_new, bids = b, asks = a\<rparr>"
    by (auto simp: OrderBook_new_def split: sum.splits)
  note nb = PriceLadder_new_ok [OF b assms(2)] and na = PriceLadder_new_ok [OF a assms(2)]
  show ?thesis using assms(3) nb(4,7) na(4,7) by (cases d) (auto simp: B level_of_def PriceLevel_new_def)
qed

lemma reserved_room:
  assumes "os_fresh os" and "OrderBook_new mn tick lc = Inr B" and "lc < SIZE_RANGE" and "reserveOrderCapacity os H n B = Ret () B1" and "n < 2 ^ 53"
  shows "engine_room os H B n {} 0 (MatchingEngine_new B1 c)"
proof -
  note ok = book_rep_ok [OF book_rep_new [OF assms(2,3)], of os H]
  note rb = reserve_book [OF ok assms(1,4,5)]
  obtain P where P: "OrderPool_reserve os n (orderPool B) = Ret () P" "orderPool B1 = P"
    using assms(4) by (auto simp: reserveOrderCapacity_def on_pool_def on_index_def split: outcome.splits)
  have "pool_ok os (orderPool B)" "n + 818 < SIZE_RANGE" using assms(2,5) by (auto simp: OrderBook_new_def SIZE_RANGE_def split: sum.splits)
  from reserve_room(3) [OF P(1) this(1) assms(1) this(2)] have pages: "n \<le> 819 * length (pages (orderPool B1))" by (simp add: P(2))
  have lad: "ladder_of d B1 = ladder_of d B" for d using rb(3,4) by (cases d) simp_all
  then have "same_grids B B1" "\<forall>d i. level_of (d, i) B1 = level_of (d, i) B" by (simp_all add: same_grids_def grid_eq_def level_of_def)
  moreover have "resting d B1 = []" for d using rb(2) resting_new [OF assms(2,3)] by simp
  ultimately show ?thesis
    using assms(1) rb(1) pages new_level_totals [OF assms(2,3)]
    by (auto simp: engine_room_def MatchingEngine_new_def view_def spec_inv_def resting_ids_def)
qed

text \<open>
  C23. Reserved capacity is enough: on a new book with room for \<open>n\<close> orders reserved, any stream
  with at most \<open>n\<close> new orders, priced on the ladder, with different identifiers and quantities
  that add up to less than 64 bits, mixed with cancellations and reductions, goes through:
  every new order and every cancellation is accepted, whatever the operating system would
  answer to a later request for memory.
\<close>
theorem engine_reserved_capacity:
  assumes "os_fresh os" and "OrderBook_new mn tick lc = Inr B" and "lc < SIZE_RANGE"
    and "reserveOrderCapacity os H n B = Ret () B1" and "n < 2 ^ 53"
    and "list_all (well_formed B) evs" and "distinct (map newOrderId (new_orders evs))" and "length (new_orders evs) \<le> n"
    and "sum_list (map (unat \<circ> newQuantity) (new_orders evs)) < SIZE_RANGE"
    and "unat c + length (new_orders evs) < SIZE_RANGE"
    and "run (engine_exec os H) evs (MatchingEngine_new B1 c) = (rs, E')"
  shows "list_all2 goes_through evs rs \<and> book_ok os H (book E') \<and> spec_inv (view E')"
  by (rule room_run [OF reserved_room [OF assms(1-5)] assms(6,7) _ _ assms(5) _ _ assms(11)])
    (use assms(8-10) in \<open>simp_all add: MatchingEngine_new_def\<close>)

subsection \<open>Grids and an instance\<close>

lemma unit_grid_index:
  assumes "OrderBook_new mn 1 lc = Inr B" and "mn \<le> p" and "p \<le> mn + word_of_nat (lc - 1)"
  shows "\<exists>k. indexOf p (ladder_of d B) = Inr k"
proof -
  have one: "x mod 1 = (0 :: u64)" for x by (simp add: word_arith_nat_mod)
  show ?thesis using assms
    by (cases d) (auto simp: OrderBook_new_def PriceLadder_new_def indexOf_def Let_def one not_less split: if_splits)
qed

theorem engine_reserved_capacity_witness:
  "\<exists>rs E'. run (engine_exec one_page_os (\<lambda>k. k)) [NewEvent (demo_buy 2 101 4), NewEvent (demo_buy 3 102 4), CancelEvent \<lparr>cancelOrderId = 2\<rparr>]
       (MatchingEngine_new demo_book 0) = (rs, E') \<and>
     list_all2 goes_through [NewEvent (demo_buy 2 101 4), NewEvent (demo_buy 3 102 4), CancelEvent \<lparr>cancelOrderId = 2\<rparr>] rs"
  (is "\<exists>rs E'. run _ ?evs _ = _ \<and> _")
proof -
  obtain rs E' where r: "run (engine_exec one_page_os (\<lambda>k. k)) ?evs (MatchingEngine_new demo_book 0) = (rs, E')" by (metis prod.exhaust)
  have B: "OrderBook_new 100 1 8 = Inr demo_empty" by (simp add: demo_empty_def OrderBook_new_def PriceLadder_new_def)
  have n: "(8 :: nat) < SIZE_RANGE" "(10 :: nat) < 2 ^ 53" by (simp_all add: SIZE_RANGE_def)
  have "list_all (well_formed demo_empty) ?evs"
    using unit_grid_index [OF B, of 101 Bids] unit_grid_index [OF B, of 102 Bids]
    by (auto simp: demo_buy_def incoming_ok_def valid_defs)
  from engine_reserved_capacity [OF one_page_os_fresh B n(1) demo_reserve n(2) this _ _ _ _ r] r show ?thesis
    by (auto simp: demo_buy_def SIZE_RANGE_def)
qed

end
