(* ===== verification/Micro_Benchmark.thy ===== *)
theory Micro_Benchmark
  imports Engine_Capacity Latency_Stats
begin

text \<open>
  The workload of \<open>benchmarks/benchmark_main.cpp\<close>: a warm-up of resting orders, then a mix of
  resting orders, crossing orders, cancels and reads of the best prices. What the generator
  draws and what the clock shows are parameters; the closing report is in \<open>Tool_Reports\<close>. The
  theorem at the end says that the program never throws once its reservation is granted.
\<close>

section \<open>Model\<close>

definition Levels :: u64 where
  "Levels = 2000"

definition WarmupOrdersPerSide :: nat where
  "WarmupOrdersPerSide = 2000"

definition TimedIterations :: nat where
  "TimedIterations = 300000"

text \<open>
  What one iteration draws from the generator: an action, a price for either side and the
  position of a live order. The distributions keep their documented ranges (\<open>draw_ok\<close>).
\<close>

record draw =
  roll :: nat
  drawBid :: u64
  drawAsk :: u64
  pick :: "nat \<Rightarrow> nat"

definition draw_ok :: "draw \<Rightarrow> bool" where
  "draw_ok d \<longleftrightarrow> roll d \<le> 99 \<and> 1 \<le> drawBid d \<and> drawBid d \<le> Levels \<and> Levels + 1 \<le> drawAsk d \<and> drawAsk d \<le> 2 * Levels \<and>
     (\<forall>n > 0. pick d n < n)"

record micro =
  micro_engine :: engine
  micro_buffer :: "execution list"
  nextOrderId :: u64
  live :: "u64 list"
  micro_latency :: latency_log

definition micro_start :: "engine \<Rightarrow> micro" where
  "micro_start E = \<lparr>micro_engine = E, micro_buffer = [], nextOrderId = 1, live = [], micro_latency = (\<lambda>_. [])\<rparr>"

definition micro_record :: "string \<Rightarrow> u64 \<Rightarrow> micro \<Rightarrow> micro" where
  "micro_record label nanos st = st\<lparr>micro_latency := LatencyLog_record label nanos (micro_latency st)\<rparr>"

text \<open>One order of the warm-up, by the overload that returns its executions.\<close>

definition warmup_order :: "os_env \<Rightarrow> hash_fun \<Rightarrow> u64 \<Rightarrow> order_side \<Rightarrow> micro \<Rightarrow> (unit, micro) outcome" where
  "warmup_order os H pr sd st =
     (let i = nextOrderId st; st1 = st\<lparr>nextOrderId := i + 1\<rparr> in
      case processOrder os H i pr 10 1 sd LIMIT (micro_engine st1) of
        Ret _ E \<Rightarrow> Ret () (st1\<lparr>micro_engine := E, live := live st1 @ [i]\<rparr>)
      | Throw e E \<Rightarrow> Throw e (st1\<lparr>micro_engine := E\<rparr>))"

definition warmup_round :: "os_env \<Rightarrow> hash_fun \<Rightarrow> draw \<Rightarrow> micro \<Rightarrow> (unit, micro) outcome" where
  "warmup_round os H d st =
     bind_outcome (warmup_order os H (drawBid d) BUY st) (\<lambda>_. warmup_order os H (drawAsk d) SELL)"

text \<open>A timed new order; it is remembered as live only when it is meant to rest.\<close>

definition timed_order :: "os_env \<Rightarrow> hash_fun \<Rightarrow> u64 \<Rightarrow> string \<Rightarrow> bool \<Rightarrow> u64 \<Rightarrow> order_side \<Rightarrow> micro \<Rightarrow> (unit, micro) outcome" where
  "timed_order os H nanos label keep pr sd st =
     (let i = nextOrderId st; st1 = st\<lparr>nextOrderId := i + 1\<rparr> in
      case processOrder_into os H i pr 1 1 sd LIMIT (micro_engine st1, micro_buffer st1) of
        Ret _ s \<Rightarrow>
          let st2 = micro_record label nanos (st1\<lparr>micro_engine := fst s, micro_buffer := snd s\<rparr>) in
          Ret () (if keep then st2\<lparr>live := live st2 @ [i]\<rparr> else st2)
      | Throw e s \<Rightarrow> Throw e (st1\<lparr>micro_engine := fst s, micro_buffer := snd s\<rparr>))"

definition timed_round :: "os_env \<Rightarrow> hash_fun \<Rightarrow> u64 \<Rightarrow> draw \<Rightarrow> micro \<Rightarrow> (unit, micro) outcome" where
  "timed_round os H nanos d st =
     (let buy = (roll d mod 2 = 0); sd = (if buy then BUY else SELL) in
      if roll d < 55 then timed_order os H nanos ''NEW_REST'' True (if buy then drawBid d else drawAsk d) sd st
      else if roll d < 70 then timed_order os H nanos ''NEW_CROSS'' False (if buy then 2 * Levels else 1) sd st
      else if roll d < 95 \<and> live st \<noteq> [] then
        let index = pick d (length (live st)) in
        if index \<ge> length (live st) then Throw (UndefinedBehaviour ''index out of range'') st
        else let i = live st ! index; st1 = st\<lparr>live := butlast ((live st)[index := last (live st)])\<rparr> in
          (case processEvent os H (CancelEvent \<lparr>cancelOrderId = i\<rparr>) (micro_engine st1) of
             Ret _ E \<Rightarrow> Ret () (micro_record ''CANCEL'' nanos (st1\<lparr>micro_engine := E\<rparr>))
           | Throw e E \<Rightarrow> Throw e (st1\<lparr>micro_engine := E\<rparr>))
      else Ret () (micro_record ''BEST'' nanos st))"

text \<open>
  The whole program. The draws and the times are parameters, one draw for each round of the
  warm-up and one draw with a time for each timed iteration.
\<close>

definition micro_benchmark ::
  "os_env \<Rightarrow> hash_fun \<Rightarrow> u64 \<Rightarrow> draw list \<Rightarrow> (u64 \<times> draw) list \<Rightarrow> error + (unit, micro) outcome" where
  "micro_benchmark os H c warmups timeds =
     (case OrderBook_new 1 1 (unat (2 * Levels + 1)) of
        Inl e \<Rightarrow> Inl e
      | Inr B \<Rightarrow>
        (case reserveOrderCapacity os H (WarmupOrdersPerSide * 2 + TimedIterations) B of
           Throw e _ \<Rightarrow> Inl e
         | Ret _ B1 \<Rightarrow>
           Inr (bind_outcome (run_all (warmup_round os H) (take WarmupOrdersPerSide warmups) (micro_start (MatchingEngine_new B1 c))) (\<lambda>_.
             run_all (\<lambda>(nanos, d). timed_round os H nanos d) (take TimedIterations timeds)))))"

section \<open>Lemmas\<close>

subsection \<open>The book the program sets up\<close>

abbreviation micro_capacity :: nat where
  "micro_capacity \<equiv> WarmupOrdersPerSide * 2 + TimedIterations"

lemma micro_constants: "micro_capacity = 304000" "unat (2 * Levels + 1) = 4001"
  by (simp_all add: WarmupOrdersPerSide_def TimedIterations_def Levels_def)

lemma micro_book: "\<exists>B. OrderBook_new 1 1 4001 = Inr B"
proof -
  have "\<not> (word_of_nat 4000 :: u64) > (- 1 - 1) div 1" by simp
  then show ?thesis by (simp add: OrderBook_new_def PriceLadder_new_def)
qed

lemma micro_reserved:
  assumes "os_fresh os" and "\<forall>j < 372. page_granted os j" and B: "OrderBook_new 1 1 4001 = Inr B"
  shows "\<exists>B1. reserveOrderCapacity os H 304000 B = Ret () B1"
proof -
  have P: "orderPool B = OrderPool_new" "orderIndex B = OrderIndex_new" using B by (auto simp: OrderBook_new_def split: sum.splits)
  have mc: "mmapCalls OrderPool_new = 0" "pages OrderPool_new = []" by (simp_all add: OrderPool_new_def)
  have "\<exists>P'. create_pages os 372 OrderPool_new = Ret () P'"
    by (rule create_pages_granted [OF assms(1)]) (use assms(2) mc in simp_all)
  then have "\<exists>P'. OrderPool_reserve os 304000 (orderPool B) = Ret () P'" by (simp add: OrderPool_reserve_def P SIZE_RANGE_def mc)
  moreover have "(304000 :: nat) < 2 ^ 53" by simp
  from OrderIndex_reserve_ok [OF index_ok_new(1) this] obtain ix where "OrderIndex_reserve H 304000 OrderIndex_new = Ret () ix" by metis
  ultimately show ?thesis by (auto simp: reserveOrderCapacity_def on_pool_def on_index_def P)
qed

subsection \<open>The engine after some orders\<close>

text \<open>After \<open>k\<close> orders the identifiers in use are among the first \<open>k\<close> and no level total exceeds \<open>10 * k\<close>.\<close>

definition first_ids :: "nat \<Rightarrow> u64 set" where
  "first_ids k = word_of_nat ` {1..k}"

lemma first_ids:
  "first_ids 0 = {}" "first_ids (Suc k) = insert (word_of_nat (Suc k)) (first_ids k)" "card (first_ids k) \<le> k"
  "Suc k < SIZE_RANGE \<Longrightarrow> word_of_nat (Suc k) \<notin> first_ids k"
proof -
  show "first_ids 0 = {}" by (simp add: first_ids_def)
  show "first_ids (Suc k) = insert (word_of_nat (Suc k)) (first_ids k)" by (simp only: first_ids_def atLeastAtMostSuc_conv le_add1 plus_1_eq_Suc image_insert)
  show "card (first_ids k) \<le> k" using card_image_le [of "{1..k}" "word_of_nat :: nat \<Rightarrow> u64"] by (simp add: first_ids_def)
  assume "Suc k < SIZE_RANGE"
  then have "unat (word_of_nat j :: u64) = j" if "j \<le> Suc k" for j using that by (simp add: unat_of_nat SIZE_RANGE_def)
  then show "word_of_nat (Suc k) \<notin> first_ids k" unfolding first_ids_def by (metis (no_types, lifting) atLeastAtMost_iff image_iff le_Suc_eq not_less_eq_eq order_refl)
qed

definition engine_after :: "os_env \<Rightarrow> hash_fun \<Rightarrow> order_book \<Rightarrow> u64 \<Rightarrow> nat \<Rightarrow> engine \<Rightarrow> bool" where
  "engine_after os H B c k E \<longleftrightarrow>
     OrderBook_new 1 1 4001 = Inr B \<and> engine_room os H B 304000 (first_ids k) (10 * k) E \<and> currentSequence E = c + word_of_nat k"

definition micro_ok :: "os_env \<Rightarrow> hash_fun \<Rightarrow> order_book \<Rightarrow> u64 \<Rightarrow> nat \<Rightarrow> micro \<Rightarrow> bool" where
  "micro_ok os H B c k st \<longleftrightarrow>
     engine_after os H B c k (micro_engine st) \<and> nextOrderId st = word_of_nat (Suc k) \<and> distinct (live st) \<and>
     (\<forall>i \<in> set (live st). i \<noteq> 0 \<and> unat i \<le> k)"

text \<open>The prices the program uses are on the ladder, and its quantities are small.\<close>

definition micro_order :: "u64 \<Rightarrow> u64 \<Rightarrow> order_side \<Rightarrow> bool" where
  "micro_order pr q sd \<longleftrightarrow> 1 \<le> pr \<and> pr \<le> 2 * Levels \<and> q \<noteq> 0 \<and> unat q \<le> 10 \<and> (sd = BUY \<or> sd = SELL)"

lemma room_more: "engine_room os H B K A T E \<Longrightarrow> T \<le> U \<Longrightarrow> engine_room os H B K A U E"
  unfolding engine_room_def by (meson le_trans)

lemma engine_after_order:
  assumes "engine_after os H B c k E" and "unat c + Suc k < SIZE_RANGE" and "k < 304000" and "micro_order pr q sd"
  defines "n \<equiv> \<lparr>newOrderId = word_of_nat (Suc k), newPrice = pr, newQuantity = q, newTimestamp = 1, newSide = sd, newType = LIMIT\<rparr>"
  shows "\<exists>m E' es. processEvent_into os H (NewEvent n) (E, buf) = Ret m (E', es) \<and> engine_after os H B c (Suc k) E'"
proof -
  have a: "OrderBook_new 1 1 4001 = Inr B" "engine_room os H B 304000 (first_ids k) (10 * k) E" "currentSequence E = c + word_of_nat k"
    using assms(1) by (simp_all add: engine_after_def)
  have o: "1 \<le> pr" "pr \<le> 4000" "q \<noteq> 0" "unat q \<le> 10" "sd = BUY \<or> sd = SELL" using assms(4) by (simp_all add: micro_order_def Levels_def)
  have id: "unat (word_of_nat (Suc k) :: u64) = Suc k" and kk: "unat (word_of_nat k :: u64) = k"
    using assms(3) by (simp_all add: unat_of_nat SIZE_RANGE_def del: of_nat_Suc)
  have "unat (c + word_of_nat k) = unat c + k" using unat_add_u64 [of c "word_of_nat k"] kk assms(2) by simp
  then have seq: "currentSequence E \<noteq> - 1" using a(3) assms(2) by auto
  have ok: "incoming_ok n" using id o by (auto simp: incoming_ok_def n_def valid_defs u64_eq_0_iff u64_le_iff)
  have grid: "newType n = LIMIT \<longrightarrow> (\<exists>k. indexOf (newPrice n) (ladder_of (side_of (newSide n)) B) = Inr k)"
    using unit_grid_index [OF a(1) o(1)] o(2) by (simp add: n_def word_le_nat_alt)
  have "\<exists>m E' es. processEvent_into os H (NewEvent n) (E, buf) = Ret m (E', es) \<and>
      engine_room os H B 304000 (insert (newOrderId n) (first_ids k)) (10 * k + unat (newQuantity n)) E' \<and> currentSequence E' = currentSequence E + 1"
    by (rule room_new_order [OF a(2) ok _ seq _ _ _ grid])
      (use first_ids(3) [of k] first_ids(4) [of k] assms(3) o(4) in \<open>auto simp: n_def SIZE_RANGE_def simp del: of_nat_Suc\<close>)
  then obtain m E' es where E': "processEvent_into os H (NewEvent n) (E, buf) = Ret m (E', es)"
    "engine_room os H B 304000 (insert (newOrderId n) (first_ids k)) (10 * k + unat (newQuantity n)) E'" "currentSequence E' = currentSequence E + 1" by blast
  have "engine_room os H B 304000 (first_ids (Suc k)) (10 * Suc k) E'"
    using room_more [OF E'(2), of "10 * Suc k"] o(4) first_ids(2) [of k] by (simp add: n_def del: of_nat_Suc)
  then have "engine_after os H B c (Suc k) E'" using a(1,3) E'(3) by (simp add: engine_after_def algebra_simps)
  with E'(1) show ?thesis by blast
qed

lemma engine_after_cancel:
  assumes "engine_after os H B c k E" and "i \<noteq> 0"
  shows "\<exists>xs E'. processEvent os H (CancelEvent \<lparr>cancelOrderId = i\<rparr>) E = Ret xs E' \<and> engine_after os H B c k E'"
proof -
  let ?ev = "CancelEvent \<lparr>cancelOrderId = i\<rparr>"
  let ?R = "processEvent_into os H ?ev (E, [])"
  have a: "engine_room os H B 304000 (first_ids k) (10 * k) E" using assms(1) by (simp add: engine_after_def)
  note o = room_other [OF a, of ?ev "[]"]
  obtain es where "reply_of ?R = Accepted es" using room_cancel_accepted [OF a, of "\<lparr>cancelOrderId = i\<rparr>" "[]"] assms(2) by (auto simp: valid_defs)
  then obtain m s where R: "?R = Ret m s" by (cases ?R) (auto simp: reply_of_def)
  then have "engine_after os H B c k (fst s)" using o assms(1) by (simp add: engine_after_def next_engine_def)
  with R show ?thesis by (simp add: processEvent_def by_value_def)
qed

text \<open>The calls of the program are events.\<close>

lemma order_is_event:
  "processOrder_into os H i pr q t sd ty (E, buf) =
     processEvent_into os H (NewEvent \<lparr>newOrderId = i, newPrice = pr, newQuantity = q, newTimestamp = t, newSide = sd, newType = ty\<rparr>) (E, buf)"
  by (simp add: processOrder_into_def processEvent_into_def)

lemma live_snoc: "micro_ok os H B c k st \<Longrightarrow> Suc k < SIZE_RANGE \<Longrightarrow>
    distinct (live st @ [word_of_nat (Suc k)]) \<and> (\<forall>i \<in> set (live st @ [word_of_nat (Suc k)]). i \<noteq> 0 \<and> unat i \<le> Suc k)"
proof -
  assume ok: "micro_ok os H B c k st" and "Suc k < SIZE_RANGE"
  then have "unat (word_of_nat (Suc k) :: u64) = Suc k" by (simp add: unat_of_nat SIZE_RANGE_def del: of_nat_Suc)
  with ok show ?thesis by (fastforce simp: micro_ok_def u64_eq_0_iff simp del: of_nat_Suc)
qed

lemma warmup_order_ok:
  assumes "micro_ok os H B c k st" and "unat c + Suc k < SIZE_RANGE" and "k < 304000" and "micro_order pr 10 sd"
  shows "\<exists>st'. warmup_order os H pr sd st = Ret () st' \<and> micro_ok os H B c (Suc k) st' \<and> micro_latency st' = micro_latency st"
proof -
  have m: "engine_after os H B c k (micro_engine st)" "nextOrderId st = word_of_nat (Suc k)" using assms(1) by (simp_all add: micro_ok_def)
  obtain m E' es where E': "processOrder_into os H (word_of_nat (Suc k)) pr 10 1 sd LIMIT (micro_engine st, []) = Ret m (E', es)"
    "engine_after os H B c (Suc k) E'"
    using engine_after_order [OF m(1) assms(2-4), of "[]"] unfolding order_is_event by blast
  let ?st = "st\<lparr>nextOrderId := word_of_nat (Suc k) + 1, micro_engine := E', live := live st @ [word_of_nat (Suc k)]\<rparr>"
  have "warmup_order os H pr sd st = Ret () ?st"
    using E'(1) by (simp add: warmup_order_def m(2) processOrder_def by_value_def)
  moreover have "micro_ok os H B c (Suc k) ?st" using live_snoc [OF assms(1)] assms(2) E'(2) by (simp add: micro_ok_def)
  ultimately show ?thesis by auto
qed

text \<open>How many samples there are, and that every timed call leaves one.\<close>

definition sample_count :: "micro \<Rightarrow> nat" where
  "sample_count st = (\<Sum>l \<leftarrow> [''NEW_REST'', ''NEW_CROSS'', ''CANCEL'', ''BEST'']. length (micro_latency st l))"

lemma sample_count_record:
  "l \<in> {''NEW_REST'', ''NEW_CROSS'', ''CANCEL'', ''BEST''} \<Longrightarrow> micro_latency st' = micro_latency st \<Longrightarrow>
     sample_count (micro_record l nanos st') = Suc (sample_count st)"
  by (auto simp: sample_count_def micro_record_def LatencyLog_record_def)

lemma timed_order_ok:
  assumes "micro_ok os H B c k st" and "unat c + Suc k < SIZE_RANGE" and "k < 304000" and "micro_order pr 1 sd"
    and "label \<in> {''NEW_REST'', ''NEW_CROSS'', ''CANCEL'', ''BEST''}"
  shows "\<exists>st'. timed_order os H nanos label keep pr sd st = Ret () st' \<and> micro_ok os H B c (Suc k) st' \<and> sample_count st' = Suc (sample_count st)"
proof -
  have m: "engine_after os H B c k (micro_engine st)" "nextOrderId st = word_of_nat (Suc k)" using assms(1) by (simp_all add: micro_ok_def)
  obtain m E' es where E': "processOrder_into os H (word_of_nat (Suc k)) pr 1 1 sd LIMIT (micro_engine st, micro_buffer st) = Ret m (E', es)"
    "engine_after os H B c (Suc k) E'"
    using engine_after_order [OF m(1) assms(2-4), of "micro_buffer st"] unfolding order_is_event by blast
  define st2 where "st2 = micro_record label nanos (st\<lparr>nextOrderId := word_of_nat (Suc k) + 1, micro_engine := E', micro_buffer := es\<rparr>)"
  define st3 where "st3 = (if keep then st2\<lparr>live := live st2 @ [word_of_nat (Suc k)]\<rparr> else st2)"
  have f: "micro_engine st2 = E'" "live st2 = live st" "nextOrderId st2 = word_of_nat (Suc (Suc k))" by (simp_all add: st2_def micro_record_def)
  have run: "timed_order os H nanos label keep pr sd st = Ret () st3"
    using E'(1) by (simp add: timed_order_def m(2) Let_def st2_def st3_def)
  have "sample_count st2 = Suc (sample_count st)" unfolding st2_def by (rule sample_count_record [OF assms(5)]) simp
  then have n: "sample_count st3 = Suc (sample_count st)" by (simp add: st3_def sample_count_def)
  have "live st3 = live st @ (if keep then [word_of_nat (Suc k)] else [])" "micro_engine st3 = E'" "nextOrderId st3 = word_of_nat (Suc (Suc k))"
    using f by (simp_all add: st3_def)
  with live_snoc [OF assms(1)] assms(1,2) E'(2) have "micro_ok os H B c (Suc k) st3" by (auto simp: micro_ok_def)
  with run n show ?thesis by blast
qed

lemma swap_remove:
  assumes "distinct xs" and "i < length xs"
  shows "distinct (butlast (xs[i := last xs]))" "set (butlast (xs[i := last xs])) \<subseteq> set xs"
proof -
  obtain ys y where xs: "xs = ys @ [y]" using assms(2) by (cases xs rule: rev_cases) auto
  have e: "butlast (xs[i := last xs]) = (if i = length ys then ys else ys[i := y])"
    using assms(2) by (auto simp: xs list_update_append)
  show "distinct (butlast (xs[i := last xs]))" unfolding e using assms(1) by (auto simp: xs intro: distinct_list_update)
  show "set (butlast (xs[i := last xs])) \<subseteq> set xs" unfolding e using set_update_subset_insert [of ys i y] by (auto simp: xs)
qed

lemma timed_round_ok:
  assumes "micro_ok os H B c k st" and "unat c + Suc k < SIZE_RANGE" and "k < 304000" and "draw_ok d"
  shows "\<exists>k' st'. k' \<le> Suc k \<and> timed_round os H nanos d st = Ret () st' \<and> micro_ok os H B c k' st' \<and> sample_count st' = Suc (sample_count st)"
proof -
  have pr: "micro_order (drawBid d) 1 BUY" "micro_order (drawAsk d) 1 SELL" "micro_order (2 * Levels) 1 BUY" "micro_order 1 1 SELL"
    using assms(4) by (auto simp: draw_ok_def micro_order_def Levels_def u64_le_iff)
  note t = timed_order_ok [OF assms(1-3)]
  consider "roll d < 55" | "\<not> roll d < 55" "roll d < 70" | "\<not> roll d < 70" "roll d < 95 \<and> live st \<noteq> []" | "\<not> roll d < 70" "\<not> (roll d < 95 \<and> live st \<noteq> [])"
    by linarith
  then show ?thesis
  proof cases
    case 1
    then show ?thesis using t [of "drawBid d" BUY "''NEW_REST''" nanos True] t [of "drawAsk d" SELL "''NEW_REST''" nanos True] pr(1,2)
      by (auto simp: timed_round_def Let_def)
  next
    case 2
    then show ?thesis using t [of "2 * Levels" BUY "''NEW_CROSS''" nanos False] t [of 1 SELL "''NEW_CROSS''" nanos False] pr(3,4)
      by (auto simp: timed_round_def Let_def)
  next
    case 3
    let ?i = "pick d (length (live st))"
    have i: "?i < length (live st)" using assms(4) 3 by (simp add: draw_ok_def)
    have a: "engine_after os H B c k (micro_engine st)" and l: "distinct (live st)" "\<forall>x \<in> set (live st). x \<noteq> 0 \<and> unat x \<le> k"
      using assms(1) by (simp_all add: micro_ok_def)
    obtain xs E' where E': "processEvent os H (CancelEvent \<lparr>cancelOrderId = live st ! ?i\<rparr>) (micro_engine st) = Ret xs E'" "engine_after os H B c k E'"
      using engine_after_cancel [OF a] l(2) nth_mem [OF i] by blast
    define ls where "ls = butlast ((live st)[?i := last (live st)])"
    let ?st = "micro_record ''CANCEL'' nanos (st\<lparr>live := ls, micro_engine := E'\<rparr>)"
    have "timed_round os H nanos d st = Ret () ?st" using 3 i E'(1) by (simp add: timed_round_def Let_def ls_def)
    moreover have "micro_ok os H B c k ?st"
      using swap_remove [OF l(1) i] l(2) E'(2) assms(1) by (auto simp: micro_ok_def micro_record_def ls_def)
    moreover have "sample_count ?st = Suc (sample_count st)" by (rule sample_count_record) simp_all
    ultimately show ?thesis by (intro exI [of _ k] exI [of _ ?st]) simp
  next
    case 4
    let ?st = "micro_record ''BEST'' nanos st"
    have "timed_round os H nanos d st = Ret () ?st" using 4 by (auto simp: timed_round_def Let_def)
    moreover have "micro_ok os H B c k ?st" using assms(1) by (simp add: micro_ok_def micro_record_def)
    moreover have "sample_count ?st = Suc (sample_count st)" by (rule sample_count_record) simp_all
    ultimately show ?thesis by (intro exI [of _ k] exI [of _ ?st]) simp
  qed
qed

lemma warmup_round_ok:
  assumes "micro_ok os H B c k st" and "unat c + Suc (Suc k) < SIZE_RANGE" and "Suc k < 304000" and "draw_ok d"
  shows "\<exists>st'. warmup_round os H d st = Ret () st' \<and> micro_ok os H B c (Suc (Suc k)) st' \<and> micro_latency st' = micro_latency st"
proof -
  have pr: "micro_order (drawBid d) 10 BUY" "micro_order (drawAsk d) 10 SELL"
    using assms(4) by (auto simp: draw_ok_def micro_order_def Levels_def u64_le_iff)
  have "unat c + Suc k < SIZE_RANGE" "k < 304000" using assms(2,3) by simp_all
  from warmup_order_ok [OF assms(1) this pr(1)] obtain s1 where
    s1: "warmup_order os H (drawBid d) BUY st = Ret () s1" "micro_ok os H B c (Suc k) s1" "micro_latency s1 = micro_latency st" by blast
  from warmup_order_ok [OF s1(2) assms(2,3) pr(2)] s1 show ?thesis by (auto simp: warmup_round_def)
qed

text \<open>A loop whose rounds use up at most \<open>m\<close> of a budget each and add \<open>w\<close> to a count.\<close>

lemma run_all_budget:
  assumes "\<And>p s k. p \<in> set ps \<Longrightarrow> I k s \<Longrightarrow> k + m \<le> K \<Longrightarrow> \<exists>k' s'. k' \<le> k + m \<and> f p s = Ret () s' \<and> I k' s' \<and> g s' = g s + (w :: nat)"
    and "I k s" and "k + m * length ps \<le> K"
  shows "\<exists>k' s'. k' \<le> k + m * length ps \<and> run_all f ps s = Ret () s' \<and> I k' s' \<and> g s' = g s + w * length ps"
  using assms
proof (induction ps arbitrary: k s)
  case (Cons p ps)
  have "k + m \<le> K" using Cons.prems(3) by simp
  with Cons.prems(1) [of p k s] Cons.prems(2) obtain k1 s1 where
    s1: "k1 \<le> k + m" "f p s = Ret () s1" "I k1 s1" "g s1 = g s + w" by auto
  have "\<exists>k' s'. k' \<le> k1 + m * length ps \<and> run_all f ps s1 = Ret () s' \<and> I k' s' \<and> g s' = g s1 + w * length ps"
    by (rule Cons.IH) (use Cons.prems s1 in auto)
  then obtain k2 s2 where s2: "k2 \<le> k1 + m * length ps" "run_all f ps s1 = Ret () s2" "I k2 s2" "g s2 = g s1 + w * length ps" by blast
  have "k2 \<le> k + m * length (p # ps)" "run_all f (p # ps) s = Ret () s2" "g s2 = g s + w * length (p # ps)" using s1 s2 by simp_all
  with s2(3) show ?case by blast
qed auto

lemma warmup_ok:
  assumes "micro_ok os H B c 0 st" and "unat c + 304000 < SIZE_RANGE" and "\<forall>d \<in> set ds. draw_ok d" and "length ds \<le> 2000"
  shows "\<exists>k st'. k \<le> 4000 \<and> run_all (warmup_round os H) ds st = Ret () st' \<and> micro_ok os H B c k st' \<and> sample_count st' = sample_count st"
proof -
  have "\<exists>k st'. k \<le> 0 + 2 * length ds \<and> run_all (warmup_round os H) ds st = Ret () st' \<and> micro_ok os H B c k st' \<and>
      sample_count st' = sample_count st + 0 * length ds"
  proof (rule run_all_budget [where K = 4000])
    fix d s k assume "d \<in> set ds" "micro_ok os H B c k s" "k + 2 \<le> 4000"
    with warmup_round_ok [of os H B c k s d] assms(2,3) obtain s' where
      "warmup_round os H d s = Ret () s'" "micro_ok os H B c (Suc (Suc k)) s'" "micro_latency s' = micro_latency s" by auto
    then show "\<exists>k' s'. k' \<le> k + 2 \<and> warmup_round os H d s = Ret () s' \<and> micro_ok os H B c k' s' \<and> sample_count s' = sample_count s + 0"
      by (intro exI [of _ "Suc (Suc k)"] exI [of _ s']) (simp add: sample_count_def)
  qed (use assms in simp_all)
  then obtain k st' where k: "k \<le> 2 * length ds" "run_all (warmup_round os H) ds st = Ret () st'" "micro_ok os H B c k st'"
    "sample_count st' = sample_count st" by auto
  then have "k \<le> 4000" using assms(4) by simp
  with k(2-4) show ?thesis by blast
qed

lemma timed_ok:
  assumes "micro_ok os H B c k st" and "k \<le> 4000" and "unat c + 304000 < SIZE_RANGE" and "\<forall>p \<in> set ts. draw_ok (snd p)" and "length ts \<le> 300000"
  shows "\<exists>k' st'. k' \<le> 304000 \<and> run_all (\<lambda>(nanos, d). timed_round os H nanos d) ts st = Ret () st' \<and> micro_ok os H B c k' st' \<and>
    sample_count st' = sample_count st + length ts"
proof -
  have "\<exists>k' st'. k' \<le> k + 1 * length ts \<and> run_all (\<lambda>(nanos, d). timed_round os H nanos d) ts st = Ret () st' \<and> micro_ok os H B c k' st' \<and>
      sample_count st' = sample_count st + 1 * length ts"
  proof (rule run_all_budget [where K = 304000])
    fix p s j assume p: "p \<in> set ts" "micro_ok os H B c j s" "j + 1 \<le> 304000"
    obtain nanos d where [simp]: "p = (nanos, d)" by (cases p)
    have "draw_ok d" using assms(4) p(1) by fastforce
    with timed_round_ok [OF p(2), of d nanos] p(3) assms(3) show "\<exists>k' s'. k' \<le> j + 1 \<and> (case p of (nanos, d) \<Rightarrow> timed_round os H nanos d) s = Ret () s' \<and>
        micro_ok os H B c k' s' \<and> sample_count s' = sample_count s + 1" by simp
  qed (use assms in simp_all)
  then obtain k' st' where k: "k' \<le> k + length ts" "run_all (\<lambda>(nanos, d). timed_round os H nanos d) ts st = Ret () st'" "micro_ok os H B c k' st'"
    "sample_count st' = sample_count st + length ts" by auto
  then have "k' \<le> 304000" using assms(2,5) by simp
  with k(2-4) show ?thesis by blast
qed

section \<open>Properties\<close>

text \<open>
  C31. The benchmark runs to its end: if the operating system grants the pages it reserves,
  then, whatever the generator draws within the ranges of its distributions, no call of the
  warm-up or of the timed mix throws. Every timed iteration leaves one latency sample, the
  book is in order at the end, the sequence counter has advanced once for every identifier
  handed out, and the list of live orders names no identifier twice and none not handed out.
\<close>
theorem micro_benchmark_completes:
  assumes "os_fresh os" and "\<forall>j < 372. page_granted os j" and "unat c + 304000 < SIZE_RANGE"
    and "\<forall>d \<in> set warmups \<union> snd ` set timeds. draw_ok d"
  shows "\<exists>st. micro_benchmark os H c warmups timeds = Inr (Ret () st) \<and> sample_count st = min (length timeds) TimedIterations \<and>
    spec_inv (view (micro_engine st)) \<and> currentSequence (micro_engine st) = c + (nextOrderId st - 1) \<and>
    distinct (live st) \<and> (\<forall>i \<in> set (live st). i < nextOrderId st)"
proof -
  let ?W = "take 2000 warmups" and ?T = "take 300000 timeds"
  obtain B where B: "OrderBook_new 1 1 4001 = Inr B" using micro_book by blast
  obtain B1 where B1: "reserveOrderCapacity os H 304000 B = Ret () B1" using micro_reserved [OF assms(1,2) B] by blast
  let ?s = "micro_start (MatchingEngine_new B1 c)"
  have "engine_room os H B 304000 {} 0 (MatchingEngine_new B1 c)" by (rule reserved_room [OF assms(1) B _ B1]) (simp_all add: SIZE_RANGE_def)
  then have ok0: "micro_ok os H B c 0 ?s"
    using B by (simp add: micro_ok_def engine_after_def micro_start_def first_ids(1) MatchingEngine_new_def)
  have "\<forall>d \<in> set ?W. draw_ok d" "\<forall>p \<in> set ?T. draw_ok (snd p)" using assms(4) by (auto dest!: in_set_takeD)
  note dr = this
  obtain k s1 where s1: "k \<le> 4000" "run_all (warmup_round os H) ?W ?s = Ret () s1" "micro_ok os H B c k s1" "sample_count s1 = sample_count ?s"
    using warmup_ok [OF ok0 assms(3) dr(1)] by auto
  obtain k' s2 where s2: "k' \<le> 304000" "run_all (\<lambda>(nanos, d). timed_round os H nanos d) ?T s1 = Ret () s2" "micro_ok os H B c k' s2"
    "sample_count s2 = sample_count s1 + length ?T"
    using timed_ok [OF s1(3,1) assms(3) dr(2)] by auto
  have "micro_benchmark os H c warmups timeds = Inr (Ret () s2)"
    using B B1 s1(2) s2(2) micro_constants by (simp add: micro_benchmark_def WarmupOrdersPerSide_def TimedIterations_def)
  moreover have "sample_count s2 = min (length timeds) TimedIterations"
    using s2(4) s1(4) by (simp add: sample_count_def micro_start_def TimedIterations_def)
  moreover have "unat (word_of_nat (Suc k') :: u64) = Suc k'" using s2(1) by (simp add: unat_of_nat del: of_nat_Suc)
  then have "i < word_of_nat (Suc k')" if "unat i \<le> k'" for i :: u64 using that by (simp add: u64_less_iff del: of_nat_Suc)
  moreover have "(word_of_nat (Suc k') :: u64) - 1 = word_of_nat k'" by simp
  ultimately show ?thesis using s2(3) engine_roomD(3) by (intro exI [of _ s2]) (auto simp: micro_ok_def engine_after_def simp del: of_nat_Suc)
qed

section \<open>Witnesses\<close>

text \<open>An operating system that grants 372 pages, each aligned and one page apart.\<close>

definition page_base :: "nat \<Rightarrow> nat" where
  "page_base j = 65536 * (2 * j + 1)"

definition many_pages_os :: os_env where
  "many_pages_os = \<lparr>sysconfPageSize = 4096, mmapResult = (\<lambda>j. if j < 372 then Some (word_of_nat (page_base j)) else None)\<rparr>"

lemma many_pages_os_fresh: "os_fresh many_pages_os"
proof -
  have u: "unat (word_of_nat (page_base j) :: u64) = page_base j" if "j < 372" for j
    using that unat_of_nat [where 'a = 64, of "page_base j"] by (simp add: page_base_def del: of_nat_mult of_nat_add)
  have lim: "0 < page_base j" "page_base j + 131072 \<le> SIZE_RANGE" if "j < 372" for j
    using that by (simp_all add: page_base_def SIZE_RANGE_def)
  have al: "unat (align_up (word_of_nat (page_base j))) = page_base j" if "j < 372" for j
  proof -
    let ?a = "word_of_nat (page_base j) :: u64"
    have b: "unat ?a + 131072 \<le> SIZE_RANGE" "0 < unat ?a" unfolding u [OF that] by (rule lim [OF that])+
    note o = align_up_ok [OF b]
    obtain x where x: "unat (align_up ?a) = 65536 * x" using o(1) by (auto simp: mod_eq_0_iff_dvd dvd_def)
    have y: "page_base j \<le> 65536 * x" "65536 * x \<le> page_base j + 65535" using o(2,3) by (simp_all only: x u [OF that])
    then have "2 * j + 1 \<le> x" "x < 2 * j + 2" by (simp_all add: page_base_def)
    then have "x = 2 * j + 1" by simp
    with x show ?thesis by (simp add: page_base_def)
  qed
  have "page_base i + 65536 \<le> page_base j" if "i < j" for i j using that by (simp add: page_base_def)
  then show ?thesis unfolding os_fresh_def many_pages_os_def
    using lim by (auto simp: u al split: if_splits)
qed

definition demo_draw :: draw where
  "demo_draw = \<lparr>roll = 10, drawBid = 5, drawAsk = 2005, pick = (\<lambda>_. 0)\<rparr>"

theorem micro_benchmark_completes_witness:
  "\<exists>st. micro_benchmark many_pages_os (\<lambda>k. k) 0 [demo_draw] [(7, demo_draw)] = Inr (Ret () st) \<and> sample_count st = 1"
proof -
  have "\<forall>j < 372. page_granted many_pages_os j" by (simp add: page_granted_def many_pages_os_def)
  moreover have "draw_ok demo_draw" by (simp add: draw_ok_def demo_draw_def Levels_def)
  ultimately show ?thesis
    using micro_benchmark_completes [OF many_pages_os_fresh, of 0 "[demo_draw]" "[(7, demo_draw)]" "\<lambda>k. k"]
    by (auto simp: SIZE_RANGE_def TimedIterations_def)
qed

end
