(* ===== verification/Tool_Reports.thy ===== *)
theory Tool_Reports
  imports Tool_Options Micro_Benchmark
begin

text \<open>
  What the tools print when they are done: the table of \<open>LatencyLog::report\<close> in the variants of
  \<open>benchmark_interchange.cpp\<close>, \<open>itch_replay.cpp\<close>, \<open>threaded_replay_benchmark.cpp\<close> and
  \<open>benchmark_main.cpp\<close>, and the closing text of each of the six programs. A reader that knows only
  lines, words and numbers recovers the figures; the property joins it to the run.
\<close>

section \<open>Model\<close>

text \<open>The conversion \<open>%-Ns\<close> of \<open>printf\<close>: at least \<open>N\<close> characters, filled up with blanks on the right.\<close>

definition fill_right :: "nat \<Rightarrow> string \<Rightarrow> string" where
  "fill_right w s = s @ replicate (w - length s) (CHR '' '')"

text \<open>
  A row of \<open>LatencyLog::report\<close>: the label and figures, each with its name, the width of its
  column and its value. The four tools print the same row with other widths, and the threaded
  one adds the minimum.
\<close>

type_synonym figure = "string \<times> nat \<times> nat"

definition figure_text :: "figure \<Rightarrow> string" where
  "figure_text f = (case f of (key, w, v) \<Rightarrow> '' '' @ key @ ''='' @ fill_right w (to_chars v))"

definition report_line :: "nat \<Rightarrow> figure list \<Rightarrow> string \<Rightarrow> string" where
  "report_line w fs label = ''  '' @ fill_right w label @ concat (map figure_text fs) @ '' (ns)'' @ [newline]"

definition percentile_figures :: "latency_row \<Rightarrow> figure list" where
  "percentile_figures r =
     [(''p50'', 6, unat (row_p50 r)), (''p90'', 6, unat (row_p90 r)), (''p99'', 6, unat (row_p99 r)),
      (''p99.9'', 6, unat (row_p999 r)), (''max'', 0, unat (row_max r))]"

definition micro_figures :: "u64 list \<Rightarrow> latency_row \<Rightarrow> figure list" where
  "micro_figures values r = (''n'', 8, row_n r) # percentile_figures r"

definition interchange_figures :: "u64 list \<Rightarrow> latency_row \<Rightarrow> figure list" where
  "interchange_figures values r = (''n'', 9, row_n r) # percentile_figures r"

definition threaded_figures :: "u64 list \<Rightarrow> latency_row \<Rightarrow> figure list" where
  "threaded_figures values r = (''n'', 9, row_n r) # (''min'', 6, unat (hd (sort values))) # percentile_figures r"

text \<open>The hash map is walked in an unspecified order: \<open>ls\<close> lists its labels.\<close>

definition report_text :: "nat \<Rightarrow> (u64 list \<Rightarrow> latency_row \<Rightarrow> figure list) \<Rightarrow> rank_fun \<Rightarrow> string list \<Rightarrow> latency_log \<Rightarrow> string" where
  "report_text w figures rank ls lg =
     concat (map (\<lambda>l. case LatencyLog_report rank (lg l) of
         None \<Rightarrow> []
       | Some r \<Rightarrow> report_line w (figures (lg l) r) l) ls)"

definition micro_report :: "rank_fun \<Rightarrow> string list \<Rightarrow> latency_log \<Rightarrow> string" where
  "micro_report = report_text 10 micro_figures"

definition interchange_report :: "rank_fun \<Rightarrow> string list \<Rightarrow> latency_log \<Rightarrow> string" where
  "interchange_report = report_text 10 interchange_figures"

definition replay_report :: "rank_fun \<Rightarrow> string list \<Rightarrow> latency_log \<Rightarrow> string" where
  "replay_report = report_text 8 interchange_figures"

definition threaded_report :: "rank_fun \<Rightarrow> string list \<Rightarrow> latency_log \<Rightarrow> string" where
  "threaded_report = report_text 10 threaded_figures"

text \<open>
  The counters per label, with what stands before each; then the closing texts. What \<open>printf\<close>
  makes of a double (\<open>ms\<close>, \<open>rate\<close>, \<open>gb\<close>) is a parameter.
\<close>

definition counts_text :: "string \<Rightarrow> string list \<Rightarrow> (string \<Rightarrow> u64) \<Rightarrow> string" where
  "counts_text gap ks counts = concat (map (\<lambda>l. gap @ l @ ''='' @ u64_text (counts l)) ks)"

definition interchange_closing :: "rank_fun \<Rightarrow> string \<Rightarrow> string \<Rightarrow> string list \<Rightarrow> string list \<Rightarrow> nat \<Rightarrow> bench \<Rightarrow> string" where
  "interchange_closing rank ms rate ks ls n st =
     ''benchmark_interchange: '' @ to_chars n @ '' events replayed over '' @ ms @ '' ms ('' @ rate @ '' events/sec), '' @
     u64_text (bench_errors st) @ '' errors'' @ [newline] @
     counts_text ''  '' ks (bench_counts st) @
     [newline, newline] @ ''latency by event type (matching engine dispatch only):'' @ [newline] @
     interchange_report rank ls (bench_latency st)"

definition threaded_closing :: "rank_fun \<Rightarrow> string \<Rightarrow> string \<Rightarrow> string list \<Rightarrow> nat \<Rightarrow> pipeline \<Rightarrow> string" where
  "threaded_closing rank ms rate ls n s =
     ''threaded_replay_benchmark: '' @ to_chars n @ '' events replayed over '' @ ms @ '' ms ('' @ rate @ '' events/sec, two threads), '' @
     u64_text (errorCount s) @ '' errors'' @ [newline] @ threaded_report rank ls (pipe_latency s)"

definition micro_closing :: "rank_fun \<Rightarrow> string \<Rightarrow> string \<Rightarrow> string list \<Rightarrow> micro \<Rightarrow> string" where
  "micro_closing rank ms rate ls st =
     ''benchmark_order_book: '' @ to_chars TimedIterations @ '' timed events over '' @ ms @ '' ms ('' @ rate @ '' events/sec)'' @ [newline] @
     micro_report rank ls (micro_latency st)"

definition replay_closing :: "rank_fun \<Rightarrow> string list \<Rightarrow> string list \<Rightarrow> replay \<Rightarrow> string" where
  "replay_closing rank ks ls st =
     [newline] @ ''replay complete'' @ [newline] @ ''  events replayed:'' @ counts_text '' '' ks (eventCounts st) @ [newline] @
     ''  REDUCE-to-full-cancel desyncs (X where cancelled >= live remaining): '' @ u64_text (reduceDesync st) @ [newline] @
     ''  REPLACE with no live old order (U with unknown old ref):            '' @ u64_text (replaceDesync st) @ [newline] @
     ''  resting levels remaining: bid='' @ to_chars (occupied (bids (book (replay_engine st)))) @ '' ask='' @
     to_chars (occupied (asks (book (replay_engine st)))) @ '' (nonzero is expected: this'' @ [newline] @
     ''  tool does not model resting orders consumed by non-displayed liquidity)'' @ [newline, newline] @
     ''latency by event type (matching engine dispatch only):'' @ [newline] @
     replay_report rank ls (replay_latency st)"

definition recorder_closing :: "recorder_options \<Rightarrow> feed \<Rightarrow> ladder_config \<Rightarrow> recorder \<Rightarrow> string" where
  "recorder_closing opt fd cfg st =
     ''snapshot_recorder: '' @ optInput opt @ [newline] @
     ''  events replayed '' @ to_chars (length (events fd)) @ '' ('' @ u64_text (rec_errors st) @ '' errors)'' @ [newline] @
     ''  frames written  '' @ u64_text (frames st) @ '' (every '' @ to_chars (frame_distance opt fd) @ '' events, depth '' @
     u64_text (optDepth opt) @ '')'' @ [newline] @
     ''  ladder          '' @ to_chars (ladderLevels cfg) @ '' levels, tick '' @ u64_text (optTick opt) @ [newline] @
     ''  output          '' @ optOutput opt @ [newline]"

text \<open>The size of the symbol table is the number of locate codes it has an entry for.\<close>

definition symbols_known :: "itch_state \<Rightarrow> nat" where
  "symbols_known st = length (filter (\<lambda>k. locateToSymbol st (word_of_nat k) \<noteq> None) [0..<2 ^ 16])"

definition itch_to_csv_closing :: "string \<Rightarrow> itch_cli \<Rightarrow> u64 \<Rightarrow> itch_state \<Rightarrow> bool \<Rightarrow> string" where
  "itch_to_csv_closing gb cli epochBase st truncated =
     ''itch_to_csv: '' @ cli_input cli @ '' ('' @ gb @ '' GB)'' @ [newline] @
     ''  session date   '' @ (if cli_date cli = [] then ''unknown'' else cli_date cli) @
     (if epochBase = 0 then '' (epoch_ns left blank)'' else []) @ [newline] @
     ''  symbols known  '' @ to_chars (symbols_known st) @ [newline] @
     ''  messages read  '' @ u64_text (messages st) @ [newline] @
     ''  rows written   '' @ u64_text (rows st) @ [newline] @
     (if truncated then ''  warning: input ends mid-message'' @ [newline] else [])"

section \<open>Reading a report\<close>

text \<open>What a reader makes of the text beside its lines: words, and figures in the form name, equals sign, number.\<close>

definition words_of :: "string \<Rightarrow> string list" where
  "words_of s = filter (\<lambda>w. w \<noteq> []) (pieces (CHR '' '') s)"

definition read_figure :: "string \<Rightarrow> string \<times> nat" where
  "read_figure w = (takeWhile (\<lambda>c. c \<noteq> CHR ''='') w, dec_value (tl (dropWhile (\<lambda>c. c \<noteq> CHR ''='') w)))"

definition read_row :: "string \<Rightarrow> string \<times> (string \<times> nat) list" where
  "read_row l = (hd (words_of l), map read_figure (butlast (tl (words_of l))))"

definition plain :: "string \<Rightarrow> bool" where
  "plain s \<longleftrightarrow> s \<noteq> [] \<and> list_all (\<lambda>c. c \<notin> {CHR '' '', newline, CHR ''=''}) s"

lemma words_split: "words_of (a @ CHR '' '' # b) = words_of a @ words_of b"
  by (simp add: words_of_def pieces_split)

lemma words_blank: "words_of (CHR '' '' # b) = words_of b"
  using words_split [of "[]" b] by (simp add: words_of_def)

lemma words_word: "a \<noteq> [] \<Longrightarrow> CHR '' '' \<notin> set a \<Longrightarrow> words_of a = [a]"
  by (simp add: words_of_def pieces_none)

lemma words_filled:
  assumes "a \<noteq> []" and "CHR '' '' \<notin> set a"
  shows "words_of (fill_right w a @ CHR '' '' # b) = a # words_of b"
proof -
  have blanks: "words_of (replicate k (CHR '' '') @ b) = words_of b" for k by (induction k) (simp_all add: words_blank)
  have eq: "fill_right w a @ CHR '' '' # b = a @ CHR '' '' # replicate (w - length a) (CHR '' '') @ b"
    by (simp add: fill_right_def replicate_app_Cons_same)
  show ?thesis by (simp only: eq words_split words_word [OF assms] blanks append_Cons append_Nil)
qed

lemma digits_plain: "plain (to_chars n)" "newline \<notin> set (to_chars n)" "CHR '' '' \<notin> set (to_chars n)" "CHR ''='' \<notin> set (to_chars n)"
  using to_chars_ne [of n] to_chars_digit [of _ n] by (force simp: plain_def list_all_iff is_digit_def)+

lemma plainD: "plain s \<Longrightarrow> s \<noteq> []" "plain s \<Longrightarrow> newline \<notin> set s" "plain s \<Longrightarrow> CHR '' '' \<notin> set s" "plain s \<Longrightarrow> CHR ''='' \<notin> set s"
  by (auto simp: plain_def list_all_iff)

lemma read_figure_text: "CHR ''='' \<notin> set k \<Longrightarrow> read_figure (k @ ''='' @ to_chars v) = (k, v)"
proof -
  assume a: "CHR ''='' \<notin> set k"
  have "takeWhile (\<lambda>c. c \<noteq> CHR ''='') (k @ CHR ''='' # to_chars v) = k" "dropWhile (\<lambda>c. c \<noteq> CHR ''='') (k @ CHR ''='' # to_chars v) = CHR ''='' # to_chars v"
    using a by (auto simp: takeWhile_append dropWhile_append)
  then show ?thesis by (simp add: read_figure_def dec_value_to_chars)
qed

lemma words_figures:
  assumes "\<forall>f \<in> set fs. plain (fst f)"
  shows "words_of (concat (map figure_text fs) @ CHR '' '' # b) = map (\<lambda>(k, w, v). k @ ''='' @ to_chars v) fs @ words_of b"
  using assms
proof (induction fs)
  case Nil
  then show ?case by (simp add: words_blank)
next
  case (Cons f fs)
  obtain k w v where f: "f = (k, w, v)" by (cases f)
  have k: "plain k" using Cons.prems f by simp
  have "fill_right w (to_chars v) = to_chars v @ replicate (w - length (to_chars v)) (CHR '' '')" by (simp add: fill_right_def)
  have ne: "k @ ''='' @ to_chars v \<noteq> []" "CHR '' '' \<notin> set (k @ ''='' @ to_chars v)" using plainD [OF k] digits_plain by auto
  have pd: "k @ ''='' @ fill_right w (to_chars v) = fill_right (w + length k + 1) (k @ ''='' @ to_chars v)" by (simp add: fill_right_def)
  obtain r where r: "concat (map figure_text fs) @ CHR '' '' # b = CHR '' '' # r"
    by (cases fs) (auto simp: figure_text_def split: prod.splits)
  have "words_of (concat (map figure_text (f # fs)) @ CHR '' '' # b) = words_of (CHR '' '' # fill_right (w + length k + 1) (k @ ''='' @ to_chars v) @ CHR '' '' # r)"
    using r pd by (simp add: f figure_text_def)
  also have "\<dots> = (k @ ''='' @ to_chars v) # words_of (CHR '' '' # r)" unfolding words_blank by (rule words_filled [OF ne])
  finally show ?case using Cons r by (simp add: f)
qed

lemma read_report_line:
  assumes "plain label" and "\<forall>f \<in> set fs. plain (fst f)"
  shows "lines_of (report_line w fs label @ b) = butlast (report_line w fs label) # lines_of b"
    and "read_row (butlast (report_line w fs label)) = (label, map (\<lambda>(k, w, v). (k, v)) fs)"
proof -
  define a where "a = ''  '' @ fill_right w label @ concat (map figure_text fs) @ '' (ns)''"
  have l: "report_line w fs label = a @ [newline]" by (simp add: report_line_def a_def)
  have "newline \<notin> set (figure_text f)" if "f \<in> set fs" for f
    using that assms(2) plainD(2) [of "fst f"] digits_plain by (cases f) (auto simp: figure_text_def fill_right_def split: if_splits)
  then have "newline \<notin> set a" using plainD [OF assms(1)] by (auto simp: a_def fill_right_def)
  then show "lines_of (report_line w fs label @ b) = butlast (report_line w fs label) # lines_of b"
    unfolding l using lines_of_line [of a b] by simp
  obtain r where r: "concat (map figure_text fs) @ '' (ns)'' = CHR '' '' # r" by (cases fs) (auto simp: figure_text_def split: prod.splits)
  have "words_of a = label # words_of (concat (map figure_text fs) @ CHR '' '' # ''(ns)'')"
    using words_filled [OF plainD(1,3) [OF assms(1)], of w r] r by (simp add: a_def words_blank)
  also have "\<dots> = label # map (\<lambda>(k, w, v). k @ ''='' @ to_chars v) fs @ [''(ns)'']"
    unfolding words_figures [OF assms(2)] by (simp add: words_word)
  finally have "words_of a = label # map (\<lambda>(k, w, v). k @ ''='' @ to_chars v) fs @ [''(ns)'']" .
  moreover have "read_figure (k @ ''='' @ to_chars v) = (k, v)" if "(k, w, v) \<in> set fs" for k w v
    using that assms(2) plainD(4) [of k] by (intro read_figure_text) force
  ultimately show "read_row (butlast (report_line w fs label)) = (label, map (\<lambda>(k, w, v). (k, v)) fs)"
    unfolding l by (auto simp: read_row_def)
qed


lemma figures_plain:
  "\<forall>f \<in> set (micro_figures values r). plain (fst f)" "\<forall>f \<in> set (interchange_figures values r). plain (fst f)"
  "\<forall>f \<in> set (threaded_figures values r). plain (fst f)"
  by (simp_all add: micro_figures_def interchange_figures_def threaded_figures_def percentile_figures_def plain_def)

definition row_of :: "(u64 list \<Rightarrow> latency_row \<Rightarrow> figure list) \<Rightarrow> rank_fun \<Rightarrow> u64 list \<Rightarrow> (string \<times> nat) list" where
  "row_of figures rank values = map (\<lambda>(k, w, v). (k, v)) (figures values (the (LatencyLog_report rank values)))"

lemma read_report:
  assumes "\<forall>l \<in> set ls. plain l" and "\<And>values r. \<forall>f \<in> set (figures values r). plain (fst f)"
  shows "map read_row (lines_of (report_text w figures rank ls lg)) = map (\<lambda>l. (l, row_of figures rank (lg l))) (filter (\<lambda>l. lg l \<noteq> []) ls)"
  using assms(1)
proof (induction ls)
  case (Cons l ls)
  show ?case
  proof (cases "LatencyLog_report rank (lg l)")
    case None
    then have "lg l = []" by (auto simp: LatencyLog_report_def Let_def split: if_splits)
    with Cons None show ?thesis by (simp add: report_text_def)
  next
    case (Some r)
    then have "lg l \<noteq> []" by (auto simp: LatencyLog_report_def)
    have "report_text w figures rank (l # ls) lg = report_line w (figures (lg l) r) l @ report_text w figures rank ls lg"
      by (simp add: report_text_def Some)
    with read_report_line [of l "figures (lg l) r"] Cons assms(2) Some \<open>lg l \<noteq> []\<close> show ?thesis by (simp add: row_of_def)
  qed
qed (simp add: report_text_def)

lemmas read_reports =
  read_report [where figures = micro_figures, OF _ figures_plain(1)]
  read_report [where figures = interchange_figures, OF _ figures_plain(2)]
  read_report [where figures = threaded_figures, OF _ figures_plain(3)]

text \<open>Words with single blanks between them.\<close>

fun unwords :: "string list \<Rightarrow> string" where
  "unwords [] = []"
| "unwords [w] = w"
| "unwords (w # v # ws) = w @ CHR '' '' # unwords (v # ws)"

lemma words_unwords: "\<forall>w \<in> set ws. w \<noteq> [] \<and> CHR '' '' \<notin> set w \<Longrightarrow> words_of (unwords ws) = ws"
  by (induction ws rule: unwords.induct) (simp_all add: words_split words_word, simp add: words_of_def)

text \<open>The counters of one line.\<close>

lemma words_append: "b = [] \<or> hd b = CHR '' '' \<Longrightarrow> words_of (a @ b) = words_of a @ words_of b"
  by (cases b) (auto simp: words_split words_blank, simp add: words_of_def)

lemma words_counts:
  assumes "\<forall>l \<in> set ks. plain l" and "0 < g"
  shows "map read_figure (words_of (counts_text (replicate g (CHR '' '')) ks counts)) = map (\<lambda>l. (l, unat (counts l))) ks \<and>
    newline \<notin> set (counts_text (replicate g (CHR '' '')) ks counts)"
  using assms(1)
proof (induction ks)
  case (Cons l ks)
  let ?gap = "replicate g (CHR '' '')" and ?w = "l @ ''='' @ u64_text (counts l)"
  have l: "plain l" using Cons.prems by simp
  have b: "words_of (replicate k (CHR '' '') @ b) = words_of b" for k b by (induction k) (simp_all add: words_blank)
  have t: "counts_text ?gap (l # ks) counts = ?gap @ ?w @ counts_text ?gap ks counts" by (simp add: counts_text_def)
  have "counts_text ?gap ks counts = [] \<or> hd (counts_text ?gap ks counts) = CHR '' ''"
    using assms(2) by (cases ks) (auto simp: counts_text_def hd_append)
  then have "words_of (?w @ counts_text ?gap ks counts) = words_of ?w @ words_of (counts_text ?gap ks counts)" by (rule words_append)
  moreover have "words_of ?w = [?w]" by (rule words_word) (use plainD [OF l] digits_plain in \<open>auto simp: u64_text_def\<close>)
  ultimately have "words_of (counts_text ?gap (l # ks) counts) = ?w # words_of (counts_text ?gap ks counts)" unfolding t b by simp
  moreover have "read_figure ?w = (l, unat (counts l))" unfolding u64_text_def by (rule read_figure_text) (rule plainD(4) [OF l])
  moreover have "newline \<notin> set ?w" using plainD [OF l] digits_plain by (auto simp: u64_text_def)
  ultimately show ?case using Cons t by auto
qed (simp add: counts_text_def words_of_def)

text \<open>The closing text of the interchange benchmark: its first line, the counters and the table.\<close>

definition read_closing :: "string \<Rightarrow> (nat \<times> nat) \<times> (string \<times> nat) list \<times> (string \<times> (string \<times> nat) list) list" where
  "read_closing out =
     (let ls = lines_of out; ws = words_of (ls ! 0) in
      ((dec_value (ws ! 1), dec_value (last (butlast ws))), map read_figure (words_of (ls ! 1)), map read_row (drop 4 ls)))"

lemma interchange_closing_read:
  assumes "\<forall>l \<in> set ks \<union> set ls. plain l" and "plain ms" and "plain rate"
  shows "read_closing (interchange_closing rank ms rate ks ls n st) =
    ((n, unat (bench_errors st)), map (\<lambda>l. (l, unat (bench_counts st l))) ks,
     map (\<lambda>l. (l, row_of interchange_figures rank (bench_latency st l))) (filter (\<lambda>l. bench_latency st l \<noteq> []) ls))"
proof -
  define a where "a = ''benchmark_interchange: '' @ to_chars n @ '' events replayed over '' @ ms @ '' ms ('' @ rate @ '' events/sec), '' @
     u64_text (bench_errors st) @ '' errors''"
  define b where "b = counts_text ''  '' ks (bench_counts st)"
  define h where "h = ''latency by event type (matching engine dispatch only):''"
  define r where "r = interchange_report rank ls (bench_latency st)"
  have counts: "map read_figure (words_of b) = map (\<lambda>l. (l, unat (bench_counts st l))) ks" "newline \<notin> set b"
    using words_counts [of ks 2 "bench_counts st"] assms(1) by (simp_all add: b_def numeral_2_eq_2)
  have rows: "map read_row (lines_of r) = map (\<lambda>l. (l, row_of interchange_figures rank (bench_latency st l))) (filter (\<lambda>l. bench_latency st l \<noteq> []) ls)"
    unfolding r_def interchange_report_def by (rule read_reports(2)) (use assms(1) in simp)
  have "newline \<notin> set a" "newline \<notin> set h"
    using plainD(2) [OF assms(2)] plainD(2) [OF assms(3)] digits_plain by (simp_all add: a_def h_def u64_text_def)
  then have "lines_of (a @ newline # b @ newline # [] @ newline # h @ newline # r) = a # b # [] # h # lines_of r"
    using counts(2) lines_of_line [of "[]"] by (simp add: lines_of_line)
  moreover have "interchange_closing rank ms rate ks ls n st = a @ newline # b @ newline # [] @ newline # h @ newline # r"
    by (simp add: interchange_closing_def a_def b_def h_def r_def)
  ultimately have lines: "lines_of (interchange_closing rank ms rate ks ls n st) = a # b # [] # h # lines_of r" by (simp only:)
  have "a = unwords [''benchmark_interchange:'', to_chars n, ''events'', ''replayed'', ''over'', ms, ''ms'', CHR ''('' # rate, ''events/sec),'',
      u64_text (bench_errors st), ''errors'']" (is "a = unwords ?ws")
    by (simp add: a_def)
  moreover have "\<forall>w \<in> set ?ws. w \<noteq> [] \<and> CHR '' '' \<notin> set w"
    using plainD [OF assms(2)] plainD [OF assms(3)] digits_plain to_chars_ne by (simp add: u64_text_def)
  ultimately have "words_of a = ?ws" by (simp only: words_unwords)
  then show ?thesis unfolding read_closing_def Let_def lines
    using counts(1) rows by (simp add: dec_value_to_chars u64_text_def)
qed


section \<open>Property\<close>

lemma labels_plain: "\<forall>l \<in> set labels. plain l" "distinct labels"
  by (simp_all add: labels_def plain_def)

lemma samples_label: "l \<notin> set labels \<Longrightarrow> samples clock l h = []"
proof -
  assume l: "l \<notin> set labels"
  have "turn_label t \<in> set labels" for t by (simp add: turn_label_def event_label_def labels_def split: event_kind.splits)
  with l have "turn_label t \<noteq> l" for t by metis
  then show "samples clock l h = []" by (simp add: samples_def case_prod_beta)
qed

text \<open>
  C14. From the command line to the printed report: for every readable file with a priced limit
  order and every nonzero tick written in decimal, away from the top of the 64-bit range, the
  benchmark runs to its end; its engine is in the state of the sequential run from an empty
  book, which is well formed and uncrossed. Read back word by word, what it prints then, in
  whatever order the hash maps are walked, names the number of events of the file; its
  counters are those of the labels that occur and with the number of errors add up to the
  events; and its table has exactly one row for each of these labels, of as many samples as the
  counter says, with the percentiles and the maximum of the samples recorded for it.
\<close>
theorem benchmark_command_line:
  fixes input
  defines "fd \<equiv> read_feed input"
  assumes "os_fresh os" and "fs f = Some input" and "f \<noteq> []" and "tick \<noteq> 0"
    and "\<exists>e \<in> set (events fd). quoting e" and "length (events fd) < 2 ^ 53"
    and "unat (feedMax fd) + unat (scaled ''20.0'' (feedMax fd - feedMin fd)) + 2 * unat tick < SIZE_RANGE"
    and "plain ms" and "plain rate"
  shows "\<exists>E st. interchange_engine os H (scaled ''20.0'') tick False c fd = Inr E \<and> view E = (\<lambda>_. [], c) \<and>
    interchange_benchmark_main os H scaled clock c fs [''--input'', f, ''--tick'', to_chars (unat tick)] = ToolDone st \<and>
    bench_engine st = snd (run (engine_exec os H) (map toOrderEvent (events fd)) E) \<and>
    book_ok os H (book (bench_engine st)) \<and> spec_inv (view (bench_engine st)) \<and>
    {l. bench_counts st l \<noteq> 0} \<subseteq> set labels \<and> {l. bench_latency st l \<noteq> []} = {l. bench_counts st l \<noteq> 0} \<and>
    (\<forall>ks ls. distinct ks \<and> set ks = {l. bench_counts st l \<noteq> 0} \<and> distinct ls \<and> set ls = {l. bench_latency st l \<noteq> []} \<longrightarrow>
       (\<exists>wrong counters table. read_closing (interchange_closing rank ms rate ks ls (length (events fd)) st) =
            ((length (events fd), wrong), counters, table) \<and>
          map fst counters = ks \<and> (\<Sum>(l, k)\<leftarrow>counters. k) + wrong = length (events fd) \<and>
          map fst table = ls \<and> (\<forall>(l, figures) \<in> set table. hd figures = (''n'', the (map_of counters l)) \<and>
             figures = row_of interchange_figures rank (bench_latency st l))))"
proof -
  note e = interchange_engine_exists [where scaled = "scaled ''20.0''", OF assms(5) assms(6,8) [unfolded fd_def], folded fd_def]
  obtain E where E: "interchange_engine os H (scaled ''20.0'') tick False c fd = Inr E" using e(1) by blast
  note sound = interchange_engine_sound [OF E assms(2,7)]
  let ?h = "trace os H E (events fd)"
  obtain st where st: "benchmark_interchange os H (scaled ''20.0'') clock tick c input = ToolDone st"
    "bench_engine st = snd (run (engine_exec os H) (map toOrderEvent (events fd)) E)"
    "\<And>l. bench_latency st l = samples clock l ?h" "\<And>l. unat (bench_counts st l) = length (samples clock l ?h)"
    "(\<Sum>l\<leftarrow>labels. unat (bench_counts st l)) + unat (bench_errors st) = length (events fd)"
    using benchmark_run [OF assms(2) e(2) [unfolded fd_def] assms(7) [unfolded fd_def] E [unfolded fd_def], of clock] unfolding fd_def by blast
  have "input \<noteq> []" using assms(6) by (auto simp: fd_def read_feed_def forEachLine_pieces feed_start_def)
  then have "interchange_benchmark_main os H scaled clock c fs [''--input'', f, ''--tick'', to_chars (unat tick)] = ToolDone st"
    using assms(3,4) st(1) unfolding interchange_benchmark_main_def parse_input_tick strtoull_to_chars by (simp add: MappedFile_def tool_default_def)
  moreover obtain rs where "run (engine_exec os H) (map toOrderEvent (events fd)) E = (rs, bench_engine st)"
    using st(2) by (metis prod.collapse)
  then have "book_ok os H (book (bench_engine st))" "spec_inv (view (bench_engine st))"
    using eng.run_path [of os H E] eng.run_inv [of os H E] sound assms(2) by blast+
  moreover have zero: "bench_counts st l = 0 \<longleftrightarrow> bench_latency st l = []" for l using st(3,4) [of l] by (simp add: u64_eq_0_iff)
  moreover have sub: "{l. bench_counts st l \<noteq> 0} \<subseteq> set labels" using zero st(3) samples_label by fastforce
  moreover have "\<exists>wrong counters table. read_closing (interchange_closing rank ms rate ks ls (length (events fd)) st) =
            ((length (events fd), wrong), counters, table) \<and>
          map fst counters = ks \<and> (\<Sum>(l, k)\<leftarrow>counters. k) + wrong = length (events fd) \<and>
          map fst table = ls \<and> (\<forall>(l, figures) \<in> set table. hd figures = (''n'', the (map_of counters l)) \<and>
             figures = row_of interchange_figures rank (bench_latency st l))"
    if w: "distinct ks" "set ks = {l. bench_counts st l \<noteq> 0}" "distinct ls" "set ls = {l. bench_latency st l \<noteq> []}" for ks ls
  proof -
    let ?cs = "map (\<lambda>l. (l, unat (bench_counts st l))) ks" and ?t = "map (\<lambda>l. (l, row_of interchange_figures rank (bench_latency st l))) ls"
    have "\<forall>l \<in> set ks \<union> set ls. plain l" using w sub zero labels_plain(1) by auto
    from interchange_closing_read [OF this assms(9,10)] w(4)
    have "read_closing (interchange_closing rank ms rate ks ls (length (events fd)) st) = ((length (events fd), unat (bench_errors st)), ?cs, ?t)"
      by (simp add: filter_id_conv)
    moreover have "(\<Sum>l\<leftarrow>ks. unat (bench_counts st l)) = (\<Sum>l\<leftarrow>labels. unat (bench_counts st l))"
      unfolding sum_list_distinct_conv_sum_set [OF w(1)] sum_list_distinct_conv_sum_set [OF labels_plain(2)]
      by (rule sum.mono_neutral_left) (use sub w(2) in auto)
    then have "(\<Sum>(l, k)\<leftarrow>?cs. k) + unat (bench_errors st) = length (events fd)" using st(5) by (simp add: comp_def)
    moreover have "hd (row_of interchange_figures rank (bench_latency st l)) = (''n'', the (map_of ?cs l))" if "l \<in> set ls" for l
    proof -
      have "map_of ?cs l = Some (unat (bench_counts st l))" using that w(2,4) zero by (simp add: map_of_map_restrict)
      then show ?thesis using that w(4) st(3,4) [of l] by (simp add: row_of_def interchange_figures_def LatencyLog_report_def Let_def)
    qed
    ultimately show ?thesis by (intro exI [of _ "unat (bench_errors st)"] exI [of _ ?cs] exI [of _ ?t]) (simp add: comp_def)
  qed
  ultimately show ?thesis using E sound(2) st(2) by (intro exI [of _ E] exI [of _ st]) simp
qed

theorem benchmark_command_line_witness:
  "\<exists>st ks ls wrong counters table.
    interchange_benchmark_main one_page_os (\<lambda>k. k) (\<lambda>_. fifth) (\<lambda>_. 5) 0 [''a.csv'' \<mapsto> demo_csv]
       [''--input'', ''a.csv'', ''--tick'', to_chars (unat (100 :: u64))] = ToolDone st \<and> spec_inv (view (bench_engine st)) \<and>
    read_closing (interchange_closing (\<lambda>p n. p * n div 1000) ''0.1'' ''20000'' ks ls 2 st) = ((2, wrong), counters, table) \<and>
    (\<Sum>(l, k)\<leftarrow>counters. k) + wrong = 2"
proof -
  have q: "\<exists>e \<in> set (events (read_feed demo_csv)). quoting e" by (simp add: demo_csv_feed demo_feed_def quoting_def)
  have b: "unat (feedMax (read_feed demo_csv)) + unat (fifth (feedMax (read_feed demo_csv) - feedMin (read_feed demo_csv))) +
      2 * unat (100 :: u64) < SIZE_RANGE" by (simp add: demo_csv_feed demo_feed_def SIZE_RANGE_def)
  have two: "length (events (read_feed demo_csv)) = 2" using demo_feed_facts(3) .
  have p: "plain ''0.1''" "plain ''20000''" by (simp_all add: plain_def)
  have "[''a.csv'' \<mapsto> demo_csv] ''a.csv'' = Some demo_csv" "''a.csv'' \<noteq> []" "(100 :: u64) \<noteq> 0" by simp_all
  from benchmark_command_line [where scaled = "\<lambda>_. fifth" and clock = "\<lambda>_. 5" and H = "\<lambda>k. k" and c = 0 and rank = "\<lambda>p n. p * n div 1000"
      and fs = "[''a.csv'' \<mapsto> demo_csv]" and f = "''a.csv''" and input = demo_csv, OF one_page_os_fresh this q demo_feed_facts(2) b p, unfolded two]
  obtain st where st: "interchange_benchmark_main one_page_os (\<lambda>k. k) (\<lambda>_. fifth) (\<lambda>_. 5) 0 [''a.csv'' \<mapsto> demo_csv]
       [''--input'', ''a.csv'', ''--tick'', to_chars (unat (100 :: u64))] = ToolDone st" "spec_inv (view (bench_engine st))"
    and l: "{l. bench_counts st l \<noteq> 0} \<subseteq> set labels" "{l. bench_latency st l \<noteq> []} = {l. bench_counts st l \<noteq> 0}"
    and walks: "\<forall>ks ls. distinct ks \<and> set ks = {l. bench_counts st l \<noteq> 0} \<and> distinct ls \<and> set ls = {l. bench_latency st l \<noteq> []} \<longrightarrow>
       (\<exists>wrong counters table. read_closing (interchange_closing (\<lambda>p n. p * n div 1000) ''0.1'' ''20000'' ks ls 2 st) = ((2, wrong), counters, table) \<and>
          map fst counters = ks \<and> (\<Sum>(l, k)\<leftarrow>counters. k) + wrong = 2 \<and> map fst table = ls \<and>
          (\<forall>(l, figures) \<in> set table. hd figures = (''n'', the (map_of counters l)) \<and>
             figures = row_of interchange_figures (\<lambda>p n. p * n div 1000) (bench_latency st l)))" by blast
  let ?ks = "filter (\<lambda>l. bench_counts st l \<noteq> 0) labels"
  have "distinct ?ks" "set ?ks = {l. bench_counts st l \<noteq> 0}" using labels_plain(2) l(1) by auto
  with walks [rule_format, of ?ks ?ks] l(2) obtain wrong counters table where
    "read_closing (interchange_closing (\<lambda>p n. p * n div 1000) ''0.1'' ''20000'' ?ks ?ks 2 st) = ((2, wrong), counters, table)"
    "(\<Sum>(l, k)\<leftarrow>counters. k) + wrong = 2" by blast
  with st show ?thesis by blast
qed

end
