(* ===== verification/Spsc_Memory.thy ===== *)
theory Spsc_Memory
  imports Spsc_Queue
begin

text \<open>
  The memory orders of \<open>SpscEventQueue\<close> (\<open>spsc_event_queue.hpp\<close>). The step relations of the
  queue say which cursor values a thread may read; here each run also carries what C++ says
  happens before what. A thread knows a number of accesses to the storage of either thread; a
  release store of a cursor hands that knowledge on and an acquire load that reads the store
  takes it over, while a relaxed access carries nothing. Two accesses to the same slot by
  different threads race when the later one does not know the earlier one. Race freedom of
  the source's orders makes the interleaved storage of the step relations a faithful picture
  of the machine, since C++ gives race-free programs no other behaviours.
\<close>


section \<open>Model\<close>

text \<open>
  The orders up to release and acquire. The sequentially consistent one is left out: it is
  stronger than both and hands on at least as much.
\<close>

datatype memory_order = Relaxed | Acquire | Release

text \<open>
  The orders of the four cursor accesses through which the threads communicate: each cursor is
  stored by its owner and loaded by the other side. A thread loads its own cursor relaxed,
  which reads its own last store and orders nothing new.
\<close>

record orders =
  tail_store :: memory_order
  tail_load :: memory_order
  head_store :: memory_order
  head_load :: memory_order

definition source_orders :: orders where
  "source_orders = \<lparr>tail_store = Release, tail_load = Acquire, head_store = Release, head_load = Acquire\<rparr>"

text \<open>
  A clock counts the accesses to the storage that happen before a point: those of the
  producer and those of the consumer.
\<close>

type_synonym clock = "nat \<times> nat"

definition join_clock :: "clock \<Rightarrow> clock \<Rightarrow> clock" where
  "join_clock a b = (max (fst a) (fst b), max (snd a) (snd b))"

text \<open>
  What happens before the next access of each thread; what each value of the cursors carries,
  by its position in the order of the stores; the last access of each thread to every slot,
  numbered per thread; and whether two accesses raced.
\<close>

record hb_state =
  prod_clock :: clock
  cons_clock :: clock
  tail_clocks :: "clock list"
  head_clocks :: "clock list"
  slot_clock :: "nat \<Rightarrow> clock"
  race :: bool

definition hb_start :: hb_state where
  "hb_start = \<lparr>prod_clock = (0, 0), cons_clock = (0, 0), tail_clocks = [(0, 0)], head_clocks = [(0, 0)],
     slot_clock = (\<lambda>_. (0, 0)), race = False\<rparr>"

text \<open>
  What a store hands on, and what a load takes over. Every store to a cursor starts a release
  sequence of its own: the owner stores plainly and nobody else does.
\<close>

definition stored :: "memory_order \<Rightarrow> clock \<Rightarrow> clock" where
  "stored mo c = (if mo = Release then c else (0, 0))"

definition loaded :: "memory_order \<Rightarrow> clock \<Rightarrow> clock \<Rightarrow> clock" where
  "loaded mo m c = (if mo = Acquire then join_clock c m else c)"

text \<open>
  An access to a slot. It races with an access of the other thread to the same slot that does
  not happen before it.
\<close>

definition produce_access :: "nat \<Rightarrow> hb_state \<Rightarrow> hb_state" where
  "produce_access i K =
     (let n = Suc (fst (prod_clock K)) in
      K\<lparr>race := race K \<or> snd (slot_clock K i) > snd (prod_clock K), prod_clock := (n, snd (prod_clock K)),
        slot_clock := (slot_clock K)(i := (n, snd (slot_clock K i)))\<rparr>)"

definition consume_access :: "nat \<Rightarrow> hb_state \<Rightarrow> hb_state" where
  "consume_access i K =
     (let n = Suc (snd (cons_clock K)) in
      K\<lparr>race := race K \<or> fst (slot_clock K i) > fst (cons_clock K), cons_clock := (fst (cons_clock K), n),
        slot_clock := (slot_clock K)(i := (fst (slot_clock K i), n))\<rparr>)"

text \<open>
  The effect of each step of the queue on the clocks. The steps not named touch the thread's
  own variables or load its own cursor.
\<close>

definition producer_effect :: "orders \<Rightarrow> nat \<Rightarrow> spsc_system \<Rightarrow> spsc_system \<Rightarrow> hb_state \<Rightarrow> hb_state" where
  "producer_effect ord cap s t K =
     (case producer s of
        PFull ev x \<Rightarrow> K\<lparr>prod_clock := loaded (head_load ord) (head_clocks K ! seen_head t) (prod_clock K)\<rparr>
      | PReady ev x \<Rightarrow> produce_access (slot_index cap x) K
      | PWritten ev x \<Rightarrow> K\<lparr>tail_clocks := tail_clocks K @ [stored (tail_store ord) (prod_clock K)]\<rparr>
      | _ \<Rightarrow> K)"

definition consumer_effect :: "orders \<Rightarrow> nat \<Rightarrow> spsc_system \<Rightarrow> spsc_system \<Rightarrow> hb_state \<Rightarrow> hb_state" where
  "consumer_effect ord cap s t K =
     (case consumer s of
        CEmpty h \<Rightarrow> K\<lparr>cons_clock := loaded (tail_load ord) (tail_clocks K ! seen_tail t) (cons_clock K)\<rparr>
      | CReady h \<Rightarrow> consume_access (slot_index cap h) K
      | CTaken h ev \<Rightarrow> K\<lparr>head_clocks := head_clocks K @ [stored (head_store ord) (cons_clock K)]\<rparr>
      | _ \<Rightarrow> K)"

text \<open>The runs of the queue together with their clocks.\<close>

inductive memory_reaches :: "orders \<Rightarrow> nat \<Rightarrow> spsc_system \<Rightarrow> hb_state \<Rightarrow> bool" for ord cap where
  memory_start: "memory_reaches ord cap spsc_start hb_start"
| memory_producer: "memory_reaches ord cap s K \<Longrightarrow> producer_step cap s t \<Longrightarrow> memory_reaches ord cap t (producer_effect ord cap s t K)"
| memory_consumer: "memory_reaches ord cap s K \<Longrightarrow> consumer_step cap s t \<Longrightarrow> memory_reaches ord cap t (consumer_effect ord cap s t K)"

section \<open>Lemmas\<close>

text \<open>The bookkeeping neither adds nor removes runs of the queue.\<close>

lemma memory_forget: "memory_reaches ord cap s K \<Longrightarrow> spsc_reaches cap s"
  by (induction rule: memory_reaches.induct) (auto intro: spsc_reaches.intros)

lemma memory_lift: "spsc_reaches cap s \<Longrightarrow> \<exists>K. memory_reaches ord cap s K"
  by (induction rule: spsc_reaches.induct) (blast intro: memory_reaches.intros)+

text \<open>How many events were constructed and how many taken.\<close>

definition constructed :: "spsc_system \<Rightarrow> nat" where
  "constructed s = length (pushed s) + length (written (producer s))"

definition consumed :: "spsc_system \<Rightarrow> nat" where
  "consumed s = live_from s"

lemma counts_bounds:
  assumes "spsc_inv cap s"
  shows "consumed s \<le> length (pushed s)" "length (popped s) \<le> consumed s" "length (pushed s) \<le> constructed s"
    "constructed s \<le> length (popped s) + cap"
proof -
  note D = spsc_invD [OF assms]
  show "consumed s \<le> length (pushed s)" using live_bounds(1) [OF assms] by (simp add: consumed_def)
  show "length (popped s) \<le> consumed s" "length (pushed s) \<le> constructed s" by (simp_all add: consumed_def live_from_def constructed_def)
  show "constructed s \<le> length (popped s) + cap" using D(1,4) by (cases "producer s") (auto simp: constructed_def cursors_ok_def)
qed

text \<open>
  The clocks in step with the queue, whatever the orders: a thread knows its own accesses, and
  the latest accesses to a slot are at positions of that slot.
\<close>

definition positions_of :: "nat \<Rightarrow> nat \<Rightarrow> nat \<Rightarrow> nat \<Rightarrow> bool" where
  "positions_of cap m i n \<longleftrightarrow>
     n \<le> m \<and> (n \<noteq> 0 \<longrightarrow> (n - 1) mod cap = i) \<and> (\<forall>j < m. j mod cap = i \<longrightarrow> j < n)"

definition within :: "nat \<Rightarrow> nat \<Rightarrow> clock \<Rightarrow> bool" where
  "within m n c \<longleftrightarrow> fst c \<le> m \<and> snd c \<le> n"

definition clocks_ok :: "nat \<Rightarrow> spsc_system \<Rightarrow> hb_state \<Rightarrow> bool" where
  "clocks_ok cap s K \<longleftrightarrow>
     fst (prod_clock K) = constructed s \<and> snd (cons_clock K) = consumed s \<and>
     length (tail_clocks K) = Suc (length (pushed s)) \<and> length (head_clocks K) = Suc (length (popped s)) \<and>
     fst (cons_clock K) \<le> constructed s \<and> snd (prod_clock K) \<le> consumed s \<and>
     list_all (within (constructed s) (consumed s)) (tail_clocks K @ head_clocks K) \<and>
     (\<forall>i < cap. positions_of cap (constructed s) i (fst (slot_clock K i)) \<and> positions_of cap (consumed s) i (snd (slot_clock K i)))"

lemma positions_Suc:
  "positions_of cap (Suc m) (m mod cap) (Suc m)"
  "positions_of cap m i n \<Longrightarrow> i \<noteq> m mod cap \<Longrightarrow> positions_of cap (Suc m) i n"
  by (auto simp: positions_of_def less_Suc_eq)

lemma within_mono: "list_all (within m n) cs \<Longrightarrow> m \<le> m' \<Longrightarrow> n \<le> n' \<Longrightarrow> list_all (within m' n') cs"
  by (auto simp: within_def list_all_iff intro: le_trans)

lemma within_nth: "list_all (within m n) cs \<Longrightarrow> length cs = Suc l \<Longrightarrow> k \<le> l \<Longrightarrow> fst (cs ! k) \<le> m \<and> snd (cs ! k) \<le> n"
  by (simp add: within_def list_all_length)

lemma within_loaded:
  "fst m \<le> a \<Longrightarrow> snd m \<le> b \<Longrightarrow> fst c = a \<Longrightarrow> snd c \<le> b \<Longrightarrow> fst (loaded mo m c) = a \<and> snd (loaded mo m c) \<le> b"
  "fst m \<le> a \<Longrightarrow> snd m \<le> b \<Longrightarrow> fst c \<le> a \<Longrightarrow> snd c = b \<Longrightarrow> fst (loaded mo m c) \<le> a \<and> snd (loaded mo m c) = b"
  by (auto simp: loaded_def join_clock_def)

lemma within_stored: "fst c \<le> m \<Longrightarrow> snd c \<le> n \<Longrightarrow> within m n (stored mo c)"
  by (simp add: within_def stored_def)

lemma clocks_ok_start: "clocks_ok cap spsc_start hb_start"
  by (simp add: clocks_ok_def spsc_start_def hb_start_def constructed_def consumed_def live_from_def positions_of_def within_def)

lemma clocks_okD:
  assumes "clocks_ok cap s K"
  shows "fst (prod_clock K) = constructed s" "snd (cons_clock K) = consumed s"
    "length (tail_clocks K) = Suc (length (pushed s))" "length (head_clocks K) = Suc (length (popped s))"
    "fst (cons_clock K) \<le> constructed s" "snd (prod_clock K) \<le> consumed s"
    "list_all (within (constructed s) (consumed s)) (tail_clocks K)" "list_all (within (constructed s) (consumed s)) (head_clocks K)"
    "i < cap \<Longrightarrow> positions_of cap (constructed s) i (fst (slot_clock K i))" "i < cap \<Longrightarrow> positions_of cap (consumed s) i (snd (slot_clock K i))"
  using assms by (simp_all add: clocks_ok_def)

lemma producer_clocks:
  assumes cap: "capacity_ok cap" and inv: "spsc_inv cap s" and ok: "clocks_ok cap s K" and st: "producer_step cap s t"
  shows "clocks_ok cap t (producer_effect ord cap s t K)"
proof -
  note inv' = producer_step_inv [OF cap inv st] and D = spsc_invD [OF inv] and C = clocks_okD [OF ok]
  show ?thesis using st
  proof (cases rule: producer_step.cases)
    case (construct ev x u q)
    have x: "slot_index cap x = length (pushed s) mod cap" using D(4) construct(2) slot_index_nat [OF cap] by simp
    have c: "constructed s = length (pushed s)" "constructed t = Suc (length (pushed s))" "consumed t = consumed s"
      "pushed t = pushed s" "popped t = popped s"
      using construct by (simp_all add: constructed_def consumed_def live_from_def)
    have "list_all (within (constructed t) (consumed t)) (tail_clocks K)" "list_all (within (constructed t) (consumed t)) (head_clocks K)"
      by (rule within_mono [OF C(7)]; simp add: c) (rule within_mono [OF C(8)]; simp add: c)
    with C x c show ?thesis unfolding clocks_ok_def producer_effect_def produce_access_def Let_def construct(2)
      by (auto simp: positions_Suc)
  next
    case (construct_broken ev x e q)
    then show ?thesis using spsc_invD(2) [OF inv'] by simp
  next
    case (refresh_head ev x k)
    have c: "constructed t = constructed s" "consumed t = consumed s" "pushed t = pushed s" "popped t = popped s" "seen_head t = k"
      using refresh_head by (simp_all add: constructed_def consumed_def live_from_def)
    from within_nth [OF C(8,4) refresh_head(4)]
    have "fst (loaded (head_load ord) (head_clocks K ! k) (prod_clock K)) = constructed s \<and> snd (loaded (head_load ord) (head_clocks K ! k) (prod_clock K)) \<le> consumed s"
      by (intro within_loaded(1)) (use C in simp_all)
    with C c show ?thesis unfolding clocks_ok_def producer_effect_def refresh_head(2) by simp
  next
    case (publish ev x)
    then show ?thesis using C within_stored [of "prod_clock K" "constructed s" "consumed s" "tail_store ord"]
      by (auto simp: clocks_ok_def producer_effect_def constructed_def consumed_def live_from_def)
  qed (use ok in \<open>auto simp: clocks_ok_def producer_effect_def constructed_def consumed_def live_from_def\<close>)
qed

lemma consumer_clocks:
  assumes cap: "capacity_ok cap" and inv: "spsc_inv cap s" and ok: "clocks_ok cap s K" and st: "consumer_step cap s t"
  shows "clocks_ok cap t (consumer_effect ord cap s t K)"
proof -
  note inv' = consumer_step_inv [OF cap inv st] and D = spsc_invD [OF inv] and C = clocks_okD [OF ok]
  show ?thesis using st
  proof (cases rule: consumer_step.cases)
    case (take_event h ev q)
    have x: "slot_index cap h = length (popped s) mod cap" using D(5) take_event(2) slot_index_nat [OF cap] by simp
    have c: "consumed s = length (popped s)" "consumed t = Suc (length (popped s))" "constructed t = constructed s"
      "pushed t = pushed s" "popped t = popped s"
      using take_event by (simp_all add: constructed_def consumed_def live_from_def)
    have "list_all (within (constructed t) (consumed t)) (tail_clocks K)" "list_all (within (constructed t) (consumed t)) (head_clocks K)"
      by (rule within_mono [OF C(7)]; simp add: c) (rule within_mono [OF C(8)]; simp add: c)
    with C x c show ?thesis unfolding clocks_ok_def consumer_effect_def consume_access_def Let_def take_event(2)
      by (auto simp: positions_Suc)
  next
    case (take_broken h e q)
    then show ?thesis using spsc_invD(2) [OF inv'] by simp
  next
    case (refresh_tail h k)
    have c: "constructed t = constructed s" "consumed t = consumed s" "pushed t = pushed s" "popped t = popped s" "seen_tail t = k"
      using refresh_tail by (simp_all add: constructed_def consumed_def live_from_def)
    from within_nth [OF C(7,3) refresh_tail(4)]
    have "fst (loaded (tail_load ord) (tail_clocks K ! k) (cons_clock K)) \<le> constructed s \<and> snd (loaded (tail_load ord) (tail_clocks K ! k) (cons_clock K)) = consumed s"
      by (intro within_loaded(2)) (use C in simp_all)
    with C c show ?thesis unfolding clocks_ok_def consumer_effect_def refresh_tail(2) by simp
  next
    case (release h ev)
    then show ?thesis using C within_stored [of "cons_clock K" "constructed s" "consumed s" "head_store ord"]
      by (auto simp: clocks_ok_def consumer_effect_def constructed_def consumed_def live_from_def)
  qed (use ok in \<open>auto simp: clocks_ok_def consumer_effect_def constructed_def consumed_def live_from_def\<close>)
qed

lemma memory_clocks:
  assumes "capacity_ok cap" and "memory_reaches ord cap s K"
  shows "spsc_inv cap s" "clocks_ok cap s K"
proof -
  show inv: "spsc_inv cap s" by (rule spsc_reaches_inv [OF assms(1) memory_forget [OF assms(2)]])
  show "clocks_ok cap s K" using assms(2)
  proof (induction rule: memory_reaches.induct)
    case (memory_producer s K t)
    then show ?case using producer_clocks [OF assms(1)] spsc_reaches_inv [OF assms(1) memory_forget] by blast
  next
    case (memory_consumer s K t)
    then show ?case using consumer_clocks [OF assms(1)] spsc_reaches_inv [OF assms(1) memory_forget] by blast
  qed (rule clocks_ok_start)
qed


subsection \<open>Accesses that are ordered\<close>

text \<open>
  A release store read by an acquire load orders the accesses: the store that made the cursor
  \<open>k\<close> carries the first \<open>k\<close> accesses of its thread, and a thread that saw it knows them.
\<close>

definition tail_synced :: "spsc_system \<Rightarrow> hb_state \<Rightarrow> bool" where
  "tail_synced s K \<longleftrightarrow> (\<forall>k \<le> length (pushed s). k \<le> fst (tail_clocks K ! k)) \<and> seen_tail s \<le> fst (cons_clock K)"

definition head_synced :: "spsc_system \<Rightarrow> hb_state \<Rightarrow> bool" where
  "head_synced s K \<longleftrightarrow> (\<forall>k \<le> length (popped s). k \<le> snd (head_clocks K ! k)) \<and> seen_head s \<le> snd (prod_clock K)"

lemma synced_start: "tail_synced spsc_start hb_start" "head_synced spsc_start hb_start"
  by (simp_all add: tail_synced_def head_synced_def spsc_start_def hb_start_def)

lemma producer_synced:
  assumes "clocks_ok cap s K" and "producer_step cap s t"
  shows "tail_store ord = Release \<Longrightarrow> tail_synced s K \<Longrightarrow> tail_synced t (producer_effect ord cap s t K)"
    and "head_load ord = Acquire \<Longrightarrow> head_synced s K \<Longrightarrow> head_synced t (producer_effect ord cap s t K)"
proof -
  note C = clocks_okD [OF assms(1)]
  show "tail_store ord = Release \<Longrightarrow> tail_synced s K \<Longrightarrow> tail_synced t (producer_effect ord cap s t K)"
    using assms(2) C(1,3) by (cases rule: producer_step.cases)
      (auto simp: tail_synced_def producer_effect_def produce_access_def Let_def stored_def nth_append constructed_def le_Suc_eq)
  show "head_load ord = Acquire \<Longrightarrow> head_synced s K \<Longrightarrow> head_synced t (producer_effect ord cap s t K)"
    using assms(2) by (cases rule: producer_step.cases)
      (auto simp: head_synced_def producer_effect_def produce_access_def Let_def loaded_def join_clock_def le_max_iff_disj)
qed

lemma consumer_synced:
  assumes "clocks_ok cap s K" and "consumer_step cap s t"
  shows "tail_load ord = Acquire \<Longrightarrow> tail_synced s K \<Longrightarrow> tail_synced t (consumer_effect ord cap s t K)"
    and "head_store ord = Release \<Longrightarrow> head_synced s K \<Longrightarrow> head_synced t (consumer_effect ord cap s t K)"
proof -
  note C = clocks_okD [OF assms(1)]
  show "tail_load ord = Acquire \<Longrightarrow> tail_synced s K \<Longrightarrow> tail_synced t (consumer_effect ord cap s t K)"
    using assms(2) by (cases rule: consumer_step.cases)
      (auto simp: tail_synced_def consumer_effect_def consume_access_def Let_def loaded_def join_clock_def le_max_iff_disj)
  show "head_store ord = Release \<Longrightarrow> head_synced s K \<Longrightarrow> head_synced t (consumer_effect ord cap s t K)"
    using assms(2) C(2,4) by (cases rule: consumer_step.cases)
      (auto simp: head_synced_def consumer_effect_def consume_access_def Let_def stored_def nth_append consumed_def live_from_def le_Suc_eq)
qed

text \<open>The last access to a slot before position \<open>p\<close> is one round of the ring back.\<close>

lemma positions_last:
  assumes "positions_of cap m (p mod cap) n" and "m \<le> p + cap" and "0 < cap"
  shows "n \<le> Suc p" and "m \<le> p \<Longrightarrow> n \<noteq> 0 \<Longrightarrow> n + cap \<le> Suc p"
proof -
  have n: "n \<le> m" "n \<noteq> 0 \<Longrightarrow> (n - 1) mod cap = p mod cap" using assms(1) by (auto simp: positions_of_def)
  have "n - 1 - p < cap" using n(1) assms(2,3) by linarith
  then show "n \<le> Suc p" using n mod_window [of p "n - 1" cap] by (cases "p < n - 1") auto
  show "n + cap \<le> Suc p" if "m \<le> p" "n \<noteq> 0"
  proof -
    have lt: "n - 1 < p" using n(1) that by linarith
    have "cap \<le> p - (n - 1)" using mod_window [OF lt] n(2) that(2) by (meson not_le)
    with lt that(2) show ?thesis by linarith
  qed
qed

lemma ready_positions:
  assumes "capacity_ok cap" and "spsc_inv cap s" and "clocks_ok cap s K"
  shows "consumer s = CReady h \<Longrightarrow> slot_index cap h = length (popped s) mod cap \<and> length (popped s) < seen_tail s \<and>
      fst (slot_clock K (slot_index cap h)) = Suc (length (popped s))"
    and "producer s = PReady ev x \<Longrightarrow> slot_index cap x = length (pushed s) mod cap \<and> length (pushed s) < seen_head s + cap \<and>
      snd (slot_clock K (slot_index cap x)) = Suc (length (pushed s)) - cap"
proof -
  note D = spsc_invD [OF assms(2)] and C = clocks_okD [OF assms(3)] and B = counts_bounds [OF assms(2)] and cap = capacity_bounds [OF assms(1)]
  let ?H = "length (popped s)" and ?T = "length (pushed s)"
  show "slot_index cap h = ?H mod cap \<and> ?H < seen_tail s \<and> fst (slot_clock K (slot_index cap h)) = Suc ?H" if c: "consumer s = CReady h"
  proof -
    have h: "slot_index cap h = ?H mod cap" "?H < seen_tail s" "seen_tail s \<le> ?T"
      using D(1,5) c by (auto simp: slot_index_nat [OF assms(1)] cursors_ok_def)
    have p: "positions_of cap (constructed s) (?H mod cap) (fst (slot_clock K (?H mod cap)))" by (rule C(9)) (use cap in simp)
    have "?H < fst (slot_clock K (?H mod cap))" using p h B(3) by (simp add: positions_of_def)
    with positions_last(1) [OF p B(4)] cap h show ?thesis by simp
  qed
  show "slot_index cap x = ?T mod cap \<and> ?T < seen_head s + cap \<and> snd (slot_clock K (slot_index cap x)) = Suc ?T - cap" if c: "producer s = PReady ev x"
  proof -
    have x: "slot_index cap x = ?T mod cap" "?T < seen_head s + cap" "seen_head s \<le> ?H"
      using D(1,4) c by (auto simp: slot_index_nat [OF assms(1)] cursors_ok_def)
    have p: "positions_of cap (consumed s) (?T mod cap) (snd (slot_clock K (?T mod cap)))" by (rule C(10)) (use cap in simp)
    have "snd (slot_clock K (?T mod cap)) = Suc ?T - cap"
    proof (cases "cap \<le> ?T")
      case True
      then have "(?T - cap) mod cap = ?T mod cap" by (simp add: le_mod_geq)
      moreover have "?T - cap < consumed s" using x True B(2) by linarith
      ultimately have "?T - cap < snd (slot_clock K (?T mod cap))" using p by (simp add: positions_of_def)
      with positions_last(2) [OF p _ _ B(1)] B(1) cap show ?thesis by fastforce
    next
      case False
      with positions_last(2) [OF p _ _ B(1)] B(1) cap show ?thesis by fastforce
    qed
    with x show ?thesis by simp
  qed
qed

lemma memory_no_race:
  assumes cap: "capacity_ok cap" and "memory_reaches source_orders cap s K"
  shows "\<not> race K \<and> tail_synced s K \<and> head_synced s K"
  using assms(2)
proof (induction rule: memory_reaches.induct)
  case memory_start
  then show ?case using synced_start by (simp add: hb_start_def)
next
  case (memory_producer s K t)
  note M = memory_clocks [OF cap memory_producer(1)]
  have "\<not> race (producer_effect source_orders cap s t K)"
    using memory_producer.IH ready_positions(2) [OF cap M]
    by (cases "producer s") (auto simp: producer_effect_def produce_access_def Let_def head_synced_def)
  with memory_producer.IH producer_synced [OF M(2) memory_producer(2), of source_orders] show ?case by (simp add: source_orders_def)
next
  case (memory_consumer s K t)
  note M = memory_clocks [OF cap memory_consumer(1)]
  have "\<not> race (consumer_effect source_orders cap s t K)"
    using memory_consumer.IH ready_positions(1) [OF cap M]
    by (cases "consumer s") (auto simp: consumer_effect_def consume_access_def Let_def tail_synced_def)
  with memory_consumer.IH consumer_synced [OF M(2) memory_consumer(2), of source_orders] show ?case by (simp add: source_orders_def)
qed


subsection \<open>Accesses that are not\<close>

text \<open>Without both halves of the pair a thread never learns of an access of the other.\<close>

lemma memory_unsynced_tail:
  assumes cap: "capacity_ok cap" and "memory_reaches ord cap s K" and no: "tail_store ord \<noteq> Release \<or> tail_load ord \<noteq> Acquire"
  shows "fst (cons_clock K) = 0"
proof -
  have "(tail_store ord \<noteq> Release \<longrightarrow> (\<forall>c \<in> set (tail_clocks K). fst c = 0)) \<and> fst (cons_clock K) = 0"
    using assms(2)
  proof (induction rule: memory_reaches.induct)
    case (memory_producer s K t)
    then show ?case by (cases "producer s") (auto simp: producer_effect_def produce_access_def Let_def stored_def)
  next
    case (memory_consumer s K t)
    note C = clocks_okD [OF memory_clocks(2) [OF cap memory_consumer(1)]]
    from memory_consumer(2) memory_consumer.IH no C(3) show ?case
      by (cases rule: consumer_step.cases) (auto simp: consumer_effect_def consume_access_def Let_def loaded_def join_clock_def)
  qed (simp add: hb_start_def)
  then show ?thesis ..
qed

lemma memory_unsynced_head:
  assumes cap: "capacity_ok cap" and "memory_reaches ord cap s K" and no: "head_store ord \<noteq> Release \<or> head_load ord \<noteq> Acquire"
  shows "snd (prod_clock K) = 0"
proof -
  have "(head_store ord \<noteq> Release \<longrightarrow> (\<forall>c \<in> set (head_clocks K). snd c = 0)) \<and> snd (prod_clock K) = 0"
    using assms(2)
  proof (induction rule: memory_reaches.induct)
    case (memory_consumer s K t)
    then show ?case by (cases "consumer s") (auto simp: consumer_effect_def consume_access_def Let_def stored_def)
  next
    case (memory_producer s K t)
    note C = clocks_okD [OF memory_clocks(2) [OF cap memory_producer(1)]]
    from memory_producer(2) memory_producer.IH no C(4) show ?case
      by (cases rule: producer_step.cases) (auto simp: producer_effect_def produce_access_def Let_def loaded_def join_clock_def)
  qed (simp add: hb_start_def)
  then show ?thesis ..
qed

text \<open>The first event taken, or the first slot used again, is then a race.\<close>

lemma reach_ready_pop:
  assumes cap: "capacity_ok cap" and "spsc_reaches cap s" and "consumer s = CIdle" and "length (popped s) < length (pushed s)"
  shows "\<exists>t h. spsc_reaches cap t \<and> consumer t = CReady h \<and> pushed t = pushed s \<and> popped t = popped s \<and> producer t = producer s"
proof -
  note D = spsc_invD [OF spsc_reaches_inv [OF assms(1,2)]]
  let ?h = "head_cursor (queue s)" and ?T = "length (pushed s)"
  let ?s1 = "s\<lparr>consumer := CLoaded ?h\<rparr>"
  have s1: "spsc_reaches cap ?s1" by (rule spsc_reaches.reach_consumer [OF assms(2) consumer_step.load_head [OF assms(3)]])
  show ?thesis
  proof (cases "?h = cached_tail (queue s)")
    case False
    have "consumer_step cap ?s1 (?s1\<lparr>consumer := CReady ?h\<rparr>)" by (rule consumer_step.has_event) (simp_all add: False)
    from spsc_reaches.reach_consumer [OF s1 this] show ?thesis by (intro exI conjI) (assumption, simp_all)
  next
    case True
    let ?s2 = "?s1\<lparr>consumer := CEmpty ?h\<rparr>"
    have "consumer_step cap ?s1 ?s2" by (rule consumer_step.looks_empty) (simp_all add: True)
    note s2 = spsc_reaches.reach_consumer [OF s1 this]
    have "?T - length (popped s) < SIZE_RANGE" using D(1) capacity_bounds [OF cap] by (auto simp: cursors_ok_def)
    then have "?h \<noteq> word_of_nat ?T" using cursor_eq [of "length (popped s)" ?T] assms(4) D(1) by (auto simp: cursors_ok_def)
    then have "consumer_step cap ?s2 (?s2\<lparr>queue := (queue ?s2)\<lparr>cached_tail := word_of_nat ?T\<rparr>, seen_tail := ?T, consumer := CReady ?h\<rparr>)"
      using consumer_step.refresh_tail [of ?s2 ?h ?T cap] D(1) by (simp add: cursors_ok_def)
    from spsc_reaches.reach_consumer [OF s2 this] show ?thesis by (intro exI conjI) (assumption, simp_all)
  qed
qed

lemma reach_ready_push:
  assumes cap: "capacity_ok cap" and "spsc_reaches cap s" and "producer s = PIdle" and "length (pushed s) < length (popped s) + cap"
  shows "\<exists>t x. spsc_reaches cap t \<and> producer t = PReady ev x \<and> pushed t = pushed s \<and> popped t = popped s \<and> consumer t = consumer s"
proof -
  note D = spsc_invD [OF spsc_reaches_inv [OF assms(1,2)]]
  let ?x = "tail_cursor (queue s)" and ?H = "length (popped s)"
  let ?s1 = "s\<lparr>producer := PLoaded ev ?x\<rparr>"
  have s1: "spsc_reaches cap ?s1" by (rule spsc_reaches.reach_producer [OF assms(2) producer_step.load_tail [OF assms(3)]])
  show ?thesis
  proof (cases "is_full cap ?x (cached_head (queue s))")
    case False
    have "producer_step cap ?s1 (?s1\<lparr>producer := PReady ev ?x\<rparr>)" by (rule producer_step.has_room) (simp_all add: False)
    from spsc_reaches.reach_producer [OF s1 this] show ?thesis by (intro exI conjI) (assumption, simp_all)
  next
    case True
    let ?s2 = "?s1\<lparr>producer := PFull ev ?x\<rparr>"
    have "producer_step cap ?s1 ?s2" by (rule producer_step.looks_full) (simp_all add: True)
    note s2 = spsc_reaches.reach_producer [OF s1 this]
    have "\<not> is_full cap ?x (word_of_nat ?H)"
      using is_full_nat [OF cap, of ?H "length (pushed s)"] assms(4) D(1) by (auto simp: cursors_ok_def)
    then have "producer_step cap ?s2 (?s2\<lparr>queue := (queue ?s2)\<lparr>cached_head := word_of_nat ?H\<rparr>, seen_head := ?H, producer := PReady ev ?x\<rparr>)"
      using producer_step.refresh_head [of ?s2 ev ?x ?H cap] D(1) by (simp add: cursors_ok_def)
    from spsc_reaches.reach_producer [OF s2 this] show ?thesis by (intro exI conjI) (assumption, simp_all)
  qed
qed

text \<open>From there each call completes.\<close>

lemma reach_push:
  assumes "capacity_ok cap" and "spsc_reaches cap s" and "producer s = PReady ev x"
  shows "\<exists>t. spsc_reaches cap t \<and> producer t = PIdle \<and> pushed t = pushed s @ [ev] \<and> popped t = popped s \<and> consumer t = consumer s"
proof -
  obtain t where t: "producer_step cap s t" using producer_enabled [OF spsc_reaches_inv [OF assms(1,2)]] ..
  note r = spsc_reaches.reach_producer [OF assms(2) t]
  have "\<not> broken t" by (rule spsc_invD(2) [OF spsc_reaches_inv [OF assms(1) r]])
  with t assms(3) have t': "producer t = PWritten ev x" "pushed t = pushed s" "popped t = popped s" "consumer t = consumer s"
    by (auto elim: producer_stepE)
  from spsc_reaches.reach_producer [OF r producer_step.publish [OF t'(1)]] t' show ?thesis by (intro exI conjI) (assumption, simp_all)
qed

lemma reach_pop:
  assumes "capacity_ok cap" and "spsc_reaches cap s" and "consumer s = CReady h"
  shows "\<exists>t ev. spsc_reaches cap t \<and> consumer t = CIdle \<and> popped t = popped s @ [ev] \<and> pushed t = pushed s \<and> producer t = producer s"
proof -
  obtain t where t: "consumer_step cap s t" using consumer_enabled [OF spsc_reaches_inv [OF assms(1,2)]] ..
  note r = spsc_reaches.reach_consumer [OF assms(2) t]
  have "\<not> broken t" by (rule spsc_invD(2) [OF spsc_reaches_inv [OF assms(1) r]])
  with t assms(3) obtain ev where t': "consumer t = CTaken h ev" "pushed t = pushed s" "popped t = popped s" "producer t = producer s"
    by (auto elim: consumer_stepE)
  from spsc_reaches.reach_consumer [OF r consumer_step.release [OF t'(1)]] t' show ?thesis by (intro exI conjI) (assumption, simp_all)
qed

lemma reach_filled:
  assumes "capacity_ok cap"
  shows "n \<le> cap \<Longrightarrow> \<exists>s. spsc_reaches cap s \<and> producer s = PIdle \<and> consumer s = CIdle \<and> popped s = [] \<and> length (pushed s) = n"
proof (induction n)
  case 0
  then show ?case using spsc_reaches.reach_start [of cap] by (intro exI [of _ spsc_start]) (simp add: spsc_start_def)
next
  case (Suc n)
  then obtain s where s: "spsc_reaches cap s" "producer s = PIdle" "consumer s = CIdle" "popped s = []" "length (pushed s) = n" by auto
  from s(4,5) Suc.prems have "length (pushed s) < length (popped s) + cap" by simp
  from reach_ready_push [OF assms s(1,2) this] obtain t ev x where
    t: "spsc_reaches cap t" "producer t = PReady ev x" "pushed t = pushed s" "popped t = popped s" "consumer t = consumer s" by blast
  from reach_push [OF assms t(1,2)] t s show ?case by auto
qed

lemma race_at_pop:
  assumes cap: "capacity_ok cap" and no: "tail_store ord \<noteq> Release \<or> tail_load ord \<noteq> Acquire"
  shows "\<exists>s K. memory_reaches ord cap s K \<and> race K"
proof -
  obtain s where s: "spsc_reaches cap s" "consumer s = CIdle" "popped s = []" "length (pushed s) = 1"
    using reach_filled [OF cap, of 1] cap by (auto simp: capacity_ok_def)
  obtain t h where t: "spsc_reaches cap t" "consumer t = CReady h" using reach_ready_pop [OF cap s(1,2)] s(3,4) by auto
  obtain K where K: "memory_reaches ord cap t K" using memory_lift [OF t(1)] ..
  note M = memory_clocks [OF cap K]
  obtain u where "consumer_step cap t u" using consumer_enabled [OF M(1)] ..
  from memory_consumer [OF K this] have "memory_reaches ord cap u (consumer_effect ord cap t u K)" .
  moreover have "0 < fst (slot_clock K (slot_index cap h))" using ready_positions(1) [OF cap M t(2)] by linarith
  then have "race (consumer_effect ord cap t u K)" using memory_unsynced_tail [OF cap K no]
    by (simp add: consumer_effect_def t(2) consume_access_def Let_def)
  ultimately show ?thesis by blast
qed

lemma race_at_push:
  assumes cap: "capacity_ok cap" and no: "head_store ord \<noteq> Release \<or> head_load ord \<noteq> Acquire"
  shows "\<exists>s K. memory_reaches ord cap s K \<and> race K"
proof -
  obtain s where s: "spsc_reaches cap s" "producer s = PIdle" "consumer s = CIdle" "popped s = []" "length (pushed s) = cap"
    using reach_filled [OF cap, of cap] by auto
  have "length (popped s) < length (pushed s)" using s(4,5) capacity_bounds [OF cap] by simp
  from reach_ready_pop [OF cap s(1,3) this] obtain t h where
    t: "spsc_reaches cap t" "consumer t = CReady h" "pushed t = pushed s" "popped t = popped s" "producer t = producer s" by blast
  from reach_pop [OF cap t(1,2)] t(3-5) s obtain u ev where
    u: "spsc_reaches cap u" "popped u = [ev]" "length (pushed u) = cap" "producer u = PIdle" by auto
  have "length (pushed u) < length (popped u) + cap" using u by simp
  from reach_ready_push [OF cap u(1,4) this, of ev] u(3) obtain v x where
    v: "spsc_reaches cap v" "producer v = PReady ev x" "length (pushed v) = cap" by auto
  obtain K where K: "memory_reaches ord cap v K" using memory_lift [OF v(1)] ..
  note M = memory_clocks [OF cap K]
  obtain w where "producer_step cap v w" using producer_enabled [OF M(1)] ..
  from memory_producer [OF K this] have "memory_reaches ord cap w (producer_effect ord cap v w K)" .
  moreover have "0 < snd (slot_clock K (slot_index cap x))" using ready_positions(2) [OF cap M v(2)] v(3) by linarith
  then have "race (producer_effect ord cap v w K)" using memory_unsynced_head [OF cap K no]
    by (simp add: producer_effect_def v(2) produce_access_def Let_def)
  ultimately show ?thesis by blast
qed

section \<open>Property\<close>

text \<open>
  C27. The memory orders of the queue are exactly right. Under the release and acquire rules
  of C++, whatever the orders of the four cursor accesses between the threads, the queue
  runs through the same states; with the orders of the source no access to a slot races
  with one of the other thread in any run, and with any other choice among relaxed, acquire
  and release some run has such a race, for every capacity: the source asks for exactly the
  synchronisation it needs, and none of the four orders can be weakened.
\<close>
theorem spsc_memory_orders:
  assumes "capacity_ok cap"
  shows "((\<forall>s K. memory_reaches ord cap s K \<longrightarrow> \<not> race K) \<longleftrightarrow> ord = source_orders) \<and>
    (\<forall>s. (\<exists>K. memory_reaches ord cap s K) \<longleftrightarrow> spsc_reaches cap s)"
proof -
  have "\<exists>s K. memory_reaches ord cap s K \<and> race K" if "ord \<noteq> source_orders"
  proof (cases "tail_store ord = Release \<and> tail_load ord = Acquire")
    case True
    with that have "head_store ord \<noteq> Release \<or> head_load ord \<noteq> Acquire" by (auto simp: source_orders_def)
    from race_at_push [OF assms this] show ?thesis .
  next
    case False
    then have "tail_store ord \<noteq> Release \<or> tail_load ord \<noteq> Acquire" by blast
    from race_at_pop [OF assms this] show ?thesis .
  qed
  with memory_no_race [OF assms] memory_forget memory_lift show ?thesis by metis
qed

theorem spsc_memory_orders_witness:
  "\<exists>s K. memory_reaches (source_orders\<lparr>head_store := Relaxed\<rparr>) 2 s K \<and> race K"
proof -
  have "capacity_ok 2" by (simp add: capacity_ok_def SIZE_RANGE_def)
  from spsc_memory_orders [OF this, of "source_orders\<lparr>head_store := Relaxed\<rparr>"] show ?thesis by (auto simp: source_orders_def)
qed

end
