(* ===== verification/Level_Totals.thy ===== *)
theory Level_Totals
  imports Engine_Capacity
begin

text \<open>
  What the totals of the levels say after trading. The matching loop sets the remaining
  quantity of a resting order to zero before it unlinks it, so unlinking has nothing left to
  subtract: however many orders an incoming order fills completely, no level total moves. A
  level emptied this way still carries the quantities of the orders that stood on it, which
  is the number a snapshot shows and the overflow check of \<open>PriceLevel::addOrder\<close> reads.
\<close>

section \<open>Calls that leave the totals alone\<close>

definition same_totals :: "order_book \<Rightarrow> order_book \<Rightarrow> bool" where
  "same_totals B B' \<longleftrightarrow> (\<forall>r. totalQuantity (level_of r B') = totalQuantity (level_of r B))"

lemma same_totals_refl [simp]: "same_totals B B"
  by (simp add: same_totals_def)

lemma same_totals_trans: "same_totals B B1 \<Longrightarrow> same_totals B1 B2 \<Longrightarrow> same_totals B B2"
  by (simp add: same_totals_def)

lemma same_totals_bind:
  assumes "same_totals B (state_of m)" and "\<And>x B1. m = Ret x B1 \<Longrightarrow> same_totals B1 (state_of (f x B1))"
  shows "same_totals B (state_of (bind_outcome m f))"
  using assms by (cases m) (auto simp: same_totals_def)

lemma same_totals_mem [simp]: "same_totals B (set_mem h B)"
  by (simp add: same_totals_def)

lemma same_totals_pool: "same_totals B (state_of (on_pool f B))"
  by (auto simp: on_pool_def same_totals_def split: outcome.splits)

lemma same_totals_index: "same_totals B (state_of (on_index f B))"
  by (auto simp: on_index_def same_totals_def split: outcome.splits)

lemma same_totals_ladder:
  assumes "levels (state_of (f (ladder_of d B))) = levels (ladder_of d B)"
  shows "same_totals B (state_of (on_ladder d f B))"
  using assms by (auto simp: on_ladder_def same_totals_def level_of_def split: outcome.splits)

lemma same_totals_unlink:
  assumes "level_rep (book_mem B) r (level_of r B) ps" and "p \<in> set ps" and "book_mem B p = Some ord" and "remainingQuantity ord = 0"
  shows "same_totals B (state_of (on_level r (PriceLevel_removeOrder r (Some p)) B))"
proof -
  from PriceLevel_removeOrder_ok [OF assms(1-3)] obtain l' h' where
    "PriceLevel_removeOrder r (Some p) (level_of r B, book_mem B) = Ret () (l', h')"
    "unat (totalQuantity l') = unat (totalQuantity (level_of r B)) - unat (remainingQuantity ord)" by metis
  then show ?thesis using assms(4)
    by (auto simp: on_level_def same_totals_def level_of_set_level word_unat_eq_iff split: outcome.splits prod.splits)
qed

text \<open>Removing an order whose remaining quantity is already zero.\<close>

lemma remove_same_totals:
  assumes "book_rep_ex X os H B Q" and "book_mem B p = Some ord" and "remainingQuantity ord = 0"
  shows "same_totals B (state_of (OrderBook_removeOrder H (Some p) B))"
proof -
  note D = book_repD [OF assms(1)]
  obtain d i where home: "i < levelCount (ladder_of d B)" "p \<in> set (Q d i)" "priceLevel ord = Some (d, i)"
    using levels_rep_home [OF D(4) assms(2)] by metis
  note un = same_totals_unlink [OF levels_repD(1) [OF D(4) home(1)] home(2) assms(2,3)]
  show ?thesis
    using assms(2) home(3) unfolding OrderBook_removeOrder_def
    by (auto intro!: same_totals_bind un same_totals_pool same_totals_index same_totals_ladder simp: marks_levels split: sum.splits)
qed

section \<open>The matching loop\<close>

lemma spec_match_length:
  assumes "spec_match P i q xs = (es, r, ys)"
  shows "length ys \<le> length xs"
  using assms by (induction rule: spec_match_induct) auto

text \<open>When the loop takes only whole orders, what it leaves is the rest of the side.\<close>

lemma match_loop_totals:
  assumes "book_ok os H (book E)" and "length (resting (opposite sd) (book E)) < n"
    and "spec_match (crosses sd ty pr) i q (resting (opposite sd) (book E)) = (es, r, ys)"
    and "resting (opposite sd) (book E) = xs @ ys"
  shows "same_totals (book E) (book (fst (state_of (match_loop H n i pr sd ty q (E, out)))))"
  using assms
proof (induction n arbitrary: E q es r xs out)
  case (Suc n)
  let ?d = "opposite sd" and ?B = "book E"
  obtain Q where rep: "book_rep os H ?B Q" using book_okE [OF Suc.prems(1)] .
  show ?case
  proof (cases "best (ladder_of ?d ?B)")
    case None
    with match_round_stop [of q sd E] show ?thesis by simp
  next
    case (Some k)
    obtain p ord qs where h: "k < levelCount (ladder_of ?d ?B)" "k < length (levels (ladder_of ?d ?B))"
      "headOrder (level_of (?d, k) ?B) = Some p" "book_mem ?B p = Some ord" "priceLevel ord = Some (?d, k)"
      "price ord = levelPrice (level_of (?d, k) ?B)" "good_order ?d ord" "side_ptrs ?d ?B Q = p # qs"
      by (rule head_order [OF rep Some])
    let ?tail = "map (order_at (book_mem ?B)) qs"
    have side: "resting ?d ?B = strip ord # ?tail" by (rule resting_Cons [OF rep h(8,4)])
    have rh: "round_head sd ?B k p ord" using Some h by (simp add: round_head_def)
    note sp = Suc.prems(3) [unfolded side]
    consider (stop) "q = 0 \<or> \<not> crosses sd ty pr (price ord)"
      | (full) "q \<noteq> 0" "crosses sd ty pr (price ord)" "remainingQuantity ord \<le> q"
      | (part) "q \<noteq> 0" "crosses sd ty pr (price ord)" "q < remainingQuantity ord" by force
    then show ?thesis
    proof cases
      case stop
      with match_round_stop [of q sd E] match_round_no_cross [OF rh] show ?thesis by (auto simp del: match_loop.simps)
    next
      case full
      let ?B1 = "set_mem ((book_mem ?B)(p \<mapsto> with_remaining 0 ord)) ?B"
      obtain B' Q' where B': "OrderBook_removeOrder H (Some p) ?B1 = Ret () B'" "book_rep os H B' Q'" "resting ?d B' = ?tail"
        by (rule fill_head [OF rep h(8,4)]) blast
      obtain es' where s': "spec_match (crosses sd ty pr) i (q - remainingQuantity ord) ?tail = (es', r, ys)"
        using sp full by (auto simp: min_absorb2 Let_def split: prod.splits)
      have "length ys \<le> length ?tail" using spec_match_length [OF s'] .
      then obtain zs where zs: "?tail = zs @ ys" using Suc.prems(4) side by (cases xs) auto
      have "same_totals ?B ?B1" by simp
      moreover have "same_totals ?B1 B'" using remove_same_totals [OF fill_in_place [OF rep h(4)], of p "with_remaining 0 ord"] B'(1) by simp
      moreover have "same_totals B' (book (fst (state_of (match_loop H n i pr sd ty (q - remainingQuantity ord) (E\<lparr>book := B'\<rparr>, out')))))" for out'
        using Suc.IH [of "E\<lparr>book := B'\<rparr>"] book_rep_ok [OF B'(2)] Suc.prems(2) side s' zs B'(3) by (simp del: match_loop.simps)
      ultimately show ?thesis using match_round_full [OF rh full(2) _ full(3) B'(1)] full(1)
        by (simp add: word_neq_0_conv same_totals_def del: match_loop.simps)
    next
      case part
      then have "ys = with_remaining (remainingQuantity ord - q) (strip ord) # ?tail"
        using sp less_imp_neq [OF part(3)] by (auto simp: min_absorb1 Let_def)
      with Suc.prems(4) side have "remainingQuantity ord - q = remainingQuantity ord" by (cases xs) (auto dest: arg_cong [of _ _ remainingQuantity])
      with part(1) show ?thesis by simp
    qed
  qed
qed simp

section \<open>The orders of a level\<close>

lemma concat_map_single:
  assumes "i < n" and "\<And>j. j < n \<Longrightarrow> j \<noteq> i \<Longrightarrow> f j = []"
  shows "concat (map f [0..<n]) = f i"
proof -
  have "[0..<n] = [0..<i] @ i # [Suc i..<n]" using assms(1) upt_add_eq_append [of 0 i "n - i"] by (simp add: upt_conv_Cons)
  moreover have "concat (map f [0..<i]) = []" "concat (map f [Suc i..<n]) = []" using assms by (auto intro!: concat_map_Nil)
  ultimately show ?thesis by (simp only: map_append list.map concat_append concat.simps append_Nil append_Nil2)
qed

text \<open>The orders resting at the price of a level are those of its queue, and its total covers them.\<close>

lemma level_orders:
  assumes rep: "book_rep os H B Q" and i: "i < levelCount (ladder_of d B)"
  defines "here \<equiv> filter (\<lambda>x. price x = levelPrice (level_of (d, i) B))"
  shows "here (resting d B) = map (order_at (book_mem B)) (Q d i)"
    and "total (here (resting d B)) \<le> unat (totalQuantity (level_of (d, i) B))"
    and "PriceLevel_isEmpty (level_of (d, i) B) \<longleftrightarrow> here (resting d B) = []"
proof -
  note D = book_repD [OF rep [unfolded book_rep_def]]
  let ?at = "order_at (book_mem B)" and ?pr = "\<lambda>j. levelPrice (level_of (d, j) B)"
  have pr: "price (?at p) = ?pr j" if "j < levelCount (ladder_of d B)" "p \<in> set (Q d j)" for j p
    by (rule queue_price [OF D(4) that])
  have ne: "?pr j \<noteq> ?pr i" if "j < levelCount (ladder_of d B)" "j \<noteq> i" for j
    using level_price_better [OF D(3), of i j d] level_price_better [OF D(3), of j i d] that i by (cases d; cases "i < j") auto
  have eq: "here (map ?at (Q d j)) = (if j = i then map ?at (Q d i) else [])" if "j < levelCount (ladder_of d B)" for j
    using pr [OF that] ne [OF that] unfolding here_def by (auto simp: filter_empty_conv intro!: filter_True)
  have "here (resting d B) = concat (map (\<lambda>j. here (map ?at (Q d j))) [0..<levelCount (ladder_of d B)])"
    unfolding resting_ptrs [OF rep] side_ptrs_def here_def by (simp add: map_concat filter_concat comp_def)
  also have "\<dots> = here (map ?at (Q d i))" using i eq by (intro concat_map_single) auto
  finally show here_eq: "here (resting d B) = map ?at (Q d i)" using eq [OF i] by simp
  note lr = levels_repD(1) [OF D(4) i]
  have "rem_of (book_mem B) p = unat (remainingQuantity (?at p))" if "p \<in> set (Q d i)" for p
    using levels_repD(2) [OF D(4) i that] by (auto simp: order_at_Some rem_of_def)
  then have "total (here (resting d B)) = sum_list (map (rem_of (book_mem B)) (Q d i))"
    unfolding here_eq total_def map_map by (intro arg_cong [of _ _ sum_list] map_cong) simp_all
  then show "total (here (resting d B)) \<le> unat (totalQuantity (level_of (d, i) B))" using level_rep_sum [OF lr] by simp
  show "PriceLevel_isEmpty (level_of (d, i) B) \<longleftrightarrow> here (resting d B) = []"
    using PriceLevel_isEmpty_rep [OF lr] here_eq by simp
qed

lemma same_level_price:
  assumes "book_rep os H B Q" and "book_rep os H B' Q'" and "same_grids B B'" and "i < levelCount (ladder_of d B')"
  shows "levelPrice (level_of (d, i) B') = levelPrice (level_of (d, i) B)"
proof -
  note D = book_repD(3) [OF assms(1) [unfolded book_rep_def]] and D' = book_repD(3) [OF assms(2) [unfolded book_rep_def]]
  have "grid_eq (ladder_of d B) (ladder_of d B')" using assms(3) by (simp add: same_grids_def)
  then show ?thesis using level_price_at [OF D, of i d] level_price_at [OF D' assms(4)] assms(4)
    by (simp add: grid_eq_def price_at_def)
qed

section \<open>Properties\<close>

text \<open>
  C34. Complete fills never lower the total of a level. Whenever the engine accepts a new
  order that takes only whole resting orders and leaves nothing to rest, the total of every
  level of the book is the one it had before, although the filled orders are gone from the
  book: the total of each level still covers them beside the orders that stay, and a level
  that has become empty keeps the quantity of all it held.
\<close>
theorem filled_level_total_leaks:
  assumes "book_ok os H (book E)" and "\<not> refuses (NewEvent n) (view E)"
    and "matched n (\<lambda>d. resting d (book E)) = (es, r, ys)" and "r = 0 \<or> newType n \<noteq> LIMIT"
    and "resting (opposite (newSide n)) (book E) = xs @ ys"
  shows "\<exists>E'. processEvent_into os H (NewEvent n) (E, b) = Ret (length es) (E', es) \<and>
    resting (opposite (newSide n)) (book E') = ys \<and>
    (\<forall>l. totalQuantity (level_of l (book E')) = totalQuantity (level_of l (book E))) \<and>
    (\<forall>i < levelCount (ladder_of (opposite (newSide n)) (book E)).
       let l = level_of (opposite (newSide n), i) (book E'); at_level = filter (\<lambda>x. price x = levelPrice l)
       in levelPrice l = levelPrice (level_of (opposite (newSide n), i) (book E)) \<and>
          total (at_level xs) + total (at_level ys) \<le> unat (totalQuantity l) \<and>
          (PriceLevel_isEmpty l \<longleftrightarrow> at_level ys = []))"
proof -
  let ?d = "opposite (newSide n)" and ?E = "E\<lparr>currentSequence := currentSequence E + 1\<rparr>"
  have m: "matched n (fst (view E)) = (es, r, ys)" using assms(3) by (simp add: view_def)
  obtain E' where E': "match_new os H n (E, []) = Ret () (E', es)" "book_ok os H (book E')"
    "view E' = ((fst (view E))(?d := ys), currentSequence E + 1)" "same_grids (book E) (book E')"
    "match_loop H (liveOrderCount (orderPool (book E)) + 2) (newOrderId n) (newPrice n) (newSide n) (newType n) (newQuantity n)
      (?E, []) = Ret r (E', es)"
    by (rule matchOrder_accepted [OF assms(1,2) m, of "[]"]) (use assms(4) in \<open>auto simp del: match_loop.simps split: if_splits\<close>)
  have sm: "spec_match (crosses (newSide n) (newType n) (newPrice n)) (newOrderId n) (newQuantity n) (resting ?d (book ?E)) = (es, r, ys)"
    using assms(3) by (simp add: matched_def)
  have "length (resting ?d (book ?E)) < liveOrderCount (orderPool (book E)) + 2" "book_ok os H (book ?E)" "resting ?d (book ?E) = xs @ ys"
    using resting_length [OF assms(1), of ?d] assms(1,5) by simp_all
  from match_loop_totals [OF this(2,1) sm this(3), of "[]"] have st: "same_totals (book E) (book E')"
    unfolding E'(5) by simp
  have run: "processEvent_into os H (NewEvent n) (E, b) = Ret (length es) (E', es)" using E'(1) by (simp add: processEvent_into_def)
  have ys: "resting ?d (book E') = ys" using arg_cong [OF E'(3), of "\<lambda>v. fst v ?d"] by (simp add: view_def)
  obtain Q Q' where rep: "book_rep os H (book E) Q" "book_rep os H (book E') Q'" using book_okE [OF assms(1)] book_okE [OF E'(2)] by metis
  let ?l = "\<lambda>i. level_of (?d, i) (book E')"
  have lv: "levelPrice (?l i) = levelPrice (level_of (?d, i) (book E))"
    "total (filter (\<lambda>x. price x = levelPrice (?l i)) xs) + total (filter (\<lambda>x. price x = levelPrice (?l i)) ys) \<le> unat (totalQuantity (?l i))"
    "PriceLevel_isEmpty (?l i) \<longleftrightarrow> filter (\<lambda>x. price x = levelPrice (?l i)) ys = []"
    if i: "i < levelCount (ladder_of ?d (book E))" for i
  proof -
    have i': "i < levelCount (ladder_of ?d (book E'))" using i same_grids_count [OF E'(4)] by simp
    show pr: "levelPrice (?l i) = levelPrice (level_of (?d, i) (book E))" by (rule same_level_price [OF rep E'(4) i'])
    show "total (filter (\<lambda>x. price x = levelPrice (?l i)) xs) + total (filter (\<lambda>x. price x = levelPrice (?l i)) ys) \<le> unat (totalQuantity (?l i))"
      using level_orders(2) [OF rep(1) i] st assms(5) pr by (simp add: same_totals_def total_def)
    show "PriceLevel_isEmpty (?l i) \<longleftrightarrow> filter (\<lambda>x. price x = levelPrice (?l i)) ys = []"
      using level_orders(3) [OF rep(2) i'] ys by simp
  qed
  show ?thesis using run ys st lv by (intro exI [of _ E']) (simp add: Let_def same_totals_def)
qed

section \<open>Witnesses\<close>

text \<open>An order for the whole quantity of the one resting order: the level is empty and still shows ten.\<close>

theorem filled_level_total_leaks_witness:
  "\<exists>E' es i. processEvent_into one_page_os (\<lambda>k. k) (NewEvent (demo_buy 2 101 10)) (demo_engine, []) = Ret 1 (E', es) \<and>
     resting Asks (book E') = [] \<and> PriceLevel_isEmpty (level_of (Asks, i) (book E')) \<and>
     levelPrice (level_of (Asks, i) (book E')) = 101 \<and> 10 \<le> unat (totalQuantity (level_of (Asks, i) (book E')))"
proof -
  let ?n = "demo_buy 2 101 10"
  have n: "newSide ?n = BUY" "newType ?n = LIMIT" "newPrice ?n = 101" "newQuantity ?n = 10" by (simp_all add: demo_buy_def)
  have "resting Asks (book demo_engine) = [demo_order]" using demo_engine_ok(2) by (simp add: view_def fun_eq_iff)
  then have asks: "resting (opposite (newSide ?n)) (book demo_engine) = [demo_order] @ []" by (simp add: n)
  then obtain es where m: "matched ?n (\<lambda>d. resting d (book demo_engine)) = (es, 0, [])" "length es = 1"
    by (simp add: matched_def n demo_order_sel)
  obtain Q where rep: "book_rep one_page_os (\<lambda>k. k) (book demo_engine) Q" using book_okE [OF demo_engine_ok(1)] .
  note D = book_repD [OF rep [unfolded book_rep_def]]
  have side: "map (order_at (book_mem (book demo_engine))) (side_ptrs Asks (book demo_engine) Q) = [demo_order]"
    using resting_ptrs [OF rep, of Asks] asks by (simp add: n)
  then obtain p where p: "p \<in> set (side_ptrs Asks (book demo_engine) Q)" "order_at (book_mem (book demo_engine)) p = demo_order" by auto
  obtain i where i: "i < levelCount (ladder_of Asks (book demo_engine))" "p \<in> set (Q Asks i)" using side_ptrs_mem [OF D(4) p(1)] by metis
  have "levelPrice (level_of (Asks, i) (book demo_engine)) = 101" using queue_price [OF D(4) i] p(2) by (simp add: demo_order_sel)
  moreover note filled_level_total_leaks [OF demo_engine_ok(1) demo_buy_ok [of 2 101 10] m(1) _ asks, of "[]"]
  ultimately show ?thesis using i(1) m(2) by (fastforce simp: n Let_def demo_order_sel total_def)
qed

end
