(* ===== verification/Spec2Isabelle.thy ===== *)
theory Spec2Isabelle
  imports Tool_Reports Spsc_Memory Level_Totals
begin

text \<open>
  Verification of leka, a limit order book with a matching engine, a single-producer
  single-consumer event queue, and tools that convert and replay Nasdaq ITCH sessions.

  \<^bold>\<open>The program.\<close> Events (new, cancel, reduce) enter \<open>MatchingEngine\<close>. A new order is
  matched against the opposite side of \<open>OrderBook\<close>, best price first and oldest order first
  within a price, and the rest of a limit order is inserted. The book owns two \<open>PriceLadder\<close>s
  (arrays of \<open>PriceLevel\<close>s with an occupancy bitmap and a cached best index), an
  \<open>OrderIndex\<close> (open addressing, identifier to order pointer) and an \<open>OrderPool\<close> (page-aligned
  slabs with in-page free lists); a level is an intrusive doubly linked FIFO of orders.
  \<open>SpscEventQueue\<close> hands events from one thread to another. \<open>itch_to_csv\<close> decodes the wire
  format to rows and \<open>itch_replay\<close> replays such rows through a book sized for them. Three tools
  replay the interchange format: \<open>benchmark_interchange\<close> times every event,
  \<open>threaded_replay_benchmark\<close> puts a feed-handler thread in front of the queue, and
  \<open>snapshot_recorder\<close> writes the book, counters and trades as lines of JSON.

  \<^bold>\<open>Theories, in the order they build on each other.\<close>
  \<^item> \<open>Leka_Prelude\<close>: \<open>u64\<close> and \<open>size_t\<close>, errors as values, outcomes (\<open>Ret\<close> with a value,
    \<open>Throw\<close> with an error, both with the state, since state changed before an exception stays
    changed), doubly linked segments, collections of simplification rules.
  \<^item> \<open>Order_Model\<close> (\<open>types/*\<close>, \<open>order/*\<close>, \<open>execution\<close>, the generators): wrapper classes as
    64-bit words with their validity tests, orders as records with explicit links.
  \<^item> \<open>Price_Level\<close>, \<open>Price_Ladder\<close>, \<open>Order_Index\<close>, \<open>Order_Pool\<close> (the classes of the same
    names): state as a record, one definition per member function. Each ends with the
    correctness of the data structure: the FIFO as a list with exact count and total over any
    calls (locale \<open>fifo_level\<close>), the bitmap as a set with its
    minimum, the hash table as a finite map, the pool as a heap that never hands out a live
    slot.
  \<^item> \<open>Order_Book\<close> (\<open>order_book.cpp\<close>): the composed operations, with the rollback of a failed
    insertion, and the representation invariant across the four structures.
  \<^item> \<open>Book_Spec\<close>: the reference book, two lists of orders in priority order; every book
    operation refines its reference operation (locale \<open>refined_service\<close>).
  \<^item> \<open>Book_Snapshot\<close>: what \<open>captureSnapshot\<close> shows, against the runs of equal prices in the
    reference book.
  \<^item> \<open>Matching_Engine\<close> (\<open>matching_engine.cpp\<close>): dispatch and the matching loop; the loop
    computes the reference matching.
  \<^item> \<open>Engine_Spec\<close>: the reference engine as a step relation, the simulation (locale
    \<open>simulation\<close>), the market invariant, and the properties of the engine.
  \<^item> \<open>Engine_Capacity\<close>: what each call adds to the pages of the pool and the totals of the levels;
    an engine with reserved capacity takes a whole stream of orders. \<open>Level_Totals\<close>: complete
    fills leave every level total where it was, so an emptied level still shows a quantity.
  \<^item> \<open>Spsc_Queue\<close> (\<open>spsc_event_queue.hpp\<close>): the sequential calls, and the same calls split into
    their accesses to shared memory as two step relations. \<open>Spsc_Memory\<close>: the runs of these
    relations with the happens-before order of C++; the memory orders of the source are the only
    ones without a data race.
  \<^item> \<open>Text_Format\<close>, \<open>Itch_Options\<close>, \<open>Itch_Decoder\<close> (\<open>itch_to_csv.cpp\<close>): decimal text, rows and
    lines; arguments and dates; wire readers, formatters and the conversion loop.
  \<^item> \<open>Itch_Replay\<close> (\<open>itch_replay.cpp\<close>): both passes of the replay on top of the engine.
    \<open>Itch_Pipeline\<close>: converter and replay together, the rows of a whole session.
  \<^item> \<open>Interchange_Feed\<close>: the row parser and the rounded ladder the three interchange tools share
    (the same text in each), and the engine on a book of that size.
  \<^item> \<open>Threaded_Replay\<close> (\<open>threaded_replay_benchmark.cpp\<close>): the two threads as a step relation over
    the queue and the engine.
  \<^item> \<open>Replay_Loop\<close>: the history of a sequential run and the interface of a loop that keeps books
    on the engine's replies (locale \<open>engine_loop\<close>).
  \<^item> \<open>Latency_Stats\<close> (\<open>LatencyLog\<close>, \<open>RollingLatency\<close>) and \<open>Interchange_Benchmark\<close>
    (\<open>benchmark_interchange.cpp\<close>): samples, counters and percentiles; the loop as an instance of
    \<open>engine_loop\<close>.
  \<^item> \<open>Json_Text\<close>: JSON values, their text and a strict reader that inverts it on strings without
    control characters; the reference for \<open>Snapshot_Recorder\<close> (\<open>snapshot_recorder.cpp\<close>), the second
    instance of \<open>engine_loop\<close>: the file as one text, whose lines after the header are the texts of
    the frames that the history determines; a label with a newline breaks the header line.
  \<^item> \<open>Tool_Options\<close>: the command lines of the five tools and their \<open>main\<close> functions.
  \<^item> \<open>Micro_Benchmark\<close> (\<open>benchmarks/benchmark_main.cpp\<close>): the pseudo-random workload on one
    engine, which runs to its end without an exception once the reservation is granted.
  \<^item> \<open>Tool_Reports\<close>: the reports of the six programs as text, and a reader that recovers their
    figures; for the interchange benchmark from the command line to the printed table.

  \<^bold>\<open>Correspondence.\<close> A pointer to an order is an address in the memory of the pool, a pointer
  to a level is a side with an index. A read of a dead order, an index out of range and a read
  past a span are the error \<open>UndefinedBehaviour\<close> (or \<open>None\<close> in the decoder), never a default
  value; a loop that does not end within its bound is the error \<open>Diverges\<close>. The theorems show
  that neither occurs from well-formed states. Exceptions are the other errors.

  \<^bold>\<open>Bounds.\<close> Probe and shift loops of the index get the length of the table as fuel, enough
  because an empty slot always exists; the doubling in \<open>reserve\<close> gets 65 rounds, after which a
  64-bit capacity has become zero and stays zero; the matching loop gets two rounds more than
  there are live orders, and every round but the last removes an order or ends the loop. All
  other recursions are structural or have a termination proof.

  \<^bold>\<open>Parameters.\<close> The hash function of the index; \<open>sysconf\<close> and \<open>mmap\<close> (\<open>os_fresh\<close>: a mapping
  is not at zero, fits the address space and does not overlap an aligned page in use);
  \<open>mktime\<close>; the product of span and headroom percentage and the rank of a percentile, computed in
  double precision; the order in which a hash map is walked; every reading of the clock;
  the text \<open>printf\<close> makes of a double; the draws of the random generator; the contents of
  files and whether an output file can be opened.

  \<^bold>\<open>Not modelled.\<close> Failing allocation of vectors (\<open>bad_alloc\<close>), cache-line placement; usage
  texts and the messages printed before a run. The source files of the command line and server
  applications, the market data module and the utility headers are empty.
\<close>

end
